(* ===== verification/Srs_Prelude.thy ===== *)
theory Srs_Prelude
  imports Main "HOL-Library.Word" "HOL-Library.Sublist" "HOL-Library.Signed_Division"
begin

section \<open>Shared types, automation and lemmas\<close>

text \<open>
  What every component theory shares.  Conventions of the whole development:

  \<^item> A failed \<open>srs_assert\<close> (the build is a debug build, so \<open>assert\<close> is active), a
    \<open>std::out_of_range\<close> or \<open>std::length_error\<close>, an access to memory that is not allocated and a division by zero
    are values of the type \<open>fault\<close>; an operation that can end this way returns \<open>fault + 'a\<close>.
  \<^item> \<open>srs_error_t\<close> results are ordinary values (a pointer, \<open>None\<close> for \<open>srs_success\<close>).
  \<^item> Unsigned arithmetic and narrowing conversions wrap (\<open>'w word\<close>, or \<open>int32\<close> for the
    cast to \<open>int\<close>).  Signed arithmetic is done in \<open>int\<close>: signed overflow is undefined in
    C++, so the model speaks about the executions that have none.
\<close>

subsection \<open>Faults\<close>

datatype fault = Assert_failed | Out_of_range | Length_error | Bad_access | Div_by_zero

type_synonym 'a outcome = "fault + 'a"

definition srs_assert :: "bool \<Rightarrow> unit outcome" where
  "srs_assert b = (if b then Inr () else Inl Assert_failed)"

definition rbind :: "'a outcome \<Rightarrow> ('a \<Rightarrow> 'b outcome) \<Rightarrow> 'b outcome" where
  "rbind m f = (case m of Inl e \<Rightarrow> Inl e | Inr x \<Rightarrow> f x)"

lemma rbind_simps [simp]:
  "rbind (Inl e) f = Inl e"
  "rbind (Inr x) f = f x"
  by (simp_all add: rbind_def)

lemma rbind_eq_Inr [simp]: "rbind m f = Inr y \<longleftrightarrow> (\<exists>x. m = Inr x \<and> f x = Inr y)"
  by (cases m) auto

lemma srs_assert_simps [simp]:
  "srs_assert True = Inr ()"
  "srs_assert False = Inl Assert_failed"
  by (simp_all add: srs_assert_def)

lemma srs_assert_eq_Inr [simp]: "srs_assert b = Inr u \<longleftrightarrow> b"
  by (simp add: srs_assert_def)

subsection \<open>C integers\<close>

type_synonym byte = "8 word"
type_synonym u32 = "32 word"

text \<open>The conversion of a wider signed value to the 32-bit \<open>int\<close>.\<close>

definition int32 :: "int \<Rightarrow> int" where
  "int32 k = signed_take_bit 31 k"

lemma int32_id [simp]: "- (2 ^ 31) \<le> k \<Longrightarrow> k < 2 ^ 31 \<Longrightarrow> int32 k = k"
  by (simp add: int32_def signed_take_bit_int_eq_self)

text \<open>C's remainder truncates towards zero; it vanishes exactly on the multiples.\<close>

lemma smod_eq_0_iff_dvd [simp]: "(a :: int) smod b = 0 \<longleftrightarrow> b dvd a"
proof -
  have "a smod b = sgn a * (\<bar>a\<bar> mod \<bar>b\<bar>)"
    by (simp add: signed_modulo_int_def)
  also have "\<dots> = 0 \<longleftrightarrow> b dvd a"
    by (auto simp: sgn_if dvd_eq_mod_eq_0 [symmetric])
  finally show ?thesis .
qed

subsection \<open>Lists\<close>

lemma take_nth_drop_Cons: "i < length xs \<Longrightarrow> take i xs @ xs ! i # drop (Suc i) xs = xs"
  by (metis id_take_nth_drop)

end
