(* ===== verification/Srs_Text.thy ===== *)
theory Srs_Text
  imports Srs_Prelude "HOL-Library.Char_ord" "HOL-Library.List_Lexorder"
begin

section \<open>Text: what the C and C++ libraries do with characters\<close>

text \<open>
  \<open>std::string\<close> values are lists of 8-bit characters.  This theory holds the few library
  routines the sources use on them: C strings (which end at the first NUL), the truncation of
  \<open>snprintf\<close>, decimal output of integers and \<open>atoi\<close>, and \<open>std::string::compare\<close>.
\<close>

subsection \<open>C strings and bounded formatting\<close>

abbreviation NUL :: char where "NUL \<equiv> CHR 0x00"
abbreviation LF :: char where "LF \<equiv> CHR 0x0A"
abbreviation CR :: char where "CR \<equiv> CHR 0x0D"
abbreviation TAB :: char where "TAB \<equiv> CHR 0x09"

definition c_str :: "string \<Rightarrow> string" where
  "c_str s = takeWhile (\<lambda>c. c \<noteq> NUL) s"

lemma c_str_id [simp]: "NUL \<notin> set s \<Longrightarrow> c_str s = s"
  by (auto simp: c_str_def takeWhile_eq_all_conv)

lemma NUL_c_str [simp]: "NUL \<notin> set (c_str s)"
  by (auto simp: c_str_def dest: set_takeWhileD)

lemma c_str_idem [simp]: "c_str (c_str s) = c_str s"
  by simp

text \<open>What \<open>snprintf(buf, n, ...)\<close> leaves in \<open>buf\<close> for the text \<open>s\<close>, with \<open>n > 0\<close>.\<close>

definition snprintf_text :: "nat \<Rightarrow> string \<Rightarrow> string" where
  "snprintf_text n s = c_str (take (n - 1) s)"

lemma length_snprintf_text: "0 < n \<Longrightarrow> length (snprintf_text n s) < n"
proof -
  assume "0 < n"
  have "length (snprintf_text n s) \<le> length (take (n - 1) s)"
    unfolding snprintf_text_def c_str_def by (rule length_takeWhile_le)
  also have "\<dots> < n" using \<open>0 < n\<close> by (cases n) simp_all
  finally show ?thesis .
qed

lemma snprintf_text_short [simp]:
  "length s < n \<Longrightarrow> NUL \<notin> set s \<Longrightarrow> snprintf_text n s = s"
  by (simp add: snprintf_text_def)

subsection \<open>Decimal numbers\<close>

definition digit_char :: "nat \<Rightarrow> char" where
  "digit_char d = char_of (48 + d)"

definition is_digit :: "char \<Rightarrow> bool" where
  "is_digit c \<longleftrightarrow> 48 \<le> (of_char c :: nat) \<and> (of_char c :: nat) \<le> 57"

definition digit_val :: "char \<Rightarrow> nat" where
  "digit_val c = of_char c - 48"

fun nat_str :: "nat \<Rightarrow> string" where
  "nat_str n = (if n < 10 then [digit_char n] else nat_str (n div 10) @ [digit_char (n mod 10)])"

declare nat_str.simps [simp del]

definition int_str :: "int \<Rightarrow> string" where
  "int_str k = (if k < 0 then CHR ''-'' # nat_str (nat (- k)) else nat_str (nat k))"

text \<open>
  The number at the front of a text: blanks, an optional sign, then digits up to the first other
  character.
\<close>

definition is_blank :: "char \<Rightarrow> bool" where
  "is_blank c \<longleftrightarrow> c = CHR '' '' \<or> 9 \<le> (of_char c :: nat) \<and> (of_char c :: nat) \<le> 13"

definition digits_val :: "string \<Rightarrow> nat" where
  "digits_val s = foldl (\<lambda>v c. 10 * v + digit_val c) 0 (takeWhile is_digit s)"

definition dec_val :: "string \<Rightarrow> int" where
  "dec_val s = (case dropWhile is_blank (c_str s) of
      [] \<Rightarrow> 0
    | c # cs \<Rightarrow> if c = CHR ''-'' then - int (digits_val cs)
        else if c = CHR ''+'' then int (digits_val cs) else int (digits_val (c # cs)))"

text \<open>
  \<open>strtol\<close> answers the end of the range of the 64-bit \<open>long\<close> for a number outside it, and
  \<open>atoi\<close> is \<open>(int) strtol(s, NULL, 10)\<close>, which keeps the low 32 bits.
\<close>

definition strtol :: "string \<Rightarrow> int" where
  "strtol s = max (- (2 ^ 63)) (min (2 ^ 63 - 1) (dec_val s))"

definition atoi :: "string \<Rightarrow> int" where
  "atoi s = int32 (strtol s)"

lemma digit_char_simps [simp]:
  assumes "d < 10"
  shows "is_digit (digit_char d)" "digit_val (digit_char d) = d"
  using assms by (simp_all add: digit_char_def is_digit_def digit_val_def)

lemma nat_str_digits: "list_all is_digit (nat_str n)"
  by (induction n rule: nat_str.induct) (subst nat_str.simps, simp)

lemma nat_str_not_Nil [simp]: "nat_str n \<noteq> []"
  by (subst nat_str.simps) simp

lemma length_nat_str: "0 < d \<Longrightarrow> n < 10 ^ d \<Longrightarrow> length (nat_str n) \<le> d"
proof (induction d arbitrary: n)
  case (Suc d)
  show ?case
  proof (cases "n < 10")
    case False
    then have "0 < d" "n div 10 < 10 ^ d" using Suc.prems by (cases d; simp; linarith)+
    then have "length (nat_str (n div 10)) \<le> d" by (rule Suc.IH)
    then show ?thesis using False by (subst nat_str.simps) simp
  qed (subst nat_str.simps, simp)
qed simp

lemma digits_val_nat_str: "digits_val (nat_str n) = n"
proof -
  have "foldl (\<lambda>v c. 10 * v + digit_val c) 0 (nat_str n) = n"
    by (induction n rule: nat_str.induct) (subst nat_str.simps, simp)
  moreover have "takeWhile is_digit (nat_str n) = nat_str n"
    using nat_str_digits unfolding takeWhile_eq_all_conv list_all_iff .
  ultimately show ?thesis by (simp only: digits_val_def)
qed

lemma is_digit_simps [simp]:
  "\<not> is_digit NUL" "\<not> is_digit (CHR ''-'')" "\<not> is_digit (CHR ''+'')"
  "\<not> is_digit (CHR '':'')" "\<not> is_digit (CHR ''.'')" "\<not> is_digit (CHR '' '')"
  by (simp_all add: is_digit_def)

lemma is_digit_not_blank [simp]: "is_digit c \<Longrightarrow> \<not> is_blank c"
  by (auto simp: is_digit_def is_blank_def)

lemma nat_str_Cons: "\<exists>c cs. nat_str n = c # cs \<and> is_digit c"
  using nat_str_digits [of n] by (cases "nat_str n") auto

lemma NUL_nat_str [simp]: "NUL \<notin> set (nat_str n)"
  using nat_str_digits [of n] by (auto simp: list_all_iff)

lemma NUL_int_str [simp]: "NUL \<notin> set (int_str k)"
  by (simp add: int_str_def)

lemma dec_val_int_str [simp]: "dec_val (int_str k) = k"
proof (cases "k < 0")
  case True
  then show ?thesis
    by (simp add: dec_val_def int_str_def is_blank_def digits_val_nat_str)
next
  case False
  obtain c cs where c: "nat_str (nat k) = c # cs" "is_digit c" using nat_str_Cons by blast
  moreover have "c \<noteq> CHR ''-''" "c \<noteq> CHR ''+''" using c(2) by auto
  moreover have "c_str (nat_str (nat k)) = nat_str (nat k)" by simp
  ultimately show ?thesis
    using False digits_val_nat_str [of "nat k"] by (simp add: dec_val_def int_str_def)
qed

lemma strtol_int_str [simp]: "- (2 ^ 63) \<le> k \<Longrightarrow> k < 2 ^ 63 \<Longrightarrow> strtol (int_str k) = k"
  by (simp add: strtol_def)

lemma atoi_int_str [simp]: "- (2 ^ 31) \<le> k \<Longrightarrow> k < 2 ^ 31 \<Longrightarrow> atoi (int_str k) = k"
  by (simp add: atoi_def)

lemma atoi_bounds: "- (2 ^ 31) \<le> atoi s" "atoi s < 2 ^ 31"
  using signed_take_bit_int_greater_eq_minus_exp [of 31 "strtol s"]
    signed_take_bit_int_less_exp [of 31 "strtol s"]
  by (simp_all add: atoi_def int32_def)

lemma int_str_inject [simp]: "int_str j = int_str k \<longleftrightarrow> j = k"
  by (metis dec_val_int_str)

subsection \<open>\<open>std::string::compare\<close>\<close>

fun str_compare :: "string \<Rightarrow> string \<Rightarrow> int" where
  "str_compare [] [] = 0"
| "str_compare [] (y # ys) = - 1"
| "str_compare (x # xs) [] = 1"
| "str_compare (x # xs) (y # ys) =
     (if x < y then - 1 else if y < x then 1 else str_compare xs ys)"

lemma str_compare_less: "str_compare xs ys < 0 \<longleftrightarrow> xs < ys"
  by (induction xs ys rule: str_compare.induct) auto

lemma str_compare_eq: "str_compare xs ys = 0 \<longleftrightarrow> xs = ys"
  by (induction xs ys rule: str_compare.induct) auto

lemma str_compare_swap: "str_compare ys xs = - str_compare xs ys"
  by (induction xs ys rule: str_compare.induct) auto

end
