(* ===== verification/Srs_Fifo.thy ===== *)
theory Srs_Fifo
  imports Srs_Prelude
begin

section \<open>The contract of a bounded queue\<close>

text \<open>
  The interface between a bounded first-in first-out buffer and its users (the condition
  object of srs\_app\_stcondition.hpp is built on the ring of srs\_app\_ringbuf.hpp): a
  \<open>put\<close> that is refused exactly when the queue is full, a \<open>get\<close> that returns the oldest
  element.  What a sequence of operations does is proved once, from the contract.
\<close>

datatype 'a fifo_op = Put 'a | Get

text \<open>A run of operations: the final queue, the accepted elements and the returned ones.\<close>

fun fifo_run ::
  "('q \<Rightarrow> 'a \<Rightarrow> bool \<times> 'q) \<Rightarrow> ('q \<Rightarrow> 'a option \<times> 'q) \<Rightarrow> 'q \<Rightarrow> 'a fifo_op list \<Rightarrow>
   'q \<times> 'a list \<times> 'a list" where
  "fifo_run put get q [] = (q, [], [])"
| "fifo_run put get q (Put x # ops) =
     (let (ok, q1) = put q x; (q2, acc, got) = fifo_run put get q1 ops
      in (q2, if ok then x # acc else acc, got))"
| "fifo_run put get q (Get # ops) =
     (let (v, q1) = get q; (q2, acc, got) = fifo_run put get q1 ops
      in (q2, acc, (case v of None \<Rightarrow> got | Some x \<Rightarrow> x # got)))"

locale bounded_fifo =
  fixes put :: "'q \<Rightarrow> 'a \<Rightarrow> bool \<times> 'q"
    and get :: "'q \<Rightarrow> 'a option \<times> 'q"
    and content :: "'q \<Rightarrow> 'a list"
    and room :: "'q \<Rightarrow> nat"
    and inv :: "'q \<Rightarrow> bool"
  assumes inv_bounded: "inv q \<Longrightarrow> length (content q) \<le> room q"
    and put_room: "inv q \<Longrightarrow> room (snd (put q x)) = room q"
    and put_inv: "inv q \<Longrightarrow> inv (snd (put q x))"
    and put_accepted: "inv q \<Longrightarrow> fst (put q x) \<longleftrightarrow> length (content q) < room q"
    and put_content: "inv q \<Longrightarrow> content (snd (put q x)) = (if fst (put q x) then content q @ [x] else content q)"
    and get_room: "inv q \<Longrightarrow> room (snd (get q)) = room q"
    and get_inv: "inv q \<Longrightarrow> inv (snd (get q))"
    and get_value: "inv q \<Longrightarrow> fst (get q) = (case content q of [] \<Rightarrow> None | x # xs \<Rightarrow> Some x)"
    and get_content: "inv q \<Longrightarrow> content (snd (get q)) = tl (content q)"
begin

lemma fifo_conservation:
  "inv q \<Longrightarrow> fifo_run put get q ops = (q', acc, got) \<Longrightarrow>
   inv q' \<and> room q' = room q \<and> content q @ acc = got @ content q'"
proof (induction ops arbitrary: q q' acc got)
  case Nil
  then show ?case by simp
next
  case (Cons opn ops)
  show ?case
  proof (cases opn)
    case (Put x)
    obtain ok q1 where put: "put q x = (ok, q1)" by fastforce
    obtain q2 acc2 got2 where run: "fifo_run put get q1 ops = (q2, acc2, got2)" by (metis prod_cases3)
    have "q' = q2" "acc = (if ok then x # acc2 else acc2)" "got = got2"
      using Cons.prems(2) by (simp_all add: Put put run)
    with Cons.IH [OF _ run] put_inv [OF Cons.prems(1), of x] put_room [OF Cons.prems(1), of x]
      put_content [OF Cons.prems(1), of x]
    show ?thesis by (auto simp: put split: if_splits)
  next
    case Get
    obtain v q1 where get: "get q = (v, q1)" by fastforce
    obtain q2 acc2 got2 where run: "fifo_run put get q1 ops = (q2, acc2, got2)" by (metis prod_cases3)
    have "q' = q2" "acc = acc2" "got = (case v of None \<Rightarrow> got2 | Some x \<Rightarrow> x # got2)"
      using Cons.prems(2) by (simp_all add: Get get run)
    with Cons.IH [OF _ run] get_inv [OF Cons.prems(1)] get_room [OF Cons.prems(1)]
      get_content [OF Cons.prems(1)] get_value [OF Cons.prems(1)]
    show ?thesis by (cases "content q") (auto simp: get)
  qed
qed

lemma fifo_run_fifo:
  assumes "inv q" "content q = []"
  shows "(case fifo_run put get q ops of (q', acc, got) \<Rightarrow>
    inv q' \<and> acc = got @ content q' \<and> length (content q') \<le> room q)"
proof -
  obtain q' acc got where run: "fifo_run put get q ops = (q', acc, got)" by (metis prod_cases3)
  from fifo_conservation [OF assms(1) run] assms(2) inv_bounded [of q'] show ?thesis by (simp add: run)
qed

lemma no_room_no_put:
  "inv q \<Longrightarrow> room q = 0 \<Longrightarrow> fst (snd (fifo_run put get q ops)) = []"
proof (induction ops arbitrary: q)
  case Nil
  then show ?case by simp
next
  case (Cons opn ops)
  show ?case
    using Cons.IH [OF put_inv] Cons.IH [OF get_inv] Cons.prems
    by (cases opn) (simp_all add: Let_def case_prod_beta put_accepted put_room get_room)
qed

lemma put_full_keeps: "inv q \<Longrightarrow> length (content q) = room q \<Longrightarrow> content (snd (put q x)) = content q"
  by (simp add: put_content put_accepted)

lemma put_empty: "inv q \<Longrightarrow> 0 < room q \<Longrightarrow> content q = [] \<Longrightarrow> content (snd (put q x)) = [x]"
  by (simp add: put_content put_accepted)

lemma get_after_put:
  "inv q \<Longrightarrow> 0 < room q \<Longrightarrow> content q = [] \<Longrightarrow> fst (get (snd (put q x))) = Some x"
  by (simp add: get_value put_inv put_content put_accepted)

end

end
