(* ===== verification/Srs_App_Ringbuf.thy ===== *)
theory Srs_App_Ringbuf
  imports Srs_Fifo
begin

section \<open>The packet ring buffer (core/srs\_app\_ringbuf.hpp)\<close>

text \<open>
  \<open>SrsRingBuffer<T>\<close>: a fixed array of 1000 pointers used as a ring of \<open>bufferSize\<close> slots
  with a read and a write index.  A slot holds \<open>None\<close> for \<open>NULL\<close>.  The index macros and
  the operations are translated one by one, with the modulo by zero and the array bounds
  as faults; then the ring is shown to implement a bounded first-in first-out queue.
\<close>

subsection \<open>State\<close>

datatype E_OPER_BUFFER_RET =
  E_RET_BUF_NULL | E_RET_BUF_FULL | E_RET_BUF_EMPTY | E_RET_BUF_NOT_INIT | E_RET_BUF_OK

definition MAX_RINGBUFFER_SIZE :: nat where
  "MAX_RINGBUFFER_SIZE = 1000"

record 'a ringbuf =
  ptArrayBuffer :: "'a option list"
  rwrite :: u32
  rread :: u32
  bufferSize :: u32
  curCount :: u32
  writeCount :: u32
  readCount :: u32
  bIsInit :: bool
  bIsWrited :: bool
  overwriteCnt :: u32

definition SrsRingBuffer :: "u32 \<Rightarrow> 'a ringbuf" where
  "SrsRingBuffer iBufferSize =
     \<lparr> ptArrayBuffer = replicate MAX_RINGBUFFER_SIZE None, rwrite = 0, rread = 0,
       bufferSize = (if iBufferSize \<le> 0 \<or> iBufferSize \<ge> of_nat MAX_RINGBUFFER_SIZE
                     then of_nat MAX_RINGBUFFER_SIZE else iBufferSize),
       curCount = 0, writeCount = 0, readCount = 0, bIsInit = True, bIsWrited = False,
       overwriteCnt = 0 \<rparr>"

subsection \<open>Operations\<close>

text \<open>An element of \<open>ptArrayBuffer\<close>, and the three index macros' \<open>% bufferSize\<close>.\<close>

definition ring_load :: "'a ringbuf \<Rightarrow> u32 \<Rightarrow> 'a option outcome" where
  "ring_load r i =
     (if unat i < length (ptArrayBuffer r) then Inr (ptArrayBuffer r ! unat i) else Inl Bad_access)"

definition ring_store :: "'a ringbuf \<Rightarrow> u32 \<Rightarrow> 'a \<Rightarrow> 'a ringbuf outcome" where
  "ring_store r i x =
     (if unat i < length (ptArrayBuffer r)
      then Inr (r\<lparr>ptArrayBuffer := (ptArrayBuffer r)[unat i := Some x]\<rparr>) else Inl Bad_access)"

definition ring_mod :: "'a ringbuf \<Rightarrow> u32 \<Rightarrow> u32 outcome" where
  "ring_mod r i = (if bufferSize r = 0 then Inl Div_by_zero else Inr (i mod bufferSize r))"

definition Get_Packet_RingBuffer_Count :: "'a ringbuf \<Rightarrow> u32 outcome" where
  "Get_Packet_RingBuffer_Count r = ring_mod r (rwrite r + bufferSize r - rread r)"

text \<open>
  The out parameter \<open>T** ptOutBuffer\<close> is \<open>None\<close> for a null pointer, else \<open>Some\<close> of the
  pointer variable's content, which the operation may overwrite.
\<close>

definition Read_Packet_RingBuffer ::
  "'a ringbuf \<Rightarrow> 'a option option \<Rightarrow> (E_OPER_BUFFER_RET \<times> 'a option option \<times> 'a ringbuf) outcome" where
  "Read_Packet_RingBuffer r ptOutBuffer =
     (if ptOutBuffer = None then Inr (E_RET_BUF_NULL, ptOutBuffer, r)
      else if \<not> bIsInit r then Inr (E_RET_BUF_NOT_INIT, ptOutBuffer, r)
      else if rread r = rwrite r then Inr (E_RET_BUF_EMPTY, ptOutBuffer, r)
      else let r1 = r\<lparr>readCount := readCount r + 1\<rparr> in
        rbind (ring_load r1 (rread r1)) (\<lambda>v.
          if v = None then Inr (E_RET_BUF_EMPTY, Some v, r1)
          else rbind (Get_Packet_RingBuffer_Count r1) (\<lambda>c.
            let r2 = r1\<lparr>curCount := c\<rparr> in
            rbind (ring_mod r2 (rread r2 + 1)) (\<lambda>n.
              Inr (E_RET_BUF_OK, Some v, r2\<lparr>rread := n\<rparr>)))))"

definition Read_Packet_Top_RingBuffer ::
  "'a ringbuf \<Rightarrow> 'a option option \<Rightarrow> (E_OPER_BUFFER_RET \<times> 'a option option \<times> 'a ringbuf) outcome" where
  "Read_Packet_Top_RingBuffer r ptOutBuffer =
     (if ptOutBuffer = None \<or> bufferSize r = 0 then Inr (E_RET_BUF_NULL, ptOutBuffer, r)
      else if \<not> bIsInit r then Inr (E_RET_BUF_NOT_INIT, ptOutBuffer, r)
      else if rread r = rwrite r then Inr (E_RET_BUF_EMPTY, ptOutBuffer, r)
      else rbind (ring_load r (rread r)) (\<lambda>v.
          if v = None then Inr (E_RET_BUF_EMPTY, Some v, r)
          else Inr (E_RET_BUF_OK, Some v, r)))"

definition Write_Packet_RingBuffer ::
  "'a ringbuf \<Rightarrow> 'a option \<Rightarrow> (E_OPER_BUFFER_RET \<times> 'a ringbuf) outcome" where
  "Write_Packet_RingBuffer r ptInBuffer =
     (case ptInBuffer of None \<Rightarrow> Inr (E_RET_BUF_NULL, r)
      | Some x \<Rightarrow>
        if bufferSize r = 0 then Inr (E_RET_BUF_NULL, r)
        else if \<not> bIsInit r then Inr (E_RET_BUF_NOT_INIT, r)
        else let r1 = r\<lparr>writeCount := writeCount r + 1\<rparr> in
          rbind (ring_mod r1 (rwrite r1 + 1)) (\<lambda>w.
            if w = rread r1
            then Inr (E_RET_BUF_FULL, r1\<lparr>overwriteCnt := overwriteCnt r1 + 1\<rparr>)
            else rbind (ring_store r1 (rwrite r1) x) (\<lambda>r2.
              rbind (Get_Packet_RingBuffer_Count r2) (\<lambda>c.
                let r3 = r2\<lparr>curCount := c\<rparr> in
                rbind (ring_mod r3 (rwrite r3 + 1)) (\<lambda>n.
                  let r4 = r3\<lparr>rwrite := n\<rparr> in
                  Inr (E_RET_BUF_OK, if \<not> bIsWrited r4 then r4\<lparr>bIsWrited := True\<rparr> else r4))))))"

text \<open>The \<open>while (1)\<close> of \<open>Destroy_Packet_RingBuffer\<close>; \<open>None\<close> is a loop that does not end.\<close>

partial_function (option) destroy_loop ::
  "'a ringbuf \<Rightarrow> 'a option \<Rightarrow> 'a ringbuf outcome option" where
  "destroy_loop r ptBuffer =
     (case Read_Packet_RingBuffer r (Some ptBuffer) of
        Inl e \<Rightarrow> Some (Inl e)
      | Inr res \<Rightarrow> (case res of (ret, out, r') \<Rightarrow>
          if ret \<noteq> E_RET_BUF_OK then Some (Inr r') else destroy_loop r' (the out)))"

definition Destroy_Packet_RingBuffer :: "'a ringbuf \<Rightarrow> 'a ringbuf outcome option" where
  "Destroy_Packet_RingBuffer r = (if \<not> bIsInit r then Some (Inr r) else destroy_loop r None)"

subsection \<open>Ring arithmetic\<close>

definition ring_count :: "nat \<Rightarrow> nat \<Rightarrow> nat \<Rightarrow> nat" where
  "ring_count N r w = (w + N - r) mod N"

lemma Suc_mod_ring: "k < N \<Longrightarrow> Suc k mod N = (if Suc k = N then 0 else Suc k)"
  by auto

lemma ring_count_eq:
  assumes "r < N" "w < N"
  shows "ring_count N r w = (if r \<le> w then w - r else w + N - r)"
proof (cases "r \<le> w")
  case True
  then have "(w + N - r) mod N = ((w - r) + N) mod N" by (simp only: add_diff_assoc2)
  also have "\<dots> = w - r" using assms by (simp only: mod_add_self2 mod_less less_imp_diff_less)
  finally show ?thesis using True by (simp add: ring_count_def)
next
  case False
  with assms show ?thesis by (simp add: ring_count_def)
qed

lemma ring_count_less: "0 < N \<Longrightarrow> ring_count N r w < N"
  by (simp add: ring_count_def)

lemma ring_count_0_iff: "r < N \<Longrightarrow> w < N \<Longrightarrow> ring_count N r w = 0 \<longleftrightarrow> r = w"
  by (auto simp: ring_count_eq)

lemma ring_wrap: "r < N \<Longrightarrow> i < N \<Longrightarrow> (r + i) mod N = (if r + i < N then r + i else r + i - N)" for N :: nat
  by (simp add: le_mod_geq)

lemma ring_index:
  assumes "r < N" "w < N" shows "(r + ring_count N r w) mod N = w"
proof -
  have "ring_count N r w < N" using assms by (simp add: ring_count_less)
  with assms show ?thesis by (simp add: ring_wrap ring_count_eq)
qed

lemma ring_index_neq:
  assumes "r < N" "w < N" "i < ring_count N r w" shows "(r + i) mod N \<noteq> w"
proof -
  have "i < N" using assms ring_count_less [of N r w] by linarith
  with assms show ?thesis by (auto simp: ring_wrap ring_count_eq split: if_splits)
qed

lemma ring_full_iff: "r < N \<Longrightarrow> w < N \<Longrightarrow> Suc w mod N = r \<longleftrightarrow> Suc (ring_count N r w) = N"
  by (auto simp: ring_count_eq Suc_mod_ring)

lemma ring_count_enq:
  "r < N \<Longrightarrow> w < N \<Longrightarrow> Suc w mod N \<noteq> r \<Longrightarrow> ring_count N r (Suc w mod N) = Suc (ring_count N r w)"
  by (auto simp: ring_count_eq Suc_mod_ring)

lemma ring_count_deq:
  "r < N \<Longrightarrow> w < N \<Longrightarrow> r \<noteq> w \<Longrightarrow> Suc (ring_count N (Suc r mod N) w) = ring_count N r w"
  by (auto simp: ring_count_eq Suc_mod_ring)

lemma ring_shift: "(Suc r mod N + i) mod N = (r + Suc i) mod N" for r :: nat
  by (simp add: mod_add_left_eq)

subsection \<open>Invariant and abstraction\<close>

definition ring_size :: "'a ringbuf \<Rightarrow> nat" where
  "ring_size r = unat (bufferSize r)"

definition ring_len :: "'a ringbuf \<Rightarrow> nat" where
  "ring_len r = ring_count (ring_size r) (unat (rread r)) (unat (rwrite r))"

definition ring_slot :: "'a ringbuf \<Rightarrow> nat \<Rightarrow> 'a option" where
  "ring_slot r i = ptArrayBuffer r ! ((unat (rread r) + i) mod ring_size r)"

definition ring_inv :: "'a ringbuf \<Rightarrow> bool" where
  "ring_inv r \<longleftrightarrow>
     length (ptArrayBuffer r) = MAX_RINGBUFFER_SIZE \<and>
     0 < ring_size r \<and> ring_size r \<le> MAX_RINGBUFFER_SIZE \<and>
     unat (rread r) < ring_size r \<and> unat (rwrite r) < ring_size r \<and> bIsInit r \<and>
     list_all (\<lambda>i. ring_slot r i \<noteq> None) [0..<ring_len r]"

text \<open>The packets in the ring, oldest first.\<close>

definition ring_list :: "'a ringbuf \<Rightarrow> 'a list" where
  "ring_list r = map (\<lambda>i. the (ring_slot r i)) [0..<ring_len r]"

lemma ring_invD:
  assumes "ring_inv r"
  shows "length (ptArrayBuffer r) = 1000" "0 < ring_size r" "ring_size r \<le> 1000"
    "unat (rread r) < ring_size r" "unat (rwrite r) < ring_size r" "bIsInit r"
    "bufferSize r \<noteq> 0" "unat (rread r) < 1000" "unat (rwrite r) < 1000"
  using assms by (auto simp: ring_inv_def MAX_RINGBUFFER_SIZE_def ring_size_def)

lemma ring_inv_slot: "ring_inv r \<Longrightarrow> i < ring_len r \<Longrightarrow> ring_slot r i \<noteq> None"
  by (auto simp: ring_inv_def list_all_iff)

lemma length_ring_list [simp]: "length (ring_list r) = ring_len r"
  by (simp add: ring_list_def)

lemma unat_Suc_small: "unat x < 1000 \<Longrightarrow> unat (x + 1) = Suc (unat x)" for x :: u32
  by (subst unat_add_lem [THEN iffD1]) auto

lemma unat_next_index:
  assumes "ring_inv r" "unat i < ring_size r"
  shows "unat ((i + 1) mod bufferSize r) = Suc (unat i) mod ring_size r"
proof -
  have "unat i < 1000" using assms ring_invD(3) [of r] by linarith
  then show ?thesis by (simp add: unat_mod unat_Suc_small ring_size_def)
qed

lemma unat_count:
  assumes "ring_inv r"
  shows "unat ((rwrite r + bufferSize r - rread r) mod bufferSize r) = ring_len r"
proof -
  note b = ring_invD [OF assms, unfolded ring_size_def]
  have 1: "unat (rwrite r + bufferSize r) = unat (rwrite r) + unat (bufferSize r)"
    by (subst unat_add_lem [THEN iffD1]) (use b in auto)
  have 2: "unat (rwrite r + bufferSize r - rread r)
      = unat (rwrite r) + unat (bufferSize r) - unat (rread r)"
    by (subst unat_sub) (use b 1 in \<open>auto simp: word_le_nat_alt\<close>)
  show ?thesis by (simp add: unat_mod 2 ring_len_def ring_count_def ring_size_def)
qed

lemma ring_empty_iff: "ring_inv r \<Longrightarrow> rread r = rwrite r \<longleftrightarrow> ring_list r = []"
  using ring_count_0_iff [of "unat (rread r)" "ring_size r" "unat (rwrite r)"] ring_invD [of r]
  by (auto simp: ring_list_def ring_len_def word_unat_eq_iff)

lemma ring_full_word_iff:
  assumes "ring_inv r"
  shows "(rwrite r + 1) mod bufferSize r = rread r \<longleftrightarrow> Suc (ring_len r) = ring_size r"
proof -
  note b = ring_invD [OF assms]
  have "(rwrite r + 1) mod bufferSize r = rread r \<longleftrightarrow> Suc (unat (rwrite r)) mod ring_size r = unat (rread r)"
    by (metis unat_next_index [OF assms b(5)] word_unat_eq_iff)
  then show ?thesis using ring_full_iff [OF b(4,5)] by (simp add: ring_len_def)
qed

subsection \<open>What each operation does to the abstract queue\<close>

lemma ring_advance_read:
  fixes a c :: u32
  assumes inv: "ring_inv r" and ne: "ring_list r \<noteq> []"
  defines "r' \<equiv> r\<lparr>readCount := a, curCount := c, rread := (rread r + 1) mod bufferSize r\<rparr>"
  shows "ring_list r' = tl (ring_list r)" "ring_inv r'" "ring_size r' = ring_size r"
proof -
  note b = ring_invD [OF inv]
  show size: "ring_size r' = ring_size r" by (simp add: r'_def ring_size_def)
  have rd: "unat (rread r') = Suc (unat (rread r)) mod ring_size r"
    using unat_next_index [OF inv b(4)] by (simp add: r'_def)
  have wr: "rwrite r' = rwrite r" by (simp add: r'_def)
  have slot: "ring_slot r' i = ring_slot r (Suc i)" for i
    by (simp only: ring_slot_def rd size ring_shift) (simp add: r'_def)
  have "unat (rread r) \<noteq> unat (rwrite r)"
    using ne inv by (metis ring_empty_iff word_unat_eq_iff)
  from ring_count_deq [OF b(4,5) this]
  have len: "ring_len r = Suc (ring_len r')"
    by (simp add: ring_len_def rd size wr)
  have up: "[0..<ring_len r] = 0 # map Suc [0..<ring_len r']"
    by (simp add: len upt_conv_Cons map_Suc_upt)
  show "ring_list r' = tl (ring_list r)"
    by (simp add: ring_list_def up slot o_def)
  have "list_all (\<lambda>i. ring_slot r' i \<noteq> None) [0..<ring_len r']"
    using ring_inv_slot [OF inv] by (simp add: list_all_iff slot len)
  then show "ring_inv r'"
    using b by (simp add: ring_inv_def size rd MAX_RINGBUFFER_SIZE_def) (simp add: r'_def)
qed

lemma ring_advance_write:
  fixes a c :: u32 and x :: 'a and d :: bool
  assumes inv: "ring_inv r" and room: "Suc (length (ring_list r)) \<noteq> ring_size r"
  defines "r' \<equiv> r\<lparr>ptArrayBuffer := (ptArrayBuffer r)[unat (rwrite r) := Some x], writeCount := a,
                  curCount := c, rwrite := (rwrite r + 1) mod bufferSize r, bIsWrited := d\<rparr>"
  shows "ring_list r' = ring_list r @ [x]" "ring_inv r'" "ring_size r' = ring_size r"
proof -
  note b = ring_invD [OF inv]
  show size: "ring_size r' = ring_size r" by (simp add: r'_def ring_size_def)
  have wr: "unat (rwrite r') = Suc (unat (rwrite r)) mod ring_size r"
    using unat_next_index [OF inv b(5)] by (simp add: r'_def)
  have rd [simp]: "rread r' = rread r" by (simp add: r'_def)
  have "Suc (unat (rwrite r)) mod ring_size r \<noteq> unat (rread r)"
    using room ring_full_iff [OF b(4,5)] by (simp add: ring_len_def)
  from ring_count_enq [OF b(4,5) this] have len: "ring_len r' = Suc (ring_len r)"
    by (simp add: ring_len_def wr size)
  have old: "ring_slot r' i = ring_slot r i" if "i < ring_len r" for i
    using ring_index_neq [OF b(4,5), of i] that
    by (simp add: ring_slot_def size ring_len_def) (simp add: r'_def)
  have new: "ring_slot r' (ring_len r) = Some x"
    using ring_index [OF b(4,5)] b(1,9)
    by (simp add: ring_slot_def size ring_len_def) (simp add: r'_def)
  show "ring_list r' = ring_list r @ [x]"
    by (simp add: ring_list_def len old new)
  have "list_all (\<lambda>i. ring_slot r' i \<noteq> None) [0..<ring_len r']"
    using ring_inv_slot [OF inv] by (auto simp: list_all_iff len less_Suc_eq old new)
  then show "ring_inv r'"
    using b by (simp add: ring_inv_def size wr MAX_RINGBUFFER_SIZE_def) (simp add: r'_def)
qed

lemma Read_empty:
  "ring_inv r \<Longrightarrow> ring_list r = [] \<Longrightarrow> Read_Packet_RingBuffer r (Some v) = Inr (E_RET_BUF_EMPTY, Some v, r)"
  using ring_invD(6) [of r] by (simp add: Read_Packet_RingBuffer_def ring_empty_iff)

lemma Read_ok:
  assumes inv: "ring_inv r" and l: "ring_list r = x # xs"
  obtains r' where "Read_Packet_RingBuffer r (Some v) = Inr (E_RET_BUF_OK, Some (Some x), r')"
    "ring_inv r'" "ring_list r' = xs" "ring_size r' = ring_size r"
proof -
  note b = ring_invD [OF inv]
  let ?c = "(rwrite r + bufferSize r - rread r) mod bufferSize r"
  let ?r' = "r\<lparr>readCount := readCount r + 1, curCount := ?c, rread := (rread r + 1) mod bufferSize r\<rparr>"
  have ne: "rread r \<noteq> rwrite r" using ring_empty_iff [OF inv] l by simp
  have len: "0 < ring_len r" using l by (metis length_ring_list length_greater_0_conv list.discI)
  have hd: "ring_slot r 0 = Some x"
    using l ring_inv_slot [OF inv len] len by (auto simp: ring_list_def upt_conv_Cons)
  have "Read_Packet_RingBuffer r (Some v) = Inr (E_RET_BUF_OK, Some (Some x), ?r')"
    using b ne hd
    by (simp add: Read_Packet_RingBuffer_def Get_Packet_RingBuffer_Count_def ring_mod_def ring_load_def
        ring_slot_def Let_def)
  with that ring_advance_read [OF inv, where a = "readCount r + 1" and c = ?c] l show thesis by simp
qed

lemma Write_full:
  assumes inv: "ring_inv r" and full: "Suc (length (ring_list r)) = ring_size r"
  shows "Write_Packet_RingBuffer r (Some x) =
    Inr (E_RET_BUF_FULL, r\<lparr>writeCount := writeCount r + 1, overwriteCnt := overwriteCnt r + 1\<rparr>)"
  using ring_invD [OF inv] full ring_full_word_iff [OF inv]
  by (simp add: Write_Packet_RingBuffer_def ring_mod_def Let_def)

lemma Write_ok:
  assumes inv: "ring_inv r" and room: "Suc (length (ring_list r)) \<noteq> ring_size r"
  obtains r' where "Write_Packet_RingBuffer r (Some x) = Inr (E_RET_BUF_OK, r')"
    "ring_inv r'" "ring_list r' = ring_list r @ [x]" "ring_size r' = ring_size r"
proof -
  note b = ring_invD [OF inv]
  let ?c = "(rwrite r + bufferSize r - rread r) mod bufferSize r"
  let ?r' = "r\<lparr>ptArrayBuffer := (ptArrayBuffer r)[unat (rwrite r) := Some x],
      writeCount := writeCount r + 1, curCount := ?c, rwrite := (rwrite r + 1) mod bufferSize r,
      bIsWrited := True\<rparr>"
  have ne: "(rwrite r + 1) mod bufferSize r \<noteq> rread r"
    using room ring_full_word_iff [OF inv] by simp
  have "Write_Packet_RingBuffer r (Some x) = Inr (E_RET_BUF_OK, ?r')"
    using b ne
    by (cases r) (simp add: Write_Packet_RingBuffer_def Get_Packet_RingBuffer_Count_def ring_mod_def
        ring_store_def Let_def)
  with that ring_advance_write [OF inv room, where a = "writeCount r + 1" and c = ?c and d = True and x = x] show thesis by simp
qed

lemma ring_counters_irrelevant:
  "ring_list (r\<lparr>writeCount := a, overwriteCnt := d\<rparr>) = ring_list r"
  "ring_size (r\<lparr>writeCount := a, overwriteCnt := d\<rparr>) = ring_size r"
  "ring_inv (r\<lparr>writeCount := a, overwriteCnt := d\<rparr>) = ring_inv r"
  by (simp_all add: ring_list_def ring_len_def ring_slot_def ring_size_def ring_inv_def)

subsection \<open>The ring is a bounded queue\<close>

definition ring_put :: "'a ringbuf \<Rightarrow> 'a \<Rightarrow> bool \<times> 'a ringbuf" where
  "ring_put r x = (case Write_Packet_RingBuffer r (Some x) of
     Inl e \<Rightarrow> (False, r) | Inr (ret, r') \<Rightarrow> (ret = E_RET_BUF_OK, r'))"

definition ring_get :: "'a ringbuf \<Rightarrow> 'a option \<times> 'a ringbuf" where
  "ring_get r = (case Read_Packet_RingBuffer r (Some None) of
     Inl e \<Rightarrow> (None, r)
   | Inr (ret, out, r') \<Rightarrow> (if ret = E_RET_BUF_OK then the out else None, r'))"

definition ring_room :: "'a ringbuf \<Rightarrow> nat" where
  "ring_room r = ring_size r - 1"

lemma ring_len_bound: "ring_inv r \<Longrightarrow> ring_len r \<le> ring_room r"
  using ring_count_less [of "ring_size r" "unat (rread r)" "unat (rwrite r)"] ring_invD(2) [of r]
  by (simp add: ring_room_def ring_len_def)

lemma ring_put_spec:
  assumes "ring_inv r"
  shows "ring_inv (snd (ring_put r x)) \<and> ring_room (snd (ring_put r x)) = ring_room r \<and>
    (fst (ring_put r x) \<longleftrightarrow> ring_len r < ring_room r) \<and>
    ring_list (snd (ring_put r x)) = (if ring_len r < ring_room r then ring_list r @ [x] else ring_list r)"
proof (cases "Suc (length (ring_list r)) = ring_size r")
  case True
  with assms show ?thesis
    by (simp add: ring_put_def Write_full ring_counters_irrelevant ring_room_def)
next
  case False
  moreover have "ring_len r < ring_room r"
    using False ring_len_bound [OF assms] ring_invD(2) [OF assms] by (simp add: ring_room_def)
  moreover obtain r' where "Write_Packet_RingBuffer r (Some x) = Inr (E_RET_BUF_OK, r')"
    "ring_inv r'" "ring_list r' = ring_list r @ [x]" "ring_size r' = ring_size r"
    by (rule Write_ok [OF assms False])
  ultimately show ?thesis by (simp add: ring_put_def ring_room_def)
qed

lemma ring_get_spec:
  assumes "ring_inv r"
  shows "ring_inv (snd (ring_get r)) \<and> ring_room (snd (ring_get r)) = ring_room r \<and>
    fst (ring_get r) = (case ring_list r of [] \<Rightarrow> None | x # xs \<Rightarrow> Some x) \<and>
    ring_list (snd (ring_get r)) = tl (ring_list r)"
proof (cases "ring_list r")
  case Nil
  with assms show ?thesis by (simp add: ring_get_def Read_empty)
next
  case (Cons x xs)
  obtain r' where "Read_Packet_RingBuffer r (Some None) = Inr (E_RET_BUF_OK, Some (Some x), r')"
    "ring_inv r'" "ring_list r' = xs" "ring_size r' = ring_size r"
    by (rule Read_ok [OF assms Cons])
  with Cons show ?thesis by (simp add: ring_get_def ring_room_def)
qed

interpretation ring: bounded_fifo ring_put ring_get ring_list ring_room ring_inv
  by unfold_locales (simp_all add: ring_len_bound ring_put_spec ring_get_spec)

lemma ring_inv_init: "ring_inv (SrsRingBuffer n)"
  and ring_list_init: "ring_list (SrsRingBuffer n) = []"
  and ring_size_init: "ring_size (SrsRingBuffer n) = (if n = 0 \<or> 1000 \<le> n then 1000 else unat n)"
proof -
  have "unat n < 1000" if "n < 1000" using that by (simp add: word_less_nat_alt)
  moreover have "0 < unat n" if "n \<noteq> 0" using that by (simp add: unat_gt_0)
  ultimately show s: "ring_size (SrsRingBuffer n) = (if n = 0 \<or> 1000 \<le> n then 1000 else unat n)"
    and "ring_inv (SrsRingBuffer n)" and "ring_list (SrsRingBuffer n) = []"
    by (auto simp: SrsRingBuffer_def ring_size_def MAX_RINGBUFFER_SIZE_def ring_inv_def ring_list_def
        ring_len_def ring_count_def not_le intro: less_imp_le)
qed

subsection \<open>Properties\<close>

text \<open>C1: Whatever sequence of writes and reads is made on a new ring of any requested size,
  the packets it accepted are, in order, the packets it returned followed by those it still
  holds, and it never holds more than its size minus one: no packet is lost, duplicated,
  reordered or overwritten.\<close>

theorem ring_fifo_order:
  "(case fifo_run ring_put ring_get (SrsRingBuffer n) ops of (r', accepted, returned) \<Rightarrow>
     ring_inv r' \<and> accepted = returned @ ring_list r' \<and>
     length (ring_list r') \<le> (if n = 0 \<or> 1000 \<le> n then 999 else unat n - 1))"
proof -
  have room: "ring_room (SrsRingBuffer n) = (if n = 0 \<or> 1000 \<le> n then 999 else unat n - 1)"
    for n and r :: "'a ringbuf" by (simp add: ring_room_def ring_size_init)
  show ?thesis
    using ring.fifo_run_fifo [OF ring_inv_init ring_list_init, of n ops] unfolding room .
qed

text \<open>A write of a packet into a well-formed ring never faults; it answers FULL and changes
  no packet when one slot is left, else OK and appends the packet.\<close>

theorem Write_Packet_refines_enqueue:
  assumes "ring_inv r"
  shows "\<exists>r'. ring_inv r' \<and>
    Write_Packet_RingBuffer r (Some x) =
      Inr (if Suc (length (ring_list r)) = ring_size r then E_RET_BUF_FULL else E_RET_BUF_OK, r') \<and>
    ring_list r' = (if Suc (length (ring_list r)) = ring_size r then ring_list r else ring_list r @ [x]) \<and>
    ring_size r' = ring_size r"
proof (cases "Suc (length (ring_list r)) = ring_size r")
  case True
  with assms show ?thesis by (simp add: Write_full ring_counters_irrelevant)
next
  case False
  obtain r' where "Write_Packet_RingBuffer r (Some x) = Inr (E_RET_BUF_OK, r')"
    "ring_inv r'" "ring_list r' = ring_list r @ [x]" "ring_size r' = ring_size r"
    by (rule Write_ok [OF assms False])
  with False show ?thesis by simp
qed

text \<open>A read of a well-formed ring never faults; it answers EMPTY and leaves the caller's
  pointer alone when no packet is there, else OK with the oldest packet, which it removes.  The
  top read returns the same packet and removes nothing.\<close>

theorem Read_Packet_refines_dequeue:
  assumes "ring_inv r"
  shows "case ring_list r of
      [] \<Rightarrow> Read_Packet_RingBuffer r (Some v) = Inr (E_RET_BUF_EMPTY, Some v, r) \<and>
        Read_Packet_Top_RingBuffer r (Some v) = Inr (E_RET_BUF_EMPTY, Some v, r)
    | x # xs \<Rightarrow> Read_Packet_Top_RingBuffer r (Some v) = Inr (E_RET_BUF_OK, Some (Some x), r) \<and>
        (\<exists>r'. Read_Packet_RingBuffer r (Some v) = Inr (E_RET_BUF_OK, Some (Some x), r') \<and>
          ring_inv r' \<and> ring_list r' = xs \<and> ring_size r' = ring_size r)"
proof (cases "ring_list r")
  case Nil
  with assms show ?thesis
    using ring_invD(6,7) [OF assms] ring_empty_iff [OF assms]
    by (simp add: Read_empty Read_Packet_Top_RingBuffer_def)
next
  case (Cons x xs)
  have "0 < ring_len r" using Cons by (metis length_ring_list length_greater_0_conv list.discI)
  then have "ring_slot r 0 = Some x"
    using Cons ring_inv_slot [OF assms] by (auto simp: ring_list_def upt_conv_Cons)
  then have "Read_Packet_Top_RingBuffer r (Some v) = Inr (E_RET_BUF_OK, Some (Some x), r)"
    using ring_invD [OF assms] ring_empty_iff [OF assms] Cons
    by (simp add: Read_Packet_Top_RingBuffer_def ring_load_def ring_slot_def)
  moreover obtain r' where "Read_Packet_RingBuffer r (Some v) = Inr (E_RET_BUF_OK, Some (Some x), r')"
    "ring_inv r'" "ring_list r' = xs" "ring_size r' = ring_size r"
    by (rule Read_ok [OF assms Cons])
  ultimately show ?thesis using Cons by simp
qed

lemma destroy_loop_ends:
  "ring_inv r \<Longrightarrow> \<exists>r'. destroy_loop r v = Some (Inr r') \<and> ring_inv r' \<and> ring_list r' = [] \<and>
     ring_size r' = ring_size r"
proof (induction "ring_list r" arbitrary: r v)
  case Nil
  then show ?case by (simp add: destroy_loop.simps Read_empty)
next
  case (Cons x xs)
  obtain r1 where "Read_Packet_RingBuffer r (Some v) = Inr (E_RET_BUF_OK, Some (Some x), r1)"
    and r1: "ring_inv r1" "ring_list r1 = xs" "ring_size r1 = ring_size r"
    by (rule Read_ok [OF Cons.prems Cons.hyps(2) [symmetric]])
  then have "destroy_loop r v = destroy_loop r1 (Some x)"
    by (simp add: destroy_loop.simps [of r v])
  with Cons.hyps(1) [of r1 "Some x"] r1 show ?case by simp
qed

text \<open>Emptying a well-formed ring by reading until no packet is left ends, without a fault,
  with an empty well-formed ring.\<close>

theorem Destroy_Packet_RingBuffer_terminates:
  assumes "ring_inv r"
  shows "\<exists>r'. Destroy_Packet_RingBuffer r = Some (Inr r') \<and> ring_inv r' \<and> ring_list r' = [] \<and>
    ring_size r' = ring_size r"
  using destroy_loop_ends [OF assms, of None] ring_invD(6) [OF assms]
  by (simp add: Destroy_Packet_RingBuffer_def)

theorem Destroy_Packet_RingBuffer_terminates_witness:
  "ring_inv (snd (ring_put (SrsRingBuffer 4) (7 :: nat))) \<and>
   (\<exists>r'. Destroy_Packet_RingBuffer (snd (ring_put (SrsRingBuffer 4) (7 :: nat))) = Some (Inr r') \<and>
      ring_list r' = [])"
  using Destroy_Packet_RingBuffer_terminates
    [OF ring.put_inv [OF ring_inv_init, of 4 "7 :: nat"]] ring.put_inv [OF ring_inv_init, of 4 "7 :: nat"]
  by blast

theorem Write_Packet_refines_enqueue_witness:
  "ring_inv (SrsRingBuffer 4) \<and>
   (\<exists>r'. Write_Packet_RingBuffer (SrsRingBuffer 4) (Some (7 :: nat)) = Inr (E_RET_BUF_OK, r') \<and>
      ring_list r' = [7])"
  using Write_Packet_refines_enqueue [OF ring_inv_init, of 4 "7 :: nat"]
  by (auto simp: ring_inv_init ring_list_init ring_size_init)

theorem Read_Packet_refines_dequeue_witness:
  "ring_inv (SrsRingBuffer 4 :: nat ringbuf) \<and>
   Read_Packet_RingBuffer (SrsRingBuffer 4) (Some (Some (3 :: nat))) =
     Inr (E_RET_BUF_EMPTY, Some (Some 3), SrsRingBuffer 4)"
  using Read_Packet_refines_dequeue [OF ring_inv_init, of 4 "Some (3 :: nat)"]
  by (simp add: ring_inv_init ring_list_init)

text \<open>A ring created for one packet never accepts any: one slot always stays free, so
  the usable capacity is the requested size minus one.\<close>

theorem ring_of_one_refuses:
  "fst (snd (fifo_run ring_put ring_get (SrsRingBuffer 1) ops)) = []"
proof -
  have "ring_room (SrsRingBuffer 1) = 0"
    by (simp add: ring_room_def ring_size_init word_le_nat_alt)
  then show ?thesis by (rule ring.no_room_no_put [OF ring_inv_init])
qed

text \<open>The statistic \<open>curCount\<close> a successful write leaves behind is the number of packets
  before the write, one less than the ring then holds.\<close>

theorem curCount_is_stale:
  assumes "ring_inv r" "Suc (length (ring_list r)) \<noteq> ring_size r"
  shows "\<exists>r'. Write_Packet_RingBuffer r (Some x) = Inr (E_RET_BUF_OK, r') \<and>
    unat (curCount r') = length (ring_list r) \<and> length (ring_list r') = Suc (unat (curCount r'))"
proof -
  obtain r' where w: "Write_Packet_RingBuffer r (Some x) = Inr (E_RET_BUF_OK, r')"
    "ring_inv r'" "ring_list r' = ring_list r @ [x]" "ring_size r' = ring_size r"
    by (rule Write_ok [OF assms])
  have "curCount r' = (rwrite r + bufferSize r - rread r) mod bufferSize r"
    using w(1) by (auto simp: Write_Packet_RingBuffer_def Get_Packet_RingBuffer_Count_def ring_mod_def
        ring_store_def Let_def split: if_splits)
  then show ?thesis using w(1) arg_cong [OF w(3), of length] unat_count [OF assms(1)] by simp
qed

theorem curCount_is_stale_witness:
  "ring_inv (SrsRingBuffer 4) \<and>
   (\<exists>r'. Write_Packet_RingBuffer (SrsRingBuffer 4) (Some (7 :: nat)) = Inr (E_RET_BUF_OK, r') \<and>
      unat (curCount r') = 0 \<and> length (ring_list r') = 1)"
  using curCount_is_stale [OF ring_inv_init, of 4 "7 :: nat"]
  by (auto simp: ring_inv_init ring_list_init ring_size_init)

end
