(* ===== verification/Srs_App_Spsc.thy ===== *)
theory Srs_App_Spsc
  imports Srs_App_Ringbuf
begin

section \<open>One writing thread and one reading thread on the ring\<close>

text \<open>
  \<open>main.cc\<close> writes to the ring (through \<open>StCondition::notify\<close>) from a \<open>std::thread\<close> while a
  coroutine of the main thread reads from it, and the ring takes no lock.  Here the bodies of
  \<open>Write_Packet_RingBuffer\<close> and \<open>Read_Packet_RingBuffer\<close> are cut at their accesses to
  variables the other side changes, and the cuts are interleaved in any order
  (a sequentially consistent memory is assumed; reordering by the compiler or the processor
  is not modelled).  \<open>accepted\<close>, \<open>refused\<close> and \<open>returned\<close> record the answers given.
\<close>

subsection \<open>Program counters and state\<close>

datatype 'a wpc = WIdle | WCheck 'a | WStore 'a | WCount 'a | WPublish 'a

datatype 'a rpc = RIdle | RCheck | RLoad | RCount 'a | RAdvance 'a

record 'a spsc =
  shared :: "'a ringbuf"
  wpc :: "'a wpc"
  rpc :: "'a rpc"
  accepted :: "'a list"
  refused :: "'a list"
  returned :: "'a list"

definition spsc_init :: "u32 \<Rightarrow> 'a spsc" where
  "spsc_init n = \<lparr>shared = SrsRingBuffer n, wpc = WIdle, rpc = RIdle,
     accepted = [], refused = [], returned = []\<rparr>"

subsection \<open>Steps\<close>

definition writer_call :: "'a \<Rightarrow> 'a spsc \<Rightarrow> 'a spsc" where
  "writer_call x s = s\<lparr>wpc := WCheck x,
     shared := (shared s)\<lparr>writeCount := writeCount (shared s) + 1\<rparr>\<rparr>"

definition writer_step :: "'a spsc \<Rightarrow> 'a spsc outcome" where
  "writer_step s = (let r = shared s in case wpc s of
     WIdle \<Rightarrow> Inr s
   | WCheck x \<Rightarrow> rbind (ring_mod r (rwrite r + 1)) (\<lambda>w.
       Inr (if w = rread r
            then s\<lparr>wpc := WIdle, shared := r\<lparr>overwriteCnt := overwriteCnt r + 1\<rparr>,
                   refused := refused s @ [x]\<rparr>
            else s\<lparr>wpc := WStore x\<rparr>))
   | WStore x \<Rightarrow> rbind (ring_store r (rwrite r) x) (\<lambda>r'. Inr (s\<lparr>wpc := WCount x, shared := r'\<rparr>))
   | WCount x \<Rightarrow> rbind (Get_Packet_RingBuffer_Count r) (\<lambda>c.
       Inr (s\<lparr>wpc := WPublish x, shared := r\<lparr>curCount := c\<rparr>\<rparr>))
   | WPublish x \<Rightarrow> rbind (ring_mod r (rwrite r + 1)) (\<lambda>n.
       Inr (s\<lparr>wpc := WIdle, shared := r\<lparr>rwrite := n, bIsWrited := True\<rparr>,
              accepted := accepted s @ [x]\<rparr>)))"

definition reader_step :: "'a spsc \<Rightarrow> 'a spsc outcome" where
  "reader_step s = (let r = shared s in case rpc s of
     RIdle \<Rightarrow> Inr (s\<lparr>rpc := RCheck\<rparr>)
   | RCheck \<Rightarrow> Inr (if rread r = rwrite r then s\<lparr>rpc := RIdle\<rparr>
       else s\<lparr>rpc := RLoad, shared := r\<lparr>readCount := readCount r + 1\<rparr>\<rparr>)
   | RLoad \<Rightarrow> rbind (ring_load r (rread r)) (\<lambda>v.
       Inr (case v of None \<Rightarrow> s\<lparr>rpc := RIdle\<rparr> | Some x \<Rightarrow> s\<lparr>rpc := RCount x\<rparr>))
   | RCount x \<Rightarrow> rbind (Get_Packet_RingBuffer_Count r) (\<lambda>c.
       Inr (s\<lparr>rpc := RAdvance x, shared := r\<lparr>curCount := c\<rparr>\<rparr>))
   | RAdvance x \<Rightarrow> rbind (ring_mod r (rread r + 1)) (\<lambda>n.
       Inr (s\<lparr>rpc := RIdle, shared := r\<lparr>rread := n\<rparr>, returned := returned s @ [x]\<rparr>)))"

inductive spsc_step :: "'a spsc \<Rightarrow> 'a spsc \<Rightarrow> bool" where
  call: "wpc s = WIdle \<Longrightarrow> spsc_step s (writer_call x s)"
| writer: "writer_step s = Inr t \<Longrightarrow> spsc_step s t"
| reader: "reader_step s = Inr t \<Longrightarrow> spsc_step s t"

inductive spsc_reachable :: "u32 \<Rightarrow> 'a spsc \<Rightarrow> bool" for n where
  start: "spsc_reachable n (spsc_init n)"
| step: "spsc_reachable n s \<Longrightarrow> spsc_step s t \<Longrightarrow> spsc_reachable n t"

text \<open>The writing thread alone, for a number of its steps.\<close>

fun writer_run :: "nat \<Rightarrow> 'a spsc \<Rightarrow> 'a spsc outcome" where
  "writer_run 0 s = Inr s"
| "writer_run (Suc k) s = rbind (writer_step s) (writer_run k)"

fun reader_run :: "nat \<Rightarrow> 'a spsc \<Rightarrow> 'a spsc outcome" where
  "reader_run 0 s = Inr s"
| "reader_run (Suc k) s = rbind (reader_step s) (reader_run k)"

subsection \<open>The invariant\<close>

definition ring_has_room :: "'a ringbuf \<Rightarrow> bool" where
  "ring_has_room r \<longleftrightarrow> Suc (length (ring_list r)) \<noteq> ring_size r"

fun writer_inv :: "'a wpc \<Rightarrow> 'a ringbuf \<Rightarrow> bool" where
  "writer_inv (WStore x) r = ring_has_room r"
| "writer_inv (WCount x) r = (ring_has_room r \<and> ptArrayBuffer r ! unat (rwrite r) = Some x)"
| "writer_inv (WPublish x) r = (ring_has_room r \<and> ptArrayBuffer r ! unat (rwrite r) = Some x)"
| "writer_inv _ r = True"

fun reader_inv :: "'a rpc \<Rightarrow> 'a ringbuf \<Rightarrow> bool" where
  "reader_inv RLoad r = (ring_list r \<noteq> [])"
| "reader_inv (RCount x) r = (\<exists>xs. ring_list r = x # xs)"
| "reader_inv (RAdvance x) r = (\<exists>xs. ring_list r = x # xs)"
| "reader_inv _ r = True"

definition spsc_inv :: "'a spsc \<Rightarrow> bool" where
  "spsc_inv s \<longleftrightarrow> ring_inv (shared s) \<and> accepted s = returned s @ ring_list (shared s) \<and>
     writer_inv (wpc s) (shared s) \<and> reader_inv (rpc s) (shared s)"

text \<open>Statistics do not matter, and neither does the free slot under the write index.\<close>

lemma ring_statistics [simp]:
  "ring_list (r\<lparr>curCount := c\<rparr>) = ring_list r" "ring_size (r\<lparr>curCount := c\<rparr>) = ring_size r"
  "ring_list (r\<lparr>readCount := c\<rparr>) = ring_list r" "ring_size (r\<lparr>readCount := c\<rparr>) = ring_size r"
  "ring_list (r\<lparr>writeCount := c\<rparr>) = ring_list r" "ring_size (r\<lparr>writeCount := c\<rparr>) = ring_size r"
  "ring_list (r\<lparr>overwriteCnt := c\<rparr>) = ring_list r" "ring_size (r\<lparr>overwriteCnt := c\<rparr>) = ring_size r"
  "ring_inv (r\<lparr>curCount := c\<rparr>) = ring_inv r" "ring_inv (r\<lparr>readCount := c\<rparr>) = ring_inv r"
  "ring_inv (r\<lparr>writeCount := c\<rparr>) = ring_inv r" "ring_inv (r\<lparr>overwriteCnt := c\<rparr>) = ring_inv r"
  by (simp_all add: ring_list_def ring_len_def ring_slot_def ring_size_def ring_inv_def)

lemma writer_inv_statistics [simp]:
  "writer_inv p (r\<lparr>curCount := c\<rparr>) = writer_inv p r" "writer_inv p (r\<lparr>readCount := c\<rparr>) = writer_inv p r"
  "writer_inv p (r\<lparr>writeCount := c\<rparr>) = writer_inv p r" "writer_inv p (r\<lparr>overwriteCnt := c\<rparr>) = writer_inv p r"
  by (cases p; simp add: ring_has_room_def)+

lemma reader_inv_list: "ring_list r' = ring_list r @ ys \<Longrightarrow> reader_inv p r \<Longrightarrow> reader_inv p r'"
  by (cases p) auto

lemma ring_store_free_slot:
  fixes x :: 'a
  assumes inv: "ring_inv r"
  defines "r' \<equiv> r\<lparr>ptArrayBuffer := (ptArrayBuffer r)[unat (rwrite r) := Some x]\<rparr>"
  shows "ring_list r' = ring_list r" "ring_inv r'" "ring_size r' = ring_size r"
proof -
  note b = ring_invD [OF inv]
  show size: "ring_size r' = ring_size r" by (simp add: r'_def ring_size_def)
  have len: "ring_len r' = ring_len r" by (simp add: ring_len_def size) (simp add: r'_def)
  have slot: "ring_slot r' i = ring_slot r i" if "i < ring_len r" for i
    using ring_index_neq [OF b(4,5), of i] that
    by (simp add: ring_slot_def size ring_len_def) (simp add: r'_def)
  show "ring_list r' = ring_list r" by (simp add: ring_list_def len slot)
  show "ring_inv r'"
    using b ring_inv_slot [OF inv]
    by (simp add: ring_inv_def size len slot MAX_RINGBUFFER_SIZE_def list_all_iff) (simp add: r'_def)
qed

lemma ring_publish:
  fixes x :: 'a
  assumes inv: "ring_inv r" and room: "ring_has_room r"
    and slot: "ptArrayBuffer r ! unat (rwrite r) = Some x"
  defines "r' \<equiv> r\<lparr>rwrite := (rwrite r + 1) mod bufferSize r, bIsWrited := True\<rparr>"
  shows "ring_list r' = ring_list r @ [x]" "ring_inv r'" "ring_size r' = ring_size r"
proof -
  have upd: "(ptArrayBuffer r)[unat (rwrite r) := Some x] = ptArrayBuffer r"
    using ring_invD(1,9) [OF inv] slot by (simp add: list_update_same_conv)
  have eq: "r' = r\<lparr>ptArrayBuffer := (ptArrayBuffer r)[unat (rwrite r) := Some x], writeCount := writeCount r,
      curCount := curCount r, rwrite := (rwrite r + 1) mod bufferSize r, bIsWrited := True\<rparr>"
    by (simp add: r'_def upd)
  show "ring_list r' = ring_list r @ [x]" "ring_inv r'" "ring_size r' = ring_size r"
    unfolding eq by (rule ring_advance_write [OF inv room [unfolded ring_has_room_def]])+
qed

lemma ring_advance:
  assumes inv: "ring_inv r" and ne: "ring_list r \<noteq> []"
  defines "r' \<equiv> r\<lparr>rread := (rread r + 1) mod bufferSize r\<rparr>"
  shows "ring_list r' = tl (ring_list r)" "ring_inv r'" "ring_size r' = ring_size r"
    "ptArrayBuffer r' = ptArrayBuffer r" "rwrite r' = rwrite r"
proof -
  have eq: "r' = r\<lparr>readCount := readCount r, curCount := curCount r, rread := (rread r + 1) mod bufferSize r\<rparr>"
    by (simp add: r'_def)
  show "ring_list r' = tl (ring_list r)" "ring_inv r'" "ring_size r' = ring_size r"
    unfolding eq by (rule ring_advance_read [OF inv ne])+
qed (simp_all add: r'_def)

lemma writer_inv_advance:
  assumes "ring_inv r" "ring_list r = x # xs" "ring_inv r'" "ring_list r' = xs" "ring_size r' = ring_size r"
    "ptArrayBuffer r' = ptArrayBuffer r" "rwrite r' = rwrite r" "writer_inv p r"
  shows "writer_inv p r'"
proof -
  have "Suc (ring_len r') = ring_len r"
    using assms(2,4) by (metis length_ring_list length_Cons)
  then have "ring_has_room r'"
    using ring_len_bound [OF assms(1)] ring_invD(2) [OF assms(1)] assms(5)
    by (simp add: ring_has_room_def ring_room_def)
  with assms show ?thesis by (cases p) simp_all
qed

subsection \<open>Every step succeeds and keeps the invariant\<close>

lemma spsc_inv_init: "spsc_inv (spsc_init n)"
  by (simp add: spsc_inv_def spsc_init_def ring_inv_init ring_list_init)

lemma writer_call_inv: "spsc_inv s \<Longrightarrow> spsc_inv (writer_call x s)"
  by (auto simp: spsc_inv_def writer_call_def elim!: reader_inv_list [rotated])

lemma writer_step_ok:
  assumes "spsc_inv s"
  shows "\<exists>t. writer_step s = Inr t \<and> spsc_inv t"
proof -
  let ?r = "shared s"
  have inv: "ring_inv ?r" and acc: "accepted s = returned s @ ring_list ?r"
    and w: "writer_inv (wpc s) ?r" and r: "reader_inv (rpc s) ?r"
    using assms by (simp_all add: spsc_inv_def)
  note b = ring_invD [OF inv]
  have same: "ring_list r' = ring_list ?r \<Longrightarrow> reader_inv (rpc s) r'" for r'
    using reader_inv_list [of r' ?r "[]"] r by simp
  show ?thesis
  proof (cases "wpc s")
    case WIdle
    with assms show ?thesis by (simp add: writer_step_def)
  next
    case (WCheck x)
    with inv acc r b ring_full_word_iff [OF inv] same show ?thesis
      by (simp add: writer_step_def ring_mod_def spsc_inv_def ring_has_room_def Let_def)
  next
    case (WStore x)
    with inv acc r b w same show ?thesis
      using ring_store_free_slot [OF inv, of x]
      by (simp add: writer_step_def ring_store_def spsc_inv_def ring_has_room_def Let_def)
  next
    case (WCount x)
    with inv acc r b w same show ?thesis
      by (simp add: writer_step_def Get_Packet_RingBuffer_Count_def ring_mod_def spsc_inv_def
          ring_has_room_def Let_def)
  next
    case (WPublish x)
    then have "ring_has_room ?r" "ptArrayBuffer ?r ! unat (rwrite ?r) = Some x" using w by auto
    note p = ring_publish [OF inv this]
    with WPublish acc b reader_inv_list [OF p(1) r] show ?thesis
      by (simp add: writer_step_def ring_mod_def spsc_inv_def Let_def)
  qed
qed

lemma reader_step_ok:
  assumes "spsc_inv s"
  shows "\<exists>t. reader_step s = Inr t \<and> spsc_inv t"
proof -
  let ?r = "shared s"
  have inv: "ring_inv ?r" and acc: "accepted s = returned s @ ring_list ?r"
    and w: "writer_inv (wpc s) ?r" and r: "reader_inv (rpc s) ?r"
    using assms by (simp_all add: spsc_inv_def)
  note b = ring_invD [OF inv]
  show ?thesis
  proof (cases "rpc s")
    case RIdle
    with inv acc w show ?thesis by (simp add: reader_step_def spsc_inv_def Let_def)
  next
    case RCheck
    with inv acc w ring_empty_iff [OF inv] show ?thesis
      by (simp add: reader_step_def spsc_inv_def Let_def)
  next
    case RLoad
    then obtain x xs where l: "ring_list ?r = x # xs" using r by (cases "ring_list ?r") auto
    then have "0 < ring_len ?r" by (metis length_ring_list length_greater_0_conv list.discI)
    then have "ring_slot ?r 0 = Some x"
      using l ring_inv_slot [OF inv] by (auto simp: ring_list_def upt_conv_Cons)
    with RLoad inv acc w b l show ?thesis
      by (simp add: reader_step_def ring_load_def ring_slot_def spsc_inv_def Let_def)
  next
    case (RCount x)
    with inv acc w r b show ?thesis
      by (simp add: reader_step_def Get_Packet_RingBuffer_Count_def ring_mod_def spsc_inv_def Let_def)
  next
    case (RAdvance x)
    then obtain xs where l: "ring_list ?r = x # xs" using r by auto
    have "ring_list ?r \<noteq> []" using l by simp
    note p = ring_advance [OF inv this]
    with RAdvance acc b l writer_inv_advance [OF inv l p(2) _ p(3-5) w] show ?thesis
      by (simp add: reader_step_def ring_mod_def spsc_inv_def Let_def)
  qed
qed

lemma spsc_step_inv: "spsc_step s t \<Longrightarrow> spsc_inv s \<Longrightarrow> spsc_inv t"
  by (induction rule: spsc_step.induct) (metis writer_call_inv, metis writer_step_ok sum.inject(2),
    metis reader_step_ok sum.inject(2))

lemma spsc_reachable_inv: "spsc_reachable n s \<Longrightarrow> spsc_inv s"
  by (induction rule: spsc_reachable.induct) (auto intro: spsc_inv_init spsc_step_inv)

lemma writer_run_4:
  "writer_run 4 s = rbind (writer_step s) (\<lambda>s. rbind (writer_step s) (\<lambda>s. rbind (writer_step s)
     (\<lambda>s. rbind (writer_step s) Inr)))"
proof -
  have z: "writer_run 0 = Inr" and S: "writer_run (Suc k) = (\<lambda>s. rbind (writer_step s) (writer_run k))" for k
    by (simp_all add: fun_eq_iff)
  have n: "4 = Suc (Suc (Suc (Suc 0)))" by simp
  show ?thesis unfolding n S z ..
qed

lemma reader_run_2: "reader_run 2 s = rbind (reader_step s) (\<lambda>s. rbind (reader_step s) Inr)"
proof -
  have z: "reader_run 0 = Inr" and S: "reader_run (Suc k) = (\<lambda>s. rbind (reader_step s) (reader_run k))" for k
    by (simp_all add: fun_eq_iff)
  have n: "2 = Suc (Suc 0)" by simp
  show ?thesis unfolding n S z ..
qed

lemma reader_run_5:
  "reader_run 5 s = rbind (reader_step s) (\<lambda>s. rbind (reader_step s) (\<lambda>s. rbind (reader_step s)
     (\<lambda>s. rbind (reader_step s) (\<lambda>s. rbind (reader_step s) Inr))))"
proof -
  have z: "reader_run 0 = Inr" and S: "reader_run (Suc k) = (\<lambda>s. rbind (reader_step s) (reader_run k))" for k
    by (simp_all add: fun_eq_iff)
  have n: "5 = Suc (Suc (Suc (Suc (Suc 0))))" by simp
  show ?thesis unfolding n S z ..
qed

subsection \<open>Properties\<close>

text \<open>C2: With one writing and one reading thread whose loads and stores interleave in any way,
  in every reachable state the packets whose write was answered OK are, in order, those the
  reader was given followed by those in the ring, and the next step of either thread is free of
  faults (in particular the reader never meets an empty slot in a ring it found not empty).\<close>

theorem spsc_fifo_order:
  assumes "spsc_reachable n s"
  shows "accepted s = returned s @ ring_list (shared s) \<and> ring_inv (shared s) \<and>
    (\<exists>t. writer_step s = Inr t) \<and> (\<exists>t. reader_step s = Inr t) \<and>
    (rpc s = RLoad \<longrightarrow> ring_load (shared s) (rread (shared s)) \<noteq> Inr None)"
proof -
  have inv: "spsc_inv s" by (rule spsc_reachable_inv [OF assms])
  obtain t where "reader_step s = Inr t" and "spsc_inv t" using reader_step_ok [OF inv] by blast
  moreover have "ring_load (shared s) (rread (shared s)) \<noteq> Inr None" if "rpc s = RLoad"
  proof -
    from inv that have l: "ring_list (shared s) \<noteq> []" and r: "ring_inv (shared s)"
      by (simp_all add: spsc_inv_def)
    have "0 < ring_len (shared s)" using l by (metis length_ring_list length_greater_0_conv)
    from ring_inv_slot [OF r this] ring_invD [OF r] show ?thesis
      by (simp add: ring_load_def ring_slot_def)
  qed
  ultimately show ?thesis using writer_step_ok [OF inv] inv by (auto simp: spsc_inv_def)
qed

text \<open>Cutting the write at its shared accesses changes nothing when the other thread does not
  run in between: four undisturbed writer steps leave the ring that
  \<open>Write_Packet_RingBuffer\<close> leaves, and record its answer.\<close>

theorem writer_steps_are_the_write:
  assumes "ring_inv (shared s)"
  shows "case Write_Packet_RingBuffer (shared s) (Some x) of
      Inl e \<Rightarrow> False
    | Inr (ret, r') \<Rightarrow> \<exists>t. writer_run 4 (writer_call x s) = Inr t \<and> wpc t = WIdle \<and> shared t = r' \<and>
        accepted t = (if ret = E_RET_BUF_OK then accepted s @ [x] else accepted s) \<and>
        refused t = (if ret = E_RET_BUF_FULL then refused s @ [x] else refused s)"
proof -
  note b = ring_invD [OF assms]
  show ?thesis
  proof (cases "(rwrite (shared s) + 1) mod bufferSize (shared s) = rread (shared s)")
    case True
    with b show ?thesis
      by (simp add: writer_run_4 Write_Packet_RingBuffer_def writer_step_def writer_call_def
          ring_mod_def Let_def)
  next
    case False
    with b show ?thesis
      by (cases "shared s")
        (simp add: writer_run_4 Write_Packet_RingBuffer_def writer_step_def writer_call_def
          ring_mod_def ring_store_def Get_Packet_RingBuffer_Count_def Let_def)
  qed
qed

text \<open>The same for the read: at most five undisturbed reader steps return what
  \<open>Read_Packet_RingBuffer\<close> returns and leave the ring it leaves.\<close>

theorem reader_steps_are_the_read:
  assumes "ring_inv (shared s)" "rpc s = RIdle"
  shows "case Read_Packet_RingBuffer (shared s) (Some v) of
      Inl e \<Rightarrow> False
    | Inr (ret, out, r') \<Rightarrow> \<exists>k t. k \<le> 5 \<and> reader_run k s = Inr t \<and> rpc t = RIdle \<and> shared t = r' \<and>
        returned t = (if ret = E_RET_BUF_OK then returned s @ [the (the out)] else returned s)"
proof -
  let ?r = "shared s"
  note b = ring_invD [OF assms(1)]
  show ?thesis
  proof (cases "rread ?r = rwrite ?r")
    case True
    with b assms(2) have "reader_run 2 s = Inr s"
      by (cases s) (simp add: reader_run_2 reader_step_def Let_def)
    with True b assms(2) show ?thesis
      by (simp add: Read_Packet_RingBuffer_def) (intro exI [of _ 2], simp)
  next
    case False
    then have "ring_list ?r \<noteq> []" using ring_empty_iff [OF assms(1)] by simp
    then have "0 < ring_len ?r" by (metis length_ring_list length_greater_0_conv)
    then obtain x where "ring_slot ?r 0 = Some x" using ring_inv_slot [OF assms(1)] by blast
    then have x: "ring_load ?r (rread ?r) = Inr (Some x)"
      using b by (simp add: ring_slot_def ring_load_def)
    then have "reader_run 5 s = Inr (s\<lparr>rpc := RIdle, returned := returned s @ [x], shared :=
      ?r\<lparr>readCount := readCount ?r + 1, curCount := (rwrite ?r + bufferSize ?r - rread ?r) mod bufferSize ?r,
         rread := (rread ?r + 1) mod bufferSize ?r\<rparr>\<rparr>)"
      using False b assms(2)
      by (cases s) (simp add: reader_run_5 reader_step_def ring_load_def
          Get_Packet_RingBuffer_Count_def ring_mod_def Let_def)
    with x False b show ?thesis
      by (simp add: Read_Packet_RingBuffer_def Get_Packet_RingBuffer_Count_def ring_mod_def
          ring_load_def Let_def) (intro exI [of _ 5], simp)
  qed
qed

theorem spsc_fifo_order_witness:
  "spsc_reachable 2 (writer_call (7 :: nat) (spsc_init 2)) \<and>
   accepted (writer_call (7 :: nat) (spsc_init 2)) =
     returned (writer_call 7 (spsc_init 2)) @ ring_list (shared (writer_call 7 (spsc_init 2)))"
proof -
  have "spsc_reachable 2 (writer_call (7 :: nat) (spsc_init 2))"
    by (rule spsc_reachable.step [OF spsc_reachable.start spsc_step.call]) (simp add: spsc_init_def)
  with spsc_fifo_order [OF this] show ?thesis by simp
qed

theorem writer_steps_are_the_write_witness:
  "ring_inv (shared (spsc_init 4)) \<and>
   (case Write_Packet_RingBuffer (SrsRingBuffer 4) (Some (7 :: nat)) of
      Inl e \<Rightarrow> False
    | Inr (ret, r') \<Rightarrow> \<exists>t. writer_run 4 (writer_call 7 (spsc_init 4)) = Inr t \<and> shared t = r')"
  using writer_steps_are_the_write [of "spsc_init 4" "7 :: nat"]
  by (auto simp: spsc_init_def ring_inv_init split: sum.splits)

theorem reader_steps_are_the_read_witness:
  "ring_inv (shared (spsc_init 4 :: nat spsc)) \<and>
   (case Read_Packet_RingBuffer (SrsRingBuffer 4) (Some (Some (3 :: nat))) of
      Inl e \<Rightarrow> False
    | Inr (ret, out, r') \<Rightarrow> \<exists>k t. k \<le> 5 \<and> reader_run k (spsc_init 4) = Inr t \<and> shared t = r')"
  using reader_steps_are_the_read [of "spsc_init 4" "Some (3 :: nat)"]
  by (auto simp: spsc_init_def ring_inv_init split: sum.splits)

end
