(* ===== verification/Srs_Core_Time.thy ===== *)
theory Srs_Core_Time
  imports Srs_Prelude
begin

section \<open>Time units and the cached system clock\<close>

text \<open>
  core/srs_core_time.hpp and .cpp (units, \<open>srs_duration\<close>) and the clock of
  core/srs_kernel_utility.cpp: two globals, the cached time and the startup time, both 0
  before the first update.  The answer of \<open>gettimeofday\<close> is a parameter of the update:
  \<open>None\<close> when the call fails, else seconds and microseconds.  Times are \<open>int64_t\<close>
  microseconds, modelled as \<open>int\<close>.
\<close>

type_synonym srs_utime_t = int

definition SRS_UTIME_MILLISECONDS :: srs_utime_t where "SRS_UTIME_MILLISECONDS = 1000"
definition SRS_UTIME_SECONDS :: srs_utime_t where "SRS_UTIME_SECONDS = 1000000"
definition SRS_UTIME_MINUTES :: srs_utime_t where "SRS_UTIME_MINUTES = 60000000"
definition SRS_UTIME_HOURS :: srs_utime_t where "SRS_UTIME_HOURS = 3600000000"
definition SRS_UTIME_NO_TIMEOUT :: srs_utime_t where "SRS_UTIME_NO_TIMEOUT = -1"

definition srsu2ms :: "srs_utime_t \<Rightarrow> int" where
  "srsu2ms us = us sdiv SRS_UTIME_MILLISECONDS"

definition srsu2msi :: "srs_utime_t \<Rightarrow> int" where
  "srsu2msi us = int32 (us sdiv SRS_UTIME_MILLISECONDS)"

definition srs_is_never_timeout :: "srs_utime_t \<Rightarrow> bool" where
  "srs_is_never_timeout tm \<longleftrightarrow> tm = SRS_UTIME_NO_TIMEOUT"

definition srs_duration :: "srs_utime_t \<Rightarrow> srs_utime_t \<Rightarrow> srs_utime_t" where
  "srs_duration start fin = (if start = 0 \<or> fin = 0 then 0 else fin - start)"

definition srs_max :: "int \<Rightarrow> int \<Rightarrow> int" where
  "srs_max a b = (if a < b then b else a)"

definition srs_min :: "int \<Rightarrow> int \<Rightarrow> int" where
  "srs_min a b = (if a < b then a else b)"

lemma srs_max_eq [simp]: "srs_max a b = max a b" by (simp add: srs_max_def max_def)
lemma srs_min_eq [simp]: "srs_min a b = min a b" by (simp add: srs_min_def min_def)

text \<open>\<open>1000 * SYS_TIME_RESOLUTION_US\<close>, the macro being \<open>300*1000\<close> without parentheses.\<close>

definition clock_jump_limit :: int where "clock_jump_limit = 1000 * 300 * 1000"

record srs_clock =
  us_cache :: srs_utime_t
  startup_time :: srs_utime_t

definition clock_init :: srs_clock where
  "clock_init = \<lparr>us_cache = 0, startup_time = 0\<rparr>"

type_synonym timeval = "int \<times> int"

definition timeval_us :: "timeval \<Rightarrow> int" where
  "timeval_us tv = fst tv * 1000 * 1000 + snd tv"

text \<open>The result is the returned time, the new clock, and whether the clock jump is warned of.\<close>

definition srs_update_system_time :: "timeval option \<Rightarrow> srs_clock \<Rightarrow> srs_utime_t \<times> srs_clock \<times> bool" where
  "srs_update_system_time tod c = (case tod of
     None \<Rightarrow> (-1, c, False)
   | Some tv \<Rightarrow>
       let now_us = timeval_us tv in
       if us_cache c \<le> 0 then (now_us, c\<lparr>startup_time := now_us, us_cache := now_us\<rparr>, False)
       else
         let diff = now_us - us_cache c; diff = srs_max 0 diff;
             jump = (diff < 0 \<or> diff > clock_jump_limit);
             c = (if jump then c\<lparr>startup_time := startup_time c + diff\<rparr> else c);
             c = c\<lparr>us_cache := now_us\<rparr>
         in (us_cache c, c, jump))"

definition srs_get_system_time :: "timeval option \<Rightarrow> srs_clock \<Rightarrow> srs_utime_t \<times> srs_clock" where
  "srs_get_system_time tod c =
     (let c = (if us_cache c \<le> 0 then fst (snd (srs_update_system_time tod c)) else c) in (us_cache c, c))"

definition srs_get_system_startup_time :: "timeval option \<Rightarrow> srs_clock \<Rightarrow> srs_utime_t \<times> srs_clock" where
  "srs_get_system_startup_time tod c =
     (let c = (if startup_time c \<le> 0 then fst (snd (srs_update_system_time tod c)) else c)
      in (startup_time c, c))"

subsection \<open>Properties\<close>

definition uptime :: "srs_clock \<Rightarrow> int" where
  "uptime c = us_cache c - startup_time c"

text \<open>The times a sequence of \<open>gettimeofday\<close> answers shows.\<close>

fun wall_times :: "timeval option list \<Rightarrow> int list" where
  "wall_times [] = []"
| "wall_times (None # tods) = wall_times tods"
| "wall_times (Some tv # tods) = timeval_us tv # wall_times tods"

definition clock_set :: "timeval option \<Rightarrow> srs_clock \<Rightarrow> srs_clock" where
  "clock_set tod c = fst (snd (srs_update_system_time tod c))"

lemma clock_set_running:
  "0 < us_cache c \<Longrightarrow> clock_set (Some tv) c =
     c\<lparr>us_cache := timeval_us tv,
       startup_time := startup_time c +
         (if timeval_us tv - us_cache c > clock_jump_limit then timeval_us tv - us_cache c else 0)\<rparr>"
  by (cases c) (simp add: clock_set_def srs_update_system_time_def Let_def clock_jump_limit_def)

lemma clock_set_None [simp]: "clock_set None c = c"
  by (simp add: clock_set_def srs_update_system_time_def)

lemma srs_get_system_startup_time_running:
  "0 < startup_time c \<Longrightarrow> srs_get_system_startup_time tod c = (startup_time c, c)"
  by (simp add: srs_get_system_startup_time_def)

text \<open>While the wall clock does not go back, a sequence of clock updates of any length
  (failed calls included) keeps the startup time at or before the cached time, never moves the
  startup time back, and each of them advances the uptime by between 0 and 300 seconds, so that a
  jump forward is absorbed by the startup time.\<close>

theorem clock_updates_bounded_uptime:
  assumes "0 < us_cache c" "startup_time c \<le> us_cache c"
    and "sorted (us_cache c # wall_times tods)"
  shows "startup_time c \<le> startup_time (fold clock_set tods c) \<and>
    startup_time (fold clock_set tods c) \<le> us_cache (fold clock_set tods c) \<and>
    uptime c \<le> uptime (fold clock_set tods c) \<and>
    uptime (fold clock_set tods c) \<le> uptime c + int (length tods) * 300 * SRS_UTIME_SECONDS"
  using assms
proof (induction tods arbitrary: c)
  case Nil
  then show ?case by simp
next
  case (Cons tod tods)
  show ?case
  proof (cases tod)
    case None
    with Cons.IH [OF Cons.prems(1,2)] Cons.prems(3) show ?thesis
      by (simp add: SRS_UTIME_SECONDS_def)
  next
    case (Some tv)
    let ?c = "clock_set tod c"
    from Cons.prems Some have le: "us_cache c \<le> timeval_us tv"
      and rest: "sorted (timeval_us tv # wall_times tods)"
      by simp_all
    have c: "us_cache ?c = timeval_us tv" "startup_time c \<le> startup_time ?c"
      "startup_time ?c \<le> us_cache ?c" "uptime c \<le> uptime ?c"
      "uptime ?c \<le> uptime c + 300 * SRS_UTIME_SECONDS"
      using Cons.prems(1,2) le
      by (auto simp: Some clock_set_running uptime_def clock_jump_limit_def SRS_UTIME_SECONDS_def)
    have "0 < us_cache ?c" using c(1) le Cons.prems(1) by simp
    from Cons.IH [OF this c(3)] rest c show ?thesis by (simp add: algebra_simps)
  qed
qed

text \<open>When the wall clock goes back the update takes the new time but leaves the startup time:
  the test \<open>diff < 0\<close> is dead, because \<open>diff\<close> was just raised to 0, so no clock jump is
  reported and the uptime shrinks by the whole jump.\<close>

theorem clock_going_back_is_not_a_jump:
  assumes "0 < us_cache c" "timeval_us tv < us_cache c"
  shows "srs_update_system_time (Some tv) c = (timeval_us tv, c\<lparr>us_cache := timeval_us tv\<rparr>, False) \<and>
    uptime (clock_set (Some tv) c) = uptime c - (us_cache c - timeval_us tv)"
  using assms by (simp add: srs_update_system_time_def clock_set_def uptime_def Let_def clock_jump_limit_def)

theorem clock_going_back_is_not_a_jump_witness:
  "srs_update_system_time (Some (1, 0)) \<lparr>us_cache = 2000000, startup_time = 2000000\<rparr> =
     (1000000, \<lparr>us_cache = 1000000, startup_time = 2000000\<rparr>, False)"
  using clock_going_back_is_not_a_jump [of "\<lparr>us_cache = 2000000, startup_time = 2000000\<rparr>" "(1, 0)"]
  by (simp add: timeval_us_def)

theorem clock_updates_bounded_uptime_witness:
  "startup_time (fold clock_set [Some (2, 0), None, Some (1000, 5)] \<lparr>us_cache = 1, startup_time = 1\<rparr>)
     \<le> us_cache (fold clock_set [Some (2, 0), None, Some (1000, 5)] \<lparr>us_cache = 1, startup_time = 1\<rparr>)"
  using clock_updates_bounded_uptime
    [of "\<lparr>us_cache = 1, startup_time = 1\<rparr>" "[Some (2, 0), None, Some (1000, 5)]"]
  by (simp add: timeval_us_def)

end
