(* ===== verification/Srs_App_Condition.thy ===== *)
theory Srs_App_Condition
  imports Srs_App_Ringbuf Srs_Core_Time
begin

section \<open>The condition object (core/srs_app_stcondition.hpp)\<close>

text \<open>
  \<open>StCondition<T, N>\<close>: \<open>notify\<close> allocates a \<open>T\<close> and writes it to the ring, \<open>wait\<close> polls the ring,
  sleeping 10 ms and yielding between two polls.  The state is the ring, the process clock
  (\<open>wait\<close> with a timeout reads it) and the answer \<open>gettimeofday\<close> would give.  What the other
  coroutines and threads do during one sleep is one function on that state; a list of them
  is the environment of a wait, and \<open>None\<close> says the wait is still polling at its end.
\<close>

record 'a cond_state =
  notify_ringbuf :: "'a ringbuf"
  cond_clock :: srs_clock
  wall :: "timeval option"

definition StCondition :: "u32 \<Rightarrow> srs_clock \<Rightarrow> timeval option \<Rightarrow> 'a cond_state" where
  "StCondition N c tod = \<lparr>notify_ringbuf = SrsRingBuffer N, cond_clock = c, wall = tod\<rparr>"

text \<open>\<open>notify\<close> ignores what the write answers.\<close>

definition cond_notify :: "'a \<Rightarrow> 'a cond_state \<Rightarrow> 'a cond_state outcome" where
  "cond_notify pkg s =
     rbind (Write_Packet_RingBuffer (notify_ringbuf s) (Some pkg)) (\<lambda>(ret, r).
       Inr (s\<lparr>notify_ringbuf := r\<rparr>))"

text \<open>A finished wait: its answer, the packet it deletes, and the state.\<close>

type_synonym 'a wait_result = "int \<times> 'a option \<times> 'a cond_state"

fun cond_wait ::
  "('a cond_state \<Rightarrow> 'a cond_state) list \<Rightarrow> 'a option \<Rightarrow> 'a cond_state \<Rightarrow> 'a wait_result outcome option" where
  "cond_wait envs notify_pkg s =
     (case Read_Packet_RingBuffer (notify_ringbuf s) (Some notify_pkg) of
        Inl e \<Rightarrow> Some (Inl e)
      | Inr (ret, out, r) \<Rightarrow>
          let s = s\<lparr>notify_ringbuf := r\<rparr> in
          if ret = E_RET_BUF_OK then Some (Inr (0, the out, s))
          else (case envs of [] \<Rightarrow> None | env # envs' \<Rightarrow> cond_wait envs' (the out) (env s)))"

fun cond_timedwait_loop ::
  "srs_utime_t \<Rightarrow> srs_utime_t \<Rightarrow> ('a cond_state \<Rightarrow> 'a cond_state) list \<Rightarrow> 'a option \<Rightarrow> 'a cond_state \<Rightarrow>
   'a wait_result outcome option" where
  "cond_timedwait_loop timeout us_beg envs notify_pkg s =
     (case Read_Packet_RingBuffer (notify_ringbuf s) (Some notify_pkg) of
        Inl e \<Rightarrow> Some (Inl e)
      | Inr (ret, out, r) \<Rightarrow>
          let s = s\<lparr>notify_ringbuf := r\<rparr> in
          if ret = E_RET_BUF_OK then Some (Inr (0, the out, s))
          else
            let (now, c) = srs_get_system_startup_time (wall s) (cond_clock s); s = s\<lparr>cond_clock := c\<rparr> in
            if now - us_beg \<ge> timeout then Some (Inr (-1, None, s))
            else (case envs of [] \<Rightarrow> None
                  | env # envs' \<Rightarrow> cond_timedwait_loop timeout us_beg envs' (the out) (env s)))"

definition cond_timedwait ::
  "srs_utime_t \<Rightarrow> ('a cond_state \<Rightarrow> 'a cond_state) list \<Rightarrow> 'a cond_state \<Rightarrow> 'a wait_result outcome option" where
  "cond_timedwait timeout envs s =
     (let (us_beg, c) = srs_get_system_startup_time (wall s) (cond_clock s)
      in cond_timedwait_loop timeout us_beg envs None (s\<lparr>cond_clock := c\<rparr>))"

declare cond_wait.simps [simp del] cond_timedwait_loop.simps [simp del]

subsection \<open>Notify and wait through the contract of the queue\<close>

abbreviation cond_ok :: "'a cond_state \<Rightarrow> bool" where
  "cond_ok s \<equiv> ring_inv (notify_ringbuf s)"

abbreviation pending :: "'a cond_state \<Rightarrow> 'a list" where
  "pending s \<equiv> ring_list (notify_ringbuf s)"

lemma cond_notify_eq:
  assumes "cond_ok s"
  shows "cond_notify x s = Inr (s\<lparr>notify_ringbuf := snd (ring_put (notify_ringbuf s) x)\<rparr>)"
proof -
  from ring_invD [OF assms] obtain ret r'
    where "Write_Packet_RingBuffer (notify_ringbuf s) (Some x) = Inr (ret, r')"
    using Write_full [OF assms] Write_ok [OF assms] by (metis (no_types))
  then show ?thesis by (simp add: cond_notify_def ring_put_def)
qed

lemma cond_wait_pending:
  assumes "cond_ok s" "pending s = x # xs"
  shows "\<exists>r. cond_wait envs p s = Some (Inr (0, Some x, s\<lparr>notify_ringbuf := r\<rparr>)) \<and>
    ring_inv r \<and> ring_list r = xs"
proof -
  obtain r where "Read_Packet_RingBuffer (notify_ringbuf s) (Some p) = Inr (E_RET_BUF_OK, Some (Some x), r)"
    "ring_inv r" "ring_list r = xs" by (rule Read_ok [OF assms])
  then show ?thesis by (simp add: cond_wait.simps [of envs p s] Let_def) blast
qed

lemma cond_wait_none_pending:
  "cond_ok s \<Longrightarrow> pending s = [] \<Longrightarrow>
   cond_wait envs p s = (case envs of [] \<Rightarrow> None | env # envs' \<Rightarrow> cond_wait envs' p (env s))"
  by (simp add: cond_wait.simps [of envs p s] Read_empty Let_def split: list.splits)

lemma cond_timedwait_loop_none_pending:
  "cond_ok s \<Longrightarrow> pending s = [] \<Longrightarrow> 0 < startup_time (cond_clock s) \<Longrightarrow>
   startup_time (cond_clock s) - us_beg < timeout \<Longrightarrow>
   cond_timedwait_loop timeout us_beg envs p s =
     (case envs of [] \<Rightarrow> None | env # envs' \<Rightarrow> cond_timedwait_loop timeout us_beg envs' p (env s))"
  by (simp add: cond_timedwait_loop.simps [of timeout us_beg envs p s] Read_empty
      srs_get_system_startup_time_running Let_def split: list.splits)

text \<open>An environment step that neither notifies nor takes.\<close>

definition env_idle :: "('a cond_state \<Rightarrow> 'a cond_state) \<Rightarrow> bool" where
  "env_idle env \<longleftrightarrow> (\<forall>s. notify_ringbuf (env s) = notify_ringbuf s)"

definition env_notify :: "'a \<Rightarrow> 'a cond_state \<Rightarrow> 'a cond_state" where
  "env_notify x s = (case cond_notify x s of Inl e \<Rightarrow> s | Inr s' \<Rightarrow> s')"

text \<open>Ten milliseconds go by, and the clock is updated as its refreshing timer does.\<close>

definition sleep_10ms :: "'a cond_state \<Rightarrow> 'a cond_state" where
  "sleep_10ms s = (let tod = map_option (\<lambda>(sec, us). (sec, us + 10 * 1000)) (wall s)
     in s\<lparr>wall := tod, cond_clock := clock_set tod (cond_clock s)\<rparr>)"

subsection \<open>Properties\<close>

text \<open>A wait that starts with nothing pending, whose environment stays idle for any number of
  sleeps and then notifies, returns 0 at the poll after the notification, having taken exactly the
  notified packet.\<close>

theorem cond_wait_sees_notify:
  assumes "cond_ok s" "pending s = []" "0 < ring_room (notify_ringbuf s)" "list_all env_idle idles"
  shows "\<exists>s'. cond_wait (idles @ env_notify x # envs) None s = Some (Inr (0, Some x, s')) \<and>
    cond_ok s' \<and> pending s' = []"
  using assms
proof (induction idles arbitrary: s)
  case Nil
  let ?s = "env_notify x s"
  have "cond_ok ?s" "pending ?s = [x]"
    using Nil.prems by (simp_all add: env_notify_def cond_notify_eq ring.put_inv ring.put_empty)
  from cond_wait_pending [OF this] obtain r where
    "cond_wait envs None ?s = Some (Inr (0, Some x, ?s\<lparr>notify_ringbuf := r\<rparr>))"
    "ring_inv r" "ring_list r = []" by blast
  with Nil.prems show ?case by (simp add: cond_wait_none_pending)
next
  case (Cons env idles)
  from Cons.prems have "notify_ringbuf (env s) = notify_ringbuf s" by (simp add: env_idle_def)
  with Cons show ?case by (simp add: cond_wait_none_pending)
qed

text \<open>Notifications are counted, not merged: as many as the ring has room for are each kept
  until a wait takes them, in order, so a notify before the wait is not lost; one notify more is
  dropped without a trace in what waits can see.\<close>

theorem cond_notify_counts:
  assumes "cond_ok s"
  shows "\<exists>s'. cond_notify x s = Inr s' \<and> cond_ok s' \<and>
    pending s' = (if length (pending s) < ring_room (notify_ringbuf s) then pending s @ [x] else pending s) \<and>
    (case pending s' of [] \<Rightarrow> True
     | y # ys \<Rightarrow> \<exists>r. cond_wait [] None s' = Some (Inr (0, Some y, s'\<lparr>notify_ringbuf := r\<rparr>)) \<and>
         ring_inv r \<and> ring_list r = ys)"
  using assms cond_wait_pending [of "s\<lparr>notify_ringbuf := snd (ring_put (notify_ringbuf s) x)\<rparr>" _ _ "[]" None]
  by (auto simp: cond_notify_eq ring_put_spec split: list.splits)

lemma sleep_10ms_keeps:
  assumes "0 < us_cache (cond_clock s)" "wall s = Some tv" "timeval_us tv = us_cache (cond_clock s)"
  shows "notify_ringbuf (sleep_10ms s) = notify_ringbuf s"
    "startup_time (cond_clock (sleep_10ms s)) = startup_time (cond_clock s)"
    "wall (sleep_10ms s) = Some (fst tv, snd tv + 10000)"
    "us_cache (cond_clock (sleep_10ms s)) = us_cache (cond_clock s) + 10000"
  using assms
  by (simp_all add: sleep_10ms_def Let_def case_prod_beta clock_set_running timeval_us_def clock_jump_limit_def)

text \<open>The wait with a timeout never times out: it compares the startup time of the process with
  itself.  However long it polls while the clock runs at ten milliseconds a sleep and nobody
  notifies, it has not returned, whatever the positive timeout.\<close>

theorem cond_timedwait_never_times_out:
  assumes "cond_ok s" "pending s = []" "0 < timeout"
    and "0 < startup_time (cond_clock s)" "0 < us_cache (cond_clock s)"
    and "wall s = Some tv" "timeval_us tv = us_cache (cond_clock s)"
  shows "cond_timedwait timeout (replicate n sleep_10ms) s = None"
proof -
  have "cond_timedwait_loop timeout (startup_time (cond_clock s)) (replicate n sleep_10ms) None s = None"
    using assms
  proof (induction n arbitrary: s tv)
    case 0
    then show ?case by (simp add: cond_timedwait_loop_none_pending)
  next
    case (Suc n)
    note k = sleep_10ms_keeps [OF Suc.prems(5-7)]
    have "cond_timedwait_loop timeout (startup_time (cond_clock s)) (replicate n sleep_10ms) None (sleep_10ms s)
      = None"
      using Suc.IH [of "sleep_10ms s" "(fst tv, snd tv + 10000)"] Suc.prems
      by (simp add: k timeval_us_def)
    with Suc.prems show ?case by (simp add: cond_timedwait_loop_none_pending)
  qed
  with assms(4) show ?thesis
    by (simp add: cond_timedwait_def srs_get_system_startup_time_running)
qed

theorem cond_wait_sees_notify_witness:
  "\<exists>s'. cond_wait ([id, id] @ env_notify (5 :: nat) # []) None (StCondition 1024 clock_init None) =
    Some (Inr (0, Some 5, s')) \<and> pending s' = []"
  using cond_wait_sees_notify [of "StCondition 1024 clock_init None" "[id, id]" "5 :: nat" "[]"]
  by (auto simp: StCondition_def ring_inv_init ring_list_init ring_room_def ring_size_init env_idle_def)

theorem cond_notify_counts_witness:
  "\<exists>s'. cond_notify (5 :: nat) (StCondition 1024 clock_init None) = Inr s' \<and> pending s' = [5]"
  using cond_notify_counts [of "StCondition 1024 clock_init None" "5 :: nat"]
  by (auto simp: StCondition_def ring_inv_init ring_list_init ring_room_def ring_size_init
      arg_cong [OF ring_list_init, of length, simplified])

theorem cond_timedwait_never_times_out_witness:
  "cond_timedwait 50000 (replicate 1000 sleep_10ms)
     (StCondition 1024 \<lparr>us_cache = 7000000, startup_time = 7000000\<rparr> (Some (7, 0)) :: nat cond_state) = None"
  using cond_timedwait_never_times_out [of "StCondition 1024 \<lparr>us_cache = 7000000, startup_time = 7000000\<rparr>
      (Some (7, 0)) :: nat cond_state" 50000 "(7, 0)" 1000]
  by (simp add: StCondition_def ring_inv_init ring_list_init timeval_us_def)

end
