(* ===== verification/Srs_Kernel_Buffer.thy ===== *)
theory Srs_Kernel_Buffer
  imports Srs_Prelude
begin

unbundle bit_operations_syntax

section \<open>The byte buffer and the bit buffer (core/srs_kernel_buffer.cpp)\<close>

text \<open>
  \<open>SrsBuffer\<close> is a cursor into memory it does not own.  Memory is a map from addresses to
  bytes, pointers are addresses with 0 for \<open>NULL\<close>, so that copies of a buffer share their
  bytes as in the code.  The conversions go through the bytes of an integer in memory
  (\<open>char* pp = (char*)&value\<close>), least significant first on the little-endian targets the
  build supports (x86-64, aarch64).
\<close>

subsection \<open>Memory and the cursor\<close>

type_synonym heap = "int \<Rightarrow> byte option"

record srs_buffer =
  buf_p :: int
  buf_bytes :: int
  nb_bytes :: int

definition SrsBuffer :: "int \<Rightarrow> int \<Rightarrow> srs_buffer" where
  "SrsBuffer b nn = \<lparr>buf_p = b, buf_bytes = b, nb_bytes = nn\<rparr>"

definition buffer_copy :: "srs_buffer \<Rightarrow> srs_buffer" where
  "buffer_copy b = (SrsBuffer (buf_bytes b) (nb_bytes b))\<lparr>buf_p := buf_p b\<rparr>"

definition buffer_data :: "srs_buffer \<Rightarrow> int" where "buffer_data b = buf_bytes b"
definition buffer_head :: "srs_buffer \<Rightarrow> int" where "buffer_head b = buf_p b"
definition buffer_size :: "srs_buffer \<Rightarrow> int" where "buffer_size b = nb_bytes b"

definition set_size :: "int \<Rightarrow> srs_buffer \<Rightarrow> srs_buffer" where
  "set_size v b = b\<lparr>nb_bytes := v\<rparr>"

definition buffer_pos :: "srs_buffer \<Rightarrow> int" where
  "buffer_pos b = int32 (buf_p b - buf_bytes b)"

definition buffer_left :: "srs_buffer \<Rightarrow> int" where
  "buffer_left b = nb_bytes b - int32 (buf_p b - buf_bytes b)"

definition buffer_empty :: "srs_buffer \<Rightarrow> bool" where
  "buffer_empty b \<longleftrightarrow> buf_bytes b = 0 \<or> buf_p b \<ge> buf_bytes b + nb_bytes b"

definition require :: "srs_buffer \<Rightarrow> int \<Rightarrow> bool" where
  "require b required_size =
     (if required_size < 0 then False else required_size \<le> nb_bytes b - (buf_p b - buf_bytes b))"

definition skip :: "int \<Rightarrow> srs_buffer \<Rightarrow> srs_buffer outcome" where
  "skip sz b =
     rbind (srs_assert (buf_p b \<noteq> 0)) (\<lambda>_.
     rbind (srs_assert (buf_p b + sz \<ge> buf_bytes b)) (\<lambda>_.
     rbind (srs_assert (buf_p b + sz \<le> buf_bytes b + nb_bytes b)) (\<lambda>_.
       Inr (b\<lparr>buf_p := buf_p b + sz\<rparr>))))"

text \<open>\<open>*p++\<close> as a value, and \<open>*p++ = v\<close>, a number of times.\<close>

definition next_byte :: "heap \<Rightarrow> srs_buffer \<Rightarrow> (byte \<times> srs_buffer) outcome" where
  "next_byte h b = (case h (buf_p b) of None \<Rightarrow> Inl Bad_access
     | Some v \<Rightarrow> Inr (v, b\<lparr>buf_p := buf_p b + 1\<rparr>))"

fun next_bytes :: "nat \<Rightarrow> heap \<Rightarrow> srs_buffer \<Rightarrow> (byte list \<times> srs_buffer) outcome" where
  "next_bytes 0 h b = Inr ([], b)"
| "next_bytes (Suc n) h b =
     rbind (next_byte h b) (\<lambda>(v, b). rbind (next_bytes n h b) (\<lambda>(vs, b). Inr (v # vs, b)))"

definition put_byte :: "heap \<Rightarrow> srs_buffer \<Rightarrow> byte \<Rightarrow> (heap \<times> srs_buffer) outcome" where
  "put_byte h b v = (case h (buf_p b) of None \<Rightarrow> Inl Bad_access
     | Some _ \<Rightarrow> Inr (h(buf_p b \<mapsto> v), b\<lparr>buf_p := buf_p b + 1\<rparr>))"

fun put_bytes :: "heap \<Rightarrow> srs_buffer \<Rightarrow> byte list \<Rightarrow> (heap \<times> srs_buffer) outcome" where
  "put_bytes h b [] = Inr (h, b)"
| "put_bytes h b (v # vs) = rbind (put_byte h b v) (\<lambda>(h, b). put_bytes h b vs)"

text \<open>An integer from its bytes in memory, and the first \<open>n\<close> of its bytes.\<close>

definition le_value :: "byte list \<Rightarrow> 'a::len word" where
  "le_value pp = word_of_int (horner_sum uint 256 pp)"

definition le_bytes :: "nat \<Rightarrow> 'a::len word \<Rightarrow> byte list" where
  "le_bytes n v = map (\<lambda>i. ucast (drop_bit (8 * i) v)) [0..<n]"

subsection \<open>Reading\<close>

definition read_1bytes :: "heap \<Rightarrow> srs_buffer \<Rightarrow> (byte \<times> srs_buffer) outcome" where
  "read_1bytes h b = rbind (srs_assert (require b 1)) (\<lambda>_. next_byte h b)"

definition read_2bytes :: "heap \<Rightarrow> srs_buffer \<Rightarrow> (16 word \<times> srs_buffer) outcome" where
  "read_2bytes h b = rbind (srs_assert (require b 2)) (\<lambda>_.
     rbind (next_bytes 2 h b) (\<lambda>(pp, b). Inr (le_value (rev pp), b)))"

definition read_le2bytes :: "heap \<Rightarrow> srs_buffer \<Rightarrow> (16 word \<times> srs_buffer) outcome" where
  "read_le2bytes h b = rbind (srs_assert (require b 2)) (\<lambda>_.
     rbind (next_bytes 2 h b) (\<lambda>(pp, b). Inr (le_value pp, b)))"

definition read_3bytes :: "heap \<Rightarrow> srs_buffer \<Rightarrow> (32 word \<times> srs_buffer) outcome" where
  "read_3bytes h b = rbind (srs_assert (require b 3)) (\<lambda>_.
     rbind (next_bytes 3 h b) (\<lambda>(pp, b). Inr (le_value (rev pp @ [0]), b)))"

definition read_le3bytes :: "heap \<Rightarrow> srs_buffer \<Rightarrow> (32 word \<times> srs_buffer) outcome" where
  "read_le3bytes h b = rbind (srs_assert (require b 3)) (\<lambda>_.
     rbind (next_bytes 3 h b) (\<lambda>(pp, b). Inr (le_value (pp @ [0]), b)))"

definition read_4bytes :: "heap \<Rightarrow> srs_buffer \<Rightarrow> (32 word \<times> srs_buffer) outcome" where
  "read_4bytes h b = rbind (srs_assert (require b 4)) (\<lambda>_.
     rbind (next_bytes 4 h b) (\<lambda>(pp, b). Inr (le_value (rev pp), b)))"

definition read_le4bytes :: "heap \<Rightarrow> srs_buffer \<Rightarrow> (32 word \<times> srs_buffer) outcome" where
  "read_le4bytes h b = rbind (srs_assert (require b 4)) (\<lambda>_.
     rbind (next_bytes 4 h b) (\<lambda>(pp, b). Inr (le_value pp, b)))"

definition read_8bytes :: "heap \<Rightarrow> srs_buffer \<Rightarrow> (64 word \<times> srs_buffer) outcome" where
  "read_8bytes h b = rbind (srs_assert (require b 8)) (\<lambda>_.
     rbind (next_bytes 8 h b) (\<lambda>(pp, b). Inr (le_value (rev pp), b)))"

definition read_le8bytes :: "heap \<Rightarrow> srs_buffer \<Rightarrow> (64 word \<times> srs_buffer) outcome" where
  "read_le8bytes h b = rbind (srs_assert (require b 8)) (\<lambda>_.
     rbind (next_bytes 8 h b) (\<lambda>(pp, b). Inr (le_value pp, b)))"

definition read_string :: "int \<Rightarrow> heap \<Rightarrow> srs_buffer \<Rightarrow> (byte list \<times> srs_buffer) outcome" where
  "read_string len h b = rbind (srs_assert (require b len)) (\<lambda>_. next_bytes (nat len) h b)"

text \<open>\<open>memcpy\<close> to and from another pointer.\<close>

definition read_bytes :: "int \<Rightarrow> int \<Rightarrow> heap \<Rightarrow> srs_buffer \<Rightarrow> (heap \<times> srs_buffer) outcome" where
  "read_bytes data sz h b = rbind (srs_assert (require b sz)) (\<lambda>_.
     rbind (next_bytes (nat sz) h b) (\<lambda>(vs, b').
     rbind (put_bytes h (SrsBuffer data sz) vs) (\<lambda>(h, _). Inr (h, b'))))"

subsection \<open>Writing\<close>

definition write_1bytes :: "heap \<Rightarrow> srs_buffer \<Rightarrow> byte \<Rightarrow> (heap \<times> srs_buffer) outcome" where
  "write_1bytes h b v = rbind (srs_assert (require b 1)) (\<lambda>_. put_byte h b v)"

definition write_2bytes :: "heap \<Rightarrow> srs_buffer \<Rightarrow> 16 word \<Rightarrow> (heap \<times> srs_buffer) outcome" where
  "write_2bytes h b v = rbind (srs_assert (require b 2)) (\<lambda>_. put_bytes h b (rev (le_bytes 2 v)))"

definition write_le2bytes :: "heap \<Rightarrow> srs_buffer \<Rightarrow> 16 word \<Rightarrow> (heap \<times> srs_buffer) outcome" where
  "write_le2bytes h b v = rbind (srs_assert (require b 2)) (\<lambda>_. put_bytes h b (le_bytes 2 v))"

definition write_4bytes :: "heap \<Rightarrow> srs_buffer \<Rightarrow> 32 word \<Rightarrow> (heap \<times> srs_buffer) outcome" where
  "write_4bytes h b v = rbind (srs_assert (require b 4)) (\<lambda>_. put_bytes h b (rev (le_bytes 4 v)))"

definition write_le4bytes :: "heap \<Rightarrow> srs_buffer \<Rightarrow> 32 word \<Rightarrow> (heap \<times> srs_buffer) outcome" where
  "write_le4bytes h b v = rbind (srs_assert (require b 4)) (\<lambda>_. put_bytes h b (le_bytes 4 v))"

definition write_3bytes :: "heap \<Rightarrow> srs_buffer \<Rightarrow> 32 word \<Rightarrow> (heap \<times> srs_buffer) outcome" where
  "write_3bytes h b v = rbind (srs_assert (require b 3)) (\<lambda>_. put_bytes h b (rev (le_bytes 3 v)))"

definition write_le3bytes :: "heap \<Rightarrow> srs_buffer \<Rightarrow> 32 word \<Rightarrow> (heap \<times> srs_buffer) outcome" where
  "write_le3bytes h b v = rbind (srs_assert (require b 3)) (\<lambda>_. put_bytes h b (le_bytes 3 v))"

definition write_8bytes :: "heap \<Rightarrow> srs_buffer \<Rightarrow> 64 word \<Rightarrow> (heap \<times> srs_buffer) outcome" where
  "write_8bytes h b v = rbind (srs_assert (require b 8)) (\<lambda>_. put_bytes h b (rev (le_bytes 8 v)))"

definition write_le8bytes :: "heap \<Rightarrow> srs_buffer \<Rightarrow> 64 word \<Rightarrow> (heap \<times> srs_buffer) outcome" where
  "write_le8bytes h b v = rbind (srs_assert (require b 8)) (\<lambda>_. put_bytes h b (le_bytes 8 v))"

definition write_string :: "heap \<Rightarrow> srs_buffer \<Rightarrow> byte list \<Rightarrow> (heap \<times> srs_buffer) outcome" where
  "write_string h b v =
     rbind (srs_assert (require b (int32 (int (length v))))) (\<lambda>_. put_bytes h b v)"

definition write_bytes :: "heap \<Rightarrow> srs_buffer \<Rightarrow> int \<Rightarrow> int \<Rightarrow> (heap \<times> srs_buffer) outcome" where
  "write_bytes h b data sz = rbind (srs_assert (require b sz)) (\<lambda>_.
     rbind (next_bytes (nat sz) h (SrsBuffer data sz)) (\<lambda>(vs, _). put_bytes h b vs))"

subsection \<open>The bit buffer\<close>

record srs_bitbuffer =
  cb :: byte
  cb_left :: "8 word"
  stream :: srs_buffer

definition SrsBitBuffer :: "srs_buffer \<Rightarrow> srs_bitbuffer" where
  "SrsBitBuffer b = \<lparr>cb = 0, cb_left = 0, stream = b\<rparr>"

definition bitbuffer_empty :: "srs_bitbuffer \<Rightarrow> bool" where
  "bitbuffer_empty bb = (if cb_left bb \<noteq> 0 then False else buffer_empty (stream bb))"

text \<open>\<open>cb >> n\<close> shifts the sign-extended \<open>int\<close>.\<close>

definition read_bit :: "heap \<Rightarrow> srs_bitbuffer \<Rightarrow> (byte \<times> srs_bitbuffer) outcome" where
  "read_bit h bb =
     rbind (if cb_left bb = 0 then
              rbind (srs_assert (\<not> buffer_empty (stream bb))) (\<lambda>_.
              rbind (read_1bytes h (stream bb)) (\<lambda>(v, st).
                Inr (bb\<lparr>cb := v, cb_left := 8, stream := st\<rparr>)))
            else Inr bb) (\<lambda>bb.
       let v = ucast (signed_drop_bit (unat (cb_left bb) - 1) (scast (cb bb) :: 32 word) AND 1)
       in Inr (v, bb\<lparr>cb_left := cb_left bb - 1\<rparr>))"

fun read_bits :: "nat \<Rightarrow> heap \<Rightarrow> srs_bitbuffer \<Rightarrow> (byte list \<times> srs_bitbuffer) outcome" where
  "read_bits 0 h bb = Inr ([], bb)"
| "read_bits (Suc n) h bb =
     rbind (read_bit h bb) (\<lambda>(v, bb). rbind (read_bits n h bb) (\<lambda>(vs, bb). Inr (v # vs, bb)))"

subsection \<open>Integers and their bytes\<close>

lemma length_le_bytes [simp]: "length (le_bytes n v) = n"
  by (simp add: le_bytes_def)

lemma uint_byte_of: "uint (ucast (drop_bit k v) :: byte) = take_bit 8 (drop_bit k (uint v))"
  by (rule bit_eqI) (auto simp: bit_simps bit_uint_iff)

lemma horner_bytes_int:
  "horner_sum (\<lambda>i. take_bit 8 (drop_bit (8 * i) k)) 256 [0..<n] = take_bit (8 * n) (k :: int)"
proof (induction n)
  case 0
  then show ?case by simp
next
  case (Suc n)
  have "k mod 2 ^ (8 * Suc n) = 2 ^ (8 * n) * (k div 2 ^ (8 * n) mod 2 ^ 8) + k mod 2 ^ (8 * n)"
    using zmod_zmult2_eq [of "2 ^ 8" k "2 ^ (8 * n)"] by (simp add: power_add mult.commute)
  moreover have "(256 :: int) ^ n = 2 ^ (8 * n)" by (simp add: power_mult)
  ultimately show ?case
    using Suc by (simp add: horner_sum_append take_bit_eq_mod drop_bit_eq_div del: mult_Suc_right)
qed

lemma horner_le_bytes: "horner_sum uint 256 (le_bytes n v) = take_bit (8 * n) (uint v)"
proof -
  have "horner_sum uint 256 (map f xs) = horner_sum (uint \<circ> f) 256 xs" for f :: "nat \<Rightarrow> byte" and xs
    by (induction xs) simp_all
  then show ?thesis by (simp add: le_bytes_def o_def uint_byte_of horner_bytes_int)
qed

lemma le_value_le_bytes: "le_value (le_bytes n v) = (take_bit (8 * n) v :: 'a::len word)"
  by (rule bit_word_eqI) (simp add: le_value_def horner_le_bytes bit_simps bit_word_of_int_iff bit_uint_iff)

lemma le_value_snoc_0: "le_value (pp @ [0]) = le_value pp"
  by (simp add: le_value_def horner_sum_append)

subsection \<open>The buffer as a list of bytes and a position\<close>

text \<open>A buffer over allocated memory with its cursor inside.\<close>

definition buf_ok :: "heap \<Rightarrow> srs_buffer \<Rightarrow> bool" where
  "buf_ok h b \<longleftrightarrow> 0 < buf_bytes b \<and> 0 \<le> nb_bytes b \<and> nb_bytes b < 2 ^ 31 \<and>
     buf_bytes b \<le> buf_p b \<and> buf_p b \<le> buf_bytes b + nb_bytes b \<and>
     (\<forall>a. buf_bytes b \<le> a \<and> a < buf_bytes b + nb_bytes b \<longrightarrow> h a \<noteq> None)"

definition mem :: "heap \<Rightarrow> int \<Rightarrow> nat \<Rightarrow> byte list" where
  "mem h a n = map (\<lambda>i. the (h (a + int i))) [0..<n]"

definition buf_done :: "heap \<Rightarrow> srs_buffer \<Rightarrow> byte list" where
  "buf_done h b = mem h (buf_bytes b) (nat (buf_p b - buf_bytes b))"

definition buf_rest :: "heap \<Rightarrow> srs_buffer \<Rightarrow> byte list" where
  "buf_rest h b = mem h (buf_p b) (nat (buf_bytes b + nb_bytes b - buf_p b))"

lemma length_mem [simp]: "length (mem h a n) = n"
  by (simp add: mem_def)

lemma mem_Suc: "mem h a (Suc n) = the (h a) # mem h (a + 1) n"
  by (simp add: mem_def upt_conv_Cons map_Suc_upt [symmetric] o_def add.assoc del: upt_Suc)

lemma mem_add: "mem h a (m + n) = mem h a m @ mem h (a + int m) n"
  by (induction m arbitrary: a) (simp_all add: mem_Suc add.assoc, simp add: mem_def)

lemma take_mem: "k \<le> n \<Longrightarrow> take k (mem h a n) = mem h a k"
  using mem_add [of h a k "n - k"] by simp

lemma drop_mem: "k \<le> n \<Longrightarrow> drop k (mem h a n) = mem h (a + int k) (n - k)"
  using mem_add [of h a k "n - k"] by simp

lemma mem_cong: "(\<And>i. i < n \<Longrightarrow> h (a + int i) = h' (a + int i)) \<Longrightarrow> mem h a n = mem h' a n"
  by (simp add: mem_def)

lemma require_iff: "buf_ok h b \<Longrightarrow> require b (int n) \<longleftrightarrow> n \<le> length (buf_rest h b)"
  by (auto simp: require_def buf_rest_def buf_ok_def)

lemma next_bytes_ok:
  assumes "\<And>a. buf_p b \<le> a \<Longrightarrow> a < buf_p b + int n \<Longrightarrow> h a \<noteq> None"
  shows "next_bytes n h b = Inr (mem h (buf_p b) n, b\<lparr>buf_p := buf_p b + int n\<rparr>)"
  using assms
proof (induction n arbitrary: b)
  case 0
  then show ?case by (simp add: mem_def)
next
  case (Suc n)
  obtain v where "h (buf_p b) = Some v" using Suc.prems [of "buf_p b"] by auto
  moreover have "next_bytes n h (b\<lparr>buf_p := buf_p b + 1\<rparr>)
      = Inr (mem h (buf_p b + 1) n, b\<lparr>buf_p := buf_p b + 1 + int n\<rparr>)"
    using Suc.IH [of "b\<lparr>buf_p := buf_p b + 1\<rparr>"] Suc.prems by simp
  ultimately show ?case by (simp add: next_byte_def mem_Suc add.assoc)
qed

fun heap_write :: "heap \<Rightarrow> int \<Rightarrow> byte list \<Rightarrow> heap" where
  "heap_write h a [] = h"
| "heap_write h a (v # vs) = heap_write (h(a \<mapsto> v)) (a + 1) vs"

lemma heap_write_other: "x < a \<or> a + int (length vs) \<le> x \<Longrightarrow> heap_write h a vs x = h x"
  by (induction vs arbitrary: h a) auto

lemma heap_write_alloc: "h x \<noteq> None \<Longrightarrow> heap_write h a vs x \<noteq> None"
  by (induction vs arbitrary: h a) auto

lemma mem_heap_write: "mem (heap_write h a vs) a (length vs) = vs"
  by (induction vs arbitrary: h a) (simp_all add: mem_Suc heap_write_other, simp add: mem_def)

lemma put_bytes_ok:
  assumes "\<And>a. buf_p b \<le> a \<Longrightarrow> a < buf_p b + int (length vs) \<Longrightarrow> h a \<noteq> None"
  shows "put_bytes h b vs = Inr (heap_write h (buf_p b) vs, b\<lparr>buf_p := buf_p b + int (length vs)\<rparr>)"
  using assms
proof (induction vs arbitrary: h b)
  case Nil
  then show ?case by simp
next
  case (Cons v vs)
  obtain w where "h (buf_p b) = Some w" using Cons.prems [of "buf_p b"] by auto
  moreover let ?h = "h(buf_p b \<mapsto> v)" and ?b = "b\<lparr>buf_p := buf_p b + 1\<rparr>"
  have "put_bytes ?h ?b vs = Inr (heap_write ?h (buf_p ?b) vs, ?b\<lparr>buf_p := buf_p ?b + int (length vs)\<rparr>)"
    by (rule Cons.IH) (use Cons.prems in auto)
  ultimately show ?case by (simp add: put_byte_def add.assoc)
qed

lemma buf_ok_advance:
  "buf_ok h b \<Longrightarrow> n \<le> length (buf_rest h b) \<Longrightarrow> buf_ok h (b\<lparr>buf_p := buf_p b + int n\<rparr>)"
  by (auto simp: buf_ok_def buf_rest_def)

lemma buf_ok_heap_write: "buf_ok h b \<Longrightarrow> buf_ok (heap_write h a vs) b"
  by (auto simp: buf_ok_def heap_write_alloc)

lemma buf_advance:
  assumes "buf_ok h b" "n \<le> length (buf_rest h b)"
  shows "buf_done h (b\<lparr>buf_p := buf_p b + int n\<rparr>) = buf_done h b @ take n (buf_rest h b)"
    and "buf_rest h (b\<lparr>buf_p := buf_p b + int n\<rparr>) = drop n (buf_rest h b)"
proof -
  have n: "n \<le> nat (buf_bytes b + nb_bytes b - buf_p b)" using assms by (simp add: buf_rest_def)
  have le: "buf_bytes b \<le> buf_p b" using assms by (simp add: buf_ok_def)
  have 1: "nat (buf_p b + int n - buf_bytes b) = nat (buf_p b - buf_bytes b) + n"
    using le by (simp add: nat_add_distrib [symmetric] algebra_simps)
  show "buf_done h (b\<lparr>buf_p := buf_p b + int n\<rparr>) = buf_done h b @ take n (buf_rest h b)"
    using n le by (simp add: buf_done_def buf_rest_def 1 mem_add take_mem)
  have 2: "nat (buf_bytes b + nb_bytes b - (buf_p b + int n)) = nat (buf_bytes b + nb_bytes b - buf_p b) - n"
    by simp
  show "buf_rest h (b\<lparr>buf_p := buf_p b + int n\<rparr>) = drop n (buf_rest h b)"
    using n by (simp only: buf_rest_def drop_mem) (simp add: 2)
qed

lemma buf_heap_write:
  assumes "buf_ok h b" "length vs \<le> length (buf_rest h b)"
  shows "buf_done (heap_write h (buf_p b) vs) b = buf_done h b"
    and "buf_rest (heap_write h (buf_p b) vs) b = vs @ drop (length vs) (buf_rest h b)"
proof -
  let ?n = "nat (buf_bytes b + nb_bytes b - buf_p b)" and ?k = "length vs"
  have k: "?k \<le> ?n" using assms by (simp add: buf_rest_def)
  have le: "buf_bytes b \<le> buf_p b" using assms by (simp add: buf_ok_def)
  show "buf_done (heap_write h (buf_p b) vs) b = buf_done h b"
    unfolding buf_done_def using le by (intro mem_cong heap_write_other) auto
  have "mem (heap_write h (buf_p b) vs) (buf_p b) (?k + (?n - ?k)) =
      vs @ mem (heap_write h (buf_p b) vs) (buf_p b + int ?k) (?n - ?k)"
    by (simp add: mem_add mem_heap_write)
  also have "mem (heap_write h (buf_p b) vs) (buf_p b + int ?k) (?n - ?k) = mem h (buf_p b + int ?k) (?n - ?k)"
    by (intro mem_cong heap_write_other) auto
  finally show "buf_rest (heap_write h (buf_p b) vs) b = vs @ drop ?k (buf_rest h b)"
    using k by (simp add: buf_rest_def drop_mem)
qed

lemma buf_cells:
  "buf_ok h b \<Longrightarrow> n \<le> length (buf_rest h b) \<Longrightarrow> buf_p b \<le> a \<Longrightarrow> a < buf_p b + int n \<Longrightarrow> h a \<noteq> None"
  by (auto simp: buf_ok_def buf_rest_def)

subsection \<open>The contract of a fixed-width format\<close>

text \<open>
  Each pair of read and write operations stores a value as \<open>width\<close> bytes.  Encoders of
  protocol objects rely on three things: both operations stop at the assertion exactly when
  too few bytes are left and never leave the buffer, a write replaces just the next \<open>width\<close>
  bytes, and reading them again gives the value back (\<open>canon\<close> of it, for a format that
  keeps only part of the value).
\<close>

locale byte_codec =
  fixes width :: nat
    and rd :: "heap \<Rightarrow> srs_buffer \<Rightarrow> ('a \<times> srs_buffer) outcome"
    and wr :: "heap \<Rightarrow> srs_buffer \<Rightarrow> 'a \<Rightarrow> (heap \<times> srs_buffer) outcome"
    and enc :: "'a \<Rightarrow> byte list"
    and dec :: "byte list \<Rightarrow> 'a"
    and canon :: "'a \<Rightarrow> 'a"
  assumes rd_eq: "rd h b = rbind (srs_assert (require b (int width))) (\<lambda>_.
      rbind (next_bytes width h b) (\<lambda>(bs, b). Inr (dec bs, b)))"
    and wr_eq: "wr h b v = rbind (srs_assert (require b (int width))) (\<lambda>_. put_bytes h b (enc v))"
    and enc_length: "length (enc v) = width"
    and dec_enc: "dec (enc v) = canon v"
begin

lemma rd_ok:
  "buf_ok h b \<Longrightarrow> width \<le> length (buf_rest h b) \<Longrightarrow>
   rd h b = Inr (dec (take width (buf_rest h b)), b\<lparr>buf_p := buf_p b + int width\<rparr>)"
  using next_bytes_ok [of b width h] buf_cells [of h b width]
  by (simp add: rd_eq require_iff) (simp add: buf_rest_def take_mem)

lemma wr_ok:
  "buf_ok h b \<Longrightarrow> width \<le> length (buf_rest h b) \<Longrightarrow>
   wr h b v = Inr (heap_write h (buf_p b) (enc v), b\<lparr>buf_p := buf_p b + int width\<rparr>)"
  using put_bytes_ok [of b "enc v" h] buf_cells [of h b width]
  by (simp add: wr_eq require_iff enc_length)

lemma stops_when_short:
  assumes "buf_ok h b" "length (buf_rest h b) < width"
  shows "rd h b = Inl Assert_failed" "wr h b v = Inl Assert_failed"
  using assms by (simp_all add: rd_eq wr_eq require_iff)

lemma write_then_read:
  assumes ok: "buf_ok h b" and room: "width \<le> length (buf_rest h b)"
  shows "\<exists>h' b'. wr h b v = Inr (h', b') \<and> buf_ok h' b' \<and>
    buf_done h' b' = buf_done h b @ enc v \<and> buf_rest h' b' = drop width (buf_rest h b) \<and>
    rd h' (b'\<lparr>buf_p := buf_p b\<rparr>) = Inr (canon v, b')"
proof -
  let ?h = "heap_write h (buf_p b) (enc v)" and ?b = "b\<lparr>buf_p := buf_p b + int width\<rparr>"
  have len: "length (enc v) \<le> length (buf_rest h b)" using room by (simp add: enc_length)
  note w = buf_heap_write [OF ok len]
  have ok': "buf_ok ?h b" by (rule buf_ok_heap_write [OF ok])
  have room': "width \<le> length (buf_rest ?h b)" using room by (simp add: w enc_length)
  have "rd ?h b = Inr (canon v, ?b)"
    by (simp add: rd_ok [OF ok' room'] w enc_length dec_enc)
  moreover have "?b\<lparr>buf_p := buf_p b\<rparr> = b" by simp
  ultimately show ?thesis
    using wr_ok [OF ok room] buf_ok_advance [OF ok' room'] buf_advance [OF ok' room'] w
    by (simp add: enc_length)
qed

lemma write_frame:
  "buf_ok h b \<Longrightarrow> width \<le> length (buf_rest h b) \<Longrightarrow> wr h b v = Inr (h', b') \<Longrightarrow>
   x < buf_p b \<or> buf_p b + int width \<le> x \<Longrightarrow> h' x = h x"
  using heap_write_other [of x "buf_p b" "enc v" h] by (auto simp: wr_ok enc_length)

end

lemma read_1bytes_seq: "read_1bytes h b = rbind (srs_assert (require b (int 1))) (\<lambda>_.
    rbind (next_bytes 1 h b) (\<lambda>(bs, b). Inr (hd bs, b)))"
  by (cases "require b 1") (simp_all add: read_1bytes_def next_byte_def split: option.splits)

lemma write_1bytes_seq: "write_1bytes h b v = rbind (srs_assert (require b (int 1))) (\<lambda>_. put_bytes h b [v])"
  by (cases "require b 1") (simp_all add: write_1bytes_def put_byte_def split: option.splits)

lemmas codec_simps = le_value_le_bytes le_value_snoc_0 take_bit_word_eq_self

interpretation i8: byte_codec 1 read_1bytes write_1bytes "\<lambda>v. [v]" hd id
  by unfold_locales (simp_all add: read_1bytes_seq write_1bytes_seq)

interpretation i16: byte_codec 2 read_2bytes write_2bytes "\<lambda>v. rev (le_bytes 2 v)" "\<lambda>bs. le_value (rev bs)" id
  by unfold_locales (simp_all add: read_2bytes_def write_2bytes_def codec_simps)

interpretation le16: byte_codec 2 read_le2bytes write_le2bytes "le_bytes 2" le_value id
  by unfold_locales (simp_all add: read_le2bytes_def write_le2bytes_def codec_simps)

interpretation i24: byte_codec 3 read_3bytes write_3bytes "\<lambda>v. rev (le_bytes 3 v)"
    "\<lambda>bs. le_value (rev bs)" "take_bit 24"
  by unfold_locales (simp_all add: read_3bytes_def write_3bytes_def codec_simps)

interpretation le24: byte_codec 3 read_le3bytes write_le3bytes "le_bytes 3" le_value "take_bit 24"
  by unfold_locales (simp_all add: read_le3bytes_def write_le3bytes_def codec_simps)

interpretation i32: byte_codec 4 read_4bytes write_4bytes "\<lambda>v. rev (le_bytes 4 v)" "\<lambda>bs. le_value (rev bs)" id
  by unfold_locales (simp_all add: read_4bytes_def write_4bytes_def codec_simps)

interpretation le32: byte_codec 4 read_le4bytes write_le4bytes "le_bytes 4" le_value id
  by unfold_locales (simp_all add: read_le4bytes_def write_le4bytes_def codec_simps)

interpretation i64: byte_codec 8 read_8bytes write_8bytes "\<lambda>v. rev (le_bytes 8 v)" "\<lambda>bs. le_value (rev bs)" id
  by unfold_locales (simp_all add: read_8bytes_def write_8bytes_def codec_simps)

interpretation le64: byte_codec 8 read_le8bytes write_le8bytes "le_bytes 8" le_value id
  by unfold_locales (simp_all add: read_le8bytes_def write_le8bytes_def codec_simps)

subsection \<open>The bits of a byte\<close>

definition msb_first :: "byte \<Rightarrow> byte list" where
  "msb_first v = map (\<lambda>i. of_bool (bit v (7 - i))) [0..<8]"

lemma shifted_bit:
  "k < 8 \<Longrightarrow> ucast (signed_drop_bit k (scast v :: 32 word) AND 1) = (of_bool (bit (v :: byte) k) :: byte)"
  by (cases "k = 7"; rule bit_word_eqI) (auto simp: bit_simps bit_1_iff min_def)

lemma less_8_cases: "k < 8 \<longleftrightarrow> k = 0 \<or> k = 1 \<or> k = 2 \<or> k = 3 \<or> k = 4 \<or> k = 5 \<or> k = 6 \<or> k = (7 :: nat)"
  by arith

lemma bits_left:
  assumes "k < 8"
  shows "(word_of_nat (Suc k) :: 8 word) \<noteq> 0" "unat (word_of_nat (Suc k) :: 8 word) = Suc k"
    "word_of_nat (Suc k) - 1 = (word_of_nat k :: 8 word)"
  using assms unfolding less_8_cases by (elim disjE; simp)+

lemma read_bit_left:
  "cb_left bb = word_of_nat (Suc k) \<Longrightarrow> k < 8 \<Longrightarrow>
   read_bit h bb = Inr (of_bool (bit (cb bb) k), bb\<lparr>cb_left := word_of_nat k\<rparr>)"
  by (simp add: read_bit_def bits_left [simplified] shifted_bit Let_def)

lemma read_bits_left:
  "cb_left bb = word_of_nat k \<Longrightarrow> k \<le> 8 \<Longrightarrow>
   read_bits k h bb = Inr (map (\<lambda>i. of_bool (bit (cb bb) (k - Suc i))) [0..<k], bb\<lparr>cb_left := 0\<rparr>)"
proof (induction k arbitrary: bb)
  case 0
  then show ?case by simp
next
  case (Suc k)
  have "read_bits k h (bb\<lparr>cb_left := word_of_nat k\<rparr>) =
      Inr (map (\<lambda>i. of_bool (bit (cb bb) (k - Suc i))) [0..<k], bb\<lparr>cb_left := 0\<rparr>)"
    using Suc.IH [of "bb\<lparr>cb_left := word_of_nat k\<rparr>"] Suc.prems by simp
  moreover have "read_bit h bb = Inr (of_bool (bit (cb bb) k), bb\<lparr>cb_left := word_of_nat k\<rparr>)"
    using Suc.prems by (intro read_bit_left) simp_all
  ultimately show ?case
    by (simp add: upt_conv_Cons map_Suc_upt [symmetric] o_def del: upt_Suc)
qed

lemma read_bits_add:
  "read_bits (m + n) h bb = rbind (read_bits m h bb) (\<lambda>(vs, bb).
     rbind (read_bits n h bb) (\<lambda>(ws, bb). Inr (vs @ ws, bb)))"
proof (induction m arbitrary: bb)
  case 0
  show ?case by (cases "read_bits n h bb") auto
next
  case (Suc m)
  show ?case
  proof (cases "read_bit h bb")
    case (Inr r)
    obtain v bb' where r: "r = (v, bb')" by (cases r)
    show ?thesis
      by (cases "read_bits m h bb'") (auto simp: Inr r Suc.IH rbind_def split: sum.splits)
  qed simp
qed

lemma buffer_empty_iff: "buf_ok h b \<Longrightarrow> buffer_empty b \<longleftrightarrow> buf_rest h b = []"
  by (auto simp: buffer_empty_def buf_ok_def buf_rest_def mem_def)

lemma read_bits_byte:
  assumes "cb_left bb = 0" "buf_ok h (stream bb)" "buf_rest h (stream bb) = v # vs"
  shows "read_bits 8 h bb = Inr (msb_first v,
    bb\<lparr>cb := v, cb_left := 0, stream := (stream bb)\<lparr>buf_p := buf_p (stream bb) + 1\<rparr>\<rparr>)"
proof -
  let ?st = "(stream bb)\<lparr>buf_p := buf_p (stream bb) + 1\<rparr>"
  let ?bb = "bb\<lparr>cb := v, cb_left := 8, stream := ?st\<rparr>"
  have "read_1bytes h (stream bb) = Inr (v, ?st)"
    using i8.rd_ok [of h "stream bb"] assms by simp
  then have "read_bit h bb = read_bit h ?bb"
    using assms by (simp add: read_bit_def buffer_empty_iff)
  then have "read_bits 8 h bb = read_bits 8 h ?bb"
    by (simp add: eval_nat_numeral)
  also have "\<dots> = Inr (map (\<lambda>i. of_bool (bit v (8 - Suc i))) [0..<8], ?bb\<lparr>cb_left := 0\<rparr>)"
    using read_bits_left [of ?bb 8 h] by simp
  finally show ?thesis by (simp add: msb_first_def)
qed

lemma read_bits_bytes:
  "cb_left bb = 0 \<Longrightarrow> buf_ok h (stream bb) \<Longrightarrow> n \<le> length (buf_rest h (stream bb)) \<Longrightarrow>
   \<exists>c. read_bits (8 * n) h bb = Inr (concat (map msb_first (take n (buf_rest h (stream bb)))),
     \<lparr>cb = c, cb_left = 0, stream = (stream bb)\<lparr>buf_p := buf_p (stream bb) + int n\<rparr>\<rparr>)"
proof (induction n arbitrary: bb)
  case 0
  then show ?case by (cases bb) simp
next
  case (Suc n)
  let ?b = "stream bb" and ?st = "(stream bb)\<lparr>buf_p := buf_p (stream bb) + 1\<rparr>"
  obtain v vs where r: "buf_rest h ?b = v # vs" using Suc.prems by (cases "buf_rest h ?b") auto
  let ?bb = "bb\<lparr>cb := v, cb_left := 0, stream := ?st\<rparr>"
  have adv: "buf_ok h ?st" "buf_rest h ?st = vs"
    using buf_ok_advance [of h ?b 1] buf_advance(2) [of h ?b 1] Suc.prems r by simp_all
  obtain c where "read_bits (8 * n) h ?bb = Inr (concat (map msb_first (take n vs)),
      \<lparr>cb = c, cb_left = 0, stream = ?st\<lparr>buf_p := buf_p ?st + int n\<rparr>\<rparr>)"
    using Suc.IH [of ?bb] Suc.prems adv r by auto
  then show ?case
    using read_bits_add [of 8 "8 * n" h bb] read_bits_byte [OF Suc.prems(1,2) r]
    by (simp add: r add.assoc)
qed

subsection \<open>Properties\<close>

text \<open>
  \<open>reads_back bs rd wr h b v c\<close>: writing \<open>v\<close> succeeds, appends exactly the bytes \<open>bs\<close> to what
  lies before the cursor, takes them from the room after it, and reading at the old
  position gives \<open>c\<close> and the same new cursor.
\<close>

definition reads_back ::
  "byte list \<Rightarrow> (heap \<Rightarrow> srs_buffer \<Rightarrow> ('a \<times> srs_buffer) outcome) \<Rightarrow>
   (heap \<Rightarrow> srs_buffer \<Rightarrow> 'a \<Rightarrow> (heap \<times> srs_buffer) outcome) \<Rightarrow> heap \<Rightarrow> srs_buffer \<Rightarrow> 'a \<Rightarrow> 'a \<Rightarrow> bool" where
  "reads_back bs rd wr h b v c \<longleftrightarrow> (\<exists>h' b'. wr h b v = Inr (h', b') \<and> buf_ok h' b' \<and>
     buf_done h' b' = buf_done h b @ bs \<and> buf_rest h' b' = drop (length bs) (buf_rest h b) \<and>
     rd h' (b'\<lparr>buf_p := buf_p b\<rparr>) = Inr (c, b'))"

definition be_bytes :: "nat \<Rightarrow> 'a::len word \<Rightarrow> byte list" where
  "be_bytes n v = map (\<lambda>i. ucast (drop_bit (8 * (n - 1 - i)) v)) [0..<n]"

lemma rev_le_bytes: "rev (le_bytes n v) = be_bytes n v"
  by (rule nth_equalityI) (simp_all add: le_bytes_def be_bytes_def rev_nth)

lemma length_be_bytes [simp]: "length (be_bytes n v) = n"
  by (simp add: be_bytes_def)

context byte_codec begin

lemma reads_back:
  "buf_ok h b \<Longrightarrow> width \<le> length (buf_rest h b) \<Longrightarrow> reads_back (enc v) rd wr h b v (canon v)"
  using write_then_read [of h b v] by (simp add: reads_back_def enc_length)

end

lemmas formats_read_back =
  i8.reads_back i16.reads_back le16.reads_back i24.reads_back le24.reads_back
  i32.reads_back le32.reads_back i64.reads_back le64.reads_back

lemmas formats_stop_when_short =
  i8.stops_when_short i16.stops_when_short le16.stops_when_short i24.stops_when_short
  le24.stops_when_short i32.stops_when_short le32.stops_when_short i64.stops_when_short
  le64.stops_when_short

text \<open>
  C22: Writing an integer and reading it back at the same place gives it back, in every
  format of the buffer: the plain ones store it most significant byte first (network order),
  the \<open>le\<close> ones least significant first; the 3-byte ones keep the low 24 bits only, so that
  a negative number does not come back.  Only the bytes of the number are replaced.
\<close>

theorem buffer_formats_roundtrip:
  assumes "buf_ok h b" "8 \<le> length (buf_rest h b)"
  shows "reads_back [v1] read_1bytes write_1bytes h b v1 v1 \<and>
    reads_back (be_bytes 2 v2) read_2bytes write_2bytes h b v2 v2 \<and>
    reads_back (le_bytes 2 v2) read_le2bytes write_le2bytes h b v2 v2 \<and>
    reads_back (be_bytes 3 v4) read_3bytes write_3bytes h b v4 (v4 AND 0xFFFFFF) \<and>
    reads_back (le_bytes 3 v4) read_le3bytes write_le3bytes h b v4 (v4 AND 0xFFFFFF) \<and>
    reads_back (be_bytes 4 v4) read_4bytes write_4bytes h b v4 v4 \<and>
    reads_back (le_bytes 4 v4) read_le4bytes write_le4bytes h b v4 v4 \<and>
    reads_back (be_bytes 8 v8) read_8bytes write_8bytes h b v8 v8 \<and>
    reads_back (le_bytes 8 v8) read_le8bytes write_le8bytes h b v8 v8"
proof -
  have "v4 AND 0xFFFFFF = take_bit 24 v4" by (simp add: take_bit_eq_mask mask_numeral)
  then show ?thesis
    using formats_read_back [of h b] assms by (simp add: rev_le_bytes)
qed

text \<open>A buffer of \<open>length bs\<close> bytes allocated at address \<open>a\<close>, for concrete runs.\<close>

definition alloc_at :: "int \<Rightarrow> byte list \<Rightarrow> heap" where
  "alloc_at a bs = heap_write (\<lambda>_. None) a bs"

lemma heap_write_some: "a \<le> x \<Longrightarrow> x < a + int (length vs) \<Longrightarrow> heap_write h a vs x \<noteq> None"
proof (induction vs arbitrary: h a)
  case (Cons v vs)
  then show ?case by (cases "x = a") (auto simp: heap_write_other)
qed simp

lemma alloc_buf_ok:
  "0 < a \<Longrightarrow> length bs < 2 ^ 31 \<Longrightarrow> buf_ok (alloc_at a bs) (SrsBuffer a (int (length bs)))"
  using heap_write_some [of a _ bs "\<lambda>_. None"]
  by (auto simp: buf_ok_def SrsBuffer_def alloc_at_def)

lemma alloc_buf_rest: "buf_rest (alloc_at a bs) (SrsBuffer a (int (length bs))) = bs"
  by (simp add: buf_rest_def SrsBuffer_def alloc_at_def mem_heap_write)

lemma buffer_formats_roundtrip_witness:
  "reads_back (be_bytes 4 (0xFFFFFFFE :: 32 word)) read_4bytes write_4bytes
     (alloc_at 1000 (replicate 9 0)) (SrsBuffer 1000 9) 0xFFFFFFFE 0xFFFFFFFE"
  using buffer_formats_roundtrip [of "alloc_at 1000 (replicate 9 0)" "SrsBuffer 1000 9" 0 0 "0xFFFFFFFE" 0]
    alloc_buf_ok [of 1000 "replicate 9 0"] alloc_buf_rest [of 1000 "replicate 9 0"]
  by simp

definition stops_iff_short :: "nat \<Rightarrow> heap \<Rightarrow> srs_buffer \<Rightarrow> 'a outcome \<Rightarrow> bool" where
  "stops_iff_short n h b r \<longleftrightarrow>
     (if length (buf_rest h b) < n then r = Inl Assert_failed else \<exists>x. r = Inr x)"

context byte_codec begin

lemma stops_iff_short:
  "buf_ok h b \<Longrightarrow> stops_iff_short width h b (rd h b)"
  "buf_ok h b \<Longrightarrow> stops_iff_short width h b (wr h b v)"
  by (auto simp: stops_iff_short_def stops_when_short rd_ok wr_ok)

end

lemmas formats_stop_iff_short =
  i8.stops_iff_short i16.stops_iff_short le16.stops_iff_short i24.stops_iff_short
  le24.stops_iff_short i32.stops_iff_short le32.stops_iff_short i64.stops_iff_short
  le64.stops_iff_short

lemma read_string_ok:
  "buf_ok h b \<Longrightarrow> n \<le> length (buf_rest h b) \<Longrightarrow>
   read_string (int n) h b = Inr (take n (buf_rest h b), b\<lparr>buf_p := buf_p b + int n\<rparr>)"
  using next_bytes_ok [of b n h] buf_cells [of h b n]
  by (simp add: read_string_def require_iff) (simp add: buf_rest_def take_mem)

lemma write_string_ok:
  "buf_ok h b \<Longrightarrow> length v \<le> length (buf_rest h b) \<Longrightarrow> length v < 2 ^ 31 \<Longrightarrow>
   write_string h b v = Inr (heap_write h (buf_p b) v, b\<lparr>buf_p := buf_p b + int (length v)\<rparr>)"
  using put_bytes_ok [of b v h] buf_cells [of h b "length v"]
  by (simp add: write_string_def require_iff)

lemma string_stops_iff_short:
  assumes "buf_ok h b"
  shows "stops_iff_short n h b (read_string (int n) h b)"
    and "length v < 2 ^ 31 \<Longrightarrow> stops_iff_short (length v) h b (write_string h b v)"
  using assms
  by (auto simp: stops_iff_short_def read_string_ok write_string_ok)
     (auto simp: read_string_def write_string_def require_iff)

text \<open>\<open>read_bytes\<close> copies the next \<open>n\<close> bytes unchanged and writes nothing else.\<close>

lemma read_bytes_copies:
  assumes "buf_ok h b" "n \<le> length (buf_rest h b)"
    and "\<And>a. data \<le> a \<Longrightarrow> a < data + int n \<Longrightarrow> h a \<noteq> None"
  shows "\<exists>h'. read_bytes data (int n) h b = Inr (h', b\<lparr>buf_p := buf_p b + int n\<rparr>) \<and>
    mem h' data n = take n (buf_rest h b) \<and> (\<forall>x. x < data \<or> data + int n \<le> x \<longrightarrow> h' x = h x)"
proof -
  let ?vs = "take n (buf_rest h b)"
  have len: "length ?vs = n" using assms(2) by simp
  have "next_bytes n h b = Inr (?vs, b\<lparr>buf_p := buf_p b + int n\<rparr>)"
    using read_string_ok [OF assms(1,2)] assms(1,2) by (simp add: read_string_def require_iff)
  moreover have "put_bytes h (SrsBuffer data (int n)) ?vs =
      Inr (heap_write h data ?vs, (SrsBuffer data (int n))\<lparr>buf_p := data + int n\<rparr>)"
    using put_bytes_ok [of "SrsBuffer data (int n)" ?vs h] assms(3) len by (simp add: SrsBuffer_def)
  ultimately show ?thesis
    using assms(1,2) mem_heap_write [of h data ?vs] heap_write_other [of _ data ?vs h]
    by (simp add: read_bytes_def require_iff len)
qed

text \<open>\<open>write_bytes\<close> puts the bytes of the caller's memory at the cursor.\<close>

lemma write_bytes_copies:
  assumes "buf_ok h b" "n \<le> length (buf_rest h b)"
    and "\<And>a. data \<le> a \<Longrightarrow> a < data + int n \<Longrightarrow> h a \<noteq> None"
  shows "write_bytes h b data (int n) =
    Inr (heap_write h (buf_p b) (mem h data n), b\<lparr>buf_p := buf_p b + int n\<rparr>)"
proof -
  have "next_bytes n h (SrsBuffer data (int n)) = Inr (mem h data n, (SrsBuffer data (int n))\<lparr>buf_p := data + int n\<rparr>)"
    using next_bytes_ok [of "SrsBuffer data (int n)" n h] assms(3) by (simp add: SrsBuffer_def)
  moreover have "put_bytes h b (mem h data n) = Inr (heap_write h (buf_p b) (mem h data n), b\<lparr>buf_p := buf_p b + int n\<rparr>)"
    using put_bytes_ok [of b "mem h data n" h] buf_cells [OF assms(1,2)] by simp
  ultimately show ?thesis using assms(1,2) by (simp add: write_bytes_def require_iff)
qed

lemma bytes_stop_iff_short:
  assumes "buf_ok h b" "\<And>a. data \<le> a \<Longrightarrow> a < data + int n \<Longrightarrow> h a \<noteq> None"
  shows "stops_iff_short n h b (read_bytes data (int n) h b)" "stops_iff_short n h b (write_bytes h b data (int n))"
  using read_bytes_copies [OF assms(1) _ assms(2), of n data] write_bytes_copies [OF assms(1) _ assms(2), of n data] assms(1)
  by (auto simp: stops_iff_short_def read_bytes_def [of _ "int n"] write_bytes_def [of _ _ _ "int n"] require_iff not_less
      simp del: not_le)

text \<open>
  C23: Every read and every write stops at its assertion exactly when fewer bytes are left than
  it needs, the copies to and from other memory included; otherwise it succeeds.  On a valid buffer
  (and for \<open>read_bytes\<close> and \<open>write_bytes\<close> with the caller's memory \<open>data\<close> of that size) none of them
  ever touches memory outside.  (\<open>require\<close> is the check of callers, and agrees with these.)
\<close>

theorem buffer_ops_stop_iff_short:
  assumes "buf_ok h b" "length s < 2 ^ 31" "\<And>a. data \<le> a \<Longrightarrow> a < data + int n \<Longrightarrow> h a \<noteq> None"
  shows "(\<forall>n. require b (int n) \<longleftrightarrow> n \<le> length (buf_rest h b)) \<and>
    stops_iff_short 1 h b (read_1bytes h b) \<and> stops_iff_short 1 h b (write_1bytes h b v1) \<and>
    stops_iff_short 2 h b (read_2bytes h b) \<and> stops_iff_short 2 h b (write_2bytes h b v2) \<and>
    stops_iff_short 2 h b (read_le2bytes h b) \<and> stops_iff_short 2 h b (write_le2bytes h b v2) \<and>
    stops_iff_short 3 h b (read_3bytes h b) \<and> stops_iff_short 3 h b (write_3bytes h b v4) \<and>
    stops_iff_short 3 h b (read_le3bytes h b) \<and> stops_iff_short 3 h b (write_le3bytes h b v4) \<and>
    stops_iff_short 4 h b (read_4bytes h b) \<and> stops_iff_short 4 h b (write_4bytes h b v4) \<and>
    stops_iff_short 4 h b (read_le4bytes h b) \<and> stops_iff_short 4 h b (write_le4bytes h b v4) \<and>
    stops_iff_short 8 h b (read_8bytes h b) \<and> stops_iff_short 8 h b (write_8bytes h b v8) \<and>
    stops_iff_short 8 h b (read_le8bytes h b) \<and> stops_iff_short 8 h b (write_le8bytes h b v8) \<and>
    stops_iff_short n h b (read_string (int n) h b) \<and>
    stops_iff_short (length s) h b (write_string h b s) \<and>
    stops_iff_short n h b (read_bytes data (int n) h b) \<and> stops_iff_short n h b (write_bytes h b data (int n))"
  using formats_stop_iff_short [OF assms(1)] string_stops_iff_short [OF assms(1)] assms(2)
    bytes_stop_iff_short [OF assms(1,3)]
  by (simp add: require_iff [OF assms(1)])

lemma buffer_ops_stop_iff_short_witness:
  "stops_iff_short 4 (alloc_at 1000 [1, 2, 3, 4, 5]) (SrsBuffer 1000 3) (read_4bytes (alloc_at 1000 [1, 2, 3, 4, 5]) (SrsBuffer 1000 3)) \<and>
   stops_iff_short 2 (alloc_at 1000 [1, 2, 3, 4, 5]) (SrsBuffer 1000 3) (read_bytes 1003 2 (alloc_at 1000 [1, 2, 3, 4, 5]) (SrsBuffer 1000 3))"
proof -
  have some: "alloc_at 1000 [1, 2, 3, 4, 5] a \<noteq> None" if "1000 \<le> a" "a < 1005" for a
    using heap_write_some [of 1000 a "[1, 2, 3, 4, 5]" "\<lambda>_. None"] that by (simp add: alloc_at_def)
  then have ok: "buf_ok (alloc_at 1000 [1, 2, 3, 4, 5]) (SrsBuffer 1000 3)" by (simp add: buf_ok_def SrsBuffer_def)
  show ?thesis
    using buffer_ops_stop_iff_short [OF ok, of "[]" 1003 2] some by simp
qed

text \<open>
  A string of less than 2 GB is stored as its bytes and read back as it was.
\<close>

theorem buffer_string_roundtrip:
  assumes "buf_ok h b" "length v \<le> length (buf_rest h b)" "length v < 2 ^ 31"
  shows "reads_back v (read_string (int (length v))) write_string h b v v"
proof -
  let ?h = "heap_write h (buf_p b) v" and ?b = "b\<lparr>buf_p := buf_p b + int (length v)\<rparr>"
  note w = buf_heap_write [OF assms(1,2)]
  have ok: "buf_ok ?h b" by (rule buf_ok_heap_write [OF assms(1)])
  have room: "length v \<le> length (buf_rest ?h b)" using assms by (simp add: w)
  have "?b\<lparr>buf_p := buf_p b\<rparr> = b" by simp
  then show ?thesis
    using write_string_ok [OF assms] buf_ok_advance [OF ok room] buf_advance [OF ok room]
      read_string_ok [OF ok room] w
    by (simp add: reads_back_def)
qed

lemma buffer_string_roundtrip_witness:
  "reads_back [72, 105] (read_string (int (length [72 :: byte, 105]))) write_string
     (alloc_at 1000 [1, 2, 3]) (SrsBuffer 1000 3) [72, 105] [72, 105]"
  using alloc_buf_ok [of 1000 "[1, 2, 3]"] alloc_buf_rest [of 1000 "[1, 2, 3]"]
  by (intro buffer_string_roundtrip) simp_all

text \<open>
  The bit buffer delivers the bits of the remaining bytes in order, the most significant
  bit of each byte first, and takes a byte from the stream only when it needs one: after
  \<open>8 n\<close> bits it has consumed \<open>n\<close> bytes.
\<close>

theorem read_bits_msb_first:
  assumes "buf_ok h b" "n \<le> length (buf_rest h b)"
  shows "\<exists>bb. read_bits (8 * n) h (SrsBitBuffer b)
      = Inr (concat (map msb_first (take n (buf_rest h b))), bb) \<and>
    stream bb = b\<lparr>buf_p := buf_p b + int n\<rparr> \<and>
    (bitbuffer_empty bb \<longleftrightarrow> n = length (buf_rest h b))"
proof -
  let ?st = "b\<lparr>buf_p := buf_p b + int n\<rparr>"
  obtain c where c: "read_bits (8 * n) h (SrsBitBuffer b) =
      Inr (concat (map msb_first (take n (buf_rest h b))), \<lparr>cb = c, cb_left = 0, stream = ?st\<rparr>)"
    using read_bits_bytes [of "SrsBitBuffer b" h n] assms by (auto simp: SrsBitBuffer_def)
  have "buffer_empty ?st \<longleftrightarrow> n = length (buf_rest h b)"
    using buffer_empty_iff [OF buf_ok_advance [OF assms]] buf_advance(2) [OF assms] assms(2) by auto
  then show ?thesis by (auto simp: c bitbuffer_empty_def)
qed

lemma read_bits_msb_first_witness:
  "\<exists>bb. read_bits 16 (alloc_at 1000 [0x80, 3]) (SrsBitBuffer (SrsBuffer 1000 2)) =
     Inr ([1, 0, 0, 0, 0, 0, 0, 0,  0, 0, 0, 0, 0, 0, 1, 1], bb) \<and> bitbuffer_empty bb"
proof -
  have "msb_first 0x80 = [1, 0, 0, 0, 0, 0, 0, 0]" "msb_first 3 = [0, 0, 0, 0, 0, 0, 1, 1]"
    by code_simp+
  then show ?thesis
    using read_bits_msb_first [of "alloc_at 1000 [0x80, 3]" "SrsBuffer 1000 2" 2]
      alloc_buf_ok [of 1000 "[0x80, 3]"] alloc_buf_rest [of 1000 "[0x80, 3]"]
    by auto
qed

text \<open>
  \<open>skip\<close> moves the cursor by any amount that keeps it inside the buffer and stops at its
  assertion otherwise; the reset of a buffer to its start is \<open>skip(-pos())\<close>, not
  \<open>skip(pos())\<close> as the header says, which fails as soon as more than half is consumed.
\<close>

theorem skip_resets_backwards:
  assumes "buf_ok h b"
  shows "skip k b = (if - int (length (buf_done h b)) \<le> k \<and> k \<le> int (length (buf_rest h b))
      then Inr (b\<lparr>buf_p := buf_p b + k\<rparr>) else Inl Assert_failed) \<and>
    skip (- buffer_pos b) b = Inr (b\<lparr>buf_p := buf_bytes b\<rparr>) \<and>
    (skip (buffer_pos b) b = Inl Assert_failed \<longleftrightarrow> length (buf_done h b) > length (buf_rest h b))"
proof -
  have "int (length (buf_done h b)) = buf_p b - buf_bytes b"
    "int (length (buf_rest h b)) = buf_bytes b + nb_bytes b - buf_p b"
    using assms by (auto simp: buf_done_def buf_rest_def buf_ok_def)
  moreover have "buffer_pos b = buf_p b - buf_bytes b"
    using assms by (simp add: buffer_pos_def buf_ok_def)
  ultimately show ?thesis
    using assms by (auto simp: skip_def buf_ok_def rbind_def srs_assert_def)
qed

lemma skip_resets_backwards_witness:
  "skip 3 ((SrsBuffer 1000 4)\<lparr>buf_p := 1003\<rparr>) = Inl Assert_failed \<and>
   skip (- 3) ((SrsBuffer 1000 4)\<lparr>buf_p := 1003\<rparr>) = Inr (SrsBuffer 1000 4)"
proof -
  have "buf_ok (alloc_at 1000 [1, 2, 3, 4]) ((SrsBuffer 1000 4)\<lparr>buf_p := 1003\<rparr>)"
    using alloc_buf_ok [of 1000 "[1, 2, 3, 4]"] by (simp add: buf_ok_def SrsBuffer_def)
  from skip_resets_backwards [OF this, of 3] skip_resets_backwards [OF this, of "- 3"]
  show ?thesis by (simp add: buf_done_def buf_rest_def SrsBuffer_def)
qed

end
