(* ===== verification/Srs_Kernel_Hex.thy ===== *)
theory Srs_Kernel_Hex
  imports Srs_Text
begin

unbundle bit_operations_syntax

section \<open>Hexadecimal text and random text (core/srs_kernel_utility.cpp)\<close>

text \<open>
  The conversions between bytes and hexadecimal text, and \<open>srs_random_str\<close>.  The arrays the
  caller passes are lists; an index outside them is a \<open>Bad_access\<close>.
\<close>

subsection \<open>The code\<close>

definition av_toupper :: "int \<Rightarrow> int" where
  "av_toupper c = (if c \<ge> 97 \<and> c \<le> 122 then c XOR 0x20 else c)"

definition srs_from_hex_char :: "byte \<Rightarrow> byte" where
  "srs_from_hex_char c =
     (if 48 \<le> c \<and> c \<le> 57 then c - 48
      else if 97 \<le> c \<and> c \<le> 102 then c - 97 + 10
      else if 65 \<le> c \<and> c \<le> 70 then c - 65 + 10
      else - 1)"

fun hex_loop :: "string \<Rightarrow> byte list \<Rightarrow> nat list \<Rightarrow> string \<Rightarrow> string outcome" where
  "hex_loop hex_table src [] des = Inr des"
| "hex_loop hex_table src (i # is) des =
     (if i < length src \<and> i * 2 + 1 < length des then
        hex_loop hex_table src is
          (des[i * 2 := hex_table ! unat (drop_bit 4 (src ! i)),
               i * 2 + 1 := hex_table ! unat (src ! i AND 0x0F)])
      else Inl Bad_access)"

definition srs_data_to_hex :: "string option \<Rightarrow> byte list option \<Rightarrow> int \<Rightarrow> string option outcome" where
  "srs_data_to_hex des src len = (case (src, des) of
      (Some s, Some d) \<Rightarrow> if len = 0 then Inr None
        else rbind (hex_loop ''0123456789ABCDEF'' s [0..<nat len] d) (\<lambda>d. Inr (Some d))
    | _ \<Rightarrow> Inr None)"

definition srs_data_to_hex_lowercase ::
  "string option \<Rightarrow> byte list option \<Rightarrow> int \<Rightarrow> string option outcome" where
  "srs_data_to_hex_lowercase des src len = (case (src, des) of
      (Some s, Some d) \<Rightarrow> if len = 0 then Inr None
        else rbind (hex_loop ''0123456789abcdef'' s [0..<nat len] d) (\<lambda>d. Inr (Some d))
    | _ \<Rightarrow> Inr None)"

fun unhex_loop :: "byte list \<Rightarrow> nat list \<Rightarrow> byte list \<Rightarrow> (bool \<times> byte list) outcome" where
  "unhex_loop p [] data = Inr (True, data)"
| "unhex_loop p (i # is) data =
     (if \<not> i * 2 < length p then Inl Bad_access else
      let a = srs_from_hex_char (p ! (i * 2)) in
      if a = - 1 then Inr (False, data) else
      if \<not> i * 2 + 1 < length p then Inl Bad_access else
      let b = srs_from_hex_char (p ! (i * 2 + 1)) in
      if b = - 1 then Inr (False, data) else
      if \<not> i < length data then Inl Bad_access else
      unhex_loop p is (data[i := push_bit 4 a OR b]))"

definition srs_hex_to_data :: "byte list \<Rightarrow> byte list \<Rightarrow> int \<Rightarrow> (int \<times> byte list) outcome" where
  "srs_hex_to_data data p sz =
     (if sz \<le> 0 \<or> sz smod 2 = 1 then Inr (- 1, data) else
      rbind (unhex_loop p [0..<nat (sz sdiv 2)] data) (\<lambda>(ok, data).
        Inr (if ok then sz sdiv 2 else - 1, data)))"

definition random_table :: string where
  "random_table = ''01234567890123456789012345678901234567890123456789abcdefghijklmnopqrstuvwxyz''"

text \<open>\<open>rnd i\<close> is the number that the \<open>i\<close>-th call of \<open>random()\<close> returns (non-negative).\<close>

definition srs_random_str :: "(nat \<Rightarrow> nat) \<Rightarrow> int \<Rightarrow> string outcome" where
  "srs_random_str rnd len =
     (if len < 0 then Inl Length_error
      else Inr (map (\<lambda>i. random_table ! (rnd i mod length random_table)) [0..<nat len]))"

subsection \<open>Digits\<close>

definition hex_pair :: "string \<Rightarrow> byte \<Rightarrow> string" where
  "hex_pair tab v = [tab ! unat (drop_bit 4 v), tab ! unat (v AND 0x0F)]"

abbreviation char_byte :: "char \<Rightarrow> byte" where "char_byte c \<equiv> word_of_nat (of_char c)"

definition hex_digit :: "byte \<Rightarrow> bool" where
  "hex_digit c \<longleftrightarrow> 48 \<le> c \<and> c \<le> 57 \<or> 97 \<le> c \<and> c \<le> 102 \<or> 65 \<le> c \<and> c \<le> 70"

lemma update_two:
  "length P = m \<Longrightarrow> 2 \<le> length D \<Longrightarrow> (P @ D)[m := x, Suc m := y] = P @ x # y # drop 2 D"
  by (cases D; cases "tl D") (auto simp: list_update_append)

lemma length_hex_pairs: "length (concat (map (hex_pair tab) xs)) = 2 * length xs"
  by (induction xs) (simp_all add: hex_pair_def)

lemma hex_loop_append:
  "hex_loop tab src (xs @ ys) d = rbind (hex_loop tab src xs d) (hex_loop tab src ys)"
  by (induction xs arbitrary: d) auto

lemma hex_loop_eq:
  "n \<le> length src \<Longrightarrow> 2 * n \<le> length des \<Longrightarrow>
   hex_loop tab src [0..<n] des = Inr (concat (map (hex_pair tab) (take n src)) @ drop (2 * n) des)"
proof (induction n)
  case (Suc n)
  let ?P = "concat (map (hex_pair tab) (take n src))"
  have "length ?P = 2 * n" using Suc.prems by (simp add: length_hex_pairs)
  moreover have "2 \<le> length (drop (2 * n) des)" using Suc.prems by simp
  ultimately have "(?P @ drop (2 * n) des)[2 * n := x, Suc (2 * n) := y] = ?P @ x # y # drop (2 * Suc n) des" for x y
    using update_two [of ?P "2 * n" "drop (2 * n) des" x y] by (simp add: add.commute)
  moreover have "hex_loop tab src [0..<n] des = Inr (?P @ drop (2 * n) des)" using Suc by simp
  moreover have "n < length src" "Suc (2 * n) < length (?P @ drop (2 * n) des)"
    using Suc.prems by (simp_all add: length_hex_pairs)
  moreover have "concat (map (hex_pair tab) (take (Suc n) src)) = ?P @ hex_pair tab (src ! n)"
    using Suc.prems by (simp add: take_Suc_conv_app_nth)
  ultimately show ?case
    by (simp add: hex_loop_append hex_pair_def [of _ "src ! n"] mult.commute [of _ 2] del: mult_Suc_right)
qed simp

lemma from_hex_char_eq_invalid: "srs_from_hex_char c = - 1 \<longleftrightarrow> \<not> hex_digit c"
proof -
  have "c - 48 = - 1 \<longleftrightarrow> c = 47" "c - 97 + 10 = - 1 \<longleftrightarrow> c = 86" "c - 65 + 10 = - 1 \<longleftrightarrow> c = 54"
    by (auto simp: diff_eq_eq eq_neg_iff_add_eq_0 algebra_simps)
  then show ?thesis by (auto simp: srs_from_hex_char_def hex_digit_def)
qed

definition hex_table :: "string \<Rightarrow> bool" where
  "hex_table tab \<longleftrightarrow> tab = ''0123456789ABCDEF'' \<or> tab = ''0123456789abcdef''"

lemma hex_table_digits:
  assumes "hex_table tab"
  shows "map (\<lambda>c. srs_from_hex_char (char_byte c)) tab = map word_of_nat [0..<16]"
    and "list_all (\<lambda>c. hex_digit (char_byte c)) tab" and "length tab = 16"
  using assms unfolding hex_table_def
  by (elim disjE; simp add: srs_from_hex_char_def hex_digit_def upt_rec)+

lemma from_hex_nibble:
  assumes "hex_table tab" "d < 16"
  shows "hex_digit (char_byte (tab ! d))" "srs_from_hex_char (char_byte (tab ! d)) = word_of_nat d"
proof -
  note t = hex_table_digits [OF assms(1)]
  show "hex_digit (char_byte (tab ! d))" using t(2,3) assms(2) by (simp add: list_all_length)
  have "map (\<lambda>c. srs_from_hex_char (char_byte c)) tab ! d = map word_of_nat [0..<16] ! d"
    by (simp only: t(1))
  then show "srs_from_hex_char (char_byte (tab ! d)) = word_of_nat d"
    using t(3) assms(2) by (simp del: upt_Suc)
qed

lemma nibbles: "unat (drop_bit 4 (v :: byte)) < 16" "unat (v AND 0x0F) < 16"
  "push_bit 4 (drop_bit 4 v) OR (v AND 0x0F) = v"
proof -
  have m: "v AND 0x0F = take_bit 4 v" by (simp add: take_bit_eq_mask mask_numeral)
  show "unat (drop_bit 4 v) < 16"
    using unsigned_less [where ?'a = nat, of v] unfolding unsigned_drop_bit_eq by (simp add: drop_bit_eq_div take_bit_eq_mod)
  show "unat (v AND 0x0F) < 16" unfolding m unsigned_take_bit_eq by (simp add: take_bit_eq_mod)
  show "push_bit 4 (drop_bit 4 v) OR (v AND 0x0F) = v"
    unfolding m by (rule bit_word_eqI) (auto simp: bit_simps)
qed

lemma from_hex_pair:
  assumes "hex_table tab"
  shows "hex_digit (char_byte (tab ! unat (drop_bit 4 v)))" "hex_digit (char_byte (tab ! unat (v AND 0x0F)))"
    "push_bit 4 (srs_from_hex_char (char_byte (tab ! unat (drop_bit 4 v))))
      OR srs_from_hex_char (char_byte (tab ! unat (v AND 0x0F))) = v"
  using from_hex_nibble [OF assms] nibbles [of v] by simp_all


definition unhex :: "byte list \<Rightarrow> nat \<Rightarrow> byte" where
  "unhex p i = push_bit 4 (srs_from_hex_char (p ! (2 * i))) OR srs_from_hex_char (p ! (2 * i + 1))"

lemma unhex_loop_append:
  "unhex_loop p (xs @ ys) d = rbind (unhex_loop p xs d) (\<lambda>(ok, d). if ok then unhex_loop p ys d else Inr (False, d))"
  by (induction xs arbitrary: d) (auto simp: Let_def)

lemma unhex_loop_one:
  "2 * n + 1 < length p \<Longrightarrow> n < length data \<Longrightarrow> unhex_loop p [n] data =
   Inr (if hex_digit (p ! (2 * n)) \<and> hex_digit (p ! (2 * n + 1)) then (True, data[n := unhex p n]) else (False, data))"
  by (simp add: from_hex_char_eq_invalid unhex_def Let_def mult.commute [of n 2])

declare unhex_loop.simps(2) [simp del]

lemma unhex_loop_ok:
  "2 * n \<le> length p \<Longrightarrow> n \<le> length data \<Longrightarrow> list_all hex_digit (take (2 * n) p) \<Longrightarrow>
   unhex_loop p [0..<n] data = Inr (True, map (unhex p) [0..<n] @ drop n data)"
proof (induction n)
  case (Suc n)
  have "list_all hex_digit (take (2 * n) p)" and d: "hex_digit (p ! (2 * n))" "hex_digit (p ! (2 * n + 1))"
    using Suc.prems by (auto simp: list_all_length)
  then have "unhex_loop p [0..<n] data = Inr (True, map (unhex p) [0..<n] @ drop n data)"
    using Suc by simp
  moreover have "drop n data = data ! n # drop (Suc n) data"
    using Suc.prems by (simp add: Cons_nth_drop_Suc)
  ultimately show ?case
    using Suc.prems d by (simp add: unhex_loop_append unhex_loop_one list_update_append)
qed simp

lemma unhex_loop_bad:
  "2 * n \<le> length p \<Longrightarrow> n \<le> length data \<Longrightarrow> \<not> list_all hex_digit (take (2 * n) p) \<Longrightarrow>
   \<exists>data'. unhex_loop p [0..<n] data = Inr (False, data') \<and> length data' = length data"
proof (induction n)
  case (Suc n)
  show ?case
  proof (cases "list_all hex_digit (take (2 * n) p)")
    case True
    have "take (2 * Suc n) p = take (2 * n) p @ [p ! (2 * n), p ! (2 * n + 1)]"
      using Suc.prems by (simp add: take_Suc_conv_app_nth)
    then have "\<not> hex_digit (p ! (2 * n)) \<or> \<not> hex_digit (p ! (2 * n + 1))"
      using Suc.prems True by auto
    then show ?thesis
      using Suc.prems True by (auto simp: unhex_loop_append unhex_loop_ok unhex_loop_one)
  next
    case False
    then show ?thesis using Suc by (auto simp: unhex_loop_append)
  qed
qed simp

subsection \<open>Properties\<close>

lemma data_to_hex_eq:
  assumes "n \<le> length src" "2 * n \<le> length des" "0 < n"
  shows "srs_data_to_hex (Some des) (Some src) (int n) =
      Inr (Some (concat (map (hex_pair ''0123456789ABCDEF'') (take n src)) @ drop (2 * n) des))"
    "srs_data_to_hex_lowercase (Some des) (Some src) (int n) =
      Inr (Some (concat (map (hex_pair ''0123456789abcdef'') (take n src)) @ drop (2 * n) des))"
  using assms by (simp_all add: srs_data_to_hex_def srs_data_to_hex_lowercase_def hex_loop_eq)

lemma hex_pairs_nth:
  "i < length src \<Longrightarrow> concat (map (hex_pair tab) src) ! (2 * i) = tab ! unat (drop_bit 4 (src ! i))"
  "i < length src \<Longrightarrow> concat (map (hex_pair tab) src) ! (2 * i + 1) = tab ! unat (src ! i AND 0x0F)"
  by (induction src arbitrary: i) (auto simp: hex_pair_def nth_Cons split: nat.splits)

lemma unhex_hex_pairs:
  assumes "hex_table tab" "p = map char_byte (concat (map (hex_pair tab) src))"
  shows "list_all hex_digit p" "map (unhex p) [0..<length src] = src"
proof -
  have "list_all hex_digit (map char_byte (hex_pair tab v))" for v
    using from_hex_pair(1,2) [OF assms(1)] by (simp add: hex_pair_def)
  then show "list_all hex_digit p" by (auto simp: assms(2) list_all_iff)
  have "unhex p i = src ! i" if "i < length src" for i
    using that from_hex_pair(3) [OF assms(1), of "src ! i"]
      hex_pairs_nth [OF that, of tab] length_hex_pairs [of tab src]
    by (simp add: unhex_def assms(2))
  then show "map (unhex p) [0..<length src] = src" by (auto intro: nth_equalityI)
qed

text \<open>
  Hexadecimal text written by \<open>srs_data_to_hex\<close> or its lower-case twin is read back by
  \<open>srs_hex_to_data\<close> as the bytes it was made from, and only the first \<open>2 n\<close> characters of
  the target are written.
\<close>

theorem hex_roundtrip:
  assumes "0 < length src" "2 * length src \<le> length des" "length src \<le> length data"
  shows "\<exists>t u. length t = 2 * length src \<and> length u = 2 * length src \<and>
    srs_data_to_hex (Some des) (Some src) (int (length src)) = Inr (Some (t @ drop (2 * length src) des)) \<and>
    srs_data_to_hex_lowercase (Some des) (Some src) (int (length src)) = Inr (Some (u @ drop (2 * length src) des)) \<and>
    srs_hex_to_data data (map char_byte t) (2 * int (length src))
      = Inr (int (length src), src @ drop (length src) data) \<and>
    srs_hex_to_data data (map char_byte u) (2 * int (length src))
      = Inr (int (length src), src @ drop (length src) data)"
proof -
  let ?n = "length src"
  have rt: "srs_hex_to_data data (map char_byte (concat (map (hex_pair tab) src))) (2 * int ?n)
      = Inr (int ?n, src @ drop ?n data)" if tab: "hex_table tab" for tab
  proof -
    have sm: "(2 * int ?n) smod 2 = 0" "(2 * int ?n) sdiv 2 = int ?n"
      by (simp_all add: signed_divide_int_def sgn_if)
    show ?thesis
      using unhex_loop_ok [of ?n "map char_byte (concat (map (hex_pair tab) src))" data]
        unhex_hex_pairs [OF tab refl, of src] length_hex_pairs [of tab src] assms
      by (simp add: srs_hex_to_data_def sm)
  qed
  have "hex_table ''0123456789ABCDEF''" "hex_table ''0123456789abcdef''"
    by (simp_all add: hex_table_def)
  then show ?thesis
    using data_to_hex_eq [of ?n src des] assms rt length_hex_pairs by fastforce
qed

lemma hex_roundtrip_witness:
  "\<exists>t u. length t = 2 * length [0xAB, 7 :: byte] \<and> length u = 2 * length [0xAB, 7 :: byte] \<and>
    srs_data_to_hex (Some ''....'') (Some [0xAB, 7]) (int (length [0xAB, 7 :: byte])) =
      Inr (Some (t @ drop (2 * length [0xAB, 7 :: byte]) ''....'')) \<and>
    srs_data_to_hex_lowercase (Some ''....'') (Some [0xAB, 7]) (int (length [0xAB, 7 :: byte])) =
      Inr (Some (u @ drop (2 * length [0xAB, 7 :: byte]) ''....'')) \<and>
    srs_hex_to_data [0, 0] (map char_byte t) (2 * int (length [0xAB, 7 :: byte]))
      = Inr (int (length [0xAB, 7 :: byte]), [0xAB, 7] @ drop (length [0xAB, 7 :: byte]) [0, 0]) \<and>
    srs_hex_to_data [0, 0] (map char_byte u) (2 * int (length [0xAB, 7 :: byte]))
      = Inr (int (length [0xAB, 7 :: byte]), [0xAB, 7] @ drop (length [0xAB, 7 :: byte]) [0, 0])"
  by (rule hex_roundtrip) simp_all

text \<open>
  \<open>srs_hex_to_data\<close> answers -1 exactly when the text is empty, has an odd length or a
  character that is not a hexadecimal digit of either case; otherwise it answers the number of
  bytes and has written every one of them, each from its two characters.
\<close>

theorem hex_to_data_result:
  assumes "sz \<le> int (length p)" "sz \<le> 2 * int (length data)"
  shows "\<exists>r data'. srs_hex_to_data data p sz = Inr (r, data') \<and> length data' = length data \<and>
    (r = - 1 \<longleftrightarrow> sz \<le> 0 \<or> odd sz \<or> \<not> list_all hex_digit (take (nat sz) p)) \<and>
    (r \<noteq> - 1 \<longrightarrow> 2 * r = sz \<and> data' = map (unhex p) [0..<nat r] @ drop (nat r) data)"
proof (cases "sz \<le> 0 \<or> odd sz")
  case True
  have "sz smod 2 = 1" if "odd sz" "0 < sz"
    using that by (simp add: signed_modulo_int_def sgn_if odd_iff_mod_2_eq_one)
  then show ?thesis using True by (auto simp: srs_hex_to_data_def)
next
  case False
  then obtain n where n: "sz = 2 * int n" "0 < n"
    by (metis evenE nonneg_int_cases not_le pos_int_cases zero_less_mult_pos zero_less_numeral)
  have sm: "sz smod 2 \<noteq> 1" "sz sdiv 2 = int n" "nat sz = 2 * n"
    using n by (simp_all add: signed_divide_int_def signed_modulo_int_def sgn_if)
  have len: "2 * n \<le> length p" "n \<le> length data" using assms n by simp_all
  show ?thesis
  proof (cases "list_all hex_digit (take (2 * n) p)")
    case True
    then show ?thesis using unhex_loop_ok [OF len] len n sm by (simp add: srs_hex_to_data_def)
  next
    case bad: False
    then obtain d where "unhex_loop p [0..<n] data = Inr (False, d)" "length d = length data"
      using unhex_loop_bad [OF len] by blast
    then show ?thesis using bad False sm by (simp add: srs_hex_to_data_def)
  qed
qed

lemma hex_to_data_result_witness:
  "\<exists>r data'. srs_hex_to_data [0] [0x61, 0x7A] 2 = Inr (r, data') \<and> r = - 1"
  using hex_to_data_result [of 2 "[0x61, 0x7A]" "[0]"] by (auto simp: hex_digit_def)

lemma random_table_set: "list_all (\<lambda>c. c \<in> set ''0123456789abcdefghijklmnopqrstuvwxyz'') random_table"
  by (simp add: random_table_def)

text \<open>
  \<open>srs_random_str(n)\<close> has exactly \<open>n\<close> characters, all of them digits or lower-case
  letters, so it is usable in a context id and in a log line; no index of its table is out of
  range.
\<close>

theorem random_str_charset:
  "\<exists>s. srs_random_str rnd (int n) = Inr s \<and> length s = n \<and>
    set s \<subseteq> set ''0123456789abcdefghijklmnopqrstuvwxyz''"
proof -
  have "random_table ! (k mod length random_table) \<in> set ''0123456789abcdefghijklmnopqrstuvwxyz''" for k
  proof -
    have "k mod length random_table < length random_table"
      by (rule mod_less_divisor) (simp add: random_table_def)
    then show ?thesis using random_table_set by (simp only: list_all_length)
  qed
  then show ?thesis by (auto simp: srs_random_str_def simp del: list.set)
qed

end
