(* ===== verification/Srs_Kernel_String.thy ===== *)
theory Srs_Kernel_String
  imports Srs_Text "HOL-Library.Sublist"
begin

section \<open>String utilities (core/srs_kernel_utility.cpp)\<close>

text \<open>
  The searches of \<open>std::string\<close> return \<open>None\<close> for \<open>npos\<close>.  \<open>substr\<close> beyond the end of the
  string throws \<open>std::out_of_range\<close>.  Loops whose progress depends on the arguments are
  partial functions: \<open>None\<close> there means that the call does not return.
\<close>

subsection \<open>\<open>std::string\<close>\<close>

fun str_find :: "string \<Rightarrow> string \<Rightarrow> nat option" where
  "str_find pat s = (if prefix pat s then Some 0
     else case s of [] \<Rightarrow> None | _ # cs \<Rightarrow> map_option Suc (str_find pat cs))"

declare str_find.simps [simp del]

definition str_find_from :: "string \<Rightarrow> string \<Rightarrow> nat \<Rightarrow> nat option" where
  "str_find_from pat s pos = (if pos > length s then None else map_option ((+) pos) (str_find pat (drop pos s)))"

fun str_rfind :: "string \<Rightarrow> string \<Rightarrow> nat option" where
  "str_rfind pat [] = (if pat = [] then Some 0 else None)"
| "str_rfind pat (c # cs) = (case str_rfind pat cs of
      Some i \<Rightarrow> Some (Suc i)
    | None \<Rightarrow> if prefix pat (c # cs) then Some 0 else None)"

definition str_substr :: "string \<Rightarrow> nat \<Rightarrow> string outcome" where
  "str_substr s pos = (if pos > length s then Inl Out_of_range else Inr (drop pos s))"

definition str_substr_n :: "string \<Rightarrow> nat \<Rightarrow> nat \<Rightarrow> string outcome" where
  "str_substr_n s pos n = (if pos > length s then Inl Out_of_range else Inr (take n (drop pos s)))"

subsection \<open>Replace, trim, remove, erase\<close>

partial_function (option) replace_loop :: "string \<Rightarrow> string \<Rightarrow> nat \<Rightarrow> string \<Rightarrow> string option" where
  "replace_loop old_str new_str pos ret = (case str_find_from old_str ret pos of
     None \<Rightarrow> Some ret
   | Some pos \<Rightarrow> replace_loop old_str new_str (pos + length new_str)
       (take pos ret @ new_str @ drop (pos + length old_str) ret))"

definition srs_string_replace :: "string \<Rightarrow> string \<Rightarrow> string \<Rightarrow> string option" where
  "srs_string_replace str old_str new_str =
     (if old_str = new_str then Some str else replace_loop old_str new_str 0 str)"

text \<open>
  The inner \<open>while\<close> strips one character as long as it matches; if it stripped anything the
  outer loop starts over with the first trim character.
\<close>

definition strip_end :: "char \<Rightarrow> string \<Rightarrow> string" where
  "strip_end ch ret = rev (dropWhile (\<lambda>c. c = ch) (rev ret))"

lemma strip_end_length: "length (strip_end ch ret) \<le> length ret"
  using length_dropWhile_le [of "\<lambda>c. c = ch" "rev ret"] by (simp add: strip_end_def)

lemma strip_end_shorter: "strip_end ch ret \<noteq> ret \<Longrightarrow> length (strip_end ch ret) < length ret"
proof -
  assume "strip_end ch ret \<noteq> ret"
  then have "dropWhile (\<lambda>c. c = ch) (rev ret) \<noteq> rev ret" by (auto simp: strip_end_def)
  then have "length (dropWhile (\<lambda>c. c = ch) (rev ret)) < length (rev ret)"
    by (cases "rev ret") (auto simp: length_dropWhile_le less_Suc_eq_le split: if_splits)
  then show ?thesis by (simp add: strip_end_def)
qed

function (sequential) trim_end_loop :: "string \<Rightarrow> string \<Rightarrow> string \<Rightarrow> string" where
  "trim_end_loop trim_chars [] ret = ret"
| "trim_end_loop trim_chars (ch # todo) ret =
     (if strip_end ch ret \<noteq> ret then trim_end_loop trim_chars trim_chars (strip_end ch ret)
      else trim_end_loop trim_chars todo ret)"
  by pat_completeness auto
termination
  by (relation "measures [\<lambda>(_, _, ret). length ret, \<lambda>(_, todo, _). length todo]")
     (auto dest: strip_end_shorter)

definition srs_string_trim_end :: "string \<Rightarrow> string \<Rightarrow> string" where
  "srs_string_trim_end str trim_chars = trim_end_loop trim_chars trim_chars str"

definition strip_start :: "char \<Rightarrow> string \<Rightarrow> string" where
  "strip_start ch ret = dropWhile (\<lambda>c. c = ch) ret"

lemma strip_start_shorter: "strip_start ch ret \<noteq> ret \<Longrightarrow> length (strip_start ch ret) < length ret"
  by (cases ret) (auto simp: strip_start_def length_dropWhile_le less_Suc_eq_le split: if_splits)

function (sequential) trim_start_loop :: "string \<Rightarrow> string \<Rightarrow> string \<Rightarrow> string" where
  "trim_start_loop trim_chars [] ret = ret"
| "trim_start_loop trim_chars (ch # todo) ret =
     (if strip_start ch ret \<noteq> ret then trim_start_loop trim_chars trim_chars (strip_start ch ret)
      else trim_start_loop trim_chars todo ret)"
  by pat_completeness auto
termination
  by (relation "measures [\<lambda>(_, _, ret). length ret, \<lambda>(_, todo, _). length todo]")
     (auto dest: strip_start_shorter)

definition srs_string_trim_start :: "string \<Rightarrow> string \<Rightarrow> string" where
  "srs_string_trim_start str trim_chars = trim_start_loop trim_chars trim_chars str"

function (sequential) remove_loop :: "string \<Rightarrow> string \<Rightarrow> string \<Rightarrow> string" where
  "remove_loop remove_chars [] ret = ret"
| "remove_loop remove_chars (ch # todo) ret =
     (if ch \<in> set ret then remove_loop remove_chars remove_chars (filter (\<lambda>c. c \<noteq> ch) ret)
      else remove_loop remove_chars todo ret)"
  by pat_completeness auto
termination
  by (relation "measures [\<lambda>(_, _, ret). length ret, \<lambda>(_, todo, _). length todo]")
     (auto simp: length_filter_less)

definition srs_string_remove :: "string \<Rightarrow> string \<Rightarrow> string" where
  "srs_string_remove str remove_chars = remove_loop remove_chars remove_chars str"

definition srs_erase_first_substr :: "string \<Rightarrow> string \<Rightarrow> string" where
  "srs_erase_first_substr str erase_string = (case str_find erase_string str of
     None \<Rightarrow> str | Some pos \<Rightarrow> take pos str @ drop (pos + length erase_string) str)"

definition srs_erase_last_substr :: "string \<Rightarrow> string \<Rightarrow> string" where
  "srs_erase_last_substr str erase_string = (case str_rfind erase_string str of
     None \<Rightarrow> str | Some pos \<Rightarrow> take pos str @ drop (pos + length erase_string) str)"

subsection \<open>Tests and counts\<close>

definition srs_string_ends_with :: "string \<Rightarrow> string \<Rightarrow> bool" where
  "srs_string_ends_with str flag \<longleftrightarrow> (case str_rfind flag str of
     None \<Rightarrow> False | Some pos \<Rightarrow> pos = length str - length flag)"

definition srs_string_ends_with2 :: "string \<Rightarrow> string \<Rightarrow> string \<Rightarrow> bool" where
  "srs_string_ends_with2 str flag0 flag1 \<longleftrightarrow> srs_string_ends_with str flag0 \<or> srs_string_ends_with str flag1"

definition srs_string_ends_with3 :: "string \<Rightarrow> string \<Rightarrow> string \<Rightarrow> string \<Rightarrow> bool" where
  "srs_string_ends_with3 str flag0 flag1 flag2 \<longleftrightarrow> srs_string_ends_with str flag0 \<or>
     srs_string_ends_with str flag1 \<or> srs_string_ends_with str flag2"

definition srs_string_ends_with4 :: "string \<Rightarrow> string \<Rightarrow> string \<Rightarrow> string \<Rightarrow> string \<Rightarrow> bool" where
  "srs_string_ends_with4 str flag0 flag1 flag2 flag3 \<longleftrightarrow> srs_string_ends_with str flag0 \<or>
     srs_string_ends_with str flag1 \<or> srs_string_ends_with str flag2 \<or> srs_string_ends_with str flag3"

definition srs_string_starts_with :: "string \<Rightarrow> string \<Rightarrow> bool" where
  "srs_string_starts_with str flag \<longleftrightarrow> str_find flag str = Some 0"

definition srs_string_starts_with2 :: "string \<Rightarrow> string \<Rightarrow> string \<Rightarrow> bool" where
  "srs_string_starts_with2 str flag0 flag1 \<longleftrightarrow>
     srs_string_starts_with str flag0 \<or> srs_string_starts_with str flag1"

definition srs_string_starts_with3 :: "string \<Rightarrow> string \<Rightarrow> string \<Rightarrow> string \<Rightarrow> bool" where
  "srs_string_starts_with3 str flag0 flag1 flag2 \<longleftrightarrow>
     srs_string_starts_with2 str flag0 flag1 \<or> srs_string_starts_with str flag2"

definition srs_string_starts_with4 :: "string \<Rightarrow> string \<Rightarrow> string \<Rightarrow> string \<Rightarrow> string \<Rightarrow> bool" where
  "srs_string_starts_with4 str flag0 flag1 flag2 flag3 \<longleftrightarrow>
     srs_string_starts_with3 str flag0 flag1 flag2 \<or> srs_string_starts_with str flag3"

definition srs_string_contains :: "string \<Rightarrow> string \<Rightarrow> bool" where
  "srs_string_contains str flag \<longleftrightarrow> str_find flag str \<noteq> None"

definition srs_string_contains2 :: "string \<Rightarrow> string \<Rightarrow> string \<Rightarrow> bool" where
  "srs_string_contains2 str flag0 flag1 \<longleftrightarrow> str_find flag0 str \<noteq> None \<or> str_find flag1 str \<noteq> None"

definition srs_string_contains3 :: "string \<Rightarrow> string \<Rightarrow> string \<Rightarrow> string \<Rightarrow> bool" where
  "srs_string_contains3 str flag0 flag1 flag2 \<longleftrightarrow>
     str_find flag0 str \<noteq> None \<or> str_find flag1 str \<noteq> None \<or> str_find flag2 str \<noteq> None"

definition srs_string_count :: "string \<Rightarrow> string \<Rightarrow> int" where
  "srs_string_count str flag = foldl (\<lambda>nn ch. nn + int (count_list str ch)) 0 flag"

subsection \<open>Splitting\<close>

text \<open>The \<open>while\<close> loop, from \<open>posBegin\<close> and \<open>posSeperator\<close> on.\<close>

partial_function (option) split_loop ::
  "string \<Rightarrow> string \<Rightarrow> nat \<Rightarrow> nat option \<Rightarrow> string list \<Rightarrow> string list outcome option" where
  "split_loop s seperator posBegin posSeperator result = (case posSeperator of
     None \<Rightarrow> Some (rbind (str_substr s posBegin) (\<lambda>t. Inr (result @ [t])))
   | Some p \<Rightarrow> (case str_substr_n s posBegin (p - posBegin) of
       Inl f \<Rightarrow> Some (Inl f)
     | Inr t \<Rightarrow> split_loop s seperator (p + length seperator)
         (str_find_from seperator s (p + length seperator)) (result @ [t])))"

definition srs_string_split :: "string \<Rightarrow> string \<Rightarrow> string list outcome option" where
  "srs_string_split s seperator =
     (if seperator = [] then Some (Inr [s]) else split_loop s seperator 0 (str_find seperator s) [])"

fun min_match_loop :: "string \<Rightarrow> string list \<Rightarrow> nat option \<Rightarrow> string \<Rightarrow> string" where
  "min_match_loop str [] min_pos m = m"
| "min_match_loop str (seperator # sps) min_pos m = (case str_find seperator str of
     None \<Rightarrow> min_match_loop str sps min_pos m
   | Some pos \<Rightarrow>
       if (case min_pos of None \<Rightarrow> True | Some mp \<Rightarrow> pos < mp)
       then min_match_loop str sps (Some pos) seperator
       else min_match_loop str sps min_pos m)"

definition srs_string_min_match :: "string \<Rightarrow> string list \<Rightarrow> string" where
  "srs_string_min_match str seperators =
     (if seperators = [] then str else min_match_loop str seperators None [])"

partial_function (option) split_multi_loop ::
  "string list \<Rightarrow> string \<Rightarrow> string list \<Rightarrow> string list outcome option" where
  "split_multi_loop seperators s arr =
     (let seperator = srs_string_min_match s seperators;
          fin = Some (Inr (if s \<noteq> [] then arr @ [s] else arr)) in
      if seperator = [] then fin
      else case str_find seperator s of None \<Rightarrow> fin
        | Some pos \<Rightarrow> (case str_substr s (pos + length seperator) of
            Inl f \<Rightarrow> Some (Inl f)
          | Inr t \<Rightarrow> split_multi_loop seperators t (arr @ [take pos s])))"

definition srs_string_split_multi :: "string \<Rightarrow> string list \<Rightarrow> string list outcome option" where
  "srs_string_split_multi str seperators = split_multi_loop seperators str []"

subsection \<open>What the searches find\<close>

text \<open>\<open>occurs pat s i\<close>: \<open>pat\<close> stands at position \<open>i\<close> of \<open>s\<close>.\<close>

definition occurs :: "string \<Rightarrow> string \<Rightarrow> nat \<Rightarrow> bool" where
  "occurs pat s i \<longleftrightarrow> i \<le> length s \<and> prefix pat (drop i s)"

lemma occurs_simps [simp]:
  "occurs pat s 0 \<longleftrightarrow> prefix pat s"
  "occurs pat (c # cs) (Suc i) \<longleftrightarrow> occurs pat cs i"
  "occurs pat [] (Suc i) \<longleftrightarrow> False"
  by (simp_all add: occurs_def)

lemma occurs_split: "occurs pat s i \<Longrightarrow> s = take i s @ pat @ drop (i + length pat) s"
  unfolding occurs_def prefix_def by (metis append_eq_conv_conj append_take_drop_id drop_drop add.commute)

lemma occurs_append: "occurs pat (u @ pat @ v) (length u)"
  by (simp add: occurs_def)

lemma str_find_Some:
  "str_find pat s = Some i \<longleftrightarrow> occurs pat s i \<and> (\<forall>j < i. \<not> occurs pat s j)"
proof (induction s arbitrary: i)
  case Nil
  show ?case by (cases i) (auto simp: str_find.simps [of pat "[]"])
next
  case (Cons c cs)
  show ?case
    by (cases i) (auto simp: str_find.simps [of pat "c # cs"] Cons.IH All_less_Suc2 split: if_splits)
qed

lemma str_find_None: "str_find pat s = None \<longleftrightarrow> (\<forall>i. \<not> occurs pat s i)"
proof (cases "\<exists>i. occurs pat s i")
  case True
  let ?i = "LEAST i. occurs pat s i"
  have "occurs pat s ?i" using True by (rule LeastI_ex)
  moreover have "\<forall>j < ?i. \<not> occurs pat s j" using not_less_Least by blast
  ultimately have "str_find pat s = Some ?i" by (simp only: str_find_Some)
  then show ?thesis using True by simp
next
  case False
  then have "str_find pat s \<noteq> Some i" for i by (simp add: str_find_Some)
  then show ?thesis using False by (cases "str_find pat s") auto
qed

lemma all_nat: "(\<forall>i. P i) \<longleftrightarrow> P 0 \<and> (\<forall>i. P (Suc i))"
  by (metis not0_implies_Suc)

lemma str_rfind_None: "str_rfind pat s = None \<longleftrightarrow> (\<forall>i. \<not> occurs pat s i)"
  by (induction s) (auto simp: all_nat [of "\<lambda>i. \<not> occurs pat _ i"] split: option.splits)

lemma str_rfind_Some_sound: "str_rfind pat s = Some i \<Longrightarrow> occurs pat s i \<and> (\<forall>j > i. \<not> occurs pat s j)"
proof (induction s arbitrary: i)
  case (Cons c cs)
  have *: "occurs pat (c # cs) j \<longleftrightarrow> (case j of 0 \<Rightarrow> prefix pat (c # cs) | Suc j \<Rightarrow> occurs pat cs j)" for j
    by (cases j) auto
  from Cons show ?case
    by (auto split: option.splits if_splits nat.splits simp: str_rfind_None *)
qed (auto split: if_splits simp: gr0_conv_Suc)

lemma str_rfind_Some:
  "str_rfind pat s = Some i \<longleftrightarrow> occurs pat s i \<and> (\<forall>j > i. \<not> occurs pat s j)"
proof
  assume i: "occurs pat s i \<and> (\<forall>j > i. \<not> occurs pat s j)"
  then obtain k where k: "str_rfind pat s = Some k" using str_rfind_None [of pat s] by auto
  then show "str_rfind pat s = Some i" using str_rfind_Some_sound [OF k] i by (metis linorder_neqE_nat)
qed (rule str_rfind_Some_sound)

lemma occurs_iff_sublist: "(\<exists>i. occurs pat s i) \<longleftrightarrow> sublist pat s"
  using occurs_split [of pat s] occurs_append [of pat] by (auto simp: sublist_def)

lemma occurs_bound: "occurs pat s i \<Longrightarrow> i + length pat \<le> length s"
  by (auto simp: occurs_def dest: prefix_length_le)

lemma shorter: "sep \<noteq> [] \<Longrightarrow> i + length sep \<le> n - k \<Longrightarrow> n - (k + i + length sep) < n - k"
  by (cases sep) auto

lemma occurs_take: "occurs pat (take n s) i \<Longrightarrow> occurs pat s i"
  unfolding occurs_def using prefix_order.trans [OF _ take_is_prefix, of pat "n - i" "drop i s"]
  by (simp add: drop_take)

lemma str_find_from_drop:
  "pos \<le> length s \<Longrightarrow> str_find_from pat s pos = map_option ((+) pos) (str_find pat (drop pos s))"
  by (simp add: str_find_from_def)

subsection \<open>Splitting and joining\<close>

text \<open>The reference: cut at the first separator, go on after it.\<close>

function split_on :: "string \<Rightarrow> string \<Rightarrow> string list" where
  "split_on sep s = (if sep = [] then [s] else case str_find sep s of
      None \<Rightarrow> [s] | Some i \<Rightarrow> take i s # split_on sep (drop (i + length sep) s))"
  by pat_completeness auto
termination
  by (relation "measure (\<lambda>(_, s). length s)") (use shorter [where k = 0] in \<open>auto simp: str_find_Some dest!: occurs_bound\<close>)

declare split_on.simps [simp del]

fun join_with :: "string \<Rightarrow> string list \<Rightarrow> string" where
  "join_with sep [] = []"
| "join_with sep [p] = p"
| "join_with sep (p # ps) = p @ sep @ join_with sep ps"

lemma split_on_not_Nil [simp]: "split_on sep s \<noteq> []"
  by (subst split_on.simps) (auto split: option.splits)

lemma join_with_Cons: "ps \<noteq> [] \<Longrightarrow> join_with sep (p # ps) = p @ sep @ join_with sep ps"
  by (cases ps) simp_all

lemma join_split: "join_with sep (split_on sep s) = s"
proof (induction sep s rule: split_on.induct)
  case (1 sep s)
  show ?case
  proof (cases "sep = [] \<or> str_find sep s = None")
    case False
    then obtain i where i: "str_find sep s = Some i" by auto
    then have "s = take i s @ sep @ drop (i + length sep) s" using occurs_split str_find_Some by blast
    with 1 [OF _ i] False i show ?thesis by (subst split_on.simps) (simp add: join_with_Cons)
  qed (subst split_on.simps, auto)
qed

lemma split_on_pieces: "sep \<noteq> [] \<Longrightarrow> p \<in> set (split_on sep s) \<Longrightarrow> \<not> sublist sep p"
proof (induction sep s rule: split_on.induct)
  case (1 sep s)
  show ?case
  proof (cases "str_find sep s")
    case None
    then have "split_on sep s = [s]" by (simp add: split_on.simps [of sep s])
    then show ?thesis using 1 None by (simp add: str_find_None flip: occurs_iff_sublist)
  next
    case (Some i)
    have "\<not> occurs sep (take i s) j" for j
    proof
      assume o: "occurs sep (take i s) j"
      have "j + length sep \<le> length (take i s)" by (rule occurs_bound [OF o])
      then have "j < i" using 1(2) by (cases sep) auto
      then show False using occurs_take [OF o] Some by (simp add: str_find_Some)
    qed
    then show ?thesis
      using 1 Some by (auto simp: split_on.simps [of sep s] simp flip: occurs_iff_sublist)
  qed
qed

lemma split_loop_eq:
  "sep \<noteq> [] \<Longrightarrow> pb \<le> length s \<Longrightarrow>
   split_loop s sep pb (str_find_from sep s pb) res = Some (Inr (res @ split_on sep (drop pb s)))"
proof (induction "length s - pb" arbitrary: pb res rule: less_induct)
  case less
  show ?case
  proof (cases "str_find sep (drop pb s)")
    case None
    then show ?thesis
      using less.prems
      by (subst split_loop.simps) (simp add: str_find_from_drop str_substr_def split_on.simps [of sep "drop pb s"])
  next
    case (Some i)
    have b: "i + length sep \<le> length s - pb"
      using occurs_bound [of sep "drop pb s" i] Some by (simp add: str_find_Some)
    let ?pb = "pb + i + length sep"
    have "split_loop s sep ?pb (str_find_from sep s ?pb) (res @ [take i (drop pb s)]) =
        Some (Inr ((res @ [take i (drop pb s)]) @ split_on sep (drop ?pb s)))"
      by (rule less.hyps) (use less.prems b shorter [OF less.prems(1) b] in auto)
    then show ?thesis
      using less.prems Some b
      by (subst split_loop.simps)
         (simp add: str_find_from_drop [of pb] str_substr_n_def split_on.simps [of sep "drop pb s"] add.commute add.left_commute)
  qed
qed

lemma replace_loop_eq:
  "old_str \<noteq> [] \<Longrightarrow> replace_loop old_str new_str (length u) (u @ v) = Some (u @ join_with new_str (split_on old_str v))"
proof (induction "length v" arbitrary: u v rule: less_induct)
  case less
  show ?case
  proof (cases "str_find old_str v")
    case None
    then show ?thesis
      by (subst replace_loop.simps) (simp add: str_find_from_drop split_on.simps [of old_str v])
  next
    case (Some i)
    have b: "i + length old_str \<le> length v" using occurs_bound [of old_str v i] Some by (simp add: str_find_Some)
    let ?u = "u @ take i v @ new_str" and ?v = "drop (i + length old_str) v"
    have "replace_loop old_str new_str (length ?u) (?u @ ?v) =
        Some (?u @ join_with new_str (split_on old_str ?v))"
      by (rule less.hyps) (use less.prems b shorter [of old_str i "length v" 0] in auto)
    moreover have "min (length v) i = i" using b by simp
    ultimately show ?thesis
      using less.prems Some b
      by (subst replace_loop.simps)
         (simp add: str_find_from_drop split_on.simps [of old_str v] join_with_Cons add.assoc)
  qed
qed

lemma find_empty: "str_find [] s = Some 0"
  by (simp add: str_find.simps)

lemma replace_empty_diverges:
  assumes "new_str \<noteq> []"
  shows "pos \<le> length ret \<Longrightarrow> replace_loop [] new_str pos ret = None"
proof (rule ccontr)
  define P where "P = (\<lambda>(old_str :: string) nw pos (ret :: string) (y :: string). old_str = [] \<longrightarrow> nw = new_str \<longrightarrow> pos \<le> length ret \<longrightarrow> False)"
  have raw: "replace_loop old_str nw pos ret = Some y \<Longrightarrow> P old_str nw pos ret y" for old_str nw pos ret y
  proof (rule replace_loop.raw_induct [of P])
    fix rec :: "string \<Rightarrow> string \<Rightarrow> nat \<Rightarrow> string \<Rightarrow> string option" and old_str nw pos ret y
    assume IH: "\<And>old_str nw pos ret y. rec old_str nw pos ret = Some y \<Longrightarrow> P old_str nw pos ret y"
      and body: "(case str_find_from old_str ret pos of None \<Rightarrow> Some ret
        | Some pos \<Rightarrow> rec old_str nw (pos + length nw) (take pos ret @ nw @ drop (pos + length old_str) ret)) = Some y"
    show "P old_str nw pos ret y" unfolding P_def
    proof (intro impI)
      assume a: "old_str = []" "nw = new_str" "pos \<le> length ret"
      then have "rec [] new_str (pos + length new_str) (take pos ret @ new_str @ drop pos ret) = Some y"
        using body by (simp add: str_find_from_drop find_empty)
      from IH [OF this] show False using a by (simp add: P_def)
    qed
  qed
  assume "pos \<le> length ret" "replace_loop [] new_str pos ret \<noteq> None"
  then show False using raw [of "[]" new_str pos ret] by (auto simp: P_def)
qed

lemma trim_end_step: "ch \<in> set trim_chars \<Longrightarrow> dropWhile (\<lambda>c. c \<in> set trim_chars) (dropWhile (\<lambda>c. c = ch) xs)
    = dropWhile (\<lambda>c. c \<in> set trim_chars) xs"
  by (induction xs) auto

lemma dropWhile_same: "dropWhile P xs = xs \<longleftrightarrow> xs = [] \<or> \<not> P (hd xs)"
  using length_dropWhile_le [of P "tl xs"] by (cases xs) (auto dest: arg_cong [of _ _ length])

lemma trim_end_loop_eq:
  "set todo \<subseteq> set trim_chars \<Longrightarrow> (\<forall>ch \<in> set trim_chars - set todo. ret = [] \<or> last ret \<noteq> ch) \<Longrightarrow>
   trim_end_loop trim_chars todo ret = rev (dropWhile (\<lambda>c. c \<in> set trim_chars) (rev ret))"
proof (induction trim_chars todo ret rule: trim_end_loop.induct)
  case (1 trim_chars ret)
  then have "dropWhile (\<lambda>c. c \<in> set trim_chars) (rev ret) = rev ret"
    by (auto simp: dropWhile_same hd_rev)
  then show ?case by simp
next
  case (2 trim_chars ch todo ret)
  show ?case
  proof (cases "strip_end ch ret = ret")
    case True
    then have "ret = [] \<or> last ret \<noteq> ch" by (auto simp: strip_end_def rev_swap dropWhile_same hd_rev)
    with 2 True show ?thesis by auto
  next
    case False
    with 2 show ?thesis by (simp add: strip_end_def trim_end_step)
  qed
qed

lemma trim_start_loop_eq:
  "set todo \<subseteq> set trim_chars \<Longrightarrow> (\<forall>ch \<in> set trim_chars - set todo. ret = [] \<or> hd ret \<noteq> ch) \<Longrightarrow>
   trim_start_loop trim_chars todo ret = dropWhile (\<lambda>c. c \<in> set trim_chars) ret"
proof (induction trim_chars todo ret rule: trim_start_loop.induct)
  case (1 trim_chars ret)
  then have "dropWhile (\<lambda>c. c \<in> set trim_chars) ret = ret" by (auto simp: dropWhile_same)
  then show ?case by simp
next
  case (2 trim_chars ch todo ret)
  show ?case
  proof (cases "strip_start ch ret = ret")
    case True
    then have "ret = [] \<or> hd ret \<noteq> ch" by (auto simp: strip_start_def dropWhile_same)
    with 2 True show ?thesis by auto
  next
    case False
    with 2 show ?thesis by (simp add: strip_start_def trim_end_step)
  qed
qed

lemma remove_loop_eq:
  "set todo \<subseteq> set remove_chars \<Longrightarrow> set ret \<inter> (set remove_chars - set todo) = {} \<Longrightarrow>
   remove_loop remove_chars todo ret = filter (\<lambda>c. c \<notin> set remove_chars) ret"
proof (induction remove_chars todo ret rule: remove_loop.induct)
  case (1 remove_chars ret)
  then have "filter (\<lambda>c. c \<notin> set remove_chars) ret = ret" by (auto intro!: filter_True)
  then show ?case by simp
next
  case (2 remove_chars ch todo ret)
  show ?case
  proof (cases "ch \<in> set ret")
    case True
    have "filter (\<lambda>c. c \<notin> set remove_chars) (filter (\<lambda>c. c \<noteq> ch) ret) = filter (\<lambda>c. c \<notin> set remove_chars) ret"
      using 2(3) by (auto intro: filter_cong)
    with 2 True show ?thesis by simp
  next
    case False
    with 2 show ?thesis by (simp, blast)
  qed
qed

subsection \<open>Properties\<close>

text \<open>
  Splitting by a non-empty separator always returns, never reads beyond the string, and
  gives the pieces between the separators: joined with the separator they are the string again,
  and none of them contains it.  An empty separator gives the string as the only piece.
\<close>

theorem string_split_pieces:
  "srs_string_split s sep = Some (Inr (split_on sep s)) \<and> join_with sep (split_on sep s) = s \<and>
   (sep \<noteq> [] \<longrightarrow> (\<forall>p \<in> set (split_on sep s). \<not> srs_string_contains p sep)) \<and> split_on [] s = [s]"
proof -
  have "str_find_from sep s 0 = str_find sep s"
    by (cases "str_find sep s") (simp_all add: str_find_from_def)
  then have "sep \<noteq> [] \<Longrightarrow> srs_string_split s sep = Some (Inr (split_on sep s))"
    using split_loop_eq [of sep 0 s "[]"] by (simp add: srs_string_split_def)
  moreover have "srs_string_contains p sep \<longleftrightarrow> sublist sep p" for p
    using str_find_None [of sep p] occurs_iff_sublist [of sep p] by (auto simp: srs_string_contains_def)
  moreover have e: "split_on [] s = [s]" by (simp add: split_on.simps)
  ultimately show ?thesis
    using join_split split_on_pieces by (cases "sep = []") (auto simp: srs_string_split_def e)
qed

lemma string_split_pieces_witness:
  "srs_string_split ''a,,b'' '','' = Some (Inr [''a'', [], ''b''])"
proof -
  have "split_on '','' ''a,,b'' = [''a'', [], ''b'']" by code_simp
  then show ?thesis using string_split_pieces [of "''a,,b''" "'',''"] by simp
qed

text \<open>
  C27: \<open>srs_string_replace\<close> replaces every occurrence of a non-empty pattern, found from left to
  right without looking into replaced text.  With an empty pattern and a non-empty replacement
  the call never returns: the search finds the empty string again and again, at the position
  behind the text just inserted.
\<close>

theorem string_replace_all:
  "srs_string_replace s old_str new_str =
   (if old_str \<noteq> [] then Some (join_with new_str (split_on old_str s))
    else if new_str = [] then Some s else None)"
proof -
  have "join_with old_str (split_on old_str s) = s" by (rule join_split)
  then show ?thesis
    using replace_loop_eq [of old_str new_str "[]" s] replace_empty_diverges [of new_str 0 s]
    by (auto simp: srs_string_replace_def)
qed

text \<open>
  The trims drop the longest prefix or suffix of trim characters, whatever their order or
  repetition in the argument, and \<open>srs_string_remove\<close> drops exactly the listed characters
  and keeps the order of the others.
\<close>

theorem string_trim_and_remove:
  "srs_string_trim_start s cs = dropWhile (\<lambda>c. c \<in> set cs) s \<and>
   srs_string_trim_end s cs = rev (dropWhile (\<lambda>c. c \<in> set cs) (rev s)) \<and>
   srs_string_remove s cs = filter (\<lambda>c. c \<notin> set cs) s"
  using trim_start_loop_eq [of cs cs s] trim_end_loop_eq [of cs cs s] remove_loop_eq [of cs cs s]
  by (simp add: srs_string_trim_start_def srs_string_trim_end_def srs_string_remove_def)

lemma rfind_suffix: "str_rfind flag str = Some (length str - length flag) \<longleftrightarrow> suffix flag str"
proof
  assume "str_rfind flag str = Some (length str - length flag)"
  then have o: "occurs flag str (length str - length flag)" by (simp add: str_rfind_Some)
  then have p: "prefix flag (drop (length str - length flag) str)" and l: "length flag \<le> length str"
    using occurs_bound [OF o] by (auto simp: occurs_def)
  from p obtain zs where z: "drop (length str - length flag) str = flag @ zs" by (auto simp: prefix_def)
  have "length (drop (length str - length flag) str) = length flag" using l by simp
  then have "drop (length str - length flag) str = flag" using z by simp
  then show "suffix flag str" by (metis suffix_drop)
next
  assume "suffix flag str"
  then obtain u where u: "str = u @ flag" by (auto simp: suffix_def)
  then show "str_rfind flag str = Some (length str - length flag)"
    using occurs_append [of flag u "[]"] occurs_bound [of flag str] by (fastforce simp: str_rfind_Some)
qed

text \<open>
  The tests mean what their names say: suffix, prefix and substring (the empty string being
  all of them of every string, and a flag longer than the string none); the variants with
  several flags test for any of them; \<open>srs_string_count\<close> counts the characters of the
  string that are listed, once for each time they are listed.
\<close>

theorem string_tests:
  "(srs_string_ends_with s f \<longleftrightarrow> suffix f s) \<and> (srs_string_starts_with s f \<longleftrightarrow> prefix f s) \<and>
   (srs_string_contains s f \<longleftrightarrow> sublist f s) \<and>
   (srs_string_ends_with4 s f g h i \<longleftrightarrow> (\<exists>x. x \<in> {f, g, h, i} \<and> suffix x s)) \<and>
   (srs_string_starts_with4 s f g h i \<longleftrightarrow> (\<exists>x. x \<in> {f, g, h, i} \<and> prefix x s)) \<and>
   (srs_string_contains3 s f g h \<longleftrightarrow> (\<exists>x. x \<in> {f, g, h} \<and> sublist x s)) \<and>
   srs_string_count s f = int (sum_list (map (count_list s) f))"
proof -
  have e: "srs_string_ends_with s f \<longleftrightarrow> suffix f s" for f
    using rfind_suffix [of f s] by (auto simp: srs_string_ends_with_def split: option.splits)
  have b: "srs_string_starts_with s f \<longleftrightarrow> prefix f s" for f
    by (auto simp: srs_string_starts_with_def str_find_Some)
  have c: "str_find f s \<noteq> None \<longleftrightarrow> sublist f s" for f
    using str_find_None [of f s] occurs_iff_sublist [of f s] by auto
  have "foldl (\<lambda>nn ch. nn + int (count_list s ch)) k f = k + int (sum_list (map (count_list s) f))" for k
    by (induction f arbitrary: k) auto
  then have n: "srs_string_count s f = int (sum_list (map (count_list s) f))" by (simp add: srs_string_count_def)
  show ?thesis
    using e b n c [of f] c [of g] c [of h]
    by (simp add: srs_string_ends_with4_def srs_string_starts_with4_def srs_string_starts_with3_def
        srs_string_starts_with2_def srs_string_contains_def srs_string_contains3_def del: not_None_eq) blast
qed

text \<open>
  \<open>srs_erase_first_substr\<close> and \<open>srs_erase_last_substr\<close> remove the first and the last
  occurrence, and return a string without occurrence unchanged.
\<close>

theorem erase_substr:
  "(if sublist e s then \<exists>u v. s = u @ e @ v \<and> srs_erase_first_substr s e = u @ v \<and>
       (\<forall>u' v'. s = u' @ e @ v' \<longrightarrow> length u \<le> length u')
     else srs_erase_first_substr s e = s) \<and>
   (if sublist e s then \<exists>u v. s = u @ e @ v \<and> srs_erase_last_substr s e = u @ v \<and>
       (\<forall>u' v'. s = u' @ e @ v' \<longrightarrow> length u' \<le> length u)
     else srs_erase_last_substr s e = s)"
proof (cases "sublist e s")
  case True
  then obtain i j where ij: "str_find e s = Some i" "str_rfind e s = Some j"
    using str_find_None [of e s] str_rfind_None [of e s] occurs_iff_sublist [of e s] by auto
  then have o: "occurs e s i" "\<forall>k < i. \<not> occurs e s k" "occurs e s j" "\<forall>k > j. \<not> occurs e s k"
    by (simp_all add: str_find_Some str_rfind_Some)
  have l: "length (take i s) = i" "length (take j s) = j" using o by (simp_all add: occurs_def)
  have m: "i \<le> length u" "length u \<le> j" if "s = u @ e @ v" for u v
    using o(2,4) occurs_append [of e u v] that by (auto simp: not_less [symmetric])
  have "srs_erase_first_substr s e = take i s @ drop (i + length e) s"
    "srs_erase_last_substr s e = take j s @ drop (j + length e) s"
    using ij by (simp_all add: srs_erase_first_substr_def srs_erase_last_substr_def)
  then show ?thesis
    using True occurs_split [OF o(1)] occurs_split [OF o(3)] m l by (smt (verit, del_insts))
next
  case False
  then have "str_find e s = None" "str_rfind e s = None"
    by (simp_all add: str_find_None str_rfind_None flip: occurs_iff_sublist)
  then show ?thesis using False by (simp add: srs_erase_first_substr_def srs_erase_last_substr_def)
qed

lemma min_match_loop_in:
  "min_match_loop str sps mp m = m \<or> min_match_loop str sps mp m \<in> set sps \<and> str_find (min_match_loop str sps mp m) str \<noteq> None"
proof (induction str sps mp m rule: min_match_loop.induct)
  case (2 str sep sps mp m)
  show ?case using 2 by (cases "str_find sep str") (auto split: option.splits if_splits)
qed simp

lemma min_match_found:
  "srs_string_min_match s seps \<noteq> [] \<Longrightarrow> \<exists>pos. str_find (srs_string_min_match s seps) s = Some pos \<and>
     pos + length (srs_string_min_match s seps) \<le> length s"
proof -
  let ?m = "srs_string_min_match s seps"
  assume "?m \<noteq> []"
  moreover have "str_find s s = Some 0" by (simp add: str_find_Some)
  ultimately obtain pos where "str_find ?m s = Some pos"
    using min_match_loop_in [of s seps None "[]"] by (cases "seps = []") (auto simp: srs_string_min_match_def)
  then show ?thesis using occurs_bound [of ?m s pos] by (auto simp: str_find_Some)
qed

lemma split_multi_loop_total: "\<exists>ps. split_multi_loop seps s arr = Some (Inr (arr @ ps))"
proof (induction "length s" arbitrary: s arr rule: less_induct)
  case less
  let ?m = "srs_string_min_match s seps"
  show ?case
  proof (cases "?m = []")
    case True
    then show ?thesis by (subst split_multi_loop.simps) simp
  next
    case False
    then obtain pos where pos: "str_find ?m s = Some pos" "pos + length ?m \<le> length s"
      using min_match_found by blast
    obtain ps where "split_multi_loop seps (drop (pos + length ?m) s) (arr @ [take pos s]) = Some (Inr ((arr @ [take pos s]) @ ps))"
      using less [of "drop (pos + length ?m) s" "arr @ [take pos s]"] shorter [OF False, of pos "length s" 0] pos by auto
    then show ?thesis using False pos by (subst split_multi_loop.simps) (simp add: str_substr_def)
  qed
qed

definition without_empty_end :: "string list \<Rightarrow> string list" where
  "without_empty_end ps = (if ps \<noteq> [] \<and> last ps = [] then butlast ps else ps)"

lemma without_empty_end_Cons: "ps \<noteq> [] \<Longrightarrow> without_empty_end (p # ps) = p # without_empty_end ps"
  by (auto simp: without_empty_end_def)

lemma split_multi_loop_one:
  "sep \<noteq> [] \<Longrightarrow> split_multi_loop [sep] s arr = Some (Inr (arr @ without_empty_end (split_on sep s)))"
proof (induction "length s" arbitrary: s arr rule: less_induct)
  case less
  show ?case
  proof (cases "str_find sep s")
    case None
    then have "split_on sep s = [s]" by (simp add: split_on.simps [of sep s])
    with None show ?thesis
      by (subst split_multi_loop.simps) (simp add: srs_string_min_match_def without_empty_end_def)
  next
    case (Some i)
    have b: "i + length sep \<le> length s" using occurs_bound [of sep s i] Some by (simp add: str_find_Some)
    have m: "srs_string_min_match s [sep] = sep" using Some by (simp add: srs_string_min_match_def)
    have "split_on sep s = take i s # split_on sep (drop (i + length sep) s)"
      using Some less.prems by (simp add: split_on.simps [of sep s])
    with less b m Some shorter [OF less.prems, of i "length s" 0] show ?thesis
      by (subst split_multi_loop.simps) (simp add: str_substr_def without_empty_end_Cons)
  qed
qed

text \<open>
  Splitting by a list of separators always returns, whatever the separators.  With one
  separator it gives the pieces of the single-separator split except an empty last one.  With
  no separator at all it gives one empty piece and loses the string, because the match of an
  empty list is the whole string.
\<close>

theorem string_split_multi_result:
  "(\<exists>ps. srs_string_split_multi s seps = Some (Inr ps)) \<and>
   srs_string_split_multi s [c # sep] = Some (Inr (without_empty_end (split_on (c # sep) s))) \<and>
   srs_string_split_multi (c # s) [] = Some (Inr [[]])"
proof -
  have "str_find (c # s) (c # s) = Some 0" by (simp add: str_find_Some)
  then have "split_multi_loop [] (c # s) [] = split_multi_loop [] [] [[]]"
    by (subst split_multi_loop.simps) (simp add: srs_string_min_match_def str_substr_def)
  also have "\<dots> = Some (Inr [[]])"
    by (subst split_multi_loop.simps) (simp add: srs_string_min_match_def)
  finally show ?thesis
    using split_multi_loop_total [of seps s "[]"] split_multi_loop_one [of "c # sep" s "[]"]
    by (simp add: srs_string_split_multi_def)
qed

end
