(* ===== verification/Srs_Error_Codes.thy ===== *)
theory Srs_Error_Codes
  imports Srs_Prelude
begin

section \<open>The error codes (core/srs_kernel_error.hpp)\<close>

text \<open>
  The whole table of codes, one list per section of the header, and the property that callers
  rely on when they compare codes or print them: no code is used twice, none is
  \<open>ERROR_SUCCESS\<close>, and every section stays within its range.
\<close>

definition system_error_codes :: "(string \<times> int) list" where
  "system_error_codes = [
    (''ERROR_SOCKET_CREATE'', 1000),
    (''ERROR_SOCKET_SETREUSE'', 1001),
    (''ERROR_SOCKET_BIND'', 1002),
    (''ERROR_SOCKET_LISTEN'', 1003),
    (''ERROR_SOCKET_CLOSED'', 1004),
    (''ERROR_SOCKET_GET_PEER_NAME'', 1005),
    (''ERROR_SOCKET_GET_PEER_IP'', 1006),
    (''ERROR_SOCKET_READ'', 1007),
    (''ERROR_SOCKET_READ_FULLY'', 1008),
    (''ERROR_SOCKET_WRITE'', 1009),
    (''ERROR_SOCKET_WAIT'', 1010),
    (''ERROR_SOCKET_TIMEOUT'', 1011),
    (''ERROR_SOCKET_CONNECT'', 1012),
    (''ERROR_ST_SET_EPOLL'', 1013),
    (''ERROR_ST_INITIALIZE'', 1014),
    (''ERROR_ST_OPEN_SOCKET'', 1015),
    (''ERROR_ST_CREATE_LISTEN_THREAD'', 1016),
    (''ERROR_ST_CREATE_CYCLE_THREAD'', 1017),
    (''ERROR_ST_CONNECT'', 1018),
    (''ERROR_SYSTEM_PACKET_INVALID'', 1019),
    (''ERROR_SYSTEM_CLIENT_INVALID'', 1020),
    (''ERROR_SYSTEM_ASSERT_FAILED'', 1021),
    (''ERROR_READER_BUFFER_OVERFLOW'', 1022),
    (''ERROR_SYSTEM_CONFIG_INVALID'', 1023),
    (''ERROR_SYSTEM_CONFIG_DIRECTIVE'', 1024),
    (''ERROR_SYSTEM_CONFIG_BLOCK_START'', 1025),
    (''ERROR_SYSTEM_CONFIG_BLOCK_END'', 1026),
    (''ERROR_SYSTEM_CONFIG_EOF'', 1027),
    (''ERROR_SYSTEM_STREAM_BUSY'', 1028),
    (''ERROR_SYSTEM_IP_INVALID'', 1029),
    (''ERROR_SYSTEM_FORWARD_LOOP'', 1030),
    (''ERROR_SYSTEM_WAITPID'', 1031),
    (''ERROR_SYSTEM_BANDWIDTH_KEY'', 1032),
    (''ERROR_SYSTEM_BANDWIDTH_DENIED'', 1033),
    (''ERROR_SYSTEM_PID_ACQUIRE'', 1034),
    (''ERROR_SYSTEM_PID_ALREADY_RUNNING'', 1035),
    (''ERROR_SYSTEM_PID_LOCK'', 1036),
    (''ERROR_SYSTEM_PID_TRUNCATE_FILE'', 1037),
    (''ERROR_SYSTEM_PID_WRITE_FILE'', 1038),
    (''ERROR_SYSTEM_PID_GET_FILE_INFO'', 1039),
    (''ERROR_SYSTEM_PID_SET_FILE_INFO'', 1040),
    (''ERROR_SYSTEM_FILE_ALREADY_OPENED'', 1041),
    (''ERROR_SYSTEM_FILE_OPENE'', 1042),
    (''ERROR_SYSTEM_FILE_READ'', 1044),
    (''ERROR_SYSTEM_FILE_WRITE'', 1045),
    (''ERROR_SYSTEM_FILE_EOF'', 1046),
    (''ERROR_SYSTEM_FILE_RENAME'', 1047),
    (''ERROR_SYSTEM_CREATE_PIPE'', 1048),
    (''ERROR_SYSTEM_FILE_SEEK'', 1049),
    (''ERROR_SYSTEM_IO_INVALID'', 1050),
    (''ERROR_ST_EXCEED_THREADS'', 1051),
    (''ERROR_SYSTEM_SECURITY'', 1052),
    (''ERROR_SYSTEM_SECURITY_DENY'', 1053),
    (''ERROR_SYSTEM_SECURITY_ALLOW'', 1054),
    (''ERROR_SYSTEM_TIME'', 1055),
    (''ERROR_SYSTEM_DIR_EXISTS'', 1056),
    (''ERROR_SYSTEM_CREATE_DIR'', 1057),
    (''ERROR_SYSTEM_KILL'', 1058),
    (''ERROR_SYSTEM_CONFIG_PERSISTENCE'', 1059),
    (''ERROR_SYSTEM_CONFIG_RAW'', 1060),
    (''ERROR_SYSTEM_CONFIG_RAW_DISABLED'', 1061),
    (''ERROR_SYSTEM_CONFIG_RAW_NOT_ALLOWED'', 1062),
    (''ERROR_SYSTEM_CONFIG_RAW_PARAMS'', 1063),
    (''ERROR_SYSTEM_FILE_NOT_EXISTS'', 1064),
    (''ERROR_SYSTEM_HOURGLASS_RESOLUTION'', 1065),
    (''ERROR_SYSTEM_DNS_RESOLVE'', 1066),
    (''ERROR_SYSTEM_FRAGMENT_UNLINK'', 1067),
    (''ERROR_SYSTEM_FRAGMENT_RENAME'', 1068),
    (''ERROR_THREAD_DISPOSED'', 1069),
    (''ERROR_THREAD_INTERRUPED'', 1070),
    (''ERROR_THREAD_TERMINATED'', 1071),
    (''ERROR_THREAD_DUMMY'', 1072),
    (''ERROR_ASPROCESS_PPID'', 1073),
    (''ERROR_EXCEED_CONNECTIONS'', 1074),
    (''ERROR_SOCKET_SETKEEPALIVE'', 1075),
    (''ERROR_SOCKET_NO_NODELAY'', 1076),
    (''ERROR_SOCKET_SNDBUF'', 1077),
    (''ERROR_THREAD_STARTED'', 1078),
    (''ERROR_SOCKET_SETREUSEADDR'', 1079),
    (''ERROR_SOCKET_SETCLOSEEXEC'', 1080),
    (''ERROR_SOCKET_ACCEPT'', 1081),
    (''ERROR_SOCKET_RCVBUF'', 1082)]"

definition rtmp_error_codes :: "(string \<times> int) list" where
  "rtmp_error_codes = [
    (''ERROR_RTMP_PLAIN_REQUIRED'', 2000),
    (''ERROR_RTMP_CHUNK_START'', 2001),
    (''ERROR_RTMP_MSG_INVALID_SIZE'', 2002),
    (''ERROR_RTMP_AMF0_DECODE'', 2003),
    (''ERROR_RTMP_AMF0_INVALID'', 2004),
    (''ERROR_RTMP_REQ_CONNECT'', 2005),
    (''ERROR_RTMP_REQ_TCURL'', 2006),
    (''ERROR_RTMP_MESSAGE_DECODE'', 2007),
    (''ERROR_RTMP_MESSAGE_ENCODE'', 2008),
    (''ERROR_RTMP_AMF0_ENCODE'', 2009),
    (''ERROR_RTMP_CHUNK_SIZE'', 2010),
    (''ERROR_RTMP_TRY_SIMPLE_HS'', 2011),
    (''ERROR_RTMP_CH_SCHEMA'', 2012),
    (''ERROR_RTMP_PACKET_SIZE'', 2013),
    (''ERROR_RTMP_VHOST_NOT_FOUND'', 2014),
    (''ERROR_RTMP_ACCESS_DENIED'', 2015),
    (''ERROR_RTMP_HANDSHAKE'', 2016),
    (''ERROR_RTMP_NO_REQUEST'', 2017),
    (''ERROR_RTMP_HS_SSL_REQUIRE'', 2018),
    (''ERROR_RTMP_DURATION_EXCEED'', 2019),
    (''ERROR_RTMP_EDGE_PLAY_STATE'', 2020),
    (''ERROR_RTMP_EDGE_PUBLISH_STATE'', 2021),
    (''ERROR_RTMP_EDGE_PROXY_PULL'', 2022),
    (''ERROR_RTMP_EDGE_RELOAD'', 2023),
    (''ERROR_RTMP_AGGREGATE'', 2024),
    (''ERROR_RTMP_BWTC_DATA'', 2025),
    (''ERROR_OpenSslCreateDH'', 2026),
    (''ERROR_OpenSslCreateP'', 2027),
    (''ERROR_OpenSslCreateG'', 2028),
    (''ERROR_OpenSslParseP1024'', 2029),
    (''ERROR_OpenSslSetG'', 2030),
    (''ERROR_OpenSslGenerateDHKeys'', 2031),
    (''ERROR_OpenSslCopyKey'', 2032),
    (''ERROR_OpenSslSha256Update'', 2033),
    (''ERROR_OpenSslSha256Init'', 2034),
    (''ERROR_OpenSslSha256Final'', 2035),
    (''ERROR_OpenSslSha256EvpDigest'', 2036),
    (''ERROR_OpenSslSha256DigestSize'', 2037),
    (''ERROR_OpenSslGetPeerPublicKey'', 2038),
    (''ERROR_OpenSslComputeSharedKey'', 2039),
    (''ERROR_RTMP_MIC_CHUNKSIZE_CHANGED'', 2040),
    (''ERROR_RTMP_MIC_CACHE_OVERFLOW'', 2041),
    (''ERROR_RTSP_TOKEN_NOT_NORMAL'', 2042),
    (''ERROR_RTSP_REQUEST_HEADER_EOF'', 2043),
    (''ERROR_RTP_HEADER_CORRUPT'', 2044),
    (''ERROR_RTP_TYPE96_CORRUPT'', 2045),
    (''ERROR_RTP_TYPE97_CORRUPT'', 2046),
    (''ERROR_RTSP_AUDIO_CONFIG'', 2047),
    (''ERROR_RTMP_STREAM_NOT_FOUND'', 2048),
    (''ERROR_RTMP_CLIENT_NOT_FOUND'', 2049),
    (''ERROR_OpenSslCreateHMAC'', 2050),
    (''ERROR_RTMP_STREAM_NAME_EMPTY'', 2051),
    (''ERROR_HTTP_HIJACK'', 2052),
    (''ERROR_RTMP_MESSAGE_CREATE'', 2053),
    (''ERROR_RTMP_PROXY_EXCEED'', 2054),
    (''ERROR_RTMP_CREATE_STREAM_DEPTH'', 2055),
    (''ERROR_CONTROL_REDIRECT'', 2997),
    (''ERROR_CONTROL_RTMP_CLOSE'', 2998),
    (''ERROR_CONTROL_REPUBLISH'', 2999)]"

definition app_error_codes_1 :: "(string \<times> int) list" where
  "app_error_codes_1 = [
    (''ERROR_HTTP_PARSE_URI'', 3007),
    (''ERROR_HTTP_DATA_INVALID'', 3008),
    (''ERROR_HTTP_PARSE_HEADER'', 3009),
    (''ERROR_HTTP_HANDLER_MATCH_URL'', 3010),
    (''ERROR_HTTP_HANDLER_INVALID'', 3011),
    (''ERROR_HTTP_API_LOGS'', 3012),
    (''ERROR_HTTP_REMUX_SEQUENCE_HEADER'', 3013),
    (''ERROR_HTTP_REMUX_OFFSET_OVERFLOW'', 3014),
    (''ERROR_ENCODER_VCODEC'', 3015),
    (''ERROR_ENCODER_OUTPUT'', 3016),
    (''ERROR_ENCODER_ACHANNELS'', 3017),
    (''ERROR_ENCODER_ASAMPLE_RATE'', 3018),
    (''ERROR_ENCODER_ABITRATE'', 3019),
    (''ERROR_ENCODER_ACODEC'', 3020),
    (''ERROR_ENCODER_VPRESET'', 3021),
    (''ERROR_ENCODER_VPROFILE'', 3022),
    (''ERROR_ENCODER_VTHREADS'', 3023),
    (''ERROR_ENCODER_VHEIGHT'', 3024),
    (''ERROR_ENCODER_VWIDTH'', 3025),
    (''ERROR_ENCODER_VFPS'', 3026),
    (''ERROR_ENCODER_VBITRATE'', 3027),
    (''ERROR_ENCODER_FORK'', 3028),
    (''ERROR_ENCODER_LOOP'', 3029),
    (''ERROR_FORK_OPEN_LOG'', 3030),
    (''ERROR_FORK_DUP2_LOG'', 3031),
    (''ERROR_ENCODER_PARSE'', 3032),
    (''ERROR_ENCODER_NO_INPUT'', 3033),
    (''ERROR_ENCODER_NO_OUTPUT'', 3034),
    (''ERROR_ENCODER_INPUT_TYPE'', 3035),
    (''ERROR_KERNEL_FLV_HEADER'', 3036),
    (''ERROR_KERNEL_FLV_STREAM_CLOSED'', 3037),
    (''ERROR_KERNEL_STREAM_INIT'', 3038),
    (''ERROR_EDGE_VHOST_REMOVED'', 3039),
    (''ERROR_HLS_AVC_TRY_OTHERS'', 3040),
    (''ERROR_H264_API_NO_PREFIXED'', 3041),
    (''ERROR_FLV_INVALID_VIDEO_TAG'', 3042),
    (''ERROR_H264_DROP_BEFORE_SPS_PPS'', 3043),
    (''ERROR_H264_DUPLICATED_SPS'', 3044),
    (''ERROR_H264_DUPLICATED_PPS'', 3045),
    (''ERROR_AAC_REQUIRED_ADTS'', 3046),
    (''ERROR_AAC_ADTS_HEADER'', 3047),
    (''ERROR_AAC_DATA_INVALID'', 3048),
    (''ERROR_HLS_TRY_MP3'', 3049),
    (''ERROR_HTTP_DVR_DISABLED'', 3050),
    (''ERROR_HTTP_DVR_REQUEST'', 3051),
    (''ERROR_HTTP_JSON_REQUIRED'', 3052),
    (''ERROR_HTTP_DVR_CREATE_REQUEST'', 3053),
    (''ERROR_HTTP_DVR_NO_TAEGET'', 3054),
    (''ERROR_ADTS_ID_NOT_AAC'', 3055)]"

definition app_error_codes_2 :: "(string \<times> int) list" where
  "app_error_codes_2 = [
    (''ERROR_HDS_OPEN_F4M_FAILED'', 3056),
    (''ERROR_HDS_WRITE_F4M_FAILED'', 3057),
    (''ERROR_HDS_OPEN_BOOTSTRAP_FAILED'', 3058),
    (''ERROR_HDS_WRITE_BOOTSTRAP_FAILED'', 3059),
    (''ERROR_HDS_OPEN_FRAGMENT_FAILED'', 3060),
    (''ERROR_HDS_WRITE_FRAGMENT_FAILED'', 3061),
    (''ERROR_HLS_NO_STREAM'', 3062),
    (''ERROR_JSON_LOADS'', 3063),
    (''ERROR_RESPONSE_CODE'', 3064),
    (''ERROR_RESPONSE_DATA'', 3065),
    (''ERROR_REQUEST_DATA'', 3066),
    (''ERROR_EDGE_PORT_INVALID'', 3067),
    (''ERROR_EXPECT_FILE_IO'', 3068),
    (''ERROR_MP4_BOX_OVERFLOW'', 3069),
    (''ERROR_MP4_BOX_REQUIRE_SPACE'', 3070),
    (''ERROR_MP4_BOX_ILLEGAL_TYPE'', 3071),
    (''ERROR_MP4_BOX_ILLEGAL_SCHEMA'', 3072),
    (''ERROR_MP4_BOX_STRING'', 3073),
    (''ERROR_MP4_BOX_ILLEGAL_BRAND'', 3074),
    (''ERROR_MP4_ESDS_SL_Config'', 3075),
    (''ERROR_MP4_ILLEGAL_MOOV'', 3076),
    (''ERROR_MP4_ILLEGAL_HANDLER'', 3077),
    (''ERROR_MP4_ILLEGAL_TRACK'', 3078),
    (''ERROR_MP4_MOOV_OVERFLOW'', 3079),
    (''ERROR_MP4_ILLEGAL_SAMPLES'', 3080),
    (''ERROR_MP4_ILLEGAL_TIMESTAMP'', 3081),
    (''ERROR_DVR_CANNOT_APPEND'', 3082),
    (''ERROR_DVR_ILLEGAL_PLAN'', 3083),
    (''ERROR_FLV_REQUIRE_SPACE'', 3084),
    (''ERROR_MP4_AVCC_CHANGE'', 3085),
    (''ERROR_MP4_ASC_CHANGE'', 3086),
    (''ERROR_DASH_WRITE_FAILED'', 3087),
    (''ERROR_TS_CONTEXT_NOT_READY'', 3088),
    (''ERROR_MP4_ILLEGAL_MOOF'', 3089),
    (''ERROR_MP4_ILLEGAL_MDAT'', 3090),
    (''ERROR_OCLUSTER_DISCOVER'', 3091),
    (''ERROR_OCLUSTER_REDIRECT'', 3092),
    (''ERROR_INOTIFY_CREATE'', 3093),
    (''ERROR_INOTIFY_OPENFD'', 3094),
    (''ERROR_INOTIFY_WATCH'', 3095),
    (''ERROR_HTTP_URL_UNESCAPE'', 3096)]"

definition http_caster_error_codes :: "(string \<times> int) list" where
  "http_caster_error_codes = [
    (''ERROR_HTTP_PATTERN_EMPTY'', 4000),
    (''ERROR_HTTP_PATTERN_DUPLICATED'', 4001),
    (''ERROR_HTTP_URL_NOT_CLEAN'', 4002),
    (''ERROR_HTTP_CONTENT_LENGTH'', 4003),
    (''ERROR_HTTP_LIVE_STREAM_EXT'', 4004),
    (''ERROR_HTTP_STATUS_INVALID'', 4005),
    (''ERROR_KERNEL_AAC_STREAM_CLOSED'', 4006),
    (''ERROR_AAC_DECODE_ERROR'', 4007),
    (''ERROR_KERNEL_MP3_STREAM_CLOSED'', 4008),
    (''ERROR_MP3_DECODE_ERROR'', 4009),
    (''ERROR_STREAM_CASTER_ENGINE'', 4010),
    (''ERROR_STREAM_CASTER_PORT'', 4011),
    (''ERROR_STREAM_CASTER_TS_HEADER'', 4012),
    (''ERROR_STREAM_CASTER_TS_SYNC_BYTE'', 4013),
    (''ERROR_STREAM_CASTER_TS_AF'', 4014),
    (''ERROR_STREAM_CASTER_TS_CRC32'', 4015),
    (''ERROR_STREAM_CASTER_TS_PSI'', 4016),
    (''ERROR_STREAM_CASTER_TS_PAT'', 4017),
    (''ERROR_STREAM_CASTER_TS_PMT'', 4018),
    (''ERROR_STREAM_CASTER_TS_PSE'', 4019),
    (''ERROR_STREAM_CASTER_TS_ES'', 4020),
    (''ERROR_STREAM_CASTER_TS_CODEC'', 4021),
    (''ERROR_STREAM_CASTER_AVC_SPS'', 4022),
    (''ERROR_STREAM_CASTER_AVC_PPS'', 4023),
    (''ERROR_STREAM_CASTER_FLV_TAG'', 4024),
    (''ERROR_HTTP_RESPONSE_EOF'', 4025),
    (''ERROR_HTTP_INVALID_CHUNK_HEADER'', 4026),
    (''ERROR_AVC_NALU_UEV'', 4027),
    (''ERROR_AAC_BYTES_INVALID'', 4028),
    (''ERROR_HTTP_REQUEST_EOF'', 4029),
    (''ERROR_HTTP_302_INVALID'', 4038),
    (''ERROR_BASE64_DECODE'', 4039),
    (''ERROR_HTTP_STREAM_EOF'', 4040),
    (''ERROR_HTTPS_NOT_SUPPORTED'', 4041),
    (''ERROR_HTTPS_HANDSHAKE'', 4042),
    (''ERROR_HTTPS_READ'', 4043),
    (''ERROR_HTTPS_WRITE'', 4044),
    (''ERROR_HTTPS_KEY_CRT'', 4045)]"

definition rtc_error_codes :: "(string \<times> int) list" where
  "rtc_error_codes = [
    (''ERROR_RTC_PORT'', 5000),
    (''ERROR_RTP_PACKET_CREATE'', 5001),
    (''ERROR_OpenSslCreateSSL'', 5002),
    (''ERROR_OpenSslBIOReset'', 5003),
    (''ERROR_OpenSslBIOWrite'', 5004),
    (''ERROR_OpenSslBIONew'', 5005),
    (''ERROR_RTC_RTP'', 5006),
    (''ERROR_RTC_RTCP'', 5007),
    (''ERROR_RTC_STUN'', 5008),
    (''ERROR_RTC_DTLS'', 5009),
    (''ERROR_RTC_UDP'', 5010),
    (''ERROR_RTC_RTP_MUXER'', 5011),
    (''ERROR_RTC_SDP_DECODE'', 5012),
    (''ERROR_RTC_SRTP_INIT'', 5013),
    (''ERROR_RTC_SRTP_PROTECT'', 5014),
    (''ERROR_RTC_SRTP_UNPROTECT'', 5015),
    (''ERROR_RTC_RTCP_CHECK'', 5016),
    (''ERROR_RTC_SOURCE_CHECK'', 5017),
    (''ERROR_RTC_SDP_EXCHANGE'', 5018),
    (''ERROR_RTC_API_BODY'', 5019),
    (''ERROR_RTC_SOURCE_BUSY'', 5020),
    (''ERROR_RTC_DISABLED'', 5021),
    (''ERROR_RTC_NO_SESSION'', 5022),
    (''ERROR_RTC_INVALID_PARAMS'', 5023),
    (''ERROR_RTC_DUMMY_BRIDGER'', 5024),
    (''ERROR_RTC_STREM_STARTED'', 5025),
    (''ERROR_RTC_TRACK_CODEC'', 5026),
    (''ERROR_RTC_NO_PLAYER'', 5027),
    (''ERROR_RTC_NO_PUBLISHER'', 5028),
    (''ERROR_RTC_DUPLICATED_SSRC'', 5029),
    (''ERROR_RTC_NO_TRACK'', 5030),
    (''ERROR_RTC_RTCP_EMPTY_RR'', 5031),
    (''ERROR_RTC_STREAM_DESC'', 5032),
    (''ERROR_RTC_SCTP'', 5033),
    (''ERROR_RTC_DATACHANNEL'', 5034),
    (''ERROR_RTC_FORWARD'', 5035)]"

definition quic_error_codes :: "(string \<times> int) list" where
  "quic_error_codes = [
    (''ERROR_QUIC_PORT'', 7000),
    (''ERROR_QUIC_UDP'', 7001),
    (''ERROR_QUIC_CONN'', 7002),
    (''ERROR_QUIC_DATA'', 7003),
    (''ERROR_QUIC_TLS'', 7004),
    (''ERROR_QUIC_SERVER'', 7005),
    (''ERROR_QUIC_TOKEN'', 7006),
    (''ERROR_QUIC_CLIENT'', 7007),
    (''ERROR_QUIC_STREAM'', 7008),
    (''ERROR_QUIC_AGAIN'', 7009),
    (''ERROR_QUIC_BAD_STREAM'', 7010),
    (''ERROR_QUIC_CLOSING'', 7011),
    (''ERROR_QUIC_DRAINING'', 7012),
    (''ERROR_QUIC_DROP_CONN'', 7013),
    (''ERROR_QUIC_RETRY'', 7014),
    (''ERROR_QUIC_TIMEOUT'', 7015),
    (''ERROR_QUIC_UDP_SEND'', 7016),
    (''ERROR_QUIC_READ'', 7017),
    (''ERROR_QUIC_WRITE'', 7018)]"

definition user_error_codes :: "(string \<times> int) list" where
  "user_error_codes = [
    (''ERROR_USER_START'', 9000),
    (''ERROR_SOURCE_NOT_FOUND'', 9002),
    (''ERROR_USER_END'', 9999)]"

definition error_codes :: "(string \<times> int) list" where
  "error_codes = system_error_codes @ rtmp_error_codes @ app_error_codes_1 @ app_error_codes_2 @
     http_caster_error_codes @ rtc_error_codes @ quic_error_codes @ user_error_codes"

abbreviation ERROR_SUCCESS :: int where "ERROR_SUCCESS \<equiv> 0"
abbreviation ERROR_CONTROL_REDIRECT :: int where "ERROR_CONTROL_REDIRECT \<equiv> 2997"
abbreviation ERROR_CONTROL_REPUBLISH :: int where "ERROR_CONTROL_REPUBLISH \<equiv> 2999"
abbreviation ERROR_CONTROL_RTMP_CLOSE :: int where "ERROR_CONTROL_RTMP_CLOSE \<equiv> 2998"
abbreviation ERROR_HTTP_STREAM_EOF :: int where "ERROR_HTTP_STREAM_EOF \<equiv> 4040"
abbreviation ERROR_SOCKET_ACCEPT :: int where "ERROR_SOCKET_ACCEPT \<equiv> 1081"
abbreviation ERROR_SOCKET_BIND :: int where "ERROR_SOCKET_BIND \<equiv> 1002"
abbreviation ERROR_SOCKET_CREATE :: int where "ERROR_SOCKET_CREATE \<equiv> 1000"
abbreviation ERROR_SOCKET_LISTEN :: int where "ERROR_SOCKET_LISTEN \<equiv> 1003"
abbreviation ERROR_SOCKET_RCVBUF :: int where "ERROR_SOCKET_RCVBUF \<equiv> 1082"
abbreviation ERROR_SOCKET_READ :: int where "ERROR_SOCKET_READ \<equiv> 1007"
abbreviation ERROR_SOCKET_READ_FULLY :: int where "ERROR_SOCKET_READ_FULLY \<equiv> 1008"
abbreviation ERROR_SOCKET_SETCLOSEEXEC :: int where "ERROR_SOCKET_SETCLOSEEXEC \<equiv> 1080"
abbreviation ERROR_SOCKET_SETKEEPALIVE :: int where "ERROR_SOCKET_SETKEEPALIVE \<equiv> 1075"
abbreviation ERROR_SOCKET_SETREUSEADDR :: int where "ERROR_SOCKET_SETREUSEADDR \<equiv> 1079"
abbreviation ERROR_SOCKET_SNDBUF :: int where "ERROR_SOCKET_SNDBUF \<equiv> 1077"
abbreviation ERROR_SOCKET_TIMEOUT :: int where "ERROR_SOCKET_TIMEOUT \<equiv> 1011"
abbreviation ERROR_SOCKET_WRITE :: int where "ERROR_SOCKET_WRITE \<equiv> 1009"
abbreviation ERROR_ST_CONNECT :: int where "ERROR_ST_CONNECT \<equiv> 1018"
abbreviation ERROR_ST_CREATE_CYCLE_THREAD :: int where "ERROR_ST_CREATE_CYCLE_THREAD \<equiv> 1017"
abbreviation ERROR_ST_INITIALIZE :: int where "ERROR_ST_INITIALIZE \<equiv> 1014"
abbreviation ERROR_ST_OPEN_SOCKET :: int where "ERROR_ST_OPEN_SOCKET \<equiv> 1015"
abbreviation ERROR_ST_SET_EPOLL :: int where "ERROR_ST_SET_EPOLL \<equiv> 1013"
abbreviation ERROR_SYSTEM_CREATE_DIR :: int where "ERROR_SYSTEM_CREATE_DIR \<equiv> 1057"
abbreviation ERROR_SYSTEM_DIR_EXISTS :: int where "ERROR_SYSTEM_DIR_EXISTS \<equiv> 1056"
abbreviation ERROR_SYSTEM_HOURGLASS_RESOLUTION :: int where "ERROR_SYSTEM_HOURGLASS_RESOLUTION \<equiv> 1065"
abbreviation ERROR_SYSTEM_IP_INVALID :: int where "ERROR_SYSTEM_IP_INVALID \<equiv> 1029"
abbreviation ERROR_THREAD_DISPOSED :: int where "ERROR_THREAD_DISPOSED \<equiv> 1069"
abbreviation ERROR_THREAD_DUMMY :: int where "ERROR_THREAD_DUMMY \<equiv> 1072"
abbreviation ERROR_THREAD_INTERRUPED :: int where "ERROR_THREAD_INTERRUPED \<equiv> 1070"
abbreviation ERROR_THREAD_STARTED :: int where "ERROR_THREAD_STARTED \<equiv> 1078"
abbreviation ERROR_THREAD_TERMINATED :: int where "ERROR_THREAD_TERMINATED \<equiv> 1071"

definition codes_within :: "int \<Rightarrow> int \<Rightarrow> (string \<times> int) list \<Rightarrow> bool" where
  "codes_within lo hi cs \<longleftrightarrow> list_all (\<lambda>(_, c). lo \<le> c \<and> c < hi) cs"

fun ascending :: "(string \<times> int) list \<Rightarrow> bool" where
  "ascending (a # b # cs) \<longleftrightarrow> snd a < snd b \<and> ascending (b # cs)"
| "ascending _ \<longleftrightarrow> True"

lemma ascending_sorted: "ascending cs \<Longrightarrow> sorted_wrt (\<lambda>a b. snd a < snd b) cs"
  by (induction cs rule: ascending.induct) fastforce+

lemma codes_within_append:
  "codes_within lo m xs \<Longrightarrow> codes_within m hi ys \<Longrightarrow> lo \<le> m \<Longrightarrow> m \<le> hi \<Longrightarrow> codes_within lo hi (xs @ ys)"
  by (fastforce simp: codes_within_def list_all_iff)

lemma sorted_append_within:
  "sorted_wrt (\<lambda>a b. snd a < snd b) xs \<Longrightarrow> sorted_wrt (\<lambda>a b. snd a < snd b) ys \<Longrightarrow>
   codes_within lo m xs \<Longrightarrow> codes_within m hi ys \<Longrightarrow> sorted_wrt (\<lambda>a b. snd a < snd b) (xs @ ys)"
  by (fastforce simp: codes_within_def sorted_wrt_append list_all_iff)

lemma sorted_distinct_codes: "sorted_wrt (\<lambda>a b. snd a < snd (b :: string \<times> int)) cs \<Longrightarrow> distinct (map snd cs)"
  using strict_sorted_iff [of "map snd cs"] by (simp add: sorted_wrt_map)

lemmas sections =
  system_error_codes_def rtmp_error_codes_def app_error_codes_1_def app_error_codes_2_def
  http_caster_error_codes_def rtc_error_codes_def quic_error_codes_def user_error_codes_def

lemma section_ranges:
  "codes_within 1000 2000 system_error_codes" "codes_within 2000 3000 rtmp_error_codes"
  "codes_within 3000 3056 app_error_codes_1" "codes_within 3056 4000 app_error_codes_2"
  "codes_within 4000 5000 http_caster_error_codes" "codes_within 5000 7000 rtc_error_codes"
  "codes_within 7000 9000 quic_error_codes" "codes_within 9000 10000 user_error_codes"
  by (simp_all add: sections codes_within_def)

lemma sections_ascending:
  "ascending system_error_codes" "ascending rtmp_error_codes" "ascending app_error_codes_1"
  "ascending app_error_codes_2" "ascending http_caster_error_codes" "ascending rtc_error_codes"
  "ascending quic_error_codes" "ascending user_error_codes"
  by (simp_all add: sections)

text \<open>
  No two of the error codes of the header have the same number, all of them lie between
  1000 and 9999 (none is \<open>ERROR_SUCCESS\<close>), and each section keeps to its own range.
\<close>

theorem error_codes_distinct:
  "distinct (map snd error_codes) \<and> codes_within 1000 10000 error_codes \<and>
   codes_within 1000 2000 system_error_codes \<and> codes_within 2000 3000 rtmp_error_codes \<and>
   codes_within 3000 4000 (app_error_codes_1 @ app_error_codes_2) \<and>
   codes_within 4000 5000 http_caster_error_codes \<and> codes_within 5000 7000 rtc_error_codes \<and>
   codes_within 7000 9000 quic_error_codes \<and> codes_within 9000 10000 user_error_codes"
proof -
  note so = sections_ascending [THEN ascending_sorted]
  note r = section_ranges
  note w8 = r(8)
  note w7 = codes_within_append [OF r(7) w8] note w6 = codes_within_append [OF r(6) w7, simplified]
  note w5 = codes_within_append [OF r(5) w6, simplified]
  note w4 = codes_within_append [OF r(4) w5, simplified]
  note w3 = codes_within_append [OF r(3) w4, simplified]
  note w2 = codes_within_append [OF r(2) w3, simplified]
  note s7 = sorted_append_within [OF so(7,8) r(7) w8]
  note s6 = sorted_append_within [OF so(6) s7 r(6) w7, simplified]
  note s5 = sorted_append_within [OF so(5) s6 r(5) w6]
  note s4 = sorted_append_within [OF so(4) s5 r(4) w5]
  note s3 = sorted_append_within [OF so(3) s4 r(3) w4]
  note s2 = sorted_append_within [OF so(2) s3 r(2) w3]
  note s1 = sorted_append_within [OF so(1) s2 r(1) w2]
  have "codes_within 1000 10000 error_codes"
    using codes_within_append [OF r(1) w2] by (simp add: error_codes_def)
  moreover have "distinct (map snd error_codes)"
    using sorted_distinct_codes [OF s1] by (simp only: error_codes_def)
  ultimately show ?thesis
    using r codes_within_append [OF r(3,4)] by simp
qed

text \<open>The codes the sources raise, by name.\<close>

lemma used_codes_in_table:
  "(''ERROR_SOCKET_READ'', ERROR_SOCKET_READ) \<in> set system_error_codes"
  "(''ERROR_THREAD_TERMINATED'', ERROR_THREAD_TERMINATED) \<in> set system_error_codes"
  "(''ERROR_HTTP_STREAM_EOF'', ERROR_HTTP_STREAM_EOF) \<in> set http_caster_error_codes"
  by (simp_all add: sections)

end
