(* ===== verification/Srs_Context.thy ===== *)
theory Srs_Context
  imports Srs_Kernel_Hex
begin

section \<open>Context ids and the thread context (core/srs_core.cpp, core/srs_service_log.cpp)\<close>

text \<open>
  A context id is a string in an object of its own.  \<open>SrsThreadContext\<close> keeps one id per
  coroutine in thread-specific data of state-threads, and one default for code outside any
  coroutine.  The thread library is the parameter part of the state: which coroutine runs, and
  what each key of each coroutine holds.
\<close>

subsection \<open>\<open>_SrsContextId\<close>\<close>

datatype SrsContextId = SrsContextId (ctx_v: string)

definition ctx_none :: SrsContextId where "ctx_none = SrsContextId []"

definition ctx_c_str :: "SrsContextId \<Rightarrow> string" where "ctx_c_str c = c_str (ctx_v c)"

definition ctx_empty :: "SrsContextId \<Rightarrow> bool" where "ctx_empty c \<longleftrightarrow> ctx_v c = []"

definition ctx_compare :: "SrsContextId \<Rightarrow> SrsContextId \<Rightarrow> int" where
  "ctx_compare c to = str_compare (ctx_v c) (ctx_v to)"

definition ctx_set_value :: "string \<Rightarrow> SrsContextId \<Rightarrow> SrsContextId" where
  "ctx_set_value v c = SrsContextId v"

text \<open>\<open>compare\<close> is a linear order, so context ids can be keys of ordered containers.\<close>

instantiation SrsContextId :: linorder
begin

definition less_eq_SrsContextId :: "SrsContextId \<Rightarrow> SrsContextId \<Rightarrow> bool" where
  "less_eq_SrsContextId a b \<longleftrightarrow> ctx_compare a b \<le> 0"

definition less_SrsContextId :: "SrsContextId \<Rightarrow> SrsContextId \<Rightarrow> bool" where
  "less_SrsContextId a b \<longleftrightarrow> ctx_compare a b < 0"

lemma ctx_compare_less: "ctx_compare a b < 0 \<longleftrightarrow> ctx_v a < ctx_v b"
  by (simp add: ctx_compare_def str_compare_less)

lemma ctx_compare_eq: "ctx_compare a b = 0 \<longleftrightarrow> a = b"
  by (cases a; cases b) (simp add: ctx_compare_def str_compare_eq)

lemma ctx_compare_le: "ctx_compare a b \<le> 0 \<longleftrightarrow> ctx_v a \<le> ctx_v b"
  using ctx_compare_less [of a b] ctx_compare_eq [of a b]
  by (cases a; cases b) (auto simp: le_less)

instance
  by standard (auto simp: less_eq_SrsContextId_def less_SrsContextId_def ctx_compare_le
      ctx_compare_less intro: SrsContextId.expand)

end

text \<open>
  \<open>compare\<close> orders context ids as the header's comment says: 0 exactly for equal ids,
  otherwise the sign of the first character that differs, or of the shorter id when one
  extends the other.  Swapping the arguments swaps the sign.
\<close>

theorem ctx_compare_contract:
  "(ctx_compare a b = 0 \<longleftrightarrow> a = b) \<and>
   (ctx_compare (SrsContextId (p @ x # s)) (SrsContextId (p @ y # t)) < 0 \<longleftrightarrow> x < y \<or> (x = y \<and> s < t)) \<and>
   ctx_compare (SrsContextId p) (SrsContextId (p @ x # s)) < 0 \<and>
   ctx_compare b a = - ctx_compare a b"
proof -
  have "str_compare (p @ u) (p @ v) = str_compare u v" for u v by (induction p) auto
  from this [of "[]"] this show ?thesis
    using ctx_compare_eq [of a b] str_compare_swap [of "ctx_v a" "ctx_v b"]
    by (simp add: ctx_compare_def str_compare_less)
       (metis append.right_neutral str_compare.simps(2) str_compare_less)
qed


subsection \<open>\<open>SrsThreadContext\<close>\<close>

text \<open>
  The thread-specific data of state-threads (key.c): \<open>key_max\<close> keys are in use, of at most 16;
  each coroutine has one pointer per key.  A pointer to a context id is modelled by the id it
  points to: only the slot owns it, and replacing or cleaning the slot deletes it.
  \<open>this_thread\<close> is \<open>NULL\<close> until state-threads is initialised.
\<close>

record thread_ctx =
  this_thread :: "nat option"
  key_max :: int
  private_data :: "nat \<Rightarrow> int \<Rightarrow> SrsContextId option"
  srs_context_key :: int
  srs_context_default :: SrsContextId

definition ST_KEYS_MAX :: int where "ST_KEYS_MAX = 16"

definition st_key_create :: "thread_ctx \<Rightarrow> int option \<times> thread_ctx" where
  "st_key_create s = (if key_max s \<ge> ST_KEYS_MAX then (None, s)
     else (Some (key_max s), s\<lparr>key_max := key_max s + 1\<rparr>))"

definition st_thread_setspecific :: "nat \<Rightarrow> int \<Rightarrow> SrsContextId \<Rightarrow> thread_ctx \<Rightarrow> int \<times> thread_ctx" where
  "st_thread_setspecific me key v s = (if key < 0 \<or> key \<ge> key_max s then (- 1, s)
     else (0, s\<lparr>private_data := (private_data s)(me := (private_data s me)(key := Some v))\<rparr>))"

definition st_thread_getspecific :: "nat \<Rightarrow> int \<Rightarrow> thread_ctx \<Rightarrow> SrsContextId option" where
  "st_thread_getspecific me key s =
     (if key < 0 \<or> key \<ge> key_max s then None else private_data s me key)"

definition st_thread_cleanup :: "nat \<Rightarrow> thread_ctx \<Rightarrow> thread_ctx" where
  "st_thread_cleanup t s = s\<lparr>private_data := (private_data s)(t :=
     (\<lambda>k. if 0 \<le> k \<and> k < key_max s then None else private_data s t k))\<rparr>"

definition ctx_generate_id :: "(nat \<Rightarrow> nat) \<Rightarrow> SrsContextId outcome" where
  "ctx_generate_id rnd = rbind (srs_random_str rnd 8) (\<lambda>v. Inr (ctx_set_value v ctx_none))"

definition ctx_get_id :: "thread_ctx \<Rightarrow> SrsContextId" where
  "ctx_get_id s = (case this_thread s of
      None \<Rightarrow> srs_context_default s
    | Some me \<Rightarrow> (case st_thread_getspecific me (srs_context_key s) s of
          None \<Rightarrow> srs_context_default s
        | Some cid \<Rightarrow> cid))"

definition ctx_set_id :: "SrsContextId \<Rightarrow> thread_ctx \<Rightarrow> (SrsContextId \<times> thread_ctx) outcome" where
  "ctx_set_id v s = (case this_thread s of
      None \<Rightarrow> Inr (v, s\<lparr>srs_context_default := v\<rparr>)
    | Some me \<Rightarrow>
        rbind (if srs_context_key s < 0 then
                 (case st_key_create s of
                    (Some k, s) \<Rightarrow> Inr (s\<lparr>srs_context_key := k\<rparr>)
                  | (None, s) \<Rightarrow> Inl Assert_failed)
               else Inr s) (\<lambda>s.
        case st_thread_setspecific me (srs_context_key s) v s of (r0, s) \<Rightarrow>
        rbind (srs_assert (r0 = 0)) (\<lambda>_. Inr (v, s))))"

definition clear_cid :: "thread_ctx \<Rightarrow> thread_ctx" where "clear_cid s = s"

text \<open>\<open>impl_SrsContextRestore\<close>: the destructor sets the id the constructor was given.\<close>

definition context_restore ::
  "SrsContextId \<Rightarrow> (thread_ctx \<Rightarrow> thread_ctx outcome) \<Rightarrow> thread_ctx \<Rightarrow> thread_ctx outcome" where
  "context_restore cid body s =
     rbind (body s) (\<lambda>s. rbind (ctx_set_id cid s) (\<lambda>(_, s). Inr s))"

subsection \<open>What the thread context promises\<close>

text \<open>
  The events of a process: state-threads starts, another coroutine is scheduled, a coroutine
  ends (its data is cleaned), the running code sets its id, another module creates a key.
\<close>

datatype ctx_event = Schedule nat | Ended nat | Set_id SrsContextId | Other_key

fun ctx_step :: "ctx_event \<Rightarrow> thread_ctx \<Rightarrow> thread_ctx outcome" where
  "ctx_step (Schedule t) s = Inr (s\<lparr>this_thread := Some t\<rparr>)"
| "ctx_step (Ended t) s = Inr (st_thread_cleanup t s)"
| "ctx_step (Set_id v) s = rbind (ctx_set_id v s) (\<lambda>(_, s). Inr s)"
| "ctx_step Other_key s = Inr (snd (st_key_create s))"

fun ctx_run :: "ctx_event list \<Rightarrow> thread_ctx \<Rightarrow> thread_ctx outcome" where
  "ctx_run [] s = Inr s"
| "ctx_run (e # es) s = rbind (ctx_step e s) (ctx_run es)"

definition ctx_init :: thread_ctx where
  "ctx_init = \<lparr>this_thread = None, key_max = 0, private_data = (\<lambda>_ _. None),
     srs_context_key = - 1, srs_context_default = ctx_none\<rparr>"

text \<open>The abstract contract: a default, and an id for each coroutine that has set one.\<close>

record ctx_spec =
  sp_this :: "nat option"
  sp_default :: SrsContextId
  sp_ids :: "nat \<rightharpoonup> SrsContextId"

definition spec_id :: "ctx_spec \<Rightarrow> SrsContextId" where
  "spec_id a = (case sp_this a of None \<Rightarrow> sp_default a
     | Some t \<Rightarrow> (case sp_ids a t of None \<Rightarrow> sp_default a | Some v \<Rightarrow> v))"

fun spec_step :: "ctx_event \<Rightarrow> ctx_spec \<Rightarrow> ctx_spec" where
  "spec_step (Schedule t) a = a\<lparr>sp_this := Some t\<rparr>"
| "spec_step (Ended t) a = a\<lparr>sp_ids := (sp_ids a)(t := None)\<rparr>"
| "spec_step (Set_id v) a = (case sp_this a of None \<Rightarrow> a\<lparr>sp_default := v\<rparr>
     | Some t \<Rightarrow> a\<lparr>sp_ids := (sp_ids a)(t \<mapsto> v)\<rparr>)"
| "spec_step Other_key a = a"

definition ctx_inv :: "thread_ctx \<Rightarrow> bool" where
  "ctx_inv s \<longleftrightarrow> 0 \<le> key_max s \<and> key_max s \<le> ST_KEYS_MAX \<and> srs_context_key s < key_max s \<and>
     - 1 \<le> srs_context_key s \<and> (\<forall>t k. k \<noteq> srs_context_key s \<or> k < 0 \<longrightarrow> private_data s t k = None)"

definition ctx_abs :: "thread_ctx \<Rightarrow> ctx_spec" where
  "ctx_abs s = \<lparr>sp_this = this_thread s, sp_default = srs_context_default s,
     sp_ids = (\<lambda>t. private_data s t (srs_context_key s))\<rparr>"

lemmas ctx_lib = st_key_create_def st_thread_setspecific_def st_thread_getspecific_def
  st_thread_cleanup_def

lemma ctx_get_id_abs: "ctx_inv s \<Longrightarrow> ctx_get_id s = spec_id (ctx_abs s)"
  by (auto simp: ctx_get_id_def spec_id_def ctx_abs_def ctx_inv_def ctx_lib split: option.splits)

text \<open>A key is left for the context as long as it has one or fewer than 16 are taken.\<close>

definition key_left :: "thread_ctx \<Rightarrow> bool" where
  "key_left s \<longleftrightarrow> 0 \<le> srs_context_key s \<or> key_max s < ST_KEYS_MAX"

lemma ctx_step_refines:
  assumes "ctx_inv s" "key_left s \<or> this_thread s = None \<or> (\<forall>v. e \<noteq> Set_id v)"
  shows "\<exists>s'. ctx_step e s = Inr s' \<and> ctx_inv s' \<and> ctx_abs s' = spec_step e (ctx_abs s)"
proof (cases e)
  case (Set_id v)
  then show ?thesis
    using assms
    by (cases "this_thread s"; cases "srs_context_key s < 0")
       (auto simp: ctx_set_id_def ctx_inv_def ctx_abs_def key_left_def ctx_lib fun_eq_iff ST_KEYS_MAX_def)
qed (use assms in \<open>auto simp: ctx_inv_def ctx_abs_def ctx_lib fun_eq_iff ST_KEYS_MAX_def\<close>)


lemma ctx_step_keeps_key_left:
  "ctx_inv s \<Longrightarrow> key_left s \<Longrightarrow> (e = Other_key \<longrightarrow> 0 \<le> srs_context_key s \<or> key_max s + 1 < ST_KEYS_MAX) \<Longrightarrow>
   ctx_step e s = Inr s' \<Longrightarrow> key_left s'"
  by (cases e) (auto simp: key_left_def ctx_lib ctx_set_id_def ctx_inv_def ST_KEYS_MAX_def
      split: option.splits if_splits prod.splits)

lemma ctx_run_refines:
  assumes "ctx_inv s" "0 \<le> srs_context_key s \<or>
    key_max s + int (length (filter (\<lambda>e. e = Other_key) es)) < ST_KEYS_MAX"
  shows "\<exists>s'. ctx_run es s = Inr s' \<and> ctx_inv s' \<and> ctx_abs s' = fold spec_step es (ctx_abs s)"
  using assms
proof (induction es arbitrary: s)
  case (Cons e es)
  have "key_left s" using Cons.prems by (auto simp: key_left_def)
  then obtain s' where s': "ctx_step e s = Inr s'" "ctx_inv s'" "ctx_abs s' = spec_step e (ctx_abs s)"
    using ctx_step_refines [of s e] Cons.prems by blast
  have "0 \<le> srs_context_key s' \<or>
      key_max s' + int (length (filter (\<lambda>e. e = Other_key) es)) < ST_KEYS_MAX"
    using s'(1) Cons.prems
    by (cases e) (auto simp: ctx_lib ctx_set_id_def ctx_inv_def ST_KEYS_MAX_def
        split: option.splits if_splits prod.splits)
  then show ?case using Cons.IH [of s'] s' by auto
qed simp

text \<open>
  C26: Every coroutine has its own context id.  After any schedule of starts, switches, ends
  and \<open>set_id\<close> calls, \<open>get_id\<close> is the id that the running coroutine set last since it
  started, and the default (set outside any coroutine) if it set none; no assertion of
  \<open>set_id\<close> fails, provided other modules create fewer than 16 keys.
\<close>

theorem context_id_per_coroutine:
  assumes "length (filter (\<lambda>e. e = Other_key) es) < 16"
  shows "\<exists>s. ctx_run es ctx_init = Inr s \<and>
    ctx_get_id s = spec_id (fold spec_step es \<lparr>sp_this = None, sp_default = ctx_none, sp_ids = Map.empty\<rparr>)"
proof -
  have "ctx_inv ctx_init" by (simp add: ctx_inv_def ctx_init_def ST_KEYS_MAX_def)
  moreover have "ctx_abs ctx_init = \<lparr>sp_this = None, sp_default = ctx_none, sp_ids = Map.empty\<rparr>"
    by (simp add: ctx_abs_def ctx_init_def)
  ultimately show ?thesis
    using ctx_run_refines [of ctx_init es] ctx_get_id_abs assms
    by (fastforce simp: ctx_init_def ST_KEYS_MAX_def)
qed

lemma context_id_per_coroutine_witness:
  "\<exists>s. ctx_run [Set_id (SrsContextId ''d''), Schedule 1, Set_id (SrsContextId ''a''), Schedule 2] ctx_init = Inr s \<and>
     ctx_get_id s = SrsContextId ''d''"
  using context_id_per_coroutine
    [of "[Set_id (SrsContextId ''d''), Schedule 1, Set_id (SrsContextId ''a''), Schedule 2]"]
  by (simp add: spec_id_def)

text \<open>
  \<open>set_id\<close> returns the new id.  The usage comment of \<open>ISrsContext\<close> takes the result as
  the old id to restore later; restoring with it leaves the new id in place, so the old id has
  to be read with \<open>get_id\<close> first.  A restore object that was given the old id does put it back,
  if its body leaves the same coroutine running.
\<close>

theorem set_id_returns_new:
  assumes "ctx_inv s" "key_left s"
  shows "\<exists>s'. ctx_set_id v s = Inr (v, s') \<and> ctx_get_id s' = v \<and>
    (\<exists>s''. ctx_set_id (ctx_get_id s) s' = Inr (ctx_get_id s, s'') \<and> ctx_get_id s'' = ctx_get_id s)"
proof -
  have set: "\<exists>s'. ctx_set_id v s = Inr (v, s') \<and> ctx_inv s' \<and> key_left s' \<and> ctx_get_id s' = v"
    if s: "ctx_inv s" "key_left s" for v s
  proof -
    obtain s' where s': "ctx_step (Set_id v) s = Inr s'" "ctx_inv s'" "ctx_abs s' = spec_step (Set_id v) (ctx_abs s)"
      using ctx_step_refines [of s "Set_id v"] s by blast
    then obtain v' where "ctx_set_id v s = Inr (v', s')" by auto
    moreover have "v' = v"
      using calculation by (auto simp: ctx_set_id_def ctx_lib split: option.splits if_splits)
    moreover have "key_left s'" using ctx_step_keeps_key_left [OF s _ s'(1)] by simp
    moreover have "ctx_get_id s' = v"
      using s' by (auto simp: ctx_get_id_abs spec_id_def split: option.splits)
    ultimately show ?thesis using s' by blast
  qed
  from set [OF assms, of v] set show ?thesis by blast
qed

lemma set_id_returns_new_witness:
  "\<exists>s'. ctx_set_id (SrsContextId ''a'') ctx_init = Inr (SrsContextId ''a'', s')"
  using set_id_returns_new [of ctx_init "SrsContextId ''a''"]
  by (auto simp: ctx_inv_def ctx_init_def ST_KEYS_MAX_def key_left_def)

end
