(* ===== verification/Srs_Kernel_Error.thy ===== *)
theory Srs_Kernel_Error
  imports Srs_Error_Codes Srs_Context
begin

section \<open>Errors with a call stack (core/srs_kernel_error.cpp)\<close>

text \<open>
  \<open>SrsCplxError\<close> is a linked list: each wrap adds a node in front and owns the one behind.
  \<open>srs_error_t\<close> is a pointer to the first node, \<open>None\<close> for \<open>srs_success\<close>.  The fmt of
  \<open>fmt\<close> with its arguments is made by \<open>vsnprintf\<close> and enters as a string; its truncation to
  the static buffer of 4096 bytes is modelled.  \<open>errno\<close>, the process id and the current
  context id (if there is a context object) are arguments.
\<close>

subsection \<open>The data\<close>

record srs_error_node =
  err_code :: int
  err_msg :: string
  err_func :: string
  err_file :: string
  err_line :: int
  err_cid :: SrsContextId
  err_rerrno :: int
  err_desc :: string
  err_summary :: string

datatype SrsCplxError = SrsCplxError (err_node: srs_error_node) (err_wrapped: "SrsCplxError option")

type_synonym srs_error_t = "SrsCplxError option"

definition new_error_node :: srs_error_node where
  "new_error_node = \<lparr>err_code = ERROR_SUCCESS, err_msg = [], err_func = [], err_file = [], err_line = 0,
     err_cid = ctx_none, err_rerrno = 0, err_desc = [], err_summary = []\<rparr>"

text \<open>The place an error macro is used at, with what it sees of the process.\<close>

record err_site =
  at_func :: string
  at_file :: string
  at_line :: int
  at_errno :: int
  at_context :: "SrsContextId option"

text \<open>A place to try things at: no errno, no context object.\<close>

definition main_at :: err_site where
  "main_at = \<lparr>at_func = ''main'', at_file = ''main.cc'', at_line = 1, at_errno = 0, at_context = None\<rparr>"

definition error_node_at :: "err_site \<Rightarrow> int \<Rightarrow> string \<Rightarrow> srs_error_node" where
  "error_node_at at code fmt = new_error_node\<lparr>err_func := at_func at, err_file := at_file at,
     err_line := at_line at, err_code := code, err_rerrno := at_errno at,
     err_msg := snprintf_text 4096 fmt,
     err_cid := (case at_context at of None \<Rightarrow> ctx_none | Some c \<Rightarrow> c)\<rparr>"

definition srs_error_new :: "err_site \<Rightarrow> int \<Rightarrow> string \<Rightarrow> srs_error_t" where
  "srs_error_new at code fmt = Some (SrsCplxError (error_node_at at code fmt) None)"

definition srs_error_wrap :: "err_site \<Rightarrow> srs_error_t \<Rightarrow> string \<Rightarrow> srs_error_t" where
  "srs_error_wrap at v fmt = Some (SrsCplxError
     (error_node_at at (case v of None \<Rightarrow> ERROR_SUCCESS | Some e \<Rightarrow> err_code (err_node e)) fmt) v)"

fun error_copy :: "SrsCplxError \<Rightarrow> SrsCplxError" where
  "error_copy (SrsCplxError n None) = SrsCplxError (n\<lparr>err_summary := []\<rparr>) None"
| "error_copy (SrsCplxError n (Some e)) = SrsCplxError (n\<lparr>err_summary := []\<rparr>) (Some (error_copy e))"

definition srs_error_copy :: "srs_error_t \<Rightarrow> srs_error_t" where
  "srs_error_copy = map_option error_copy"

definition srs_error_code :: "srs_error_t \<Rightarrow> int" where
  "srs_error_code e = (case e of None \<Rightarrow> ERROR_SUCCESS | Some e \<Rightarrow> err_code (err_node e))"

subsection \<open>The texts\<close>

text \<open>The two loops over \<open>next = next->wrapped\<close>.\<close>

fun summary_loop :: "SrsCplxError \<Rightarrow> string" where
  "summary_loop (SrsCplxError n None) = '' : '' @ err_msg n"
| "summary_loop (SrsCplxError n (Some e)) = '' : '' @ err_msg n @ summary_loop e"

definition thread_text :: "int \<Rightarrow> srs_error_node \<Rightarrow> string" where
  "thread_text pid n = ''thread ['' @ int_str pid @ ''][''  @ ctx_c_str (err_cid n) @ '']: '' @
     err_func n @ ''() ['' @ err_file n @ '':'' @ int_str (err_line n) @ '']'' @
     ''[errno='' @ int_str (err_rerrno n) @ '']''"

fun threads_loop :: "int \<Rightarrow> SrsCplxError \<Rightarrow> string" where
  "threads_loop pid (SrsCplxError n None) = thread_text pid n"
| "threads_loop pid (SrsCplxError n (Some e)) = thread_text pid n @ [LF] @ threads_loop pid e"

definition error_description :: "int \<Rightarrow> SrsCplxError \<Rightarrow> string \<times> SrsCplxError" where
  "error_description pid e = (case e of SrsCplxError n w \<Rightarrow>
     let n = (if err_desc n = [] then
                n\<lparr>err_desc := ''code='' @ int_str (err_code n) @ summary_loop e @ [LF] @ threads_loop pid e\<rparr>
              else n)
     in (err_desc n, SrsCplxError n w))"

definition error_summary :: "SrsCplxError \<Rightarrow> string \<times> SrsCplxError" where
  "error_summary e = (case e of SrsCplxError n w \<Rightarrow>
     let n = (if err_summary n = [] then n\<lparr>err_summary := summary_loop e\<rparr> else n)
     in (err_summary n, SrsCplxError n w))"

definition srs_error_desc :: "int \<Rightarrow> srs_error_t \<Rightarrow> string \<times> srs_error_t" where
  "srs_error_desc pid e = (case e of None \<Rightarrow> (''Success'', None)
     | Some e \<Rightarrow> (case error_description pid e of (t, e) \<Rightarrow> (t, Some e)))"

definition srs_error_summary :: "srs_error_t \<Rightarrow> string \<times> srs_error_t" where
  "srs_error_summary e = (case e of None \<Rightarrow> (''Success'', None)
     | Some e \<Rightarrow> (case error_summary e of (t, e) \<Rightarrow> (t, Some e)))"

subsection \<open>The classes of errors\<close>

definition srs_is_system_control_error :: "srs_error_t \<Rightarrow> bool" where
  "srs_is_system_control_error err \<longleftrightarrow> (let error_code = srs_error_code err in
     error_code = ERROR_CONTROL_RTMP_CLOSE \<or> error_code = ERROR_CONTROL_REPUBLISH \<or>
     error_code = ERROR_CONTROL_REDIRECT)"

definition srs_is_client_gracefully_close :: "srs_error_t \<Rightarrow> bool" where
  "srs_is_client_gracefully_close err \<longleftrightarrow> (let error_code = srs_error_code err in
     error_code = ERROR_SOCKET_READ \<or> error_code = ERROR_SOCKET_READ_FULLY \<or>
     error_code = ERROR_SOCKET_WRITE)"

definition srs_is_server_gracefully_close :: "srs_error_t \<Rightarrow> bool" where
  "srs_is_server_gracefully_close err \<longleftrightarrow> srs_error_code err = ERROR_HTTP_STREAM_EOF"

definition srs_is_quic_transport_error :: "srs_error_t \<Rightarrow> bool" where
  "srs_is_quic_transport_error err \<longleftrightarrow> False"

subsection \<open>The chain of an error and the cached texts\<close>

fun err_chain :: "SrsCplxError \<Rightarrow> srs_error_node list" where
  "err_chain (SrsCplxError n None) = [n]"
| "err_chain (SrsCplxError n (Some e)) = n # err_chain e"

text \<open>A node without its two caches.\<close>

definition bare :: "srs_error_node \<Rightarrow> srs_error_node" where
  "bare n = n\<lparr>err_desc := [], err_summary := []\<rparr>"

fun join_lines :: "string list \<Rightarrow> string" where
  "join_lines [] = []"
| "join_lines [l] = l"
| "join_lines (l # ls) = l @ [LF] @ join_lines ls"

definition summary_of :: "srs_error_node list \<Rightarrow> string" where
  "summary_of ns = concat (map (\<lambda>n. '' : '' @ err_msg n) ns)"

definition description_of :: "int \<Rightarrow> srs_error_node list \<Rightarrow> string" where
  "description_of pid ns = ''code='' @ int_str (err_code (hd ns)) @ summary_of ns @ [LF] @
     join_lines (map (thread_text pid) ns)"

lemma err_chain_not_Nil [simp]: "err_chain e \<noteq> []"
  by (induction e rule: err_chain.induct) simp_all

lemma hd_err_chain [simp]: "hd (err_chain e) = err_node e"
  by (induction e rule: err_chain.induct) simp_all

lemma summary_loop_eq: "summary_loop e = summary_of (err_chain e)"
  by (induction e rule: summary_loop.induct) (simp_all add: summary_of_def)

lemma join_lines_Cons: "ls \<noteq> [] \<Longrightarrow> join_lines (l # ls) = l @ [LF] @ join_lines ls"
  by (cases ls) simp_all

lemma threads_loop_eq: "threads_loop pid e = join_lines (map (thread_text pid) (err_chain e))"
  by (induction pid e rule: threads_loop.induct) (simp_all add: join_lines_Cons)

lemma texts_bare [simp]:
  "err_code (bare n) = err_code n" "err_msg (bare n) = err_msg n" "thread_text pid (bare n) = thread_text pid n"
  by (simp_all add: bare_def thread_text_def)

lemma summary_of_bare: "map bare ns = map bare ms \<Longrightarrow> summary_of ns = summary_of ms"
proof -
  assume "map bare ns = map bare ms"
  then have "concat (map (\<lambda>n. '' : '' @ err_msg n) (map bare ns)) =
      concat (map (\<lambda>n. '' : '' @ err_msg n) (map bare ms))" by simp
  then show ?thesis by (simp add: summary_of_def o_def)
qed

lemma description_of_bare:
  assumes "map bare ns = map bare ms" "ns \<noteq> []"
  shows "description_of pid ns = description_of pid ms"
proof -
  have "map (thread_text pid) (map bare ns) = map (thread_text pid) (map bare ms)" using assms by simp
  then have "map (thread_text pid) ns = map (thread_text pid) ms" by (simp add: o_def)
  moreover have "err_code (hd ns) = err_code (hd ms)"
    using assms by (cases ns; cases ms) (auto dest: arg_cong [of _ _ err_code])
  ultimately show ?thesis using summary_of_bare [OF assms(1)] by (simp add: description_of_def)
qed

text \<open>A cache is empty or holds the fmt of the chain.\<close>

fun caches_ok :: "int \<Rightarrow> SrsCplxError \<Rightarrow> bool" where
  "caches_ok pid (SrsCplxError n None) \<longleftrightarrow>
     err_desc n \<in> {[], description_of pid [n]} \<and> err_summary n \<in> {[], summary_of [n]}"
| "caches_ok pid (SrsCplxError n (Some e)) \<longleftrightarrow>
     err_desc n \<in> {[], description_of pid (n # err_chain e)} \<and>
     err_summary n \<in> {[], summary_of (n # err_chain e)} \<and> caches_ok pid e"

inductive made :: "int \<Rightarrow> SrsCplxError \<Rightarrow> bool" for pid where
  made_new: "srs_error_new at code fmt = Some e \<Longrightarrow> made pid e"
| made_wrap_success: "srs_error_wrap at None fmt = Some e \<Longrightarrow> made pid e"
| made_wrap: "made pid v \<Longrightarrow> srs_error_wrap at (Some v) fmt = Some e \<Longrightarrow> made pid e"
| made_copy: "made pid v \<Longrightarrow> made pid (error_copy v)"
| made_description: "made pid v \<Longrightarrow> made pid (snd (error_description pid v))"
| made_summary: "made pid v \<Longrightarrow> made pid (snd (error_summary v))"

lemma node_at_caches [simp]:
  "err_desc (error_node_at at c t) = []" "err_summary (error_node_at at c t) = []"
  "err_msg (error_node_at at c t) = snprintf_text 4096 t" "err_code (error_node_at at c t) = c"
  by (simp_all add: error_node_at_def new_error_node_def)

lemma err_chain_copy: "map bare (err_chain (error_copy e)) = map bare (err_chain e)"
  by (induction e rule: error_copy.induct) (simp_all add: bare_def)

lemma summary_of_copy: "summary_of (err_chain (error_copy e)) = summary_of (err_chain e)"
  by (rule summary_of_bare [OF err_chain_copy])

lemma description_of_copy: "description_of pid (err_chain (error_copy e)) = description_of pid (err_chain e)"
  by (rule description_of_bare [OF err_chain_copy]) simp

lemma caches_ok_copy: "caches_ok pid e \<Longrightarrow> caches_ok pid (error_copy e)"
proof (induction e rule: error_copy.induct)
  case (1 n)
  then show ?case using description_of_bare [of "[n\<lparr>err_summary := []\<rparr>]" "[n]" pid] by (auto simp: bare_def)
next
  case (2 n e)
  then show ?case
    using description_of_bare [OF err_chain_copy [of "SrsCplxError n (Some e)"], of pid] by auto
qed

lemma description_chain:
  "map bare (err_chain (snd (error_description pid e))) = map bare (err_chain e)"
  "map bare (err_chain (snd (error_summary e))) = map bare (err_chain e)"
  by (cases e rule: err_chain.cases; simp add: error_description_def error_summary_def bare_def Let_def)+

lemma caches_ok_texts:
  assumes "caches_ok pid e"
  shows "fst (error_description pid e) = description_of pid (err_chain e)"
    and "fst (error_summary e) = summary_of (err_chain e)"
proof -
  have d: "description_of pid ns \<noteq> []" and s: "summary_of (n # ns) \<noteq> []" for ns n
    by (simp_all add: description_of_def summary_of_def)
  show "fst (error_description pid e) = description_of pid (err_chain e)"
    using assms by (cases e rule: err_chain.cases)
      (auto simp: error_description_def Let_def summary_loop_eq threads_loop_eq description_of_def)
  show "fst (error_summary e) = summary_of (err_chain e)"
    using assms by (cases e rule: err_chain.cases) (auto simp: error_summary_def Let_def summary_loop_eq)
qed

lemma caches_ok_cached:
  assumes "caches_ok pid e"
  shows "caches_ok pid (snd (error_description pid e))" "caches_ok pid (snd (error_summary e))"
proof -
  note t = caches_ok_texts [OF assms]
  note d = description_of_bare [OF description_chain(1) err_chain_not_Nil, of pid pid e]
    description_of_bare [OF description_chain(2) err_chain_not_Nil, of pid e]
  note su = summary_of_bare [OF description_chain(1), of pid e] summary_of_bare [OF description_chain(2), of e]
  show "caches_ok pid (snd (error_description pid e))"
    using assms t(1) d(1) su(1)
    by (cases e rule: err_chain.cases) (auto simp: error_description_def Let_def split: if_splits)
  show "caches_ok pid (snd (error_summary e))"
    using assms t(2) d(2) su(2)
    by (cases e rule: err_chain.cases) (auto simp: error_summary_def Let_def split: if_splits)
qed

lemma made_caches_ok: "made pid e \<Longrightarrow> caches_ok pid e"
proof (induction rule: made.induct)
  case (made_wrap v at fmt e)
  then show ?case by (cases v) (auto simp: srs_error_wrap_def)
qed (auto simp: srs_error_new_def srs_error_wrap_def caches_ok_copy caches_ok_cached)

text \<open>The errors of a call stack: each caller wraps what the callee returned.\<close>

definition wrap_all :: "(err_site \<times> string) list \<Rightarrow> srs_error_t \<Rightarrow> srs_error_t" where
  "wrap_all ws e = fold (\<lambda>(at, fmt) e. srs_error_wrap at e fmt) ws e"

lemma wrap_all_chain:
  "\<exists>e'. wrap_all ws (Some e) = Some e' \<and> (made pid e \<longrightarrow> made pid e') \<and>
     err_code (err_node e') = err_code (err_node e) \<and>
     map err_msg (err_chain e') = rev (map (snprintf_text 4096 \<circ> snd) ws) @ map err_msg (err_chain e)"
proof (induction ws arbitrary: e)
  case (Cons w ws)
  obtain at fmt where w: "w = (at, fmt)" by (cases w)
  let ?e = "SrsCplxError (error_node_at at (err_code (err_node e)) fmt) (Some e)"
  have "made pid e \<longrightarrow> made pid ?e" using made_wrap [of pid e at fmt ?e] by (simp add: srs_error_wrap_def)
  with Cons.IH [of ?e] show ?case by (auto simp: wrap_all_def w srs_error_wrap_def)
qed (simp add: wrap_all_def)

subsection \<open>Properties\<close>

text \<open>
  C24: However an error was made (created, wrapped, copied, printed), its description is the
  code, the messages of all levels from the outermost to the cause and one line per level of
  the call stack, and its summary is those messages: the cached texts and the dropped cache of a
  copy never show.  Printing does not change the code.
\<close>

theorem error_texts_tell_the_chain:
  assumes "made pid e"
  shows "fst (srs_error_desc pid (Some e)) = description_of pid (err_chain e) \<and>
    fst (srs_error_summary (Some e)) = summary_of (err_chain e) \<and>
    srs_error_code (snd (srs_error_desc pid (Some e))) = srs_error_code (Some e) \<and>
    fst (srs_error_desc pid (snd (srs_error_desc pid (Some e)))) = description_of pid (err_chain e)"
proof -
  note t = caches_ok_texts [OF made_caches_ok [OF assms]]
  have m: "made pid (snd (error_description pid e))" by (rule made_description [OF assms])
  have "fst (error_description pid (snd (error_description pid e))) = description_of pid (err_chain e)"
    using caches_ok_texts(1) [OF made_caches_ok [OF m]]
      description_of_bare [OF description_chain(1) err_chain_not_Nil] by simp
  moreover have "err_code (err_node (snd (error_description pid e))) = err_code (err_node e)"
    by (cases e) (simp add: error_description_def Let_def)
  ultimately show ?thesis
    using t by (auto simp: srs_error_desc_def srs_error_summary_def srs_error_code_def split: prod.splits)
qed

lemma error_texts_tell_the_chain_witness:
  "fst (srs_error_summary (srs_error_new \<lparr>at_func = ''f'', at_file = ''a.cpp'', at_line = 3, at_errno = 0,
     at_context = None\<rparr> 1007 ''read'')) = '' : read''"
proof -
  let ?at = "\<lparr>at_func = ''f'', at_file = ''a.cpp'', at_line = 3, at_errno = 0, at_context = None\<rparr>"
  let ?e = "SrsCplxError (error_node_at ?at 1007 ''read'') None"
  have "made 1 ?e" by (rule made_new [of ?at 1007 "''read''"]) (simp add: srs_error_new_def)
  from error_texts_tell_the_chain [OF this] show ?thesis
    by (simp add: srs_error_new_def summary_of_def)
qed

text \<open>
  An error keeps the code of its cause however many callers wrap it, so the class
  predicates see through wraps; the summary of the wrapped error is the callers' messages (each
  cut at 4095 characters), outermost first, before the summary of the cause.
\<close>

theorem wrap_keeps_the_cause:
  assumes "made pid e"
  shows "srs_error_code (wrap_all ws (Some e)) = srs_error_code (Some e) \<and>
    fst (srs_error_summary (wrap_all ws (Some e))) =
      concat (map (\<lambda>w. '' : '' @ snprintf_text 4096 (snd w)) (rev ws)) @ fst (srs_error_summary (Some e)) \<and>
    (srs_is_client_gracefully_close (wrap_all ws (Some e)) \<longleftrightarrow> srs_is_client_gracefully_close (Some e)) \<and>
    (srs_is_server_gracefully_close (wrap_all ws (Some e)) \<longleftrightarrow> srs_is_server_gracefully_close (Some e)) \<and>
    (srs_is_system_control_error (wrap_all ws (Some e)) \<longleftrightarrow> srs_is_system_control_error (Some e))"
proof -
  obtain e' where e': "wrap_all ws (Some e) = Some e'" "made pid e'"
      "err_code (err_node e') = err_code (err_node e)"
      "map err_msg (err_chain e') = rev (map (snprintf_text 4096 \<circ> snd) ws) @ map err_msg (err_chain e)"
    using wrap_all_chain [of ws e pid] assms by blast
  have so: "summary_of ns = concat (map ((@) '' : '') (map err_msg ns))" for ns
    by (simp add: summary_of_def o_def)
  have "fst (error_summary e') = summary_of (err_chain e')" "fst (error_summary e) = summary_of (err_chain e)"
    using caches_ok_texts(2) [OF made_caches_ok] assms e'(2) by blast+
  then have "fst (error_summary e') = concat (map (\<lambda>w. '' : '' @ snprintf_text 4096 (snd w)) (rev ws))
      @ fst (error_summary e)"
    unfolding so e'(4) by (simp add: rev_map o_def split_beta)
  then show ?thesis
    using e' by (auto simp: srs_error_code_def srs_error_summary_def srs_is_client_gracefully_close_def
        srs_is_server_gracefully_close_def srs_is_system_control_error_def split: prod.splits)
qed

lemma wrap_keeps_the_cause_witness:
  "let s = \<lparr>at_func = ''f'', at_file = ''a.cpp'', at_line = 3, at_errno = 0, at_context = None\<rparr> in
   srs_is_client_gracefully_close (wrap_all [(s, ''read''), (s, ''cycle'')]
     (srs_error_new s ERROR_SOCKET_READ ''eof''))"
proof -
  let ?s = "\<lparr>at_func = ''f'', at_file = ''a.cpp'', at_line = 3, at_errno = 0, at_context = None\<rparr>"
  let ?e = "SrsCplxError (error_node_at ?s ERROR_SOCKET_READ ''eof'') None"
  have "made 1 ?e" by (rule made_new [of ?s ERROR_SOCKET_READ "''eof''"]) (simp add: srs_error_new_def)
  from wrap_keeps_the_cause [OF this, of "[(?s, ''read''), (?s, ''cycle'')]"] show ?thesis
    by (simp add: srs_error_new_def srs_is_client_gracefully_close_def srs_error_code_def Let_def)
qed

text \<open>
  C25: A copy of an error has the same code, the same chain of messages and call sites at every
  level, and prints the same texts, and printing the copy leaves the original as it was.
\<close>

theorem error_copy_prints_the_same:
  assumes "made pid e"
  shows "srs_error_code (srs_error_copy (Some e)) = srs_error_code (Some e) \<and>
    map bare (err_chain (error_copy e)) = map bare (err_chain e) \<and>
    fst (srs_error_desc pid (srs_error_copy (Some e))) = fst (srs_error_desc pid (Some e)) \<and>
    fst (srs_error_summary (srs_error_copy (Some e))) = fst (srs_error_summary (Some e))"
proof -
  note o = caches_ok_texts [OF made_caches_ok [OF assms]]
  note c = caches_ok_texts [OF made_caches_ok [OF made_copy [OF assms]]]
  have "err_code (err_node (error_copy e)) = err_code (err_node e)"
    by (cases e rule: error_copy.cases) simp_all
  then show ?thesis
    using o c by (auto simp: srs_error_copy_def srs_error_code_def srs_error_desc_def srs_error_summary_def
        err_chain_copy summary_of_copy description_of_copy split: prod.splits)
qed

lemma error_copy_prints_the_same_witness:
  "fst (srs_error_summary (srs_error_copy (srs_error_new
     \<lparr>at_func = ''f'', at_file = ''a.cpp'', at_line = 3, at_errno = 0, at_context = None\<rparr> 1007 ''read''))) = '' : read''"
proof -
  let ?at = "\<lparr>at_func = ''f'', at_file = ''a.cpp'', at_line = 3, at_errno = 0, at_context = None\<rparr>"
  let ?e = "SrsCplxError (error_node_at ?at 1007 ''read'') None"
  have "made 1 ?e" by (rule made_new [of ?at 1007 "''read''"]) (simp add: srs_error_new_def)
  from error_copy_prints_the_same [OF this] show ?thesis
    by (simp add: srs_error_new_def srs_error_summary_def error_summary_def Let_def)
qed

text \<open>
  The classes of errors are told by the code alone, no error belongs to two of them, and
  \<open>srs_success\<close> and a wrap around \<open>srs_success\<close> (an error whose code is still 0) to none.
\<close>

theorem error_classes_disjoint:
  "\<not> (srs_is_client_gracefully_close e \<and> srs_is_server_gracefully_close e) \<and>
   \<not> (srs_is_client_gracefully_close e \<and> srs_is_system_control_error e) \<and>
   \<not> (srs_is_server_gracefully_close e \<and> srs_is_system_control_error e) \<and>
   srs_error_wrap at None fmt \<noteq> None \<and> srs_error_code (srs_error_wrap at None fmt) = ERROR_SUCCESS \<and>
   \<not> srs_is_client_gracefully_close None \<and> \<not> srs_is_client_gracefully_close (srs_error_wrap at None fmt) \<and>
   \<not> srs_is_server_gracefully_close None \<and> \<not> srs_is_server_gracefully_close (srs_error_wrap at None fmt) \<and>
   \<not> srs_is_system_control_error None \<and> \<not> srs_is_system_control_error (srs_error_wrap at None fmt)"
  by (auto simp: srs_is_client_gracefully_close_def srs_is_server_gracefully_close_def
      srs_is_system_control_error_def srs_error_wrap_def srs_error_code_def Let_def)

text \<open>What the callers that only look at success and at the code need.\<close>

lemma srs_error_some [simp]: "(srs_error_new at k t = None) = False" "(srs_error_wrap at e t = None) = False"
    "(srs_error_copy e = None) = (e = None)"
  by (simp_all add: srs_error_new_def srs_error_copy_def srs_error_wrap_def)

lemma srs_error_ex [simp]: "\<exists>e. srs_error_new at k t = Some e" "\<exists>e. srs_error_wrap at v t = Some e"
  by (simp_all add: srs_error_new_def srs_error_wrap_def)

lemma srs_error_code_simps [simp]:
  "srs_error_code None = 0" "srs_error_code (srs_error_new at k t) = k"
  "srs_error_code (srs_error_wrap at e t) = srs_error_code e"
  by (simp_all add: srs_error_code_def srs_error_new_def srs_error_wrap_def error_node_at_def split: option.split)

end
