(* ===== verification/Srs_Kernel_Path.thy ===== *)
theory Srs_Kernel_Path
  imports Srs_Kernel_String Srs_Kernel_Error
begin

section \<open>Endpoints, paths and directories (core/srs_kernel_utility.cpp)\<close>

text \<open>
  Parsing of \<open>host:port\<close>, the parts of a path, recursive creation of directories, and the
  small conversions.  What the operating system answers (\<open>stat\<close>, \<open>mkdir\<close>, \<open>socket\<close>,
  \<open>inet_pton\<close>, name resolution) is an argument of the function that asks.
\<close>

subsection \<open>Endpoints\<close>

definition srs_parse_hostport :: "string \<Rightarrow> string \<Rightarrow> int \<Rightarrow> (string \<times> int) outcome" where
  "srs_parse_hostport hostport host port =
     (if hostport = [] then Inr (host, port) else
      case str_rfind '':'' hostport of
        None \<Rightarrow> Inr (hostport, port)
      | Some pos \<Rightarrow>
          if str_find '':'' hostport = Some pos then
            rbind (str_substr_n hostport 0 pos) (\<lambda>host.
            rbind (str_substr hostport (pos + 1)) (\<lambda>p.
              Inr (host, if p \<noteq> [] \<and> p \<noteq> ''0'' then atoi p else port)))
          else if hostport ! 0 \<noteq> CHR ''['' then Inr (hostport, port)
          else (case str_rfind '']:'' hostport of
              None \<Rightarrow> Inr (hostport, port)
            | Some pos \<Rightarrow>
                rbind (str_substr_n hostport 1 (pos - 1)) (\<lambda>host.
                rbind (str_substr hostport (pos + 2)) (\<lambda>p.
                  Inr (host, if p \<noteq> [] \<and> p \<noteq> ''0'' then atoi p else port)))))"

text \<open>Whether a datagram socket of each family can be created.\<close>

definition srs_any_address_for_listener :: "bool \<Rightarrow> bool \<Rightarrow> string" where
  "srs_any_address_for_listener ipv4_active ipv6_active =
     (if ipv6_active \<and> \<not> ipv4_active then ''::'' else ''0.0.0.0'')"

definition srs_parse_endpoint :: "bool \<Rightarrow> bool \<Rightarrow> string \<Rightarrow> (string \<times> int) outcome" where
  "srs_parse_endpoint ipv4_active ipv6_active hostport =
     (case str_rfind '':'' hostport of
        Some pos \<Rightarrow>
          rbind (if pos \<ge> 1 \<and> hostport ! 0 = CHR ''['' \<and> hostport ! (pos - 1) = CHR '']''
                 then str_substr_n hostport 1 (pos - 2) else str_substr_n hostport 0 pos) (\<lambda>ip.
          rbind (str_substr hostport (pos + 1)) (\<lambda>sport. Inr (ip, atoi sport)))
      | None \<Rightarrow> Inr (srs_any_address_for_listener ipv4_active ipv6_active, atoi hostport))"

text \<open>\<open>inet_pton\<close> for the two families: positive when the text is an address.\<close>

definition srs_check_ip_addr_valid :: "(string \<Rightarrow> int) \<Rightarrow> (string \<Rightarrow> int) \<Rightarrow> string \<Rightarrow> bool" where
  "srs_check_ip_addr_valid inet_pton4 inet_pton6 ip =
     (if inet_pton4 (c_str ip) > 0 then True else if inet_pton6 (c_str ip) > 0 then True else False)"

text \<open>
  \<open>getaddrinfo\<close> answers the first address with its family, or fails; \<open>getnameinfo\<close> its
  numeric text, or fails.
\<close>

definition srs_dns_resolve ::
  "(string \<Rightarrow> int \<Rightarrow> ('addr \<times> int) option) \<Rightarrow> ('addr \<Rightarrow> string option) \<Rightarrow> string \<Rightarrow> int \<Rightarrow> string \<times> int" where
  "srs_dns_resolve getaddrinfo getnameinfo host family =
     (case getaddrinfo (c_str host) family of
        None \<Rightarrow> ([], family)
      | Some (addr, fam) \<Rightarrow> (case getnameinfo addr of
            None \<Rightarrow> ([], family)
          | Some shost \<Rightarrow> (c_str shost, fam)))"

subsection \<open>Conversions and comparison\<close>

definition srs_int2str :: "int \<Rightarrow> string" where
  "srs_int2str v = snprintf_text 22 (int_str v)"

definition srs_bool2switch :: "bool \<Rightarrow> string" where
  "srs_bool2switch v = (if v then ''on'' else ''off'')"

fun bytes_equals_loop :: "byte list \<Rightarrow> byte list \<Rightarrow> nat list \<Rightarrow> bool outcome" where
  "bytes_equals_loop a b [] = Inr True"
| "bytes_equals_loop a b (i # is) =
     (if \<not> (i < length a \<and> i < length b) then Inl Bad_access
      else if a ! i \<noteq> b ! i then Inr False else bytes_equals_loop a b is)"

definition srs_bytes_equals :: "byte list option \<Rightarrow> byte list option \<Rightarrow> int \<Rightarrow> bool outcome" where
  "srs_bytes_equals pa pb sz = (case (pa, pb) of
      (None, None) \<Rightarrow> Inr True
    | (None, Some _) \<Rightarrow> Inr False
    | (Some _, None) \<Rightarrow> Inr False
    | (Some a, Some b) \<Rightarrow> bytes_equals_loop a b [0..<nat sz])"

subsection \<open>Parts of a path\<close>

definition srs_path_dirname :: "string \<Rightarrow> string" where
  "srs_path_dirname path = (case str_rfind ''/'' path of
      None \<Rightarrow> ''./'' | Some pos \<Rightarrow> if pos = 0 then ''/'' else take pos path)"

definition srs_path_basename :: "string \<Rightarrow> string" where
  "srs_path_basename path = (case str_rfind ''/'' path of
      None \<Rightarrow> path | Some pos \<Rightarrow> if length path = 1 then path else drop (pos + 1) path)"

definition srs_path_filename :: "string \<Rightarrow> string" where
  "srs_path_filename path = (case str_rfind ''.'' path of None \<Rightarrow> path | Some pos \<Rightarrow> take pos path)"

definition srs_path_filext :: "string \<Rightarrow> string" where
  "srs_path_filext path = (case str_rfind ''.'' path of None \<Rightarrow> [] | Some pos \<Rightarrow> drop pos path)"

subsection \<open>Creating directories\<close>

definition EEXIST :: int where "EEXIST = 17"
definition ENOENT :: int where "ENOENT = 2"

text \<open>\<open>stat\<close> tells whether a path exists; \<open>mkdir\<close> answers the \<open>errno\<close> of a failure.\<close>

definition srs_path_exists :: "('fs \<Rightarrow> string \<Rightarrow> bool) \<Rightarrow> 'fs \<Rightarrow> string \<Rightarrow> bool" where
  "srs_path_exists stat fs path = stat fs (c_str path)"

lemma rfind_char_less: "str_rfind [c] s = Some pos \<Longrightarrow> pos < length s"
  using occurs_bound [of "[c]" s pos] by (auto simp: str_rfind_Some)

function srs_do_create_dir_recursively ::
  "('fs \<Rightarrow> string \<Rightarrow> bool) \<Rightarrow> ('fs \<Rightarrow> string \<Rightarrow> int option \<times> 'fs) \<Rightarrow> string \<Rightarrow> 'fs \<Rightarrow> int \<times> 'fs" where
  "srs_do_create_dir_recursively stat mkdir dir fs =
     (if srs_path_exists stat fs dir then (ERROR_SYSTEM_DIR_EXISTS, fs) else
      case (case str_rfind ''/'' dir of
              Some pos \<Rightarrow> srs_do_create_dir_recursively stat mkdir (take pos dir) fs
            | None \<Rightarrow> (ERROR_SUCCESS, fs)) of
        (ret, fs) \<Rightarrow>
          if ret \<noteq> ERROR_SUCCESS \<and> ret \<noteq> ERROR_SYSTEM_DIR_EXISTS then (ret, fs)
          else (case mkdir fs (c_str dir) of
              (None, fs) \<Rightarrow> (ERROR_SUCCESS, fs)
            | (Some errno, fs) \<Rightarrow>
                (if errno = EEXIST then ERROR_SYSTEM_DIR_EXISTS else ERROR_SYSTEM_CREATE_DIR, fs)))"
  by pat_completeness auto
termination
  by (relation "measure (\<lambda>(_, _, dir, _). length dir)") (auto dest: rfind_char_less)

declare srs_do_create_dir_recursively.simps [simp del]

definition srs_create_dir_recursively ::
  "err_site \<Rightarrow> ('fs \<Rightarrow> string \<Rightarrow> bool) \<Rightarrow> ('fs \<Rightarrow> string \<Rightarrow> int option \<times> 'fs) \<Rightarrow> string \<Rightarrow> 'fs \<Rightarrow> srs_error_t \<times> 'fs" where
  "srs_create_dir_recursively at stat mkdir dir fs =
     (case srs_do_create_dir_recursively stat mkdir dir fs of
        (ret, fs) \<Rightarrow>
          (if ret = ERROR_SYSTEM_DIR_EXISTS \<or> ret = ERROR_SUCCESS then None
           else srs_error_new at ret (''create dir '' @ c_str dir), fs))"

subsection \<open>Searching for a character\<close>

lemma occurs_char: "occurs [c] s i \<longleftrightarrow> i < length s \<and> s ! i = c"
proof (cases "i < length s")
  case True
  then have "drop i s = s ! i # drop (Suc i) s" by (simp add: Cons_nth_drop_Suc)
  then show ?thesis using True by (auto simp: occurs_def)
qed (auto simp: occurs_def)

lemma rfind_char: "c \<notin> set v \<Longrightarrow> str_rfind [c] (u @ c # v) = Some (length u)"
  by (auto simp: str_rfind_Some occurs_char nth_append nth_Cons' in_set_conv_nth)

lemma find_char: "c \<notin> set u \<Longrightarrow> str_find [c] (u @ c # v) = Some (length u)"
  by (auto simp: str_find_Some occurs_char nth_append in_set_conv_nth)

lemma rfind_char_None: "str_rfind [c] s = None \<longleftrightarrow> c \<notin> set s"
  by (auto simp: str_rfind_None occurs_char in_set_conv_nth)

lemma occurs_tail:
  assumes "occurs (a # pat) s j"
  shows "occurs pat s (Suc j)"
proof -
  have "s = take j s @ a # pat @ drop (j + length (a # pat)) s" using occurs_split [OF assms] by simp
  then have s: "s = (take j s @ [a]) @ pat @ drop (j + length (a # pat)) s" by simp
  have "j \<le> length s" using assms by (simp add: occurs_def)
  then have "length (take j s @ [a]) = Suc j" by simp
  then show ?thesis using occurs_append [of pat "take j s @ [a]"] s by metis
qed

text \<open>Two characters in a row: the last one is found where the first stands before it.\<close>

lemma rfind_bracket_colon:
  assumes "CHR '':'' \<notin> set v"
  shows "str_rfind '']:'' (u @ CHR '']'' # CHR '':'' # v) = Some (length u)"
proof -
  let ?s = "u @ CHR '']'' # CHR '':'' # v"
  have "occurs '']:'' ?s (length u)" using occurs_append [of "'']:''" u v] by simp
  moreover have "\<not> occurs '']:'' ?s j" if "j > length u" for j
  proof
    assume o: "occurs '']:'' ?s j"
    have c: "occurs '':'' ?s (Suc j)" by (rule occurs_tail [OF o])
    have "Suc j > Suc (length u)" using that by simp
    moreover have "str_rfind '':'' ((u @ ['']'' ! 0]) @ CHR '':'' # v) = Some (length (u @ ['']'' ! 0]))"
      using assms by (rule rfind_char)
    ultimately show False using c by (simp add: str_rfind_Some)
  qed
  ultimately show ?thesis by (simp add: str_rfind_Some)
qed

lemma int_str_chars: "0 \<le> k \<Longrightarrow> CHR '':'' \<notin> set (int_str k)" "int_str k \<noteq> []"
  using nat_str_digits [of "nat k"] by (auto simp: int_str_def list_all_iff)

lemma int_str_zero: "k \<noteq> 0 \<Longrightarrow> int_str k \<noteq> ''0''"
proof -
  have "int_str 0 = ''0''" by code_simp
  then show "k \<noteq> 0 \<Longrightarrow> int_str k \<noteq> ''0''" by (metis int_str_inject)
qed

subsection \<open>Properties\<close>

text \<open>
  C28: \<open>srs_parse_hostport\<close> gives back the host and the port that were printed, for an IPv4
  address or name (\<open>host:port\<close>) and for an IPv6 address in brackets (\<open>[host]:port\<close>); a
  host alone, with no colon or with several, is taken whole and leaves the port as it was, and
  so does the port 0.  The port is an \<open>int\<close>: whatever stands in the text, the port read is one of
  the 32-bit numbers or the one passed in, and a printed port from 1 to 2147483647 is read as it
  was.  No input makes it throw.
\<close>

theorem parse_hostport_roundtrip:
  assumes "CHR '':'' \<notin> set host" "0 < port" "port < 2 ^ 31" "CHR '':'' \<in> set host6"
  shows "srs_parse_hostport (host @ '':'' @ int_str port) h0 p0 = Inr (host, port) \<and>
    srs_parse_hostport (''['' @ host6 @ '']:'' @ int_str port) h0 p0 = Inr (host6, port) \<and>
    (host \<noteq> [] \<longrightarrow> srs_parse_hostport host h0 p0 = Inr (host, p0)) \<and>
    srs_parse_hostport (host @ '':0'') h0 p0 = Inr (host, p0) \<and>
    (\<exists>h p. srs_parse_hostport s h0 p0 = Inr (h, p) \<and> (p = p0 \<or> - (2 ^ 31) \<le> p \<and> p < 2 ^ 31))"
proof -
  have p: "CHR '':'' \<notin> set (int_str port)" "int_str port \<noteq> []" "int_str port \<noteq> ''0''"
    using int_str_chars [of port] int_str_zero [of port] assms(2) by auto
  have 1: "srs_parse_hostport (host @ '':'' @ t) h0 p0 = Inr (host, if t \<noteq> [] \<and> t \<noteq> ''0'' then atoi t else p0)"
    if "CHR '':'' \<notin> set t" for t
    using rfind_char [of "CHR '':''" t host] find_char [of "CHR '':''" host t] that assms(1)
    by (simp add: srs_parse_hostport_def str_substr_n_def str_substr_def)
  obtain u v where uv: "host6 = u @ CHR '':'' # v" "CHR '':'' \<notin> set u" using assms(4) by (metis split_list_first)
  let ?s = "''['' @ host6 @ '']:'' @ int_str port"
  have "str_find '':'' ?s = Some (Suc (length u))"
    using find_char [of "CHR '':''" "CHR ''['' # u" "v @ '']:'' @ int_str port"] uv by simp
  moreover have "str_rfind '':'' ?s = Some (Suc (Suc (length host6)))"
    using rfind_char [of "CHR '':''" "int_str port" "''['' @ host6 @ '']''"] p by simp
  moreover have "str_rfind '']:'' ?s = Some (Suc (length host6))"
    using rfind_bracket_colon [of "int_str port" "''['' @ host6"] p by simp
  moreover have "length u < length host6" by (simp add: uv)
  ultimately have 2: "srs_parse_hostport ?s h0 p0 = Inr (host6, port)"
    using p assms(2,3) by (simp add: srs_parse_hostport_def str_substr_n_def str_substr_def)
  have 3: "srs_parse_hostport host h0 p0 = Inr (host, p0)" if "host \<noteq> []"
    using assms(1) that rfind_char_None [of "CHR '':''" host] by (simp add: srs_parse_hostport_def)
  have 4: "\<exists>h p. srs_parse_hostport s h0 p0 = Inr (h, p) \<and> (p = p0 \<or> - (2 ^ 31) \<le> p \<and> p < 2 ^ 31)"
  proof -
    have "Suc pos \<le> length s" if "str_rfind '':'' s = Some pos" for pos
      using rfind_char_less [OF that] by simp
    moreover have "Suc (Suc pos) \<le> length s" if "str_rfind '']:'' s = Some pos" for pos
      using occurs_bound [of "'']:''" s pos] that by (simp add: str_rfind_Some)
    ultimately show ?thesis
      using atoi_bounds
      by (auto simp: srs_parse_hostport_def str_substr_n_def str_substr_def not_less split: option.splits)
  qed
  show ?thesis using 1 [of "int_str port"] 1 [of "''0''"] 2 3 4 p assms(2,3) by simp
qed

lemma parse_hostport_roundtrip_witness:
  "srs_parse_hostport (''['' @ ''::1'' @ '']:'' @ int_str 1935) [] 0 = Inr (''::1'', 1935)"
  using parse_hostport_roundtrip [of "''localhost''" 1935 "''::1''" "[]" 0 "[]"] by simp

text \<open>
  \<open>srs_parse_endpoint\<close> gives back the address and port of \<open>ip:port\<close> and of
  \<open>[ip]:port\<close>, and for a port alone the any-address: \<open>::\<close> only on a host that has IPv6
  and no IPv4.
\<close>

theorem parse_endpoint_roundtrip:
  assumes "0 \<le> port" "port < 2 ^ 31" "ip = [] \<or> hd ip \<noteq> CHR ''[''"
  shows "srs_parse_endpoint v4 v6 (ip @ '':'' @ int_str port) = Inr (ip, port) \<and>
    srs_parse_endpoint v4 v6 (''['' @ ip @ '']:'' @ int_str port) = Inr (ip, port) \<and>
    srs_parse_endpoint v4 v6 (int_str port) = Inr (if v6 \<and> \<not> v4 then ''::'' else ''0.0.0.0'', port)"
proof -
  have p: "CHR '':'' \<notin> set (int_str port)" using int_str_chars [of port] assms(1) by simp
  have "str_rfind '':'' (ip @ '':'' @ int_str port) = Some (length ip)"
    using rfind_char [OF p, of ip] by simp
  then have 1: "srs_parse_endpoint v4 v6 (ip @ '':'' @ int_str port) = Inr (ip, port)"
    using assms by (cases ip) (auto simp: srs_parse_endpoint_def str_substr_n_def str_substr_def)
  let ?s = "''['' @ ip @ '']:'' @ int_str port"
  have "str_rfind '':'' ?s = Some (length ip + 2)"
    using rfind_char [OF p, of "''['' @ ip @ '']''"] by simp
  moreover have "?s ! Suc (length ip) = CHR '']''" by (simp add: nth_append)
  ultimately have 2: "srs_parse_endpoint v4 v6 ?s = Inr (ip, port)"
    using assms(1,2) by (simp add: srs_parse_endpoint_def str_substr_n_def str_substr_def)
  have "str_rfind '':'' (int_str port) = None" using p by (simp add: rfind_char_None)
  then show ?thesis using 1 2 assms(1,2) by (simp add: srs_parse_endpoint_def srs_any_address_for_listener_def)
qed

lemma parse_endpoint_roundtrip_witness:
  "srs_parse_endpoint True True (''['' @ ''fe80::1'' @ '']:'' @ int_str 8000) = Inr (''fe80::1'', 8000)"
  using parse_endpoint_roundtrip [of 8000 "''fe80::1''"] by simp

text \<open>
  The parts of a path make up the path: directory, slash and base name for a path with a
  slash after its first character, \<open>/\<close> and the base name under the root; file name and
  extension always.  But the extension is cut at the last dot of the whole path, so a dot in
  the name of a directory counts: \<open>/data.d/live\<close> has the extension \<open>.d/live\<close>.
\<close>

theorem path_parts:
  "(case str_rfind ''/'' path of
      None \<Rightarrow> srs_path_dirname path = ''./'' \<and> srs_path_basename path = path
    | Some 0 \<Rightarrow> srs_path_dirname path = ''/'' \<and>
        srs_path_basename path = (if path = ''/'' then ''/'' else drop 1 path)
    | Some pos \<Rightarrow> path = srs_path_dirname path @ ''/'' @ srs_path_basename path) \<and>
   path = srs_path_filename path @ srs_path_filext path \<and>
   srs_path_filext ''/data.d/live'' = ''.d/live''"
proof -
  have d: "path = take pos path @ ''/'' @ drop (Suc pos) path" if "str_rfind ''/'' path = Some pos" for pos
    using occurs_split [of "''/''" path pos] that by (simp add: str_rfind_Some)
  have "case str_rfind ''/'' path of
      None \<Rightarrow> srs_path_dirname path = ''./'' \<and> srs_path_basename path = path
    | Some 0 \<Rightarrow> srs_path_dirname path = ''/'' \<and>
        srs_path_basename path = (if path = ''/'' then ''/'' else drop 1 path)
    | Some pos \<Rightarrow> path = srs_path_dirname path @ ''/'' @ srs_path_basename path"
  proof (cases "str_rfind ''/'' path")
    case (Some pos)
    note dp = d [OF Some]
    have l: "pos < length path" by (rule rfind_char_less [OF Some])
    show ?thesis
    proof (cases pos)
      case 0
      then have "path = ''/'' @ drop 1 path" using dp by simp
      then show ?thesis using Some 0
        by (cases path) (auto simp: srs_path_dirname_def srs_path_basename_def)
    next
      case (Suc n)
      then show ?thesis using Some dp l by (simp add: srs_path_dirname_def srs_path_basename_def)
    qed
  qed (simp add: srs_path_dirname_def srs_path_basename_def)
  moreover have "path = srs_path_filename path @ srs_path_filext path"
    by (auto simp: srs_path_filename_def srs_path_filext_def split: option.splits)
  moreover have "srs_path_filext ''/data.d/live'' = ''.d/live''"
    using rfind_char [of "CHR ''.''" "''d/live''" "''/data''"] by (simp add: srs_path_filext_def)
  ultimately show ?thesis by auto
qed

text \<open>
  The directories a path leads through, outermost first: what stands before each of its slashes,
  then the path itself.  Those that are lacking are the ones after the last that exists.
\<close>

definition path_prefixes :: "string \<Rightarrow> string list" where
  "path_prefixes dir = map (\<lambda>i. take i dir) (filter (\<lambda>i. dir ! i = CHR ''/'') [0..<length dir]) @ [dir]"

definition lacking :: "(string \<Rightarrow> bool) \<Rightarrow> string \<Rightarrow> string list" where
  "lacking ex dir = rev (takeWhile (\<lambda>p. \<not> ex p) (rev (path_prefixes dir)))"

text \<open>
  Calls of \<open>mkdir\<close> one after the other, up to the first refusal that is not \<open>EEXIST\<close>: the answers
  and the file system they leave.
\<close>

definition there_now :: "int option \<Rightarrow> bool" where
  "there_now r \<longleftrightarrow> r = None \<or> r = Some EEXIST"

fun make_dirs :: "('fs \<Rightarrow> string \<Rightarrow> int option \<times> 'fs) \<Rightarrow> string list \<Rightarrow> 'fs \<Rightarrow> int option list \<times> 'fs" where
  "make_dirs mkdir [] fs = ([], fs)"
| "make_dirs mkdir (p # ps) fs = (case mkdir fs p of (r, fs') \<Rightarrow>
     if there_now r then (case make_dirs mkdir ps fs' of (rs, fs'') \<Rightarrow> (r # rs, fs'')) else ([r], fs'))"

lemma path_prefixes_None: "str_rfind ''/'' dir = None \<Longrightarrow> path_prefixes dir = [dir]"
  by (auto simp: path_prefixes_def rfind_char_None filter_empty_conv in_set_conv_nth)

lemma path_prefixes_Some:
  assumes "str_rfind ''/'' dir = Some pos"
  shows "path_prefixes dir = path_prefixes (take pos dir) @ [dir]"
proof -
  have l: "pos < length dir" by (rule rfind_char_less [OF assms])
  have at: "dir ! pos = CHR ''/''" "\<And>j. pos < j \<Longrightarrow> j < length dir \<Longrightarrow> dir ! j \<noteq> CHR ''/''"
    using assms by (auto simp: str_rfind_Some occurs_char)
  have "[0..<length dir] = [0..<pos] @ pos # [Suc pos..<length dir]"
    using l upt_add_eq_append [of 0 pos "length dir - pos"] upt_conv_Cons [of pos "length dir"] by simp
  moreover have "filter (\<lambda>i. dir ! i = CHR ''/'') [Suc pos..<length dir] = []"
    using at(2) by (auto simp: filter_empty_conv)
  ultimately have "filter (\<lambda>i. dir ! i = CHR ''/'') [0..<length dir] =
      filter (\<lambda>i. dir ! i = CHR ''/'') [0..<pos] @ [pos]"
    using at(1) by simp
  moreover have "filter (\<lambda>i. take pos dir ! i = CHR ''/'') [0..<pos] = filter (\<lambda>i. dir ! i = CHR ''/'') [0..<pos]"
    by (rule filter_cong) simp_all
  moreover have "map (\<lambda>i. take i (take pos dir)) (filter (\<lambda>i. dir ! i = CHR ''/'') [0..<pos]) =
      map (\<lambda>i. take i dir) (filter (\<lambda>i. dir ! i = CHR ''/'') [0..<pos])"
    by (rule map_cong) (auto simp: min_def)
  ultimately show ?thesis using l by (simp add: path_prefixes_def min_def)
qed

lemma lacking_exists: "ex dir \<Longrightarrow> lacking ex dir = []"
  by (simp add: lacking_def path_prefixes_def)

lemma lacking_None: "\<not> ex dir \<Longrightarrow> str_rfind ''/'' dir = None \<Longrightarrow> lacking ex dir = [dir]"
  by (simp add: lacking_def path_prefixes_None)

lemma lacking_Some:
  "\<not> ex dir \<Longrightarrow> str_rfind ''/'' dir = Some pos \<Longrightarrow> lacking ex dir = lacking ex (take pos dir) @ [dir]"
  by (simp add: lacking_def path_prefixes_Some)

lemma make_dirs_snoc:
  "make_dirs mkdir (ps @ [p]) fs = (case make_dirs mkdir ps fs of (rs, fs') \<Rightarrow>
     if list_all there_now rs then (case mkdir fs' p of (r, fs'') \<Rightarrow> (rs @ [r], fs'')) else (rs, fs'))"
  by (induction ps arbitrary: fs) (auto split: prod.splits)

lemma make_dirs_answers:
  "make_dirs mkdir ps fs = (rs, fs') \<Longrightarrow>
   length rs \<le> length ps \<and> (list_all there_now rs \<longrightarrow> length rs = length ps) \<and>
   list_all there_now (butlast rs) \<and> (rs = [] \<longleftrightarrow> ps = [])"
  by (induction ps arbitrary: fs rs) (auto split: prod.splits if_splits)

lemma list_all_last: "list_all P (butlast xs) \<Longrightarrow> list_all P xs \<longleftrightarrow> xs = [] \<or> P (last xs)"
  by (cases xs rule: rev_cases) simp_all

lemma make_dirs_keeps:
  assumes "\<And>fs p r fs' q. mkdir fs p = (r, fs') \<Longrightarrow> stat fs q \<Longrightarrow> stat fs' q"
  shows "make_dirs mkdir ps fs = (rs, fs') \<Longrightarrow> stat fs q \<Longrightarrow> stat fs' q"
proof (induction ps arbitrary: fs rs)
  case (Cons p ps)
  obtain r fs1 where 1: "mkdir fs p = (r, fs1)" by (cases "mkdir fs p")
  have "stat fs1 q" by (rule assms [OF 1 Cons.prems(2)])
  then show ?case using 1 Cons.prems(1) Cons.IH by (auto split: prod.splits if_splits)
qed simp

lemma make_dirs_makes:
  assumes "\<And>fs p fs'. mkdir fs p = (None, fs') \<Longrightarrow> stat fs' p"
    and "\<And>fs p r fs' q. mkdir fs p = (r, fs') \<Longrightarrow> stat fs q \<Longrightarrow> stat fs' q"
  shows "make_dirs mkdir ps fs = (rs, fs') \<Longrightarrow> i < length rs \<Longrightarrow> rs ! i = None \<Longrightarrow> stat fs' (ps ! i)"
proof (induction ps arbitrary: fs rs i)
  case (Cons p ps)
  obtain r fs1 where 1: "mkdir fs p = (r, fs1)" by (cases "mkdir fs p")
  obtain rs2 fs2 where 2: "make_dirs mkdir ps fs1 = (rs2, fs2)" by (cases "make_dirs mkdir ps fs1")
  show ?case
  proof (cases i)
    case 0
    then have "r = None" using 1 2 Cons.prems by (auto split: if_splits)
    then have "there_now r" "stat fs1 p" using assms(1) 1 by (auto simp: there_now_def)
    moreover have "stat fs2 p" by (rule make_dirs_keeps [of mkdir stat, OF assms(2) 2 \<open>stat fs1 p\<close>])
    ultimately show ?thesis using 0 1 2 Cons.prems(1) by simp
  next
    case (Suc j)
    then have "there_now r" "rs = r # rs2" "fs' = fs2" using 1 2 Cons.prems by (auto split: if_splits)
    then show ?thesis using Suc Cons.prems(2,3) Cons.IH [of fs1 rs2 j] 2 by simp
  qed
qed simp

text \<open>All questions to \<open>stat\<close> come before the first \<open>mkdir\<close>; then the lacking ones are made in turn.\<close>

lemma do_create_dir:
  "NUL \<notin> set dir \<Longrightarrow> make_dirs mkdir (lacking (stat fs) dir) fs = (rs, fs') \<Longrightarrow>
   srs_do_create_dir_recursively stat mkdir dir fs =
     (if rs = [] then ERROR_SYSTEM_DIR_EXISTS else case last rs of
        None \<Rightarrow> ERROR_SUCCESS
      | Some errno \<Rightarrow> if errno = EEXIST then ERROR_SYSTEM_DIR_EXISTS else ERROR_SYSTEM_CREATE_DIR, fs')"
proof (induction "length dir" arbitrary: dir rs fs' rule: less_induct)
  case less
  note unf = srs_do_create_dir_recursively.simps [of stat mkdir dir fs]
  have c: "c_str dir = dir" using less.prems(1) by simp
  show ?case
  proof (cases "stat fs dir")
    case True
    then have "rs = []" "fs' = fs" using less.prems(2) by (simp_all add: lacking_exists)
    then show ?thesis using True c by (simp add: unf srs_path_exists_def)
  next
    case False
    show ?thesis
    proof (cases "str_rfind ''/'' dir")
      case None
      then show ?thesis using less.prems(2) False c
        by (auto simp: unf srs_path_exists_def lacking_None split: prod.splits option.splits if_splits)
    next
      case (Some pos)
      obtain rs1 fs1 where 1: "make_dirs mkdir (lacking (stat fs) (take pos dir)) fs = (rs1, fs1)"
        by (cases "make_dirs mkdir (lacking (stat fs) (take pos dir)) fs")
      have IH: "srs_do_create_dir_recursively stat mkdir (take pos dir) fs =
         (if rs1 = [] then ERROR_SYSTEM_DIR_EXISTS else case last rs1 of None \<Rightarrow> ERROR_SUCCESS
          | Some errno \<Rightarrow> if errno = EEXIST then ERROR_SYSTEM_DIR_EXISTS else ERROR_SYSTEM_CREATE_DIR, fs1)"
        using rfind_char_less [OF Some] less.prems(1) by (intro less.hyps 1) (auto dest: in_set_takeD)
      have snoc: "make_dirs mkdir (lacking (stat fs) dir) fs =
         (if list_all there_now rs1 then (case mkdir fs1 dir of (r, fs'') \<Rightarrow> (rs1 @ [r], fs'')) else (rs1, fs1))"
        by (simp add: lacking_Some [where ex = "stat fs", OF False Some] make_dirs_snoc 1)
      have all: "list_all there_now rs1 \<longleftrightarrow> rs1 = [] \<or> there_now (last rs1)"
        using make_dirs_answers [OF 1] by (intro list_all_last) simp
      show ?thesis
      proof (cases "list_all there_now rs1")
        case True
        then show ?thesis using less.prems(2) snoc all False Some IH c
          by (auto simp: unf srs_path_exists_def there_now_def split: prod.splits option.splits)
      next
        case ok: False
        then show ?thesis using less.prems(2) snoc all False Some IH c
          by (auto simp: unf srs_path_exists_def there_now_def split: option.splits)
      qed
    qed
  qed
qed

text \<open>
  C29: \<open>srs_create_dir_recursively\<close> makes the directories a path lacks, outermost first, with one
  \<open>mkdir\<close> each, and stops at the first one that is refused, unless it is refused because it exists
  by now.  It succeeds exactly if none is refused otherwise, and else answers
  \<open>ERROR_SYSTEM_CREATE_DIR\<close> with the path; whatever \<open>mkdir\<close> answers (no permission, no space, a
  parent that is a file).  Nothing that existed is gone, every directory that was made is there
  also after a failure, and after a success the path exists, unless \<open>mkdir\<close> said so itself.  But
  it fails for every missing directory directly under the root: it takes the empty string for its
  parent, and creating that fails, before the directory itself is tried.
\<close>

theorem create_dir_recursively_result:
  assumes "NUL \<notin> set dir"
    and "\<And>fs p fs'. mkdir fs p = (None, fs') \<Longrightarrow> stat fs' p"
    and "\<And>fs p r fs' q. mkdir fs p = (r, fs') \<Longrightarrow> stat fs q \<Longrightarrow> stat fs' q"
    and "make_dirs mkdir (lacking (stat fs) dir) fs = (rs, fs')"
  shows "srs_create_dir_recursively at stat mkdir dir fs =
      (if \<forall>r \<in> set rs. r = None \<or> r = Some EEXIST then None
       else srs_error_new at ERROR_SYSTEM_CREATE_DIR (''create dir '' @ dir), fs') \<and>
    (\<forall>q. stat fs q \<longrightarrow> stat fs' q) \<and>
    (\<forall>i < length rs. rs ! i = None \<longrightarrow> stat fs' (lacking (stat fs) dir ! i)) \<and>
    ((\<forall>r \<in> set rs. r = None \<or> r = Some EEXIST) \<longrightarrow>
      length rs = length (lacking (stat fs) dir) \<and> (stat fs' dir \<or> last rs = Some EEXIST)) \<and>
    (CHR ''/'' \<notin> set dir \<and> \<not> stat fs (''/'' @ dir) \<and> \<not> stat fs [] \<and> mkdir fs [] = (Some ENOENT, fs) \<longrightarrow>
      srs_create_dir_recursively at stat mkdir (''/'' @ dir) fs =
        (srs_error_new at ERROR_SYSTEM_CREATE_DIR (''create dir /'' @ dir), fs))"
proof -
  let ?ps = "lacking (stat fs) dir"
  have fine: "(\<forall>r \<in> set rs. r = None \<or> r = Some EEXIST) \<longleftrightarrow> list_all there_now rs"
    by (simp add: list_all_iff there_now_def)
  note ans = make_dirs_answers [OF assms(4)]
  have all: "list_all there_now rs \<longleftrightarrow> rs = [] \<or> there_now (last rs)"
    using ans by (intro list_all_last) simp
  have 1: "srs_create_dir_recursively at stat mkdir dir fs =
      (if list_all there_now rs then None
       else srs_error_new at ERROR_SYSTEM_CREATE_DIR (''create dir '' @ dir), fs')"
    using do_create_dir [where stat = stat, OF assms(1) assms(4)] assms(1) all
    by (auto simp: srs_create_dir_recursively_def there_now_def split: option.splits)
  have 2: "stat fs' q" if "stat fs q" for q
    by (rule make_dirs_keeps [of mkdir stat, OF assms(3) assms(4) that])
  have 3: "stat fs' (?ps ! i)" if "i < length rs" "rs ! i = None" for i
    by (rule make_dirs_makes [of mkdir stat, OF assms(2) assms(3) assms(4) that])
  have 4: "stat fs' dir \<or> last rs = Some EEXIST" if "list_all there_now rs"
  proof (cases "stat fs dir")
    case False
    then have ps: "?ps \<noteq> []" "last ?ps = dir"
      by (cases "str_rfind ''/'' dir"; simp add: lacking_None lacking_Some)+
    then have rs: "rs \<noteq> []" "length rs = length ?ps" using ans that by auto
    then have "stat fs' dir" if "last rs = None"
      using 3 [of "length rs - 1"] that ps by (simp add: last_conv_nth)
    moreover have "there_now (last rs)" using that all rs by simp
    ultimately show ?thesis by (auto simp: there_now_def)
  qed (simp add: 2)
  have 5: "srs_create_dir_recursively at stat mkdir (''/'' @ dir) fs =
        (srs_error_new at ERROR_SYSTEM_CREATE_DIR (''create dir /'' @ dir), fs)"
    if "CHR ''/'' \<notin> set dir" "\<not> stat fs (''/'' @ dir)" "\<not> stat fs []" "mkdir fs [] = (Some ENOENT, fs)"
  proof -
    have "lacking (stat fs) (''/'' @ dir) = [[], ''/'' @ dir]"
      using rfind_char [of "CHR ''/''" dir "[]"] that
      by (simp add: lacking_Some lacking_None rfind_char_None)
    then have "make_dirs mkdir (lacking (stat fs) (''/'' @ dir)) fs = ([Some ENOENT], fs)"
      using that(4) by (simp add: there_now_def ENOENT_def EEXIST_def)
    moreover have "NUL \<notin> set (''/'' @ dir)" using assms(1) by simp
    ultimately show ?thesis using do_create_dir [where stat = stat and dir = "''/'' @ dir"]
      by (simp add: srs_create_dir_recursively_def ENOENT_def EEXIST_def)
  qed
  show ?thesis unfolding fine using 1 2 3 4 5 ans by auto
qed

text \<open>A file system for concrete runs: the list of its directories, and those that may not be written.\<close>

definition list_stat :: "string list \<times> string list \<Rightarrow> string \<Rightarrow> bool" where
  "list_stat fs p \<longleftrightarrow> p \<noteq> [] \<and> p \<in> set (fst fs)"

definition EACCES :: int where "EACCES = 13"

definition list_mkdir :: "string list \<times> string list \<Rightarrow> string \<Rightarrow> int option \<times> string list \<times> string list" where
  "list_mkdir fs p = (if p = [] then (Some ENOENT, fs) else if list_stat fs p then (Some EEXIST, fs)
     else case str_rfind ''/'' p of
         None \<Rightarrow> (None, p # fst fs, snd fs)
       | Some pos \<Rightarrow> if \<not> list_stat fs (take pos p) then (Some ENOENT, fs)
           else if take pos p \<in> set (snd fs) then (Some EACCES, fs) else (None, p # fst fs, snd fs))"

lemma create_dir_recursively_result_witness:
  "srs_create_dir_recursively main_at list_stat list_mkdir ''a/b'' ([], []) = (None, [''a/b'', ''a''], []) \<and>
   srs_create_dir_recursively main_at list_stat list_mkdir ''a/b'' ([], [''a'']) =
     (srs_error_new main_at ERROR_SYSTEM_CREATE_DIR ''create dir a/b'', [''a''], [''a''])"
proof -
  have makes: "\<And>fs p fs'. list_mkdir fs p = (None, fs') \<Longrightarrow> list_stat fs' p"
    by (auto simp: list_mkdir_def list_stat_def split: option.splits if_splits)
  have keeps: "\<And>fs p r fs' q. list_mkdir fs p = (r, fs') \<Longrightarrow> list_stat fs q \<Longrightarrow> list_stat fs' q"
    by (auto simp: list_mkdir_def list_stat_def split: option.splits if_splits)
  have slash: "str_rfind ''/'' ''a/b'' = Some 1" "str_rfind ''/'' ''a'' = None"
    using rfind_char [of "CHR ''/''" "''b''" "''a''"] by (simp_all add: rfind_char_None)
  have lack: "lacking (list_stat ([], w)) ''a/b'' = [''a'', ''a/b'']" for w
    using slash by (simp add: lacking_Some lacking_None list_stat_def)
  have "make_dirs list_mkdir [''a'', ''a/b''] ([], w) =
      (if ''a'' \<in> set w then ([None, Some EACCES], [''a''], w) else ([None, None], [''a/b'', ''a''], w))" for w
    using slash by (simp add: list_mkdir_def list_stat_def there_now_def EACCES_def EEXIST_def)
  then have run: "make_dirs list_mkdir (lacking (list_stat ([], w)) ''a/b'') ([], w) =
      (if ''a'' \<in> set w then ([None, Some EACCES], [''a''], w) else ([None, None], [''a/b'', ''a''], w))" for w
    by (simp only: lack)
  have no_NUL: "NUL \<notin> set ''a/b''" by simp
  have "srs_create_dir_recursively main_at list_stat list_mkdir ''a/b'' ([], w) =
      (if ''a'' \<in> set w then (srs_error_new main_at ERROR_SYSTEM_CREATE_DIR ''create dir a/b'', [''a''], w)
       else (None, [''a/b'', ''a''], w))" for w
    using create_dir_recursively_result [where stat = list_stat and mkdir = list_mkdir and at = main_at,
        OF no_NUL makes keeps prod.collapse [symmetric], where fs = "([], w)"]
    by (simp add: run EACCES_def EEXIST_def)
  then show ?thesis by simp
qed

text \<open>
  \<open>srs_bytes_equals\<close> is equality of the first \<open>n\<close> bytes; two null pointers are equal
  and a null pointer differs from any other.
\<close>

theorem bytes_equals_result:
  assumes "n \<le> length a" "n \<le> length b"
  shows "srs_bytes_equals (Some a) (Some b) (int n) = Inr (take n a = take n b) \<and>
    srs_bytes_equals None None k = Inr True \<and> srs_bytes_equals None (Some b) k = Inr False \<and>
    srs_bytes_equals (Some a) None k = Inr False"
proof -
  have "bytes_equals_loop a b xs = Inr (\<forall>i \<in> set xs. a ! i = b ! i)" if "\<forall>i \<in> set xs. i < n" for xs
    using that assms by (induction xs) auto
  then have "bytes_equals_loop a b [0..<n] = Inr (\<forall>i \<in> set [0..<n]. a ! i = b ! i)" by simp
  moreover have "(\<forall>i \<in> set [0..<n]. a ! i = b ! i) \<longleftrightarrow> take n a = take n b"
    using assms by (auto simp: list_eq_iff_nth_eq)
  ultimately show ?thesis by (simp add: srs_bytes_equals_def)
qed

lemma bytes_equals_result_witness:
  "srs_bytes_equals (Some [1, 2, 3]) (Some [1, 2, 4]) (int 2) = Inr True"
  using bytes_equals_result [of 2 "[1, 2, 3]" "[1, 2, 4]"] by simp

text \<open>\<open>srs_int2str\<close> is never cut: a 64-bit number has at most 20 characters; \<open>strtol\<close> reads it back.\<close>

theorem int2str_roundtrip:
  assumes "- (2 ^ 63) \<le> v" "v < 2 ^ 63"
  shows "srs_int2str v = int_str v \<and> strtol (srs_int2str v) = v"
proof -
  have "nat v < 10 ^ Suc 18" "nat (- v) < 10 ^ Suc 18" using assms by (simp_all add: nat_less_iff)
  from this [THEN length_nat_str [rotated]] have "length (int_str v) < 22" by (simp add: int_str_def)
  then show ?thesis using assms by (simp add: srs_int2str_def)
qed

lemma int2str_roundtrip_witness: "strtol (srs_int2str (- 9223372036854775808)) = - 9223372036854775808"
  using int2str_roundtrip [of "- 9223372036854775808"] by simp

end
