(* ===== verification/Srs_App_Coroutine.thy ===== *)
theory Srs_App_Coroutine
  imports Srs_Kernel_Error
begin

section \<open>Coroutines (core/srs_app_st.cpp)\<close>

text \<open>
  \<open>SrsFastCoroutine\<close> wraps one thread of state-threads.  The record holds its members and
  the thread behind \<open>trd\<close>: created, running its cycle, exited with a result that no one has
  joined yet, or joined.  Errors are pointers; two are equal when they are the same object, so
  an error is a pair of an address and its contents, with \<open>next_err\<close> the next fresh address.

  \<open>stop\<close> blocks in \<open>st_thread_join\<close>, where other coroutines run: it is modelled in two
  steps, \<open>co_stop\<close> up to the join and \<open>co_stop_joined\<close> from the return of the join.  All other
  operations and the end of the worker's cycle run without a switch.  An argument of type
  \<open>err_site\<close> is the place and the surroundings that a created error records.
\<close>

subsection \<open>The state\<close>

type_synonym err_ref = "nat \<times> SrsCplxError"

datatype st_thread = Created | Running | Exited "err_ref option" | Joined

record coroutine =
  co_name :: string
  stack_size :: int
  trd :: "st_thread option"
  co_cid :: SrsContextId
  trd_err :: "err_ref option"
  started :: bool
  interrupted :: bool
  disposed :: bool
  cycle_done :: bool
  stopping :: bool
  next_err :: nat

definition SrsFastCoroutine :: "string \<Rightarrow> coroutine" where
  "SrsFastCoroutine n = \<lparr>co_name = n, stack_size = 0, trd = None, co_cid = ctx_none, trd_err = None,
     started = False, interrupted = False, disposed = False, cycle_done = False, stopping = False,
     next_err = 0\<rparr>"

definition SrsFastCoroutine_cid :: "string \<Rightarrow> SrsContextId \<Rightarrow> coroutine" where
  "SrsFastCoroutine_cid n cid = (SrsFastCoroutine n)\<lparr>co_cid := cid\<rparr>"

definition set_stack_size :: "int \<Rightarrow> coroutine \<Rightarrow> coroutine" where
  "set_stack_size v c = c\<lparr>stack_size := v\<rparr>"

text \<open>Store a newly allocated error in \<open>trd_err\<close>.\<close>

definition set_trd_err :: "srs_error_t \<Rightarrow> coroutine \<Rightarrow> coroutine" where
  "set_trd_err e c = (case e of None \<Rightarrow> c\<lparr>trd_err := None\<rparr>
     | Some x \<Rightarrow> c\<lparr>trd_err := Some (next_err c, x), next_err := next_err c + 1\<rparr>)"

subsection \<open>The operations\<close>

text \<open>\<open>created\<close> tells whether \<open>st_thread_create\<close> returned a thread.\<close>

definition co_start :: "err_site \<Rightarrow> bool \<Rightarrow> coroutine \<Rightarrow> srs_error_t \<times> coroutine" where
  "co_start at created c =
     (if started c \<or> disposed c then
        let err = (if disposed c then srs_error_new at ERROR_THREAD_DISPOSED ''disposed''
                   else srs_error_new at ERROR_THREAD_STARTED ''started'');
            c = (if trd_err c = None then set_trd_err (srs_error_copy err) c else c)
        in (err, c)
      else if \<not> created then
        let err = srs_error_new at ERROR_ST_CREATE_CYCLE_THREAD ''create failed''
        in (err, set_trd_err (srs_error_copy err) c)
      else (None, c\<lparr>trd := Some Created, started := True\<rparr>))"

text \<open>\<open>st_thread_interrupt\<close> only wakes the thread; it has no effect on an exited one.\<close>

definition co_interrupt :: "err_site \<Rightarrow> coroutine \<Rightarrow> coroutine" where
  "co_interrupt at c =
     (if \<not> started c \<or> interrupted c \<or> cycle_done c then c
      else let c = c\<lparr>interrupted := True\<rparr> in
        if trd_err c = None then set_trd_err (srs_error_new at ERROR_THREAD_INTERRUPED ''interrupted'') c
        else c)"

text \<open>The part of \<open>stop\<close> after the join.\<close>

definition co_stopped :: "err_site \<Rightarrow> coroutine \<Rightarrow> coroutine" where
  "co_stopped at c =
     (let c = (if trd_err c = None \<and> \<not> cycle_done c
               then set_trd_err (srs_error_new at ERROR_THREAD_TERMINATED ''terminated'') c else c)
      in c\<lparr>stopping := False\<rparr>)"

definition co_stop :: "err_site \<Rightarrow> coroutine \<Rightarrow> coroutine outcome" where
  "co_stop at c =
     (if disposed c then
        (if stopping c then Inl Assert_failed else Inr c)
      else
        let c = c\<lparr>disposed := True, stopping := True\<rparr>;
            c = co_interrupt at c
        in if trd c = None then Inr (co_stopped at c) else Inr c)"

text \<open>
  \<open>joined\<close> is false when \<open>st_thread_join\<close> fails, because the stopping coroutine was interrupted or for any
  other reason: the assertions for \<open>EINVAL\<close>, \<open>EDEADLK\<close>, \<open>EINTR\<close>, \<open>ETIME\<close> and the rest all
  say the same, that the result is 0.
\<close>

definition co_stop_joined :: "err_site \<Rightarrow> bool \<Rightarrow> coroutine \<Rightarrow> coroutine outcome" where
  "co_stop_joined at joined c =
     rbind (srs_assert joined) (\<lambda>_.
     case trd c of Some (Exited err_res) \<Rightarrow>
       let c = c\<lparr>trd := Some Joined\<rparr> in
       rbind (if err_res \<noteq> None then srs_assert (trd_err c = err_res) else Inr ()) (\<lambda>_.
       Inr (co_stopped at c))
     | _ \<Rightarrow> Inl Bad_access)"

definition co_pull :: "coroutine \<Rightarrow> srs_error_t" where
  "co_pull c = (case trd_err c of None \<Rightarrow> None | Some (_, e) \<Rightarrow> srs_error_copy (Some e))"

text \<open>
  The worker: \<open>cycle\<close> up to the handler, with the id to generate if it has none, and from
  the return of the handler to the end of \<open>pfn\<close>.
\<close>

definition co_enter :: "SrsContextId \<Rightarrow> coroutine \<Rightarrow> coroutine" where
  "co_enter new_id c = (let c = (if ctx_empty (co_cid c) then c\<lparr>co_cid := new_id\<rparr> else c)
     in c\<lparr>trd := Some Running\<rparr>)"

text \<open>\<open>cycle\<close> also makes the id the context of the worker, when there is a context object.\<close>

definition co_cycle_begin ::
  "SrsContextId \<Rightarrow> thread_ctx option \<Rightarrow> coroutine \<Rightarrow> (thread_ctx option \<times> coroutine) outcome" where
  "co_cycle_begin new_id ctx c = (case ctx of
       None \<Rightarrow> Inr (None, c\<lparr>trd := Some Running\<rparr>)
     | Some s \<Rightarrow> rbind (ctx_set_id (co_cid (co_enter new_id c)) s) (\<lambda>(_, s). Inr (Some s, co_enter new_id c)))"

definition co_cycle_return :: "err_site \<Rightarrow> srs_error_t \<Rightarrow> coroutine \<Rightarrow> coroutine" where
  "co_cycle_return at err c = (case err of
       None \<Rightarrow> c\<lparr>cycle_done := True, trd := Some (Exited None)\<rparr>
     | Some e \<Rightarrow> let c = set_trd_err (srs_error_wrap at (Some e) ''coroutine cycle'') c
         in c\<lparr>trd := Some (Exited (trd_err c))\<rparr>)"

subsection \<open>The coroutine among others\<close>

datatype co_event =
    Ev_start err_site bool
  | Ev_interrupt err_site
  | Ev_stop err_site
  | Ev_joined err_site bool
  | Ev_enter SrsContextId
  | Ev_return err_site srs_error_t

text \<open>
  When an event can happen: the scheduler runs a created thread, a running cycle may return,
  and a join returns successfully once the thread has exited.
\<close>

fun co_enabled :: "co_event \<Rightarrow> coroutine \<Rightarrow> bool" where
  "co_enabled (Ev_start _ _) c \<longleftrightarrow> True"
| "co_enabled (Ev_interrupt _) c \<longleftrightarrow> True"
| "co_enabled (Ev_stop _) c \<longleftrightarrow> True"
| "co_enabled (Ev_joined _ ok) c \<longleftrightarrow> stopping c \<and> (ok \<longrightarrow> (\<exists>r. trd c = Some (Exited r)))"
| "co_enabled (Ev_enter _) c \<longleftrightarrow> trd c = Some Created"
| "co_enabled (Ev_return _ _) c \<longleftrightarrow> trd c = Some Running"

fun co_step :: "co_event \<Rightarrow> coroutine \<Rightarrow> coroutine outcome" where
  "co_step (Ev_start at created) c = Inr (snd (co_start at created c))"
| "co_step (Ev_interrupt at) c = Inr (co_interrupt at c)"
| "co_step (Ev_stop at) c = co_stop at c"
| "co_step (Ev_joined at ok) c = co_stop_joined at ok c"
| "co_step (Ev_enter new_id) c = Inr (co_enter new_id c)"
| "co_step (Ev_return at err) c = Inr (co_cycle_return at err c)"

inductive co_reachable :: "coroutine \<Rightarrow> bool" where
  co_init: "co_reachable (SrsFastCoroutine_cid n cid)"
| co_next: "co_reachable c \<Longrightarrow> co_enabled e c \<Longrightarrow> co_step e c = Inr c' \<Longrightarrow> co_reachable c'"

text \<open>\<open>failed c\<close>: \<open>pull\<close> returns an error.\<close>

definition failed :: "coroutine \<Rightarrow> bool" where "failed c \<longleftrightarrow> trd_err c \<noteq> None"

lemma trd_err_None [simp]: "trd_err c = None \<longleftrightarrow> \<not> failed c"
  by (simp only: failed_def not_not)

definition co_inv :: "coroutine \<Rightarrow> bool" where
  "co_inv c \<longleftrightarrow> (case trd c of
       None \<Rightarrow> \<not> started c \<and> \<not> cycle_done c \<and> \<not> interrupted c \<and> \<not> stopping c \<and> (disposed c \<longrightarrow> failed c)
     | Some Joined \<Rightarrow> started c \<and> disposed c \<and> \<not> stopping c \<and> (failed c \<or> cycle_done c) \<and>
         (interrupted c \<longrightarrow> failed c)
     | Some (Exited r) \<Rightarrow> started c \<and> disposed c = stopping c \<and> (interrupted c \<longrightarrow> failed c) \<and>
         (if r = None then cycle_done c else \<not> cycle_done c \<and> failed c \<and> trd_err c = r)
     | Some _ \<Rightarrow> started c \<and> \<not> cycle_done c \<and> disposed c = stopping c \<and>
         (interrupted c \<longrightarrow> failed c) \<and> (stopping c \<longrightarrow> failed c))"

lemmas co_op_defs = co_start_def co_interrupt_def co_stopped_def co_stop_def co_stop_joined_def
  co_enter_def co_cycle_return_def set_trd_err_def Let_def

lemma set_trd_err_simps [simp]:
  "started (set_trd_err e c) = started c" "interrupted (set_trd_err e c) = interrupted c"
  "disposed (set_trd_err e c) = disposed c" "cycle_done (set_trd_err e c) = cycle_done c"
  "stopping (set_trd_err e c) = stopping c" "trd (set_trd_err e c) = trd c"
  "failed (set_trd_err e c) \<longleftrightarrow> e \<noteq> None"
  by (cases e; simp add: set_trd_err_def failed_def del: trd_err_None)+

lemma failed_update [simp]:
  "failed (c\<lparr>trd := a\<rparr>) = failed c" "failed (c\<lparr>started := b\<rparr>) = failed c"
  "failed (c\<lparr>interrupted := b\<rparr>) = failed c" "failed (c\<lparr>disposed := b\<rparr>) = failed c"
  "failed (c\<lparr>cycle_done := b\<rparr>) = failed c" "failed (c\<lparr>stopping := b\<rparr>) = failed c"
  "failed (c\<lparr>co_cid := i\<rparr>) = failed c"
  by (simp_all add: failed_def del: trd_err_None)

lemma co_inv_trd:
  "co_inv c \<Longrightarrow> trd c = None \<Longrightarrow> \<not> started c \<and> \<not> cycle_done c \<and> \<not> interrupted c \<and> \<not> stopping c \<and> (disposed c \<longrightarrow> failed c)"
  "co_inv c \<Longrightarrow> trd c = Some Joined \<Longrightarrow> started c \<and> disposed c \<and> \<not> stopping c \<and> (failed c \<or> cycle_done c) \<and> (interrupted c \<longrightarrow> failed c)"
  "co_inv c \<Longrightarrow> trd c = Some (Exited r) \<Longrightarrow> started c \<and> disposed c = stopping c \<and> (interrupted c \<longrightarrow> failed c) \<and>
     (if r = None then cycle_done c else \<not> cycle_done c \<and> failed c \<and> trd_err c = r)"
  "co_inv c \<Longrightarrow> trd c = Some Created \<or> trd c = Some Running \<Longrightarrow> started c \<and> \<not> cycle_done c \<and> disposed c = stopping c \<and>
     (interrupted c \<longrightarrow> failed c) \<and> (stopping c \<longrightarrow> failed c)"
  by (auto simp: co_inv_def simp del: split_paired_All split_paired_Ex)

lemma trd_cases:
  obtains "trd c = None" | "trd c = Some Joined" | "trd c = Some (Exited None)"
  | r where "trd c = Some (Exited (Some r))" | "trd c = Some Created" | "trd c = Some Running"
  by (cases "trd c") (simp, metis not_None_eq st_thread.exhaust)

lemma trd_err_failed: "trd_err c = Some r \<Longrightarrow> failed c"
  by (simp add: failed_def del: trd_err_None)

lemma co_start_inv: "co_inv c \<Longrightarrow> co_inv (snd (co_start at created c))"
  by (cases c rule: trd_cases) (auto simp: co_start_def Let_def co_inv_def dest: trd_err_failed)

lemma co_interrupt_simps [simp]:
  "trd (co_interrupt at c) = trd c" "disposed (co_interrupt at c) = disposed c"
  "stopping (co_interrupt at c) = stopping c" "cycle_done (co_interrupt at c) = cycle_done c"
  "started (co_interrupt at c) = started c"
  "failed (co_interrupt at c) \<longleftrightarrow> failed c \<or> started c \<and> \<not> interrupted c \<and> \<not> cycle_done c"
  "failed c \<Longrightarrow> trd_err (co_interrupt at c) = trd_err c"
  by (auto simp: co_interrupt_def Let_def)

lemma co_stopped_simps [simp]:
  "trd (co_stopped at c) = trd c" "disposed (co_stopped at c) = disposed c"
  "stopping (co_stopped at c) = False" "cycle_done (co_stopped at c) = cycle_done c"
  "started (co_stopped at c) = started c" "interrupted (co_stopped at c) = interrupted c"
  "failed (co_stopped at c) \<longleftrightarrow> failed c \<or> \<not> cycle_done c"
  "failed c \<Longrightarrow> trd_err (co_stopped at c) = trd_err c"
  by (auto simp: co_stopped_def Let_def)

lemma co_interrupt_interrupted: "interrupted (co_interrupt at c) \<longleftrightarrow> interrupted c \<or> started c \<and> \<not> cycle_done c"
  by (auto simp: co_interrupt_def Let_def)

lemma co_interrupt_inv: "co_inv c \<Longrightarrow> co_inv (co_interrupt at c)"
  by (cases c rule: trd_cases) (auto simp: co_inv_def co_interrupt_interrupted)

lemma co_stop_inv: "co_inv c \<Longrightarrow> co_stop at c = Inr c' \<Longrightarrow> co_inv c'"
  by (cases c rule: trd_cases)
     (auto simp: co_stop_def Let_def co_inv_def co_interrupt_interrupted dest: trd_err_failed split: if_splits)

lemma co_joined_inv: "co_inv c \<Longrightarrow> stopping c \<Longrightarrow> co_stop_joined at ok c = Inr c' \<Longrightarrow> co_inv c'"
  by (cases c rule: trd_cases)
     (auto simp: co_stop_joined_def Let_def co_inv_def dest: trd_err_failed split: if_splits)

lemma co_enter_inv: "co_inv c \<Longrightarrow> trd c = Some Created \<Longrightarrow> co_inv (co_enter i c)"
  by (auto simp: co_inv_def co_enter_def Let_def)

lemma co_return_inv: "co_inv c \<Longrightarrow> trd c = Some Running \<Longrightarrow> co_inv (co_cycle_return at err c)"
proof (cases err)
  case (Some e)
  assume c: "co_inv c" "trd c = Some Running"
  let ?c = "set_trd_err (srs_error_wrap at (Some e) ''coroutine cycle'') c"
  have "failed ?c" by simp
  then obtain r where "trd_err ?c = Some r" by (metis trd_err_None not_None_eq)
  then show ?thesis using c Some by (auto simp: co_inv_def co_cycle_return_def Let_def)
qed (auto simp: co_inv_def co_cycle_return_def)

lemma co_step_inv: "co_inv c \<Longrightarrow> co_enabled e c \<Longrightarrow> co_step e c = Inr c' \<Longrightarrow> co_inv c'"
  using co_stop_inv [of c _ c'] co_joined_inv [of c _ _ c']
  by (cases e) (auto simp: co_start_inv co_interrupt_inv co_enter_inv co_return_inv)

lemma co_reachable_inv: "co_reachable c \<Longrightarrow> co_inv c"
proof (induction rule: co_reachable.induct)
  case (co_init n cid)
  show ?case by (simp add: co_inv_def SrsFastCoroutine_cid_def SrsFastCoroutine_def failed_def del: trd_err_None)
qed (rule co_step_inv)

lemma co_stop_joined_exited:
  assumes "co_inv c" "trd c = Some (Exited r)"
  shows "co_stop_joined at True c = Inr (co_stopped at (c\<lparr>trd := Some Joined\<rparr>))"
  using co_inv_trd(3) [OF assms] assms(2)
  by (auto simp: co_stop_joined_def Let_def simp del: trd_err_None split: if_splits)

lemma co_stop_joined_interrupted: "co_stop_joined at False c = Inl Assert_failed"
  by (simp add: co_stop_joined_def)

text \<open>Once \<open>pull\<close> fails it fails for ever, whatever happens.\<close>

lemma co_step_failed: "failed c \<Longrightarrow> co_step e c = Inr c' \<Longrightarrow> failed c'"
  by (cases e) (auto simp: co_start_def co_stop_def co_stop_joined_def co_enter_def co_cycle_return_def Let_def
      split: if_splits option.splits st_thread.splits)

inductive co_steps :: "coroutine \<Rightarrow> coroutine \<Rightarrow> bool" where
  co_steps_refl: "co_steps c c"
| co_steps_step: "co_steps c c' \<Longrightarrow> co_enabled e c' \<Longrightarrow> co_step e c' = Inr c'' \<Longrightarrow> co_steps c c''"

lemma co_steps_failed: "co_steps c c' \<Longrightarrow> failed c \<Longrightarrow> failed c'"
  by (induction rule: co_steps.induct) (auto dest: co_step_failed)

lemma co_steps_reachable: "co_steps c c' \<Longrightarrow> co_reachable c \<Longrightarrow> co_reachable c'"
  by (induction rule: co_steps.induct) (auto intro: co_next)

lemma co_pull_failed [simp]: "co_pull c = None \<longleftrightarrow> \<not> failed c"
  by (cases "trd_err c") (auto simp: co_pull_def srs_error_copy_def failed_def simp del: trd_err_None)

lemma copy_code [simp]: "err_code (err_node (error_copy e)) = err_code (err_node e)"
  by (cases e rule: error_copy.cases) simp_all

subsection \<open>Properties\<close>

text \<open>
  C3: In every reachable state of a coroutine the assertions of \<open>stop\<close> hold except in the two
  ways the code forbids: a second \<open>stop\<close> while another coroutine is still stopping it, and an
  interrupt of the stopping coroutine during its join.  In particular the error that the join
  returns is always the very object in \<open>trd_err\<close>.
\<close>

theorem coroutine_assertions:
  assumes "co_reachable c" "co_enabled e c"
  shows "co_step e c = Inl x \<longleftrightarrow> x = Assert_failed \<and>
    ((\<exists>at. e = Ev_stop at) \<and> stopping c \<or> (\<exists>at. e = Ev_joined at False))"
proof -
  note inv = co_reachable_inv [OF assms(1)]
  have disp: "stopping c \<Longrightarrow> disposed c" using inv by (cases c rule: trd_cases) (auto simp: co_inv_def)
  show ?thesis
  proof (cases e)
    case (Ev_joined at ok)
    then show ?thesis
      using assms(2) co_stop_joined_exited [OF inv] by (cases ok) (auto simp: co_stop_joined_interrupted)
  qed (use disp in \<open>auto simp: co_stop_def Let_def\<close>)
qed

lemma coroutine_assertions_witness:
  "co_step (Ev_stop main_at) (SrsFastCoroutine ''t'') \<noteq> Inl Assert_failed"
proof -
  have "SrsFastCoroutine ''t'' = SrsFastCoroutine_cid ''t'' ctx_none"
    by (simp add: SrsFastCoroutine_cid_def SrsFastCoroutine_def)
  then have "co_reachable (SrsFastCoroutine ''t'')" by (metis co_init)
  from coroutine_assertions [OF this, of "Ev_stop main_at" Assert_failed] show ?thesis
    by (simp add: SrsFastCoroutine_def)
qed

text \<open>
  A coroutine that has to quit stays so: once \<open>pull\<close> returns an error every later \<open>pull\<close>
  does, and after \<open>interrupt\<close> of a started coroutine whose cycle has not returned, or after a
  \<open>stop\<close> that has returned, \<open>pull\<close> returns an error unless the cycle ended with success.
\<close>

theorem pull_error_is_sticky:
  assumes "co_reachable c" "co_steps c c'"
  shows "(co_pull c \<noteq> None \<longrightarrow> co_pull c' \<noteq> None) \<and>
    (started c' \<and> \<not> cycle_done c' \<longrightarrow> co_pull (co_interrupt at c') \<noteq> None) \<and>
    (disposed c' \<and> \<not> stopping c' \<longrightarrow> co_pull c' \<noteq> None \<or> cycle_done c')"
proof -
  have inv: "co_inv c'" by (rule co_reachable_inv [OF co_steps_reachable [OF assms(2,1)]])
  have "interrupted c' \<Longrightarrow> failed c'" using inv by (cases c' rule: trd_cases) (auto simp: co_inv_def dest: trd_err_failed)
  moreover have "disposed c' \<and> \<not> stopping c' \<Longrightarrow> failed c' \<or> cycle_done c'"
    using inv by (cases c' rule: trd_cases) (auto simp: co_inv_def dest: trd_err_failed)
  ultimately show ?thesis
    using co_steps_failed [OF assms(2)] by (simp del: not_None_eq) blast
qed

lemma SrsFastCoroutine_reachable: "co_reachable (SrsFastCoroutine n)"
proof -
  have "SrsFastCoroutine n = SrsFastCoroutine_cid n ctx_none"
    by (simp add: SrsFastCoroutine_cid_def SrsFastCoroutine_def)
  then show ?thesis by (metis co_init)
qed

lemma fresh_simps [simp]:
  "started (SrsFastCoroutine n) = False" "disposed (SrsFastCoroutine n) = False"
  "stopping (SrsFastCoroutine n) = False" "failed (SrsFastCoroutine n) = False"
  "interrupted (SrsFastCoroutine n) = False" "cycle_done (SrsFastCoroutine n) = False"
  "trd (SrsFastCoroutine n) = None"
  by (simp_all add: SrsFastCoroutine_def failed_def del: trd_err_None)

lemma pull_error_is_sticky_witness:
  "co_pull (co_interrupt main_at (snd (co_start main_at True (SrsFastCoroutine ''t'')))) \<noteq> None"
proof -
  let ?c = "snd (co_start main_at True (SrsFastCoroutine ''t''))"
  have "co_steps (SrsFastCoroutine ''t'') ?c"
    by (rule co_steps_step [OF co_steps_refl, of "Ev_start main_at True"]) simp_all
  from pull_error_is_sticky [OF SrsFastCoroutine_reachable this, of main_at]
  show ?thesis by (simp add: co_start_def)
qed

text \<open>
  C4: \<open>stop\<close> of a coroutine whose cycle is running wakes it with an error from \<open>pull\<close>, and
  returns after the cycle has returned, whatever it returned: then the thread is joined, nothing
  can stop or start it again, and \<open>pull\<close> tells the error of the cycle, or an error
  from the interrupt if the cycle returned success in spite of it.
\<close>

theorem stop_joins_the_worker:
  assumes "co_reachable c" "trd c = Some Running" "\<not> disposed c"
  shows "\<exists>c1 c2. co_stop at c = Inr c1 \<and> co_pull c1 \<noteq> None \<and>
    (\<forall>r. co_stop_joined at True c1 \<noteq> Inr r) \<and>
    co_stop_joined at True (co_cycle_return at' err c1) = Inr c2 \<and>
    trd c2 = Some Joined \<and> disposed c2 \<and> \<not> stopping c2 \<and> co_stop at c2 = Inr c2 \<and>
    srs_error_code (fst (co_start at True c2)) = ERROR_THREAD_DISPOSED \<and>
    co_pull c2 \<noteq> None \<and> (case err of None \<Rightarrow> co_pull c2 = co_pull c1
      | Some e \<Rightarrow> srs_error_code (co_pull c2) = srs_error_code (Some e))"
proof -
  note inv = co_reachable_inv [OF assms(1)]
  let ?c1 = "co_interrupt at (c\<lparr>disposed := True, stopping := True\<rparr>)"
  let ?c = "co_cycle_return at' err ?c1"
  let ?c2 = "co_stopped at (?c\<lparr>trd := Some Joined\<rparr>)"
  have st: "started c" "\<not> cycle_done c" "interrupted c \<Longrightarrow> failed c" using inv assms by (auto simp: co_inv_def)
  have 1: "co_stop at c = Inr ?c1" using assms by (simp add: co_stop_def Let_def)
  have f1: "failed ?c1" using st by auto
  have inv1: "co_inv ?c1" by (rule co_stop_inv [OF inv 1])
  have inv2: "co_inv ?c" by (rule co_return_inv [OF inv1]) (simp add: assms)
  obtain r where r: "trd ?c = Some (Exited r)" by (cases err) (auto simp: co_cycle_return_def Let_def)
  have 2: "co_stop_joined at True ?c = Inr ?c2" by (rule co_stop_joined_exited [OF inv2 r])
  have no: "\<forall>r. co_stop_joined at True ?c1 \<noteq> Inr r" by (simp add: co_stop_joined_def assms)
  have f: "failed ?c" "disposed ?c"
    using f1 by (cases err; simp add: co_cycle_return_def Let_def)+
  have te: "trd_err ?c2 = trd_err ?c" using f by simp
  have "case err of None \<Rightarrow> trd_err ?c = trd_err ?c1
      | Some e \<Rightarrow> \<exists>k x. trd_err ?c = Some (k, x) \<and> err_code (err_node x) = err_code (err_node e)"
    by (cases err) (auto simp: co_cycle_return_def Let_def set_trd_err_def srs_error_wrap_def split: option.splits)
  then have "case err of None \<Rightarrow> co_pull ?c2 = co_pull ?c1
      | Some e \<Rightarrow> srs_error_code (co_pull ?c2) = srs_error_code (Some e)"
    unfolding co_pull_def te
    by (cases err) (auto simp: srs_error_copy_def srs_error_code_def copy_code)
  then show ?thesis
    using 1 2 no f f1 by (intro exI [of _ ?c1] exI [of _ ?c2])
      (auto simp: co_stop_def co_start_def Let_def srs_error_new_def srs_error_code_def simp del: not_None_eq)
qed

text \<open>A coroutine that was started and whose worker has entered its cycle.\<close>

definition running_co :: coroutine where
  "running_co = (SrsFastCoroutine ''t'')\<lparr>trd := Some Running, started := True, co_cid := SrsContextId ''c1''\<rparr>"

lemma running_co_reachable: "co_reachable running_co"
proof -
  fix at :: err_site
  let ?c = "snd (co_start at True (SrsFastCoroutine ''t''))"
  have 1: "co_reachable ?c"
    by (rule co_next [OF SrsFastCoroutine_reachable, of "Ev_start at True"]) simp_all
  have "co_reachable (co_enter (SrsContextId ''c1'') ?c)"
    by (rule co_next [OF 1, of "Ev_enter (SrsContextId ''c1'')"]) (simp_all add: co_start_def)
  then show ?thesis
    by (simp add: running_co_def co_start_def co_enter_def Let_def ctx_empty_def ctx_none_def SrsFastCoroutine_def)
qed

lemma stop_joins_the_worker_witness:
  "\<exists>c1 c2. co_stop main_at running_co = Inr c1 \<and> co_stop_joined main_at True (co_cycle_return main_at None c1) = Inr c2 \<and>
     co_pull c2 \<noteq> None"
  using stop_joins_the_worker [OF running_co_reachable, of main_at main_at None]
  by (auto simp: running_co_def)

text \<open>
  The header promises \<open>ERROR_THREAD_TERMINATED\<close> from \<open>pull\<close> when the coroutine terminated
  normally without error.  It is not so: after a cycle that returned success, \<open>pull\<close> returns
  success, before and after \<open>stop\<close>; that code is only seen when a coroutine is stopped that
  was never started.
\<close>

theorem normal_end_pulls_success:
  assumes "co_reachable c" "trd c = Some Running" "co_pull c = None"
  shows "co_pull (co_cycle_return at' None c) = None \<and>
    (\<exists>c1 c2. co_stop at (co_cycle_return at' None c) = Inr c1 \<and> co_stop_joined at True c1 = Inr c2 \<and>
       \<not> stopping c2 \<and> co_pull c2 = None) \<and>
    (\<exists>c3. co_stop at (SrsFastCoroutine n) = Inr c3 \<and> srs_error_code (co_pull c3) = ERROR_THREAD_TERMINATED)"
proof -
  let ?c = "co_cycle_return at' None c"
  have "\<not> stopping c" "\<not> disposed c" "\<not> interrupted c" "started c"
    using co_reachable_inv [OF assms(1)] assms(2,3) by (auto simp: co_inv_def)
  moreover have "srs_error_code (co_pull (co_stopped at (SrsFastCoroutine n\<lparr>disposed := True, stopping := True\<rparr>)))
      = ERROR_THREAD_TERMINATED"
    by (simp add: co_stopped_def Let_def set_trd_err_def co_pull_def srs_error_new_def srs_error_copy_def
        srs_error_code_def)
  ultimately show ?thesis
    using assms(2,3)
    by (simp add: co_cycle_return_def co_stop_def co_stop_joined_def co_interrupt_def Let_def)
qed

lemma normal_end_pulls_success_witness:
  "co_pull (co_cycle_return main_at None running_co) = None"
  using normal_end_pulls_success [OF running_co_reachable, of main_at]
  by (simp add: running_co_def)

text \<open>
  After a \<open>start\<close> whose thread could not be created, a second \<open>start\<close> reports success and
  runs the cycle, but \<open>pull\<close> still returns the old \<open>ERROR_ST_CREATE_CYCLE_THREAD\<close>, so a
  cycle that polls it quits at once: the retry never runs its loop.
\<close>

theorem start_retry_keeps_old_error:
  "\<exists>c1 c2. srs_error_code (fst (co_start at False (SrsFastCoroutine n))) = ERROR_ST_CREATE_CYCLE_THREAD \<and>
     snd (co_start at False (SrsFastCoroutine n)) = c1 \<and> co_start at' True c1 = (None, c2) \<and>
     trd c2 = Some Created \<and> srs_error_code (co_pull (co_enter i c2)) = ERROR_ST_CREATE_CYCLE_THREAD"
  by (simp add: co_start_def Let_def co_pull_def set_trd_err_def srs_error_new_def srs_error_copy_def
      srs_error_code_def co_enter_def)

subsection \<open>The interface \<open>SrsCoroutine\<close>\<close>

text \<open>
  What a handler relies on when its cycle polls \<open>pull\<close>: others may act on the coroutine at any
  switch (\<open>others\<close>), an error stays, and \<open>stop\<close> and \<open>interrupt\<close> of a coroutine with
  a cycle under way (\<open>busy\<close>) make \<open>pull\<close> fail.
\<close>

locale srs_coroutine =
  fixes ok :: "'s \<Rightarrow> bool"
    and others :: "'s \<Rightarrow> 's \<Rightarrow> bool"
    and busy :: "'s \<Rightarrow> bool"
    and pull :: "'s \<Rightarrow> srs_error_t"
    and interrupt :: "'s \<Rightarrow> 's"
  assumes ok_others: "ok s \<Longrightarrow> others s s' \<Longrightarrow> ok s'"
    and pull_others: "ok s \<Longrightarrow> others s s' \<Longrightarrow> pull s \<noteq> None \<Longrightarrow> pull s' \<noteq> None"
    and interrupt_pull: "ok s \<Longrightarrow> busy s \<Longrightarrow> pull (interrupt s) \<noteq> None"
    and ok_interrupt: "ok s \<Longrightarrow> ok (interrupt s)"
begin

text \<open>The coroutine as the cycle sees it at the head of each round.\<close>

definition rounds :: "(nat \<Rightarrow> 's) \<Rightarrow> bool" where
  "rounds f \<longleftrightarrow> ok (f 0) \<and> (\<forall>n. others (f n) (f (Suc n)))"

lemma rounds_ok: "rounds f \<Longrightarrow> ok (f n)"
  by (induction n) (auto simp: rounds_def intro: ok_others)

lemma rounds_pull: "rounds f \<Longrightarrow> pull (f m) \<noteq> None \<Longrightarrow> m \<le> n \<Longrightarrow> pull (f n) \<noteq> None"
proof (induction n)
  case (Suc n)
  show ?case
  proof (cases "m = Suc n")
    case False
    then show ?thesis
      using Suc pull_others [of "f n" "f (Suc n)"] rounds_ok [of f n] by (auto simp: rounds_def simp del: not_None_eq)
  qed (use Suc in simp)
qed simp

lemma interrupt_ends_rounds:
  assumes "rounds f" "busy (f m)" "f (Suc m) = interrupt (f m)"
  shows "m < n \<Longrightarrow> pull (f n) \<noteq> None"
  using rounds_pull [OF assms(1), of "Suc m" n] interrupt_pull [of "f m"] rounds_ok [OF assms(1)] assms
  by (simp add: Suc_le_eq)

end

lemma co_steps_inv: "co_steps c c' \<Longrightarrow> co_inv c \<Longrightarrow> co_inv c'"
  by (induction rule: co_steps.induct) (auto dest: co_step_inv)

lemma co_steps_interrupt: "co_steps c (co_interrupt at c)"
  by (rule co_steps_step [OF co_steps_refl, of "Ev_interrupt at"]) simp_all

interpretation fast: srs_coroutine co_inv co_steps
    "\<lambda>c. trd c = Some Created \<or> trd c = Some Running" co_pull "co_interrupt at" for at
proof unfold_locales
  show "co_inv c \<Longrightarrow> co_steps c c' \<Longrightarrow> co_inv c'" for c c'
    by (rule co_steps_inv)
  show "co_inv c \<Longrightarrow> co_steps c c' \<Longrightarrow> co_pull c \<noteq> None \<Longrightarrow> co_pull c' \<noteq> None" for c c'
    using co_steps_failed by simp
  show "co_inv c \<Longrightarrow> trd c = Some Created \<or> trd c = Some Running \<Longrightarrow> co_pull (co_interrupt at c) \<noteq> None" for c
    by (auto simp: co_inv_def simp del: not_None_eq)
qed (rule co_interrupt_inv)

text \<open>\<open>SrsDummyCoroutine\<close> has no state: it cannot start, and \<open>pull\<close> always fails.\<close>

definition dummy_start :: "err_site \<Rightarrow> srs_error_t" where
  "dummy_start at = srs_error_new at ERROR_THREAD_DUMMY ''dummy coroutine''"

definition dummy_stop :: "unit \<Rightarrow> unit" where "dummy_stop s = s"
definition dummy_interrupt :: "unit \<Rightarrow> unit" where "dummy_interrupt s = s"

definition dummy_pull :: "err_site \<Rightarrow> unit \<Rightarrow> srs_error_t" where
  "dummy_pull at s = srs_error_new at ERROR_THREAD_DUMMY ''dummy pull''"

interpretation dummy: srs_coroutine "\<lambda>_. True" "\<lambda>_ _. True" "\<lambda>_. True" "dummy_pull at" dummy_interrupt for at
  by unfold_locales (simp_all add: dummy_pull_def del: not_None_eq)

end
