(* ===== verification/Srs_App_Hourglass.thy ===== *)
theory Srs_App_Hourglass
  imports Srs_App_Coroutine Srs_Core_Time
begin

section \<open>Timers (core/srs_app_hourglass.cpp)\<close>

text \<open>
  Three timers, each a coroutine that polls its own \<open>pull\<close>, calls handlers and sleeps.
  \<open>std::map<int, srs_utime_t>\<close> is a list of pairs with ascending keys.  While a handler runs
  (and while the timer sleeps) other code may call \<open>tick\<close> and \<open>untick\<close>; a handler is a
  function of the calls made so far that answers its error and the operations performed
  during the call.  Iterators are keys: erasing the element an iterator is at and then advancing
  it is undefined in C++, and a \<open>Bad_access\<close> here, also when the handler inserts the event again.  The loops are partial functions, as a
  handler that adds ever larger events keeps a scan from ending.
\<close>

subsection \<open>Ordered maps\<close>

type_synonym ticks = "(int \<times> int) list"

fun tick_set :: "int \<Rightarrow> int \<Rightarrow> ticks \<Rightarrow> ticks" where
  "tick_set k v [] = [(k, v)]"
| "tick_set k v ((k', v') # ts) = (if k < k' then (k, v) # (k', v') # ts
     else if k = k' then (k, v) # ts else (k', v') # tick_set k v ts)"

definition tick_erase :: "int \<Rightarrow> ticks \<Rightarrow> ticks" where
  "tick_erase k ts = filter (\<lambda>(k', _). k' \<noteq> k) ts"

definition first_key :: "ticks \<Rightarrow> int option" where
  "first_key ts = (case ts of [] \<Rightarrow> None | (k, _) # _ \<Rightarrow> Some k)"

definition next_key :: "int \<Rightarrow> ticks \<Rightarrow> int option" where
  "next_key k ts = first_key (dropWhile (\<lambda>(k', _). k' \<le> k) ts)"

abbreviation ticks_ok :: "ticks \<Rightarrow> bool" where
  "ticks_ok ts \<equiv> sorted_wrt (<) (map fst ts)"

lemma tick_set_keys: "set (map fst (tick_set k v ts)) = insert k (set (map fst ts))"
  by (induction k v ts rule: tick_set.induct) auto

lemma tick_set_ok: "ticks_ok ts \<Longrightarrow> ticks_ok (tick_set k v ts)"
proof (induction k v ts rule: tick_set.induct)
  case (2 k v k' v' ts)
  then show ?case using tick_set_keys [of k v ts] by (auto simp del: set_map)
qed simp

lemma tick_erase_ok: "ticks_ok ts \<Longrightarrow> ticks_ok (tick_erase k ts)"
  by (induction ts) (auto simp: tick_erase_def)

lemma map_of_tick_set: "ticks_ok ts \<Longrightarrow> map_of (tick_set k v ts) = (map_of ts)(k \<mapsto> v)"
  by (induction k v ts rule: tick_set.induct) (auto simp: fun_eq_iff)

lemma map_of_tick_erase: "map_of (tick_erase k ts) = (map_of ts)(k := None)"
  by (induction ts) (auto simp: tick_erase_def fun_eq_iff)

lemma next_key_append:
  "ticks_ok (xs @ (k, v) # ys) \<Longrightarrow> next_key k (xs @ (k, v) # ys) = first_key ys"
  by (induction xs) (auto simp: next_key_def sorted_wrt_append dropWhile_eq_drop split: list.splits,
      cases ys, auto)

subsection \<open>\<open>SrsHourGlass\<close>\<close>

record hourglass =
  hg_label :: string
  hg_trd :: coroutine
  hg_resolution :: int
  hg_ticks :: ticks
  total_elapse :: int

definition SrsHourGlass :: "string \<Rightarrow> int \<Rightarrow> SrsContextId \<Rightarrow> hourglass" where
  "SrsHourGlass label res cid = \<lparr>hg_label = label, hg_trd = SrsFastCoroutine_cid (''timer-'' @ label) cid,
     hg_resolution = res, hg_ticks = [], total_elapse = 0\<rparr>"

definition hg_start :: "err_site \<Rightarrow> bool \<Rightarrow> hourglass \<Rightarrow> srs_error_t \<times> hourglass" where
  "hg_start at created h = (case co_start at created (hg_trd h) of (err, c) \<Rightarrow>
     (if err \<noteq> None then srs_error_wrap at err ''start timer'' else err, h\<lparr>hg_trd := c\<rparr>))"

definition hg_stop :: "err_site \<Rightarrow> hourglass \<Rightarrow> hourglass outcome" where
  "hg_stop at h = rbind (co_stop at (hg_trd h)) (\<lambda>c. Inr (h\<lparr>hg_trd := c\<rparr>))"

definition hg_tick :: "err_site \<Rightarrow> int \<Rightarrow> int \<Rightarrow> hourglass \<Rightarrow> srs_error_t \<times> hourglass" where
  "hg_tick at event interval h =
     (if hg_resolution h > 0 \<and> interval smod hg_resolution h \<noteq> 0 then
        (srs_error_new at ERROR_SYSTEM_HOURGLASS_RESOLUTION
           (''invalid interval='' @ int_str (srsu2msi interval) @ ''ms, resolution='' @
            int_str (srsu2msi (hg_resolution h)) @ ''ms''), h)
      else (None, h\<lparr>hg_ticks := tick_set event interval (hg_ticks h)\<rparr>))"

definition hg_tick0 :: "err_site \<Rightarrow> int \<Rightarrow> hourglass \<Rightarrow> srs_error_t \<times> hourglass" where
  "hg_tick0 at interval h = hg_tick at 0 interval h"

definition hg_untick :: "int \<Rightarrow> hourglass \<Rightarrow> hourglass" where
  "hg_untick event h = h\<lparr>hg_ticks := tick_erase event (hg_ticks h)\<rparr>"

datatype tick_op = Tick int int | Untick int

fun hg_ops :: "err_site \<Rightarrow> tick_op list \<Rightarrow> hourglass \<Rightarrow> hourglass" where
  "hg_ops at [] h = h"
| "hg_ops at (Tick e i # ops) h = hg_ops at ops (snd (hg_tick at e i h))"
| "hg_ops at (Untick e # ops) h = hg_ops at ops (hg_untick e h)"

type_synonym hg_call = "int \<times> int \<times> int"
type_synonym hg_handler = "hg_call list \<Rightarrow> hg_call \<Rightarrow> srs_error_t \<times> tick_op list"

text \<open>The \<open>for\<close> loop over the ticks of one round, from the iterator \<open>it\<close> on.\<close>

partial_function (option) hg_scan ::
  "err_site \<Rightarrow> hg_handler \<Rightarrow> int option \<Rightarrow> hourglass \<Rightarrow> hg_call list \<Rightarrow>
   (srs_error_t \<times> hourglass \<times> hg_call list) outcome option" where
  "hg_scan at notify it h log = (case it of
     None \<Rightarrow> Some (Inr (None, h, log))
   | Some event \<Rightarrow> (case map_of (hg_ticks h) event of
       None \<Rightarrow> Some (Inl Bad_access)
     | Some interval \<Rightarrow>
         if interval = 0 \<or> total_elapse h smod interval = 0 then
           (case notify log (event, interval, total_elapse h) of (err, ops) \<Rightarrow>
            let h = hg_ops at ops h; log = log @ [(event, interval, total_elapse h)] in
            if err \<noteq> None then Some (Inr (srs_error_wrap at err ''notify'', h, log))
            else if Untick event \<in> set ops then Some (Inl Bad_access)
            else hg_scan at notify (next_key event (hg_ticks h)) h log)
         else hg_scan at notify (next_key event (hg_ticks h)) h log))"

text \<open>
  The whole cycle from its \<open>n\<close>-th round on: \<open>co n\<close> is the timer's coroutine as \<open>pull\<close> sees it
  at the head of round \<open>n\<close>, \<open>asleep n\<close> what others do while round \<open>n\<close> sleeps.
\<close>

partial_function (option) hg_cycle ::
  "err_site \<Rightarrow> hg_handler \<Rightarrow> (nat \<Rightarrow> coroutine) \<Rightarrow> (nat \<Rightarrow> tick_op list) \<Rightarrow> nat \<Rightarrow> hourglass \<Rightarrow>
   hg_call list \<Rightarrow> (srs_error_t \<times> hourglass \<times> hg_call list) outcome option" where
  "hg_cycle at notify co asleep n h log =
     (if co_pull (co n) \<noteq> None then Some (Inr (srs_error_wrap at (co_pull (co n)) ''quit'', h, log))
      else (case hg_scan at notify (first_key (hg_ticks h)) h log of
          None \<Rightarrow> None
        | Some (Inl f) \<Rightarrow> Some (Inl f)
        | Some (Inr (err, h, log)) \<Rightarrow>
            if err \<noteq> None then Some (Inr (err, h, log))
            else hg_cycle at notify co asleep (Suc n)
              (hg_ops at (asleep n) (h\<lparr>total_elapse := total_elapse h + hg_resolution h\<rparr>)) log))"

text \<open>The events of \<open>ts\<close> that are due when \<open>te\<close> has elapsed, in the order of the events.\<close>

definition due :: "int \<Rightarrow> ticks \<Rightarrow> hg_call list" where
  "due te ts = map (\<lambda>(e, i). (e, i, te)) (filter (\<lambda>(e, i). i = 0 \<or> i dvd te) ts)"

text \<open>A handler that succeeds and leaves the timer alone.\<close>

definition quiet :: "hg_handler \<Rightarrow> bool" where
  "quiet notify \<longleftrightarrow> (\<forall>log c. notify log c = (None, []))"

lemma map_of_middle: "ticks_ok (xs @ (k, v) # ys) \<Longrightarrow> map_of (xs @ (k, v) # ys) k = Some v"
  by (induction xs) (auto simp: sorted_wrt_append)

lemma hg_scan_quiet:
  assumes "quiet notify"
  shows "ticks_ok (xs @ ys) \<Longrightarrow> hg_ticks h = xs @ ys \<Longrightarrow>
    hg_scan at notify (first_key ys) h log = Some (Inr (None, h, log @ due (total_elapse h) ys))"
proof (induction ys arbitrary: xs log)
  case Nil
  then show ?case by (simp add: hg_scan.simps first_key_def due_def)
next
  case (Cons y ys)
  obtain e i where y: "y = (e, i)" by (cases y)
  have "ticks_ok ((xs @ [y]) @ ys)" "hg_ticks h = (xs @ [y]) @ ys" using Cons.prems by simp_all
  note IH = Cons.IH [OF this]
  have "map_of (hg_ticks h) e = Some i" "next_key e (hg_ticks h) = first_key ys"
    using Cons.prems map_of_middle [of xs e i ys] next_key_append [of xs e i ys] by (simp_all add: y)
  moreover have "notify log c = (None, [])" for log c using assms by (simp only: quiet_def)
  ultimately show ?case
    by (subst hg_scan.simps) (simp add: first_key_def [of "_ # _"] y IH due_def Let_def)
qed

definition schedule :: "int \<Rightarrow> int \<Rightarrow> ticks \<Rightarrow> nat \<Rightarrow> hg_call list" where
  "schedule te res ts n = concat (map (\<lambda>k. due (te + int k * res) ts) [0..<n])"

lemma schedule_Suc: "schedule te res ts (Suc n) = due te ts @ schedule (te + res) res ts n"
proof -
  have "[0..<Suc n] = 0 # map Suc [0..<n]" by (simp add: upt_conv_Cons map_Suc_upt del: upt_Suc)
  then show ?thesis by (simp add: schedule_def o_def algebra_simps del: upt_Suc)
qed

lemma hg_cycle_quiet:
  assumes "quiet notify" "\<And>k. asleep k = []"
  shows "ticks_ok (hg_ticks h) \<Longrightarrow> (\<And>k. m \<le> k \<Longrightarrow> k < m + n \<Longrightarrow> co_pull (co k) = None) \<Longrightarrow> co_pull (co (m + n)) \<noteq> None \<Longrightarrow>
    hg_cycle at notify co asleep m h log = Some (Inr (srs_error_wrap at (co_pull (co (m + n))) ''quit'',
      h\<lparr>total_elapse := total_elapse h + int n * hg_resolution h\<rparr>,
      log @ schedule (total_elapse h) (hg_resolution h) (hg_ticks h) n))"
proof (induction n arbitrary: m h log)
  case 0
  then show ?case by (subst hg_cycle.simps) (simp add: schedule_def del: co_pull_failed)
next
  case (Suc n)
  let ?h = "h\<lparr>total_elapse := total_elapse h + hg_resolution h\<rparr>"
  have p: "co_pull (co m) = None" using Suc.prems(2) [of m] by simp
  have s: "hg_scan at notify (first_key (hg_ticks h)) h log = Some (Inr (None, h, log @ due (total_elapse h) (hg_ticks h)))"
    using hg_scan_quiet [OF assms(1), of "[]" "hg_ticks h" h at log] Suc.prems(1) by simp
  have "hg_cycle at notify co asleep m h log =
      hg_cycle at notify co asleep (Suc m) ?h (log @ due (total_elapse h) (hg_ticks h))"
    by (subst hg_cycle.simps) (simp add: p s assms(2) del: co_pull_failed)
  also have "\<dots> = Some (Inr (srs_error_wrap at (co_pull (co (Suc m + n))) ''quit'',
      ?h\<lparr>total_elapse := total_elapse ?h + int n * hg_resolution ?h\<rparr>,
      (log @ due (total_elapse h) (hg_ticks h)) @ schedule (total_elapse ?h) (hg_resolution ?h) (hg_ticks ?h) n))"
    using Suc.prems by (intro Suc.IH) simp_all
  finally show ?case by (simp add: schedule_Suc algebra_simps)
qed

lemma hg_tick_ok: "ticks_ok (hg_ticks h) \<Longrightarrow> ticks_ok (hg_ticks (snd (hg_tick at e i h)))"
  by (simp add: hg_tick_def tick_set_ok)

lemma hg_ops_ok: "ticks_ok (hg_ticks h) \<Longrightarrow> ticks_ok (hg_ticks (hg_ops at ops h))"
  by (induction at ops h rule: hg_ops.induct) (simp_all add: hg_tick_ok hg_untick_def tick_erase_ok)

subsection \<open>Properties of \<open>SrsHourGlass\<close>\<close>

text \<open>
  \<open>tick\<close> registers an event or changes its interval, and \<open>untick\<close> removes it; the others
  keep theirs.  An interval that is no multiple of a positive resolution is refused with
  \<open>ERROR_SYSTEM_HOURGLASS_RESOLUTION\<close> and changes nothing.
\<close>

theorem hourglass_tick_map:
  assumes "h = hg_ops at ops (SrsHourGlass label res cid)"
  shows "(case hg_tick at e i h of (err, h') \<Rightarrow>
      if hg_resolution h > 0 \<and> \<not> hg_resolution h dvd i
      then srs_error_code err = ERROR_SYSTEM_HOURGLASS_RESOLUTION \<and> h' = h
      else err = None \<and> map_of (hg_ticks h') = (map_of (hg_ticks h))(e \<mapsto> i)) \<and>
    map_of (hg_ticks (hg_untick e h)) = (map_of (hg_ticks h))(e := None)"
proof -
  have "ticks_ok (hg_ticks h)" using hg_ops_ok [of "SrsHourGlass label res cid" at ops]
    by (simp add: assms SrsHourGlass_def)
  then show ?thesis
    by (simp add: hg_tick_def hg_untick_def map_of_tick_set map_of_tick_erase srs_error_new_def srs_error_code_def)
qed

lemma hourglass_tick_map_witness:
  "map_of (hg_ticks (snd (hg_tick main_at 1 300 (SrsHourGlass ''nack'' 100 ctx_none)))) 1 = Some 300"
  using hourglass_tick_map [where h = "SrsHourGlass ''nack'' 100 ctx_none" and ops = "[]" and label = "''nack''"
      and res = 100 and cid = ctx_none and at = main_at and e = 1 and i = 300]
  by (simp add: SrsHourGlass_def split: prod.splits)

text \<open>
  C19: The schedule of the timer: with a handler that succeeds, over \<open>n\<close> rounds (until \<open>pull\<close>
  tells to quit) the handler is called in round \<open>k\<close>, when \<open>k\<close> resolutions have elapsed,
  for exactly the events whose interval divides the elapsed time, in the order of the events;
  so an event of \<open>m\<close> resolutions fires in every \<open>m\<close>-th round, the very first included.  (The
  header's example has no calls at time 0.)
\<close>

theorem hourglass_schedule:
  assumes "quiet notify" "\<And>k. asleep k = []" "h = hg_ops at ops (SrsHourGlass label res cid)"
    and "\<And>k. k < n \<Longrightarrow> co_pull (co k) = None" "co_pull (co n) \<noteq> None"
  shows "\<exists>h' log. hg_cycle at notify co asleep 0 h [] =
      Some (Inr (srs_error_wrap at (co_pull (co n)) ''quit'', h', log)) \<and>
    log = concat (map (\<lambda>k. map (\<lambda>(e, i). (e, i, int k * hg_resolution h))
      (filter (\<lambda>(e, i). i = 0 \<or> i dvd int k * hg_resolution h) (hg_ticks h))) [0..<n]) \<and>
    (\<forall>e m k. map_of (hg_ticks h) e = Some (int m * hg_resolution h) \<and> k < n \<and> 0 < hg_resolution h \<and> 0 < m \<longrightarrow>
      ((e, int m * hg_resolution h, int k * hg_resolution h) \<in> set log \<longleftrightarrow> m dvd k))"
proof -
  have ok: "ticks_ok (hg_ticks h)" using hg_ops_ok [of "SrsHourGlass label res cid" at ops]
    by (simp add: assms(3) SrsHourGlass_def)
  have "total_elapse (hg_ops at ops h) = total_elapse h" for h
    by (induction at ops h rule: hg_ops.induct) (simp_all add: hg_tick_def hg_untick_def)
  then have te: "total_elapse h = 0" by (simp add: assms(3) SrsHourGlass_def)
  let ?log = "schedule 0 (hg_resolution h) (hg_ticks h) n"
  have cyc: "hg_cycle at notify co asleep 0 h [] = Some (Inr (srs_error_wrap at (co_pull (co n)) ''quit'',
      h\<lparr>total_elapse := int n * hg_resolution h\<rparr>, ?log))"
    using hg_cycle_quiet [OF assms(1,2) ok, where m = 0 and n = n and co = co and at = at and log = "[]"] assms(4,5) te by simp
  have "(e, int m * hg_resolution h, int k * hg_resolution h) \<in> set ?log \<longleftrightarrow> m dvd k"
    if "map_of (hg_ticks h) e = Some (int m * hg_resolution h)" "k < n" "0 < hg_resolution h" "0 < m" for e m k
  proof -
    have "(e, int m * hg_resolution h) \<in> set (hg_ticks h)" using that(1) by (rule map_of_SomeD)
    then show ?thesis using that(2-4) by (force simp: schedule_def due_def)
  qed
  then show ?thesis using cyc by (auto simp: schedule_def due_def)
qed

lemma hourglass_schedule_witness:
  "\<exists>h' log. hg_cycle main_at (\<lambda>_ _. (None, [])) (\<lambda>k. if k < 5 then running_co else co_interrupt main_at running_co) (\<lambda>_. []) 0
     (hg_ops main_at [Tick 1 200, Tick 2 300] (SrsHourGlass ''t'' 100 ctx_none)) [] = Some (Inr (
       srs_error_wrap main_at (co_pull (co_interrupt main_at running_co)) ''quit'', h', log)) \<and>
     log = [(1, 200, 0), (2, 300, 0), (1, 200, 200), (2, 300, 300), (1, 200, 400)]"
proof -
  let ?co = "\<lambda>k :: nat. if k < 5 then running_co else co_interrupt main_at running_co"
  let ?h = "hg_ops main_at [Tick 1 200, Tick 2 300] (SrsHourGlass ''t'' 100 ctx_none)"
  have f: "failed running_co = False" "started running_co" "interrupted running_co = False" "cycle_done running_co = False"
    by (simp_all add: running_co_def)
  have h: "hg_ticks ?h = [(1, 200), (2, 300)]" "hg_resolution ?h = 100"
    by (simp_all add: hg_tick_def SrsHourGlass_def signed_modulo_int_def)
  have u: "[0..<5] = [0, 1, 2, 3, 4 :: nat]" by (simp add: upt_rec)
  have "quiet (\<lambda>_ _. (None, []))" by (simp add: quiet_def)
  from hourglass_schedule [OF this, of "\<lambda>_. []" ?h main_at "[Tick 1 200, Tick 2 300]" "''t''" 100 ctx_none 5 ?co]
  show ?thesis by (simp add: f h [simplified] u)
qed

text \<open>
  C20: A timer stops: if its coroutine is interrupted while round \<open>m\<close> sleeps (which is what
  \<open>stop\<close> does), the cycle returns with the error from \<open>pull\<close> after at most \<open>m + 1\<close> rounds,
  and \<open>stop\<close> can join it.
\<close>

theorem hourglass_stops:
  assumes "quiet notify" "\<And>k. asleep k = []" "ticks_ok (hg_ticks h)"
    and "co_reachable (co 0)" "\<And>k. co_steps (co k) (co (Suc k))"
    and "trd (co m) = Some Running" "co (Suc m) = co_interrupt at (co m)"
  shows "\<exists>n h' log. n \<le> Suc m \<and> co_pull (co n) \<noteq> None \<and> hg_cycle at notify co asleep 0 h [] =
    Some (Inr (srs_error_wrap at (co_pull (co n)) ''quit'', h', log))"
proof -
  have rounds: "srs_coroutine.rounds co_inv co_steps co"
    using assms(4,5) co_reachable_inv by (simp add: fast.rounds_def)
  have ends: "co_pull (co (Suc m)) \<noteq> None"
    by (rule fast.interrupt_ends_rounds [OF rounds _ assms(7)]) (simp_all add: assms(6))
  define n where "n = (LEAST n. co_pull (co n) \<noteq> None)"
  have n: "n \<le> Suc m" "co_pull (co n) \<noteq> None" "\<And>k. k < n \<Longrightarrow> co_pull (co k) = None"
    unfolding n_def by (rule Least_le, fact, rule LeastI, fact, use not_less_Least in blast)
  have "hg_cycle at notify co asleep 0 h [] = Some (Inr (srs_error_wrap at (co_pull (co n)) ''quit'',
      h\<lparr>total_elapse := total_elapse h + int n * hg_resolution h\<rparr>,
      schedule (total_elapse h) (hg_resolution h) (hg_ticks h) n))"
    using hg_cycle_quiet [OF assms(1-3), where m = 0 and n = n and co = co and at = at and log = "[]"] n(2,3)
    by simp
  then show ?thesis using n(1,2) by blast
qed

definition stopped_in_round_0 :: "err_site \<Rightarrow> nat \<Rightarrow> coroutine" where
  "stopped_in_round_0 at k = (if k = 0 then running_co else co_interrupt at running_co)"

lemma stopped_in_round_0_others: "co_steps (stopped_in_round_0 at k) (stopped_in_round_0 at (Suc k))"
  by (simp add: stopped_in_round_0_def co_steps_interrupt co_steps_refl)

lemma hourglass_stops_witness:
  "\<exists>n h' log. n \<le> Suc 0 \<and> co_pull (stopped_in_round_0 main_at n) \<noteq> None \<and>
     hg_cycle main_at (\<lambda>_ _. (None, [])) (stopped_in_round_0 main_at) (\<lambda>_. []) 0
     (snd (hg_tick main_at 1 200 (SrsHourGlass ''t'' 100 ctx_none))) [] = Some (Inr (
       srs_error_wrap main_at (co_pull (stopped_in_round_0 main_at n)) ''quit'', h', log))"
proof (rule hourglass_stops)
  show "ticks_ok (hg_ticks (snd (hg_tick main_at 1 200 (SrsHourGlass ''t'' 100 ctx_none))))"
    by (intro hg_tick_ok) (simp add: SrsHourGlass_def)
  show "co_reachable (stopped_in_round_0 main_at 0)" "trd (stopped_in_round_0 main_at 0) = Some Running"
    "stopped_in_round_0 main_at (Suc 0) = co_interrupt main_at (stopped_in_round_0 main_at 0)"
    using running_co_reachable by (simp_all add: stopped_in_round_0_def running_co_def)
qed (simp_all add: quiet_def stopped_in_round_0_others)

subsection \<open>\<open>SrsDynamicTimer\<close>\<close>

record dynamic_timer =
  dt_label :: string
  dt_trd :: coroutine
  dt_resolution :: int
  dt_ticks :: ticks

definition SrsDynamicTimer :: "string \<Rightarrow> int \<Rightarrow> SrsContextId \<Rightarrow> dynamic_timer" where
  "SrsDynamicTimer label res cid = \<lparr>dt_label = label, dt_trd = SrsFastCoroutine_cid (''timer-'' @ label) cid,
     dt_resolution = res, dt_ticks = []\<rparr>"

definition dt_start :: "err_site \<Rightarrow> bool \<Rightarrow> dynamic_timer \<Rightarrow> srs_error_t \<times> dynamic_timer" where
  "dt_start at created d = (case co_start at created (dt_trd d) of (err, c) \<Rightarrow>
     (if err \<noteq> None then srs_error_wrap at err ''start timer'' else err, d\<lparr>dt_trd := c\<rparr>))"

definition dt_stop :: "err_site \<Rightarrow> dynamic_timer \<Rightarrow> dynamic_timer outcome" where
  "dt_stop at d = rbind (co_stop at (dt_trd d)) (\<lambda>c. Inr (d\<lparr>dt_trd := c\<rparr>))"

definition dt_tick :: "int \<Rightarrow> int \<Rightarrow> dynamic_timer \<Rightarrow> dynamic_timer" where
  "dt_tick event expired_time d = d\<lparr>dt_ticks := tick_set event expired_time (dt_ticks d)\<rparr>"

definition dt_untick :: "int \<Rightarrow> dynamic_timer \<Rightarrow> dynamic_timer" where
  "dt_untick event d = d\<lparr>dt_ticks := tick_erase event (dt_ticks d)\<rparr>"

fun dt_ops :: "tick_op list \<Rightarrow> dynamic_timer \<Rightarrow> dynamic_timer" where
  "dt_ops [] d = d"
| "dt_ops (Tick e t # ops) d = dt_ops ops (dt_tick e t d)"
| "dt_ops (Untick e # ops) d = dt_ops ops (dt_untick e d)"

type_synonym dt_call = "int \<times> int"
type_synonym dt_handler = "dt_call list \<Rightarrow> dt_call \<Rightarrow> srs_error_t \<times> tick_op list"

partial_function (option) dt_scan ::
  "err_site \<Rightarrow> dt_handler \<Rightarrow> int \<Rightarrow> int option \<Rightarrow> dynamic_timer \<Rightarrow> dt_call list \<Rightarrow>
   (srs_error_t \<times> dynamic_timer \<times> dt_call list) outcome option" where
  "dt_scan at notify now_time it d log = (case it of
     None \<Rightarrow> Some (Inr (None, d, log))
   | Some event \<Rightarrow> (case map_of (dt_ticks d) event of
       None \<Rightarrow> Some (Inl Bad_access)
     | Some expired_time \<Rightarrow>
         if expired_time > 0 \<and> now_time \<ge> expired_time then
           (let d = d\<lparr>dt_ticks := tick_set event (- 1) (dt_ticks d)\<rparr> in
            case notify log (event, now_time) of (err, ops) \<Rightarrow>
            let d = dt_ops ops d; log = log @ [(event, now_time)] in
            if err \<noteq> None then Some (Inr (srs_error_wrap at err ''notify'', d, log))
            else if Untick event \<in> set ops then Some (Inl Bad_access)
            else dt_scan at notify now_time (next_key event (dt_ticks d)) d log)
         else dt_scan at notify now_time (next_key event (dt_ticks d)) d log))"

text \<open>\<open>now n\<close> is what \<open>srs_update_system_time\<close> answers in round \<open>n\<close>.\<close>

partial_function (option) dt_cycle ::
  "err_site \<Rightarrow> dt_handler \<Rightarrow> (nat \<Rightarrow> coroutine) \<Rightarrow> (nat \<Rightarrow> int) \<Rightarrow> (nat \<Rightarrow> tick_op list) \<Rightarrow> nat \<Rightarrow> dynamic_timer \<Rightarrow>
   dt_call list \<Rightarrow> (srs_error_t \<times> dynamic_timer \<times> dt_call list) outcome option" where
  "dt_cycle at notify co now asleep n d log =
     (if co_pull (co n) \<noteq> None then Some (Inr (srs_error_wrap at (co_pull (co n)) ''quit'', d, log))
      else (case dt_scan at notify (now n) (first_key (dt_ticks d)) d log of
          None \<Rightarrow> None
        | Some (Inl f) \<Rightarrow> Some (Inl f)
        | Some (Inr (err, d, log)) \<Rightarrow>
            if err \<noteq> None then Some (Inr (err, d, log))
            else dt_cycle at notify co now asleep (Suc n) (dt_ops (asleep n) d) log))"

definition expired :: "int \<Rightarrow> int \<Rightarrow> bool" where
  "expired now_time t \<longleftrightarrow> t > 0 \<and> now_time \<ge> t"

definition dt_due :: "int \<Rightarrow> ticks \<Rightarrow> dt_call list" where
  "dt_due now_time ts = map (\<lambda>(e, _). (e, now_time)) (filter (\<lambda>(_, t). expired now_time t) ts)"

definition dt_expire :: "int \<Rightarrow> ticks \<Rightarrow> ticks" where
  "dt_expire now_time ts = map (\<lambda>(e, t). (e, if expired now_time t then - 1 else t)) ts"

definition dt_quiet :: "dt_handler \<Rightarrow> bool" where
  "dt_quiet notify \<longleftrightarrow> (\<forall>log c. notify log c = (None, []))"

lemma tick_set_middle: "ticks_ok (xs @ (k, w) # ys) \<Longrightarrow> tick_set k v (xs @ (k, w) # ys) = xs @ (k, v) # ys"
  by (induction xs) (auto simp: sorted_wrt_append)

lemma ticks_ok_middle: "ticks_ok (xs @ (k, w) # ys) \<longleftrightarrow> ticks_ok (xs @ (k, v) # ys)"
  by simp

lemma dt_scan_quiet:
  assumes "dt_quiet notify"
  shows "ticks_ok (xs @ ys) \<Longrightarrow> dt_ticks d = xs @ ys \<Longrightarrow> dt_scan at notify now_time (first_key ys) d log =
    Some (Inr (None, d\<lparr>dt_ticks := xs @ dt_expire now_time ys\<rparr>, log @ dt_due now_time ys))"
proof (induction ys arbitrary: xs d log)
  case Nil
  then show ?case by (cases d) (simp add: dt_scan.simps first_key_def dt_due_def dt_expire_def)
next
  case (Cons y ys)
  obtain e t where y: "y = (e, t)" by (cases y)
  let ?t = "if expired now_time t then - 1 else t"
  let ?d = "d\<lparr>dt_ticks := (xs @ [(e, ?t)]) @ ys\<rparr>"
  have ok: "ticks_ok (xs @ (e, t) # ys)" and d: "dt_ticks d = xs @ (e, t) # ys" using Cons.prems by (simp_all add: y)
  have ok': "ticks_ok (xs @ (e, ?t) # ys)" using ok by simp
  have IH: "dt_scan at notify now_time (first_key ys) ?d log' =
      Some (Inr (None, ?d\<lparr>dt_ticks := (xs @ [(e, ?t)]) @ dt_expire now_time ys\<rparr>, log' @ dt_due now_time ys))" for log'
    by (rule Cons.IH) (use ok' in simp_all)
  have q: "notify log c = (None, [])" for log c using assms by (simp only: dt_quiet_def)
  note keys = next_key_append [OF ok] next_key_append [OF ok'] map_of_middle [OF ok] map_of_middle [OF ok']
  show ?case
  proof (cases "expired now_time t")
    case True
    then show ?thesis
      using IH [of "log @ [(e, now_time)]"] keys tick_set_middle [OF ok, of "- 1"]
      by (subst dt_scan.simps)
         (simp add: first_key_def [of "_ # _"] y d q dt_due_def dt_expire_def Let_def expired_def)
  next
    case False
    then have same: "?d = d" using d by simp
    have f: "(0 < t \<and> t \<le> now_time) = False" using False by (simp add: expired_def)
    show ?thesis
      using IH [of log, unfolded same] keys
      by (subst dt_scan.simps)
         (simp add: first_key_def [of "_ # _"] y d dt_due_def dt_expire_def Let_def expired_def f)
  qed
qed

lemma dt_due_event:
  "ticks_ok ts \<Longrightarrow> filter (\<lambda>c. fst c = e) (dt_due now_time ts) =
   (case map_of ts e of Some t \<Rightarrow> if expired now_time t then [(e, now_time)] else [] | None \<Rightarrow> [])"
proof (induction ts)
  case (Cons y ts)
  have "map_of ts (fst y) = None" using Cons.prems by (auto simp: map_of_eq_None_iff)
  with Cons show ?case by (cases y) (auto simp: dt_due_def split: option.splits)
qed (simp add: dt_due_def)

lemma map_of_dt_expire:
  "map_of (dt_expire now_time ts) e = map_option (\<lambda>t. if expired now_time t then - 1 else t) (map_of ts e)"
  by (induction ts) (auto simp: dt_expire_def)

lemma dt_expire_ok: "ticks_ok (dt_expire now_time ts) = ticks_ok ts"
proof -
  have "map fst (dt_expire now_time ts) = map fst ts" by (simp add: dt_expire_def case_prod_beta)
  then show ?thesis by simp
qed

text \<open>The call that an event with expiry \<open>t\<close> gets in the rounds from \<open>m\<close> on, if any.\<close>

definition first_fire :: "(nat \<Rightarrow> int) \<Rightarrow> nat list \<Rightarrow> int \<Rightarrow> int option" where
  "first_fire now rs t = map_option now (find (\<lambda>k. expired (now k) t) rs)"

lemma first_fire_Cons [simp]:
  "first_fire now (k # ks) t = (if expired (now k) t then Some (now k) else first_fire now ks t)"
  by (simp add: first_fire_def)

definition fires :: "int \<Rightarrow> int option \<Rightarrow> dt_call list" where
  "fires e v = (case v of None \<Rightarrow> [] | Some n \<Rightarrow> [(e, n)])"

lemma dt_cycle_quiet:
  assumes "dt_quiet notify" "\<And>k. asleep k = []"
  shows "ticks_ok (dt_ticks d) \<Longrightarrow> (\<And>k. m \<le> k \<Longrightarrow> k < m + n \<Longrightarrow> co_pull (co k) = None) \<Longrightarrow> co_pull (co (m + n)) \<noteq> None \<Longrightarrow>
    \<exists>d' new. dt_cycle at notify co now asleep m d log = Some (Inr (srs_error_wrap at (co_pull (co (m + n))) ''quit'', d', log @ new)) \<and>
      (\<forall>e. filter (\<lambda>c. fst c = e) new = (case map_of (dt_ticks d) e of None \<Rightarrow> []
         | Some t \<Rightarrow> fires e (first_fire now [m..<m + n] t)))"
proof (induction n arbitrary: m d log)
  case 0
  then show ?case
    by (subst dt_cycle.simps) (simp add: first_fire_def fires_def del: co_pull_failed split: option.splits)
next
  case (Suc n)
  let ?d = "d\<lparr>dt_ticks := dt_expire (now m) (dt_ticks d)\<rparr>" and ?due = "dt_due (now m) (dt_ticks d)"
  have p: "co_pull (co m) = None" using Suc.prems(2) [of m] by simp
  have s: "dt_scan at notify (now m) (first_key (dt_ticks d)) d log = Some (Inr (None, ?d, log @ ?due))"
    using dt_scan_quiet [OF assms(1), of "[]" "dt_ticks d" d at "now m" log] Suc.prems(1) by simp
  obtain d' new where IH: "dt_cycle at notify co now asleep (Suc m) ?d (log @ ?due) =
      Some (Inr (srs_error_wrap at (co_pull (co (Suc m + n))) ''quit'', d', (log @ ?due) @ new))"
    "\<And>e. filter (\<lambda>c. fst c = e) new = (case map_of (dt_ticks ?d) e of None \<Rightarrow> []
         | Some t \<Rightarrow> fires e (first_fire now [Suc m..<Suc m + n] t))"
    using Suc.IH [of ?d "Suc m" "log @ ?due"] Suc.prems by (auto simp: dt_expire_ok)
  have "dt_cycle at notify co now asleep m d log =
      Some (Inr (srs_error_wrap at (co_pull (co (m + Suc n))) ''quit'', d', log @ (?due @ new)))"
    by (subst dt_cycle.simps) (use IH(1) in \<open>simp add: p s assms(2) del: co_pull_failed\<close>)
  moreover have "filter (\<lambda>c. fst c = e) (?due @ new) = (case map_of (dt_ticks d) e of None \<Rightarrow> []
         | Some t \<Rightarrow> fires e (first_fire now [m..<m + Suc n] t))" for e
  proof -
    have u: "[m..<m + Suc n] = m # [Suc m..<Suc m + n]" by (simp add: upt_conv_Cons)
    have never: "first_fire now rs (- 1) = None" for rs
      by (simp add: first_fire_def expired_def find_None_iff)
    show ?thesis
      using Suc.prems(1) unfolding u
      by (auto simp: IH(2) dt_due_event map_of_dt_expire never fires_def split: option.splits)
  qed
  ultimately show ?case by blast
qed

lemma dt_ops_ok: "ticks_ok (dt_ticks d) \<Longrightarrow> ticks_ok (dt_ticks (dt_ops ops d))"
  by (induction ops d rule: dt_ops.induct) (simp_all add: dt_tick_def dt_untick_def tick_set_ok tick_erase_ok)

text \<open>
  C21: An event of the dynamic timer fires exactly once: in the first round whose time has
  reached a positive expiry, with that round's time, and never again until it is ticked again;
  an event with expiry 0 or less does not fire.  This holds for any readings of the clock, also
  if it goes back, and any number of rounds and events.
\<close>

theorem dynamic_timer_fires_once:
  assumes "dt_quiet notify" "\<And>k. asleep k = []" "d = dt_ops ops (SrsDynamicTimer label res cid)"
    and "\<And>k. k < n \<Longrightarrow> co_pull (co k) = None" "co_pull (co n) \<noteq> None"
  shows "\<exists>d' log. dt_cycle at notify co now asleep 0 d [] =
      Some (Inr (srs_error_wrap at (co_pull (co n)) ''quit'', d', log)) \<and>
    (\<forall>e. filter (\<lambda>c. fst c = e) log = (case map_of (dt_ticks d) e of
       None \<Rightarrow> []
     | Some t \<Rightarrow> (case find (\<lambda>k. 0 < t \<and> t \<le> now k) [0..<n] of None \<Rightarrow> [] | Some k \<Rightarrow> [(e, now k)])))"
proof -
  have ok: "ticks_ok (dt_ticks d)" using dt_ops_ok [of "SrsDynamicTimer label res cid" ops]
    by (simp add: assms(3) SrsDynamicTimer_def)
  have f: "fires e (first_fire now [0..<n] t) =
      (case find (\<lambda>k. 0 < t \<and> t \<le> now k) [0..<n] of None \<Rightarrow> [] | Some k \<Rightarrow> [(e, now k)])" for e t
    by (simp add: fires_def first_fire_def expired_def split: option.splits)
  obtain d' new where r: "dt_cycle at notify co now asleep 0 d [] =
      Some (Inr (srs_error_wrap at (co_pull (co (0 + n))) ''quit'', d', [] @ new))"
    "\<forall>e. filter (\<lambda>c. fst c = e) new = (case map_of (dt_ticks d) e of None \<Rightarrow> []
         | Some t \<Rightarrow> fires e (first_fire now [0..<0 + n] t))"
    using dt_cycle_quiet [OF assms(1), where asleep = asleep and d = d and m = 0 and n = n and co = co and at = at
      and now = now and log = "[]"] assms(2,4,5) ok by auto
  show ?thesis using r unfolding add_0 append_Nil f by blast
qed

lemma dynamic_timer_fires_once_witness:
  "\<exists>d' log. dt_cycle main_at (\<lambda>_ _. (None, [])) (\<lambda>k. if k < 3 then running_co else co_interrupt main_at running_co)
     (\<lambda>k. 100 * int k) (\<lambda>_. []) 0 (dt_ops [Tick 7 50] (SrsDynamicTimer ''t'' 20 ctx_none)) [] =
     Some (Inr (srs_error_wrap main_at (co_pull (co_interrupt main_at running_co)) ''quit'', d', log)) \<and>
     filter (\<lambda>c. fst c = 7) log = [(7, 100)]"
proof -
  let ?co = "\<lambda>k :: nat. if k < 3 then running_co else co_interrupt main_at running_co"
  let ?d = "dt_ops [Tick 7 50] (SrsDynamicTimer ''t'' 20 ctx_none)"
  have f: "failed running_co = False" "started running_co" "interrupted running_co = False" "cycle_done running_co = False"
    by (simp_all add: running_co_def)
  have "dt_quiet (\<lambda>_ _. (None, []))" by (simp add: dt_quiet_def)
  from dynamic_timer_fires_once [OF this, where asleep = "\<lambda>_. []" and d = ?d and ops = "[Tick 7 50]" and label = "''t''" and res = 20
      and cid = ctx_none and n = 3 and co = ?co and at = main_at and now = "\<lambda>k. 100 * int k"]
  obtain d' log where "dt_cycle main_at (\<lambda>_ _. (None, [])) ?co (\<lambda>k. 100 * int k) (\<lambda>_. []) 0 ?d [] =
      Some (Inr (srs_error_wrap main_at (co_pull (?co 3)) ''quit'', d', log))"
    "filter (\<lambda>c. fst c = 7) log = [(7, 100)]"
    by (auto simp: f upt_rec dt_tick_def SrsDynamicTimer_def)
  then show ?thesis by auto
qed

subsection \<open>\<open>SrsFastTimer\<close>\<close>

text \<open>Handlers are pointers, modelled as numbers; errors of \<open>on_timer\<close> are ignored.\<close>

record fast_timer =
  ft_trd :: coroutine
  ft_interval :: int
  ft_handlers :: "nat list"

definition SrsFastTimer :: "string \<Rightarrow> int \<Rightarrow> SrsContextId \<Rightarrow> fast_timer" where
  "SrsFastTimer label interval cid =
     \<lparr>ft_trd = SrsFastCoroutine_cid label cid, ft_interval = interval, ft_handlers = []\<rparr>"

definition ft_start :: "err_site \<Rightarrow> bool \<Rightarrow> fast_timer \<Rightarrow> srs_error_t \<times> fast_timer" where
  "ft_start at created f = (case co_start at created (ft_trd f) of (err, c) \<Rightarrow>
     (if err \<noteq> None then srs_error_wrap at err ''start timer'' else err, f\<lparr>ft_trd := c\<rparr>))"

definition ft_set_stack_size :: "int \<Rightarrow> fast_timer \<Rightarrow> fast_timer" where
  "ft_set_stack_size sz f = f\<lparr>ft_trd := set_stack_size sz (ft_trd f)\<rparr>"

definition ft_subscribe :: "nat \<Rightarrow> fast_timer \<Rightarrow> fast_timer" where
  "ft_subscribe t f =
     (if t \<notin> set (ft_handlers f) then f\<lparr>ft_handlers := ft_handlers f @ [t]\<rparr> else f)"

definition ft_unsubscribe :: "nat \<Rightarrow> fast_timer \<Rightarrow> fast_timer" where
  "ft_unsubscribe t f = f\<lparr>ft_handlers := remove1 t (ft_handlers f)\<rparr>"

datatype ft_op = Subscribe nat | Unsubscribe nat

fun ft_ops :: "ft_op list \<Rightarrow> fast_timer \<Rightarrow> fast_timer" where
  "ft_ops [] f = f"
| "ft_ops (Subscribe t # ops) f = ft_ops ops (ft_subscribe t f)"
| "ft_ops (Unsubscribe t # ops) f = ft_ops ops (ft_unsubscribe t f)"

type_synonym ft_handler = "nat list \<Rightarrow> nat \<Rightarrow> srs_error_t \<times> ft_op list"

partial_function (option) ft_scan ::
  "ft_handler \<Rightarrow> nat \<Rightarrow> fast_timer \<Rightarrow> nat list \<Rightarrow> (fast_timer \<times> nat list) option" where
  "ft_scan on_timer i f log =
     (if i < length (ft_handlers f) then
        let timer = ft_handlers f ! i in
        (case on_timer log timer of (err, ops) \<Rightarrow>
          ft_scan on_timer (Suc i) (ft_ops ops f) (log @ [timer]))
      else Some (f, log))"

partial_function (option) ft_cycle ::
  "err_site \<Rightarrow> ft_handler \<Rightarrow> (nat \<Rightarrow> coroutine) \<Rightarrow> (nat \<Rightarrow> ft_op list) \<Rightarrow> nat \<Rightarrow> fast_timer \<Rightarrow> nat list \<Rightarrow>
   (srs_error_t \<times> fast_timer \<times> nat list) option" where
  "ft_cycle at on_timer co asleep n f log =
     (if co_pull (co n) \<noteq> None then Some (srs_error_wrap at (co_pull (co n)) ''quit'', f, log)
      else (case ft_scan on_timer 0 f log of
          None \<Rightarrow> None
        | Some (f, log) \<Rightarrow> ft_cycle at on_timer co asleep (Suc n) (ft_ops (asleep n) f) log))"

lemma ft_ops_distinct: "distinct (ft_handlers f) \<Longrightarrow> distinct (ft_handlers (ft_ops ops f))"
  by (induction ops f rule: ft_ops.induct) (simp_all add: ft_subscribe_def ft_unsubscribe_def)

lemma ft_scan_step:
  "i < length (ft_handlers f) \<Longrightarrow> ft_scan on_timer i f log =
   ft_scan on_timer (Suc i) (ft_ops (snd (on_timer log (ft_handlers f ! i))) f) (log @ [ft_handlers f ! i])"
  by (subst ft_scan.simps) (simp add: Let_def split: prod.splits)

lemma ft_scan_quiet:
  assumes "\<And>log t. t \<in> set ys \<Longrightarrow> snd (on_timer log t) = []"
  shows "ft_handlers f = xs @ ys \<Longrightarrow> ft_scan on_timer (length xs) f log = Some (f, log @ ys)"
  using assms
proof (induction ys arbitrary: xs log)
  case (Cons y ys)
  have "ft_scan on_timer (length (xs @ [y])) f (log @ [y]) = Some (f, (log @ [y]) @ ys)"
    using Cons.prems by (intro Cons.IH) auto
  then show ?case
    using Cons.prems by (simp add: ft_scan_step)
qed (simp add: ft_scan.simps)

lemma ft_scan_prefix:
  assumes "\<And>log t. t \<in> set xs \<Longrightarrow> snd (on_timer log t) = []"
  shows "ft_handlers f = us @ xs @ ys \<Longrightarrow>
    ft_scan on_timer (length us) f log = ft_scan on_timer (length (us @ xs)) f (log @ xs)"
  using assms
proof (induction xs arbitrary: us log)
  case (Cons x xs)
  have "ft_scan on_timer (length (us @ [x])) f (log @ [x]) = ft_scan on_timer (length ((us @ [x]) @ xs)) f ((log @ [x]) @ xs)"
    using Cons.prems by (intro Cons.IH) auto
  then show ?case
    using Cons.prems by (simp add: ft_scan_step)
qed simp

text \<open>
  Every object that is subscribed to the fast timer is called once in each round, in the
  order of subscription: subscribing twice has no effect, an unsubscribed object is not
  called, whatever the sequence of operations before the round.
\<close>

theorem fast_timer_round:
  assumes "\<And>log t. snd (on_timer log t) = []" "f = ft_ops ops (SrsFastTimer label interval cid)"
  shows "distinct (ft_handlers f) \<and> ft_scan on_timer 0 f log = Some (f, log @ ft_handlers f) \<and>
    ft_handlers (ft_subscribe t (ft_subscribe t f)) = ft_handlers (ft_subscribe t f) \<and>
    t \<in> set (ft_handlers (ft_subscribe t f)) \<and> t \<notin> set (ft_handlers (ft_unsubscribe t f)) \<and>
    set (ft_handlers (ft_unsubscribe t f)) = set (ft_handlers f) - {t}"
proof -
  have "distinct (ft_handlers f)"
    using ft_ops_distinct [of "SrsFastTimer label interval cid" ops] by (simp add: assms(2) SrsFastTimer_def)
  then show ?thesis
    using ft_scan_quiet [of "ft_handlers f" on_timer f "[]" log] assms(1)
    by (simp add: ft_subscribe_def ft_unsubscribe_def)
qed

lemma fast_timer_round_witness:
  "ft_scan (\<lambda>_ _. (None, [])) 0 (ft_ops [Subscribe 4, Subscribe 9, Subscribe 4] (SrsFastTimer ''t'' 20 ctx_none)) [] =
     Some (ft_ops [Subscribe 4, Subscribe 9, Subscribe 4] (SrsFastTimer ''t'' 20 ctx_none), [4, 9])"
  using fast_timer_round [of "\<lambda>_ _. (None, [])"
      "ft_ops [Subscribe 4, Subscribe 9, Subscribe 4] (SrsFastTimer ''t'' 20 ctx_none)"
      "[Subscribe 4, Subscribe 9, Subscribe 4]" "''t''" 20 ctx_none "[]"]
  by (simp add: ft_subscribe_def SrsFastTimer_def)

text \<open>
  An object that unsubscribes itself in its own \<open>on_timer\<close> makes the timer skip the
  object subscribed after it for that round: the vector closes the gap while the index of the
  loop advances.
\<close>

theorem fast_timer_skips_after_unsubscribe:
  assumes "ft_handlers f = xs @ a # b # ys" "distinct (ft_handlers f)"
    and "\<And>log t. t \<noteq> a \<Longrightarrow> snd (on_timer log t) = []" "\<And>log. snd (on_timer log a) = [Unsubscribe a]"
  shows "ft_scan on_timer 0 f log = Some (ft_unsubscribe a f, log @ xs @ a # ys)"
proof -
  have xs: "t \<in> set xs \<Longrightarrow> snd (on_timer log t) = []" for log t
    using assms(2) assms(3) [of t] by (cases "t = a") (simp_all add: assms(1))
  have ys: "t \<in> set ys \<Longrightarrow> snd (on_timer log t) = []" for log t
    using assms(2) assms(3) [of t] by (cases "t = a") (simp_all add: assms(1))
  have h: "ft_handlers (ft_unsubscribe a f) = (xs @ [b]) @ ys"
    using assms(2) by (simp add: ft_unsubscribe_def assms(1) remove1_append)
  have "ft_scan on_timer 0 f log = ft_scan on_timer (length xs) f (log @ xs)"
    using ft_scan_prefix [where us = "[]" and xs = xs and ys = "a # b # ys" and f = f and log = log] xs assms(1) by simp
  also have "\<dots> = ft_scan on_timer (Suc (length xs)) (ft_unsubscribe a f) (log @ xs @ [a])"
    using assms(4) [of "log @ xs"] by (simp add: ft_scan_step assms(1))
  also have "\<dots> = Some (ft_unsubscribe a f, (log @ xs @ [a]) @ ys)"
    using ft_scan_quiet [OF ys h, where log = "log @ xs @ [a]"] by simp
  finally show ?thesis by simp
qed

lemma fast_timer_skips_after_unsubscribe_witness:
  "ft_scan (\<lambda>_ t. (None, if t = 4 then [Unsubscribe 4] else [])) 0
     (ft_ops [Subscribe 4, Subscribe 9] (SrsFastTimer ''t'' 20 ctx_none)) [] =
   Some (ft_unsubscribe 4 (ft_ops [Subscribe 4, Subscribe 9] (SrsFastTimer ''t'' 20 ctx_none)), [4])"
  using fast_timer_skips_after_unsubscribe [of "ft_ops [Subscribe 4, Subscribe 9] (SrsFastTimer ''t'' 20 ctx_none)"
      "[]" 4 9 "[]" "\<lambda>_ t. (None, if t = 4 then [Unsubscribe 4] else [])" "[]"]
  by (simp add: ft_subscribe_def SrsFastTimer_def)

end
