(* ===== verification/Srs_Service_Net.thy ===== *)
theory Srs_Service_Net
  imports Srs_Kernel_Error Srs_Core_Time
begin

unbundle bit_operations_syntax

section \<open>Descriptors, connecting and listening (core/srs_service_st.cpp)\<close>

text \<open>
  The process has a table of descriptors (what was set on each socket) and the descriptor
  objects of state-threads (\<open>srs_netfd_t\<close>, an address, each for one descriptor).  Every call of
  the operating system or of state-threads has the effect on these tables that its manual
  describes; whether it succeeds, and the number or address it returns, is taken from a record
  of answers.  \<open>SrsAutoFree\<close> of address lists has no effect on the tables.
\<close>

subsection \<open>Addresses and descriptors\<close>

text \<open>
  \<open>Sockaddr_in\<close> holds port and address in network byte order, as \<open>sockaddr_in\<close> does; every
  other family is \<open>Sockaddr_other\<close> with its bytes.
\<close>

datatype sockaddr =
    Sockaddr_in (sin_port: "16 word") (sin_addr: "32 word")
  | Sockaddr_other (other_family: int) (other_bytes: "byte list")

record addrinfo =
  ai_family :: int
  ai_socktype :: int
  ai_protocol :: int
  ai_addr :: sockaddr

definition AF_UNSPEC :: int where "AF_UNSPEC = 0"
definition SOCK_STREAM :: int where "SOCK_STREAM = 1"
definition SOCK_DGRAM :: int where "SOCK_DGRAM = 2"
definition AI_NUMERICHOST :: int where "AI_NUMERICHOST = 4"
definition FD_CLOEXEC :: int where "FD_CLOEXEC = 1"
definition SERVER_LISTEN_BACKLOG :: int where "SERVER_LISTEN_BACKLOG = 512"

datatype sockopt = SO_REUSEADDR | SO_REUSEPORT | SO_KEEPALIVE | SO_SNDBUF int | SO_RCVBUF int | FD_FLAGS int

record fd_state =
  fd_opts :: "sockopt list"
  fd_bound :: "sockaddr option"
  fd_backlog :: "int option"
  fd_peer :: "sockaddr option"

definition new_fd :: fd_state where
  "new_fd = \<lparr>fd_opts = [], fd_bound = None, fd_backlog = None, fd_peer = None\<rparr>"

type_synonym netfd = nat
type_synonym st_utime = "64 word"

record net =
  fds :: "int \<rightharpoonup> fd_state"
  netfds :: "netfd \<rightharpoonup> int"

text \<open>
  The answers: addresses for host, service and the hints (family, type, flags); a new
  descriptor; a descriptor object; success of the rest.  \<open>ans_getfd\<close> is the result of
  \<open>F_GETFD\<close>, \<open>ans_getopt\<close> the size an option reads back, \<open>ans_close\<close> the result of closing a descriptor object.
\<close>

record net_answers =
  ans_getaddrinfo :: "string \<Rightarrow> string \<Rightarrow> int \<times> int \<times> int \<Rightarrow> addrinfo option"
  ans_socket :: "int \<times> int \<times> int \<Rightarrow> int option"
  ans_open :: "int \<Rightarrow> netfd option"
  ans_getfd :: "int \<Rightarrow> int"
  ans_setopt :: "int \<Rightarrow> sockopt \<Rightarrow> bool"
  ans_getopt :: "int \<Rightarrow> int option"
  ans_bind :: "int \<Rightarrow> sockaddr \<Rightarrow> bool"
  ans_listen :: "int \<Rightarrow> bool"
  ans_connect :: "netfd \<Rightarrow> sockaddr \<Rightarrow> st_utime \<Rightarrow> bool"
  ans_close :: "netfd \<Rightarrow> int"

subsection \<open>The calls\<close>

definition on_fd :: "int \<Rightarrow> (fd_state \<Rightarrow> fd_state) \<Rightarrow> net \<Rightarrow> net" where
  "on_fd fd f n = n\<lparr>fds := (fds n)(fd := map_option f (fds n fd))\<rparr>"

definition sys_socket :: "net_answers \<Rightarrow> int \<times> int \<times> int \<Rightarrow> net \<Rightarrow> int option \<times> net" where
  "sys_socket a r n = (case ans_socket a r of None \<Rightarrow> (None, n)
     | Some fd \<Rightarrow> (Some fd, n\<lparr>fds := (fds n)(fd \<mapsto> new_fd)\<rparr>))"

definition sys_close :: "int \<Rightarrow> net \<Rightarrow> net" where
  "sys_close fd n = n\<lparr>fds := (fds n)(fd := None)\<rparr>"

definition sys_setopt :: "net_answers \<Rightarrow> int \<Rightarrow> sockopt \<Rightarrow> net \<Rightarrow> bool \<times> net" where
  "sys_setopt a fd opt n = (if ans_setopt a fd opt
     then (True, on_fd fd (\<lambda>s. s\<lparr>fd_opts := fd_opts s @ [opt]\<rparr>) n) else (False, n))"

definition sys_bind :: "net_answers \<Rightarrow> int \<Rightarrow> sockaddr \<Rightarrow> net \<Rightarrow> bool \<times> net" where
  "sys_bind a fd addr n = (if ans_bind a fd addr
     then (True, on_fd fd (\<lambda>s. s\<lparr>fd_bound := Some addr\<rparr>) n) else (False, n))"

definition sys_listen :: "net_answers \<Rightarrow> int \<Rightarrow> int \<Rightarrow> net \<Rightarrow> bool \<times> net" where
  "sys_listen a fd backlog n = (if ans_listen a fd
     then (True, on_fd fd (\<lambda>s. s\<lparr>fd_backlog := Some backlog\<rparr>) n) else (False, n))"

text \<open>
  \<open>st_netfd_open_socket\<close>, \<open>st_netfd_close\<close> and \<open>st_connect\<close> of state-threads as this layer sees them; theory St\_Io has
  them in full.
\<close>

definition net_open_socket :: "net_answers \<Rightarrow> int \<Rightarrow> net \<Rightarrow> netfd option \<times> net" where
  "net_open_socket a fd n = (case ans_open a fd of None \<Rightarrow> (None, n)
     | Some p \<Rightarrow> (Some p, n\<lparr>netfds := (netfds n)(p \<mapsto> fd)\<rparr>))"

definition net_close :: "net_answers \<Rightarrow> netfd \<Rightarrow> net \<Rightarrow> int \<times> net" where
  "net_close a p n = (if ans_close a p \<noteq> 0 then (ans_close a p, n)
     else (0, n\<lparr>fds := (case netfds n p of None \<Rightarrow> fds n | Some fd \<Rightarrow> (fds n)(fd := None)),
              netfds := (netfds n)(p := None)\<rparr>))"

definition net_connect :: "net_answers \<Rightarrow> netfd \<Rightarrow> sockaddr \<Rightarrow> st_utime \<Rightarrow> net \<Rightarrow> bool \<times> net" where
  "net_connect a p addr timeout n = (if ans_connect a p addr timeout
     then (True, case netfds n p of None \<Rightarrow> n | Some fd \<Rightarrow> on_fd fd (\<lambda>s. s\<lparr>fd_peer := Some addr\<rparr>) n)
     else (False, n))"

subsection \<open>The options of a descriptor\<close>

definition srs_fd_closeexec :: "err_site \<Rightarrow> net_answers \<Rightarrow> int \<Rightarrow> net \<Rightarrow> srs_error_t \<times> net" where
  "srs_fd_closeexec at a fd n =
     (let flags = ans_getfd a fd; flags = flags OR FD_CLOEXEC in
      case sys_setopt a fd (FD_FLAGS flags) n of
        (False, n) \<Rightarrow> (srs_error_new at ERROR_SOCKET_SETCLOSEEXEC (''FD_CLOEXEC fd='' @ int_str fd), n)
      | (True, n) \<Rightarrow> (None, n))"

definition srs_fd_reuseaddr :: "err_site \<Rightarrow> net_answers \<Rightarrow> int \<Rightarrow> net \<Rightarrow> srs_error_t \<times> net" where
  "srs_fd_reuseaddr at a fd n = (case sys_setopt a fd SO_REUSEADDR n of
        (False, n) \<Rightarrow> (srs_error_new at ERROR_SOCKET_SETREUSEADDR (''SO_REUSEADDR fd='' @ int_str fd), n)
      | (True, n) \<Rightarrow> (None, n))"

text \<open>A failure is only warned about.\<close>

definition srs_fd_reuseport :: "net_answers \<Rightarrow> int \<Rightarrow> net \<Rightarrow> srs_error_t \<times> net" where
  "srs_fd_reuseport a fd n = (case sys_setopt a fd SO_REUSEPORT n of (_, n) \<Rightarrow> (None, n))"

definition srs_fd_keepalive :: "err_site \<Rightarrow> net_answers \<Rightarrow> int \<Rightarrow> net \<Rightarrow> srs_error_t \<times> net" where
  "srs_fd_keepalive at a fd n = (case sys_setopt a fd SO_KEEPALIVE n of
        (False, n) \<Rightarrow> (srs_error_new at ERROR_SOCKET_SETKEEPALIVE (''SO_KEEPALIVE fd='' @ int_str fd), n)
      | (True, n) \<Rightarrow> (None, n))"

definition srs_fd_set_sndbuf :: "err_site \<Rightarrow> net_answers \<Rightarrow> int \<Rightarrow> int \<Rightarrow> net \<Rightarrow> srs_error_t \<times> net" where
  "srs_fd_set_sndbuf at a fd v n = (case sys_setopt a fd (SO_SNDBUF v) n of
        (False, n) \<Rightarrow> (srs_error_new at ERROR_SOCKET_SNDBUF (''SO_SNDBUF fd='' @ int_str fd), n)
      | (True, n) \<Rightarrow> (None, n))"

definition srs_fd_set_rcvbuf :: "err_site \<Rightarrow> net_answers \<Rightarrow> int \<Rightarrow> int \<Rightarrow> net \<Rightarrow> srs_error_t \<times> net" where
  "srs_fd_set_rcvbuf at a fd v n = (case sys_setopt a fd (SO_RCVBUF v) n of
        (False, n) \<Rightarrow> (srs_error_new at ERROR_SOCKET_RCVBUF (''SO_RCVBUF fd='' @ int_str fd), n)
      | (True, n) \<Rightarrow> (None, n))"

text \<open>The second component is the output argument, unchanged on failure.\<close>

definition srs_fd_get_sndbuf :: "err_site \<Rightarrow> net_answers \<Rightarrow> int \<Rightarrow> int \<Rightarrow> srs_error_t \<times> int" where
  "srs_fd_get_sndbuf at a fd actual = (case ans_getopt a fd of
        None \<Rightarrow> (srs_error_new at ERROR_SOCKET_SNDBUF (''SO_SNDBUF fd='' @ int_str fd), actual)
      | Some v \<Rightarrow> (None, v))"

definition srs_fd_get_rcvbuf :: "err_site \<Rightarrow> net_answers \<Rightarrow> int \<Rightarrow> int \<Rightarrow> srs_error_t \<times> int" where
  "srs_fd_get_rcvbuf at a fd actual = (case ans_getopt a fd of
        None \<Rightarrow> (srs_error_new at ERROR_SOCKET_RCVBUF (''SO_RCVBUF fd='' @ int_str fd), actual)
      | Some v \<Rightarrow> (None, v))"

text \<open>The five assertions of \<open>srs_close_stfd\<close> all fail when the close failed.\<close>

definition srs_close_stfd :: "net_answers \<Rightarrow> netfd option \<Rightarrow> net \<Rightarrow> (netfd option \<times> net) outcome" where
  "srs_close_stfd a stfd n = (case stfd of None \<Rightarrow> Inr (None, n)
     | Some p \<Rightarrow> (case net_close a p n of (r0, n) \<Rightarrow>
         rbind (srs_assert (r0 = 0)) (\<lambda>_. Inr (None, n))))"

definition srs_netfd_open_socket :: "net_answers \<Rightarrow> int \<Rightarrow> net \<Rightarrow> netfd option \<times> net" where
  "srs_netfd_open_socket a osfd n = net_open_socket a osfd n"

definition srs_netfd_fileno :: "netfd \<Rightarrow> net \<Rightarrow> int outcome" where
  "srs_netfd_fileno p n = (case netfds n p of None \<Rightarrow> Inl Bad_access | Some fd \<Rightarrow> Inr fd)"

subsection \<open>Connecting\<close>

definition sport_text :: "int \<Rightarrow> string" where
  "sport_text port = snprintf_text 8 (int_str port)"

definition st_timeout :: "srs_utime_t \<Rightarrow> st_utime" where
  "st_timeout tm = (if tm \<noteq> SRS_UTIME_NO_TIMEOUT then word_of_int tm else - 1)"

definition ai_kind :: "addrinfo \<Rightarrow> int \<times> int \<times> int" where
  "ai_kind r = (ai_family r, ai_socktype r, ai_protocol r)"

definition srs_tcp_connect ::
  "err_site \<Rightarrow> net_answers \<Rightarrow> string \<Rightarrow> int \<Rightarrow> srs_utime_t \<Rightarrow> net \<Rightarrow>
   (srs_error_t \<times> netfd option \<times> net) outcome" where
  "srs_tcp_connect at a server port tm n =
     (case ans_getaddrinfo a (c_str server) (sport_text port) (AF_UNSPEC, SOCK_STREAM, 0) of
        None \<Rightarrow> Inr (srs_error_new at ERROR_SYSTEM_IP_INVALID ''get address info'', None, n)
      | Some r \<Rightarrow>
     (case sys_socket a (ai_kind r) n of
        (None, n) \<Rightarrow> Inr (srs_error_new at ERROR_SOCKET_CREATE ''create socket'', None, n)
      | (Some sock, n) \<Rightarrow>
     (case net_open_socket a sock n of
        (None, n) \<Rightarrow> Inr (srs_error_new at ERROR_ST_OPEN_SOCKET ''open socket'', None, sys_close sock n)
      | (Some stfd, n) \<Rightarrow>
     (case net_connect a stfd (ai_addr r) (st_timeout tm) n of
        (False, n) \<Rightarrow> rbind (srs_close_stfd a (Some stfd) n) (\<lambda>(_, n).
          Inr (srs_error_new at ERROR_ST_CONNECT (''connect to '' @ c_str server @ '':'' @ int_str port), None, n))
      | (True, n) \<Rightarrow> Inr (None, Some stfd, n)))))"

definition srs_tcp_bind_connect ::
  "err_site \<Rightarrow> net_answers \<Rightarrow> string \<Rightarrow> int \<Rightarrow> string \<Rightarrow> int \<Rightarrow> srs_utime_t \<Rightarrow> net \<Rightarrow>
   (srs_error_t \<times> netfd option \<times> net) outcome" where
  "srs_tcp_bind_connect at a server port bindserver bindport tm n =
     (case ans_getaddrinfo a (c_str server) (sport_text port) (AF_UNSPEC, SOCK_STREAM, 0) of
        None \<Rightarrow> Inr (srs_error_new at ERROR_SYSTEM_IP_INVALID ''get address info'', None, n)
      | Some r \<Rightarrow>
     (case sys_socket a (ai_kind r) n of
        (None, n) \<Rightarrow> Inr (srs_error_new at ERROR_SOCKET_CREATE ''create socket'', None, n)
      | (Some sock, n) \<Rightarrow>
     (case net_open_socket a sock n of
        (None, n) \<Rightarrow> Inr (srs_error_new at ERROR_ST_OPEN_SOCKET ''open socket'', None, sys_close sock n)
      | (Some stfd, n) \<Rightarrow>
     (case srs_fd_reuseaddr at a sock n of
        (Some e, n) \<Rightarrow> Inr (srs_error_wrap at (Some e) ''set reuseaddr'', None, n)
      | (None, n) \<Rightarrow>
     (case srs_fd_reuseport a sock n of
        (Some e, n) \<Rightarrow> Inr (srs_error_wrap at (Some e) ''set reuseport'', None, n)
      | (None, n) \<Rightarrow>
     (case ans_getaddrinfo a (c_str bindserver) (sport_text bindport) (AF_UNSPEC, SOCK_STREAM, 0) of
        None \<Rightarrow> rbind (srs_close_stfd a (Some stfd) n) (\<lambda>(_, n).
          Inr (srs_error_new at ERROR_SYSTEM_IP_INVALID ''get address info'', None, n))
      | Some bindr \<Rightarrow>
     (case sys_bind a sock (ai_addr bindr) n of
        (False, n) \<Rightarrow> rbind (srs_close_stfd a (Some stfd) n) (\<lambda>(_, n).
          Inr (srs_error_new at ERROR_SOCKET_BIND ''bind'', None, n))
      | (True, n) \<Rightarrow>
     (case net_connect a stfd (ai_addr r) (st_timeout tm) n of
        (False, n) \<Rightarrow> rbind (srs_close_stfd a (Some stfd) n) (\<lambda>(_, n).
          Inr (srs_error_new at ERROR_ST_CONNECT (''connect to '' @ c_str server @ '':'' @ int_str port), None, n))
      | (True, n) \<Rightarrow> Inr (None, Some stfd, n)))))))))"

subsection \<open>Listening\<close>

text \<open>The last step of both listens, with the output argument \<open>*pfd\<close>.\<close>

definition st_open_to :: "err_site \<Rightarrow> net_answers \<Rightarrow> int \<Rightarrow> net \<Rightarrow> srs_error_t \<times> netfd option \<times> net" where
  "st_open_to at a fd n = (case srs_netfd_open_socket a fd n of
     (None, n) \<Rightarrow> (srs_error_new at ERROR_ST_OPEN_SOCKET ''st open'', None, n)
   | (Some p, n) \<Rightarrow> (None, Some p, n))"

definition do_srs_tcp_listen ::
  "err_site \<Rightarrow> net_answers \<Rightarrow> int \<Rightarrow> addrinfo \<Rightarrow> netfd option \<Rightarrow> net \<Rightarrow> srs_error_t \<times> netfd option \<times> net" where
  "do_srs_tcp_listen at a fd r pfd n =
     (case srs_fd_keepalive at a fd n of
        (Some e, n) \<Rightarrow> (srs_error_wrap at (Some e) ''set keepalive'', pfd, n)
      | (None, n) \<Rightarrow>
     (case srs_fd_closeexec at a fd n of
        (Some e, n) \<Rightarrow> (srs_error_wrap at (Some e) ''set closeexec'', pfd, n)
      | (None, n) \<Rightarrow>
     (case srs_fd_reuseaddr at a fd n of
        (Some e, n) \<Rightarrow> (srs_error_wrap at (Some e) ''set reuseaddr'', pfd, n)
      | (None, n) \<Rightarrow>
     (case srs_fd_reuseport a fd n of
        (Some e, n) \<Rightarrow> (srs_error_wrap at (Some e) ''set reuseport'', pfd, n)
      | (None, n) \<Rightarrow>
     (case sys_bind a fd (ai_addr r) n of
        (False, n) \<Rightarrow> (srs_error_new at ERROR_SOCKET_BIND ''bind'', pfd, n)
      | (True, n) \<Rightarrow>
     (case sys_listen a fd SERVER_LISTEN_BACKLOG n of
        (False, n) \<Rightarrow> (srs_error_new at ERROR_SOCKET_LISTEN ''listen'', pfd, n)
      | (True, n) \<Rightarrow> st_open_to at a fd n))))))"

definition do_srs_udp_listen ::
  "err_site \<Rightarrow> net_answers \<Rightarrow> int \<Rightarrow> addrinfo \<Rightarrow> netfd option \<Rightarrow> net \<Rightarrow> srs_error_t \<times> netfd option \<times> net" where
  "do_srs_udp_listen at a fd r pfd n =
     (case srs_fd_closeexec at a fd n of
        (Some e, n) \<Rightarrow> (srs_error_wrap at (Some e) ''set closeexec'', pfd, n)
      | (None, n) \<Rightarrow>
     (case srs_fd_reuseaddr at a fd n of
        (Some e, n) \<Rightarrow> (srs_error_wrap at (Some e) ''set reuseaddr'', pfd, n)
      | (None, n) \<Rightarrow>
     (case srs_fd_reuseport a fd n of
        (Some e, n) \<Rightarrow> (srs_error_wrap at (Some e) ''set reuseport'', pfd, n)
      | (None, n) \<Rightarrow>
     (case sys_bind a fd (ai_addr r) n of
        (False, n) \<Rightarrow> (srs_error_new at ERROR_SOCKET_BIND ''bind'', pfd, n)
      | (True, n) \<Rightarrow> st_open_to at a fd n))))"

definition ints_text :: "int \<times> int \<times> int \<Rightarrow> string" where
  "ints_text = (\<lambda>(i, j, k). int_str i @ '','' @ int_str j @ '','' @ int_str k)"

definition hints_text :: "int \<times> int \<times> int \<Rightarrow> string" where
  "hints_text h = ''getaddrinfo hints=('' @ ints_text h @ '')''"

definition kind_text :: "int \<times> int \<times> int \<Rightarrow> string" where
  "kind_text = (\<lambda>(i, j, k). ''socket domain='' @ int_str i @ '', type='' @ int_str j @ '', protocol='' @ int_str k)"

definition srs_tcp_listen ::
  "err_site \<Rightarrow> net_answers \<Rightarrow> string \<Rightarrow> int \<Rightarrow> netfd option \<Rightarrow> net \<Rightarrow> srs_error_t \<times> netfd option \<times> net" where
  "srs_tcp_listen at a ip port pfd n =
     (case ans_getaddrinfo a (c_str ip) (sport_text port) (AF_UNSPEC, SOCK_STREAM, AI_NUMERICHOST) of
        None \<Rightarrow> (srs_error_new at ERROR_SYSTEM_IP_INVALID (hints_text (AF_UNSPEC, SOCK_STREAM, AI_NUMERICHOST)), pfd, n)
      | Some r \<Rightarrow>
     (case sys_socket a (ai_kind r) n of
        (None, n) \<Rightarrow> (srs_error_new at ERROR_SOCKET_CREATE (kind_text (ai_kind r)), pfd, n)
      | (Some fd, n) \<Rightarrow>
     (case do_srs_tcp_listen at a fd r pfd n of
        (Some e, pfd, n) \<Rightarrow> (srs_error_wrap at (Some e) (''fd='' @ int_str fd), pfd, sys_close fd n)
      | (None, pfd, n) \<Rightarrow> (None, pfd, n))))"

definition srs_udp_listen ::
  "err_site \<Rightarrow> net_answers \<Rightarrow> string \<Rightarrow> int \<Rightarrow> netfd option \<Rightarrow> net \<Rightarrow> srs_error_t \<times> netfd option \<times> net" where
  "srs_udp_listen at a ip port pfd n =
     (case ans_getaddrinfo a (c_str ip) (sport_text port) (AF_UNSPEC, SOCK_DGRAM, AI_NUMERICHOST) of
        None \<Rightarrow> (srs_error_new at ERROR_SYSTEM_IP_INVALID (hints_text (AF_UNSPEC, SOCK_DGRAM, AI_NUMERICHOST)), pfd, n)
      | Some r \<Rightarrow>
     (case sys_socket a (ai_kind r) n of
        (None, n) \<Rightarrow> (srs_error_new at ERROR_SOCKET_CREATE (kind_text (ai_kind r)), pfd, n)
      | (Some fd, n) \<Rightarrow>
     (case do_srs_udp_listen at a fd r pfd n of
        (Some e, pfd, n) \<Rightarrow> (srs_error_wrap at (Some e) (''fd='' @ int_str fd), pfd, sys_close fd n)
      | (None, pfd, n) \<Rightarrow> (None, pfd, n))))"

subsection \<open>Starting state-threads\<close>

text \<open>
  \<open>evsys\<close> and \<open>r0\<close> are the results of \<open>st_set_eventsys\<close> and \<open>st_init\<close>, \<open>evsys_name\<close> the name of
  the event system, \<open>main\<close> the primordial thread that \<open>st_init\<close> makes the current one.
\<close>

definition srs_st_init ::
  "err_site \<Rightarrow> int \<Rightarrow> string \<Rightarrow> int \<Rightarrow> (nat \<Rightarrow> nat) \<Rightarrow> nat \<Rightarrow> thread_ctx \<Rightarrow> (srs_error_t \<times> thread_ctx) outcome" where
  "srs_st_init at evsys evsys_name r0 rnd main s =
     (if evsys = - 1
      then Inr (srs_error_new at ERROR_ST_SET_EPOLL (''st enable st failed, current is '' @ evsys_name), s)
      else rbind (let cid = ctx_get_id s in if ctx_empty cid then ctx_generate_id rnd else Inr cid) (\<lambda>cid.
      if r0 \<noteq> 0
      then Inr (srs_error_new at ERROR_ST_INITIALIZE (''st initialize failed, r0='' @ int_str r0), s)
      else rbind (ctx_set_id cid (s\<lparr>this_thread := Some main\<rparr>)) (\<lambda>(_, s). Inr (None, s))))"

subsection \<open>How the tables change\<close>

definition with_fd :: "int \<Rightarrow> fd_state \<Rightarrow> net \<Rightarrow> net" where
  "with_fd fd s n = n\<lparr>fds := (fds n)(fd \<mapsto> s)\<rparr>"

definition with_netfd :: "netfd \<Rightarrow> int \<Rightarrow> net \<Rightarrow> net" where
  "with_netfd p fd n = n\<lparr>netfds := (netfds n)(p \<mapsto> fd)\<rparr>"

abbreviation add_opt :: "sockopt \<Rightarrow> fd_state \<Rightarrow> fd_state" where
  "add_opt opt s \<equiv> s\<lparr>fd_opts := fd_opts s @ [opt]\<rparr>"

text \<open>The numbers and addresses handed out are not in use.\<close>

definition fresh :: "net_answers \<Rightarrow> net \<Rightarrow> bool" where
  "fresh a n \<longleftrightarrow> (\<forall>r fd. ans_socket a r = Some fd \<longrightarrow> fds n fd = None) \<and>
     (\<forall>fd p. ans_open a fd = Some p \<longrightarrow> netfds n p = None)"

lemma with_fd_simps [simp]:
  "fds (with_fd fd s n) = (fds n)(fd \<mapsto> s)" "netfds (with_fd fd s n) = netfds n"
  "fds (with_netfd p fd n) = fds n" "netfds (with_netfd p fd n) = (netfds n)(p \<mapsto> fd)"
  "with_fd fd t (with_fd fd s n) = with_fd fd t n"
  "on_fd fd f (with_fd fd s n) = with_fd fd (f s) n"
  "with_netfd p k (with_fd fd s n) = with_fd fd s (with_netfd p k n)"
  "(with_fd fd s n)\<lparr>netfds := (netfds n)(p \<mapsto> k)\<rparr> = with_fd fd s (with_netfd p k n)"
  by (simp_all add: with_fd_def with_netfd_def on_fd_def)

lemma sys_socket_fd: "sys_socket a r n = (case ans_socket a r of None \<Rightarrow> (None, n)
     | Some fd \<Rightarrow> (Some fd, with_fd fd new_fd n))"
  by (simp add: sys_socket_def with_fd_def split: option.split)

lemma sys_close_fd [simp]: "fds n fd = None \<Longrightarrow> sys_close fd (with_fd fd s n) = n"
  by (simp add: sys_close_def with_fd_def fun_upd_idem)

lemma sys_calls_fd [simp]:
  "sys_setopt a fd opt (with_fd fd s n) =
     (if ans_setopt a fd opt then (True, with_fd fd (add_opt opt s) n) else (False, with_fd fd s n))"
  "sys_bind a fd addr (with_fd fd s n) =
     (if ans_bind a fd addr then (True, with_fd fd (s\<lparr>fd_bound := Some addr\<rparr>) n) else (False, with_fd fd s n))"
  "sys_listen a fd b (with_fd fd s n) =
     (if ans_listen a fd then (True, with_fd fd (s\<lparr>fd_backlog := Some b\<rparr>) n) else (False, with_fd fd s n))"
  "net_connect a p addr t (with_fd fd s (with_netfd p fd n)) =
     (if ans_connect a p addr t then (True, with_fd fd (s\<lparr>fd_peer := Some addr\<rparr>) (with_netfd p fd n))
      else (False, with_fd fd s (with_netfd p fd n)))"
  by (simp_all add: sys_setopt_def sys_bind_def sys_listen_def net_connect_def)

lemma open_socket_fd: "net_open_socket a fd (with_fd fd s n) = (case ans_open a fd of
     None \<Rightarrow> (None, with_fd fd s n) | Some p \<Rightarrow> (Some p, with_fd fd s (with_netfd p fd n)))"
  by (simp add: net_open_socket_def split: option.split)

lemma close_stfd_fd [simp]:
  assumes "fds n fd = None" "netfds n p = None"
  shows "srs_close_stfd a (Some p) (with_fd fd s (with_netfd p fd n)) =
    (if ans_close a p = 0 then Inr (None, n) else Inl Assert_failed)"
  using assms by (simp add: srs_close_stfd_def net_close_def with_fd_def with_netfd_def fun_upd_idem)

subsection \<open>What listening does\<close>

text \<open>
  \<open>first_failure\<close> is the code of the first condition that does not hold, in the order in
  which the steps are taken.
\<close>

fun first_failure :: "(bool \<times> int) list \<Rightarrow> int" where
  "first_failure [] = ERROR_SUCCESS"
| "first_failure ((ok, code) # steps) = (if ok then first_failure steps else code)"

definition closeexec_flags :: "net_answers \<Rightarrow> int \<Rightarrow> sockopt" where
  "closeexec_flags a fd = FD_FLAGS (ans_getfd a fd OR FD_CLOEXEC)"

definition reuseport_opts :: "net_answers \<Rightarrow> int \<Rightarrow> sockopt list" where
  "reuseport_opts a fd = (if ans_setopt a fd SO_REUSEPORT then [SO_REUSEPORT] else [])"

lemmas fd_option_defs = srs_fd_keepalive_def srs_fd_closeexec_def srs_fd_reuseaddr_def srs_fd_reuseport_def
  closeexec_flags_def reuseport_opts_def Let_def

text \<open>The steps of the two listens after the socket, with the code each fails with.\<close>

definition listen_steps :: "bool \<Rightarrow> net_answers \<Rightarrow> int \<Rightarrow> sockaddr \<Rightarrow> (bool \<times> int) list" where
  "listen_steps tcp a fd addr =
     [(tcp \<longrightarrow> ans_setopt a fd SO_KEEPALIVE, ERROR_SOCKET_SETKEEPALIVE),
      (ans_setopt a fd (closeexec_flags a fd), ERROR_SOCKET_SETCLOSEEXEC),
      (ans_setopt a fd SO_REUSEADDR, ERROR_SOCKET_SETREUSEADDR),
      (ans_bind a fd addr, ERROR_SOCKET_BIND),
      (tcp \<longrightarrow> ans_listen a fd, ERROR_SOCKET_LISTEN),
      (ans_open a fd \<noteq> None, ERROR_ST_OPEN_SOCKET)]"

definition listening_fd :: "bool \<Rightarrow> net_answers \<Rightarrow> int \<Rightarrow> sockaddr \<Rightarrow> fd_state" where
  "listening_fd tcp a fd addr =
     \<lparr>fd_opts = (if tcp then [SO_KEEPALIVE] else []) @ [closeexec_flags a fd, SO_REUSEADDR] @ reuseport_opts a fd,
      fd_bound = Some addr, fd_backlog = (if tcp then Some SERVER_LISTEN_BACKLOG else None), fd_peer = None\<rparr>"

text \<open>An error with this code, or success for the code 0.\<close>

definition ends_with_code :: "srs_error_t \<Rightarrow> int \<Rightarrow> bool" where
  "ends_with_code err code \<longleftrightarrow> srs_error_code err = code \<and> (err = None \<longleftrightarrow> code = ERROR_SUCCESS)"

lemma ends_with_code_simps [simp]:
  "ends_with_code None code \<longleftrightarrow> code = 0"
  "ends_with_code (Some e) code \<longleftrightarrow> srs_error_code (Some e) = code \<and> code \<noteq> 0"
  "ends_with_code (srs_error_new at k t) code \<longleftrightarrow> k = code \<and> code \<noteq> 0"
  "ends_with_code (srs_error_wrap at (Some e) t) code \<longleftrightarrow> srs_error_code (Some e) = code \<and> code \<noteq> 0"
  by (auto simp: ends_with_code_def)

text \<open>What both listens promise, for the kind of socket.\<close>

definition listens ::
  "bool \<Rightarrow> net_answers \<Rightarrow> string \<Rightarrow> int \<Rightarrow> netfd option \<Rightarrow> net \<Rightarrow> srs_error_t \<times> netfd option \<times> net \<Rightarrow> bool" where
  "listens tcp a ip port pfd n res = (case res of (err, pfd', n') \<Rightarrow>
     (case ans_getaddrinfo a (c_str ip) (sport_text port)
         (AF_UNSPEC, if tcp then SOCK_STREAM else SOCK_DGRAM, AI_NUMERICHOST) of
       None \<Rightarrow> ends_with_code err ERROR_SYSTEM_IP_INVALID \<and> pfd' = pfd \<and> n' = n
     | Some r \<Rightarrow> (case ans_socket a (ai_kind r) of
         None \<Rightarrow> ends_with_code err ERROR_SOCKET_CREATE \<and> pfd' = pfd \<and> n' = n
       | Some fd \<Rightarrow>
           ends_with_code err (first_failure (listen_steps tcp a fd (ai_addr r))) \<and>
           (if err = None
            then \<exists>p. ans_open a fd = Some p \<and> pfd' = Some p \<and>
              n' = with_netfd p fd (with_fd fd (listening_fd tcp a fd (ai_addr r)) n)
            else pfd' = (if srs_error_code err = ERROR_ST_OPEN_SOCKET then None else pfd) \<and> n' = n))))"

lemma srs_error_code_node [simp]: "srs_error_code (Some (SrsCplxError (error_node_at at k t) w)) = k"
  by (simp add: srs_error_code_def error_node_at_def)

lemma with_fd_some [simp]: "\<exists>s. with_fd fd t n = with_fd fd s n"
  by blast

lemmas listen_step_defs = fd_option_defs listen_steps_def listening_fd_def new_fd_def st_open_to_def
  srs_netfd_open_socket_def open_socket_fd

lemma do_srs_tcp_listen_fd:
  "case do_srs_tcp_listen at a fd r pfd (with_fd fd new_fd n) of (err, pfd', n') \<Rightarrow>
   ends_with_code err (first_failure (listen_steps True a fd (ai_addr r))) \<and>
   (if err = None then \<exists>p. ans_open a fd = Some p \<and> pfd' = Some p \<and>
      n' = with_netfd p fd (with_fd fd (listening_fd True a fd (ai_addr r)) n)
    else pfd' = (if srs_error_code err = ERROR_ST_OPEN_SOCKET then None else pfd) \<and> (\<exists>s. n' = with_fd fd s n))"
  by (simp add: do_srs_tcp_listen_def listen_step_defs srs_error_new_def split: if_split option.split)

lemma do_srs_udp_listen_fd:
  "case do_srs_udp_listen at a fd r pfd (with_fd fd new_fd n) of (err, pfd', n') \<Rightarrow>
   ends_with_code err (first_failure (listen_steps False a fd (ai_addr r))) \<and>
   (if err = None then \<exists>p. ans_open a fd = Some p \<and> pfd' = Some p \<and>
      n' = with_netfd p fd (with_fd fd (listening_fd False a fd (ai_addr r)) n)
    else pfd' = (if srs_error_code err = ERROR_ST_OPEN_SOCKET then None else pfd) \<and> (\<exists>s. n' = with_fd fd s n))"
  by (simp add: do_srs_udp_listen_def listen_step_defs srs_error_new_def split: if_split option.split)

lemma fresh_socket: "fresh a n \<Longrightarrow> ans_socket a r = Some fd \<Longrightarrow> fds n fd = None"
  by (cases r) (simp add: fresh_def)

lemma fresh_open: "fresh a n \<Longrightarrow> ans_open a fd = Some p \<Longrightarrow> netfds n p = None"
  by (simp add: fresh_def)

lemma srs_tcp_listen_listens:
  assumes "fresh a n"
  shows "listens True a ip port pfd n (srs_tcp_listen at a ip port pfd n)"
proof (cases "ans_getaddrinfo a (c_str ip) (sport_text port) (AF_UNSPEC, SOCK_STREAM, AI_NUMERICHOST)")
  case (Some r)
  show ?thesis
  proof (cases "ans_socket a (ai_kind r)")
    case (Some fd)
    obtain err pfd' n' where do: "do_srs_tcp_listen at a fd r pfd (with_fd fd new_fd n) = (err, pfd', n')"
      by (metis prod_cases3)
    show ?thesis
      using do_srs_tcp_listen_fd [where a = a and fd = fd and r = r and n = n and at = at and pfd = pfd] fresh_socket [OF assms Some]
      by (cases err) (auto simp: listens_def srs_tcp_listen_def sys_socket_fd Some \<open>_ = Some r\<close> do)
  qed (simp add: listens_def srs_tcp_listen_def sys_socket_fd Some)
qed (simp add: listens_def srs_tcp_listen_def)

lemma srs_udp_listen_listens:
  assumes "fresh a n"
  shows "listens False a ip port pfd n (srs_udp_listen at a ip port pfd n)"
proof (cases "ans_getaddrinfo a (c_str ip) (sport_text port) (AF_UNSPEC, SOCK_DGRAM, AI_NUMERICHOST)")
  case (Some r)
  show ?thesis
  proof (cases "ans_socket a (ai_kind r)")
    case (Some fd)
    obtain err pfd' n' where do: "do_srs_udp_listen at a fd r pfd (with_fd fd new_fd n) = (err, pfd', n')"
      by (metis prod_cases3)
    show ?thesis
      using do_srs_udp_listen_fd [where a = a and fd = fd and r = r and n = n and at = at and pfd = pfd] fresh_socket [OF assms Some]
      by (cases err) (auto simp: listens_def srs_udp_listen_def sys_socket_fd Some \<open>_ = Some r\<close> do)
  qed (simp add: listens_def srs_udp_listen_def sys_socket_fd Some)
qed (simp add: listens_def srs_udp_listen_def)

text \<open>
  Listening on TCP and on UDP.  Each step fails with its own code, the first failing step
  decides, and then the tables are as before, with the socket closed again.  On success there
  is exactly one descriptor more, with its options set in order (keep-alive for TCP,
  close-on-exec added to its flags, address reuse, port reuse where the system allows it),
  bound to the address, for TCP listening with a backlog of 512, and \<open>*pfd\<close> is a new object
  for it.  \<open>*pfd\<close> is overwritten with \<open>NULL\<close> when only the last step fails.
\<close>

theorem listen_result:
  assumes "fresh a n"
  shows "listens True a ip port pfd n (srs_tcp_listen at a ip port pfd n) \<and>
    listens False a ip port pfd n (srs_udp_listen at a ip port pfd n)"
  using assms by (simp add: srs_tcp_listen_listens srs_udp_listen_listens)

text \<open>A system in which every call succeeds, with the next free descriptor and object.\<close>

definition all_ok :: "int \<Rightarrow> netfd \<Rightarrow> sockaddr \<Rightarrow> net_answers" where
  "all_ok fd p addr = \<lparr>ans_getaddrinfo = (\<lambda>h s (f, t, _). Some \<lparr>ai_family = 2, ai_socktype = t, ai_protocol = 0, ai_addr = addr\<rparr>),
     ans_socket = (\<lambda>_. Some fd), ans_open = (\<lambda>_. Some p), ans_getfd = (\<lambda>_. 0),
     ans_setopt = (\<lambda>_ _. True), ans_getopt = (\<lambda>_. Some 212992), ans_bind = (\<lambda>_ _. True),
     ans_listen = (\<lambda>_. True), ans_connect = (\<lambda>_ _ _. True), ans_close = (\<lambda>_. 0)\<rparr>"

lemma all_ok_simps [simp]:
  "ans_getaddrinfo (all_ok fd p addr) h s (f, k, g) = Some \<lparr>ai_family = 2, ai_socktype = k, ai_protocol = 0, ai_addr = addr\<rparr>"
  "ans_socket (all_ok fd p addr) r = Some fd" "ans_open (all_ok fd p addr) x = Some p"
  "ans_setopt (all_ok fd p addr) x opt" "ans_bind (all_ok fd p addr) x b" "ans_listen (all_ok fd p addr) x"
  "ans_connect (all_ok fd p addr) q b t" "ans_close (all_ok fd p addr) q = 0"
  by (simp_all add: all_ok_def)

definition no_net :: net where "no_net = \<lparr>fds = Map.empty, netfds = Map.empty\<rparr>"

lemma fresh_no_net [simp]: "fresh a no_net"
  by (simp add: fresh_def no_net_def)

lemma listen_result_witness:
  "listens True (all_ok 3 1 (Sockaddr_in 0x901F 0)) ''0.0.0.0'' 8080 None no_net
     (srs_tcp_listen main_at (all_ok 3 1 (Sockaddr_in 0x901F 0)) ''0.0.0.0'' 8080 None no_net) \<and>
   fst (srs_tcp_listen main_at (all_ok 3 1 (Sockaddr_in 0x901F 0)) ''0.0.0.0'' 8080 None no_net) = None"
proof -
  let ?a = "all_ok 3 1 (Sockaddr_in 0x901F 0)"
  obtain err pfd' n' where res: "srs_tcp_listen main_at ?a ''0.0.0.0'' 8080 None no_net = (err, pfd', n')"
    by (metis prod_cases3)
  have l: "listens True ?a ''0.0.0.0'' 8080 None no_net (err, pfd', n')"
    using conjunct1 [OF listen_result [OF fresh_no_net, of ?a "''0.0.0.0''" 8080 None main_at]]
    by (simp only: res)
  then have "err = None"
    by (cases err) (simp_all add: listens_def listen_steps_def)
  with l show ?thesis unfolding res by simp
qed

subsection \<open>What connecting does\<close>

definition connected_fd :: "sockopt list \<Rightarrow> sockaddr option \<Rightarrow> sockaddr \<Rightarrow> fd_state" where
  "connected_fd opts bound addr = \<lparr>fd_opts = opts, fd_bound = bound, fd_backlog = None, fd_peer = Some addr\<rparr>"

text \<open>
  Connecting.  On success there is one descriptor more, connected to the first address of
  the server, and \<open>*pstfd\<close> is a new object for it.  On any failure \<open>*pstfd\<close> is \<open>NULL\<close>, the code names
  the first step that failed and the tables are as before: the socket is closed again.  Only a
  close that fails itself stops the program, at the assertion of \<open>srs_close_stfd\<close>.
\<close>

theorem tcp_connect_result:
  assumes "fresh a n"
    and "ans_getaddrinfo a (c_str server) (sport_text port) (AF_UNSPEC, SOCK_STREAM, 0) = Some r"
    and "ans_socket a (ai_kind r) = Some sock"
  shows "(case srs_tcp_connect at a server port tm n of
      Inl f \<Rightarrow> f = Assert_failed \<and> (\<exists>p. ans_open a sock = Some p \<and> ans_close a p \<noteq> 0)
    | Inr (err, pstfd, n') \<Rightarrow>
        ends_with_code err (first_failure
          [(ans_open a sock \<noteq> None, ERROR_ST_OPEN_SOCKET),
           (\<exists>p. ans_open a sock = Some p \<and> ans_connect a p (ai_addr r) (st_timeout tm), ERROR_ST_CONNECT)]) \<and>
        (if err = None
         then \<exists>p. ans_open a sock = Some p \<and> pstfd = Some p \<and>
           n' = with_netfd p sock (with_fd sock (connected_fd [] None (ai_addr r)) n)
         else pstfd = None \<and> n' = n))"
  using assms fresh_socket [OF assms(1,3)] fresh_open [OF assms(1), of sock]
  by (simp add: srs_tcp_connect_def sys_socket_fd open_socket_fd connected_fd_def new_fd_def srs_error_new_def
      split: option.split)

lemma tcp_connect_result_witness:
  "srs_tcp_connect main_at (all_ok 3 1 (Sockaddr_in 0x901F 0)) ''localhost'' 8080 SRS_UTIME_NO_TIMEOUT no_net =
     Inr (None, Some 1, with_netfd 1 3 (with_fd 3 (connected_fd [] None (Sockaddr_in 0x901F 0)) no_net))"
  using tcp_connect_result [where a = "all_ok 3 1 (Sockaddr_in 0x901F 0)" and n = no_net and server = "''localhost''"
      and port = 8080 and sock = 3 and at = main_at and tm = SRS_UTIME_NO_TIMEOUT]
  by (auto split: sum.splits if_splits)

text \<open>
  The steps of connecting from a local address, in the order taken, with the code each fails with.
\<close>

definition bind_connect_steps ::
  "net_answers \<Rightarrow> addrinfo option \<Rightarrow> addrinfo option \<Rightarrow> int option \<Rightarrow> netfd option \<Rightarrow> srs_utime_t \<Rightarrow> (bool \<times> int) list" where
  "bind_connect_steps a server_ai bind_ai sock stfd tm =
     [(server_ai \<noteq> None, ERROR_SYSTEM_IP_INVALID),
      (sock \<noteq> None, ERROR_SOCKET_CREATE),
      (stfd \<noteq> None, ERROR_ST_OPEN_SOCKET),
      (ans_setopt a (the sock) SO_REUSEADDR, ERROR_SOCKET_SETREUSEADDR),
      (bind_ai \<noteq> None, ERROR_SYSTEM_IP_INVALID),
      (ans_bind a (the sock) (ai_addr (the bind_ai)), ERROR_SOCKET_BIND),
      (ans_connect a (the stfd) (ai_addr (the server_ai)) (st_timeout tm), ERROR_ST_CONNECT)]"

text \<open>
  C30: Connecting from a given local address, whatever the system answers to each step.  The first
  step that fails decides the code: resolving the server, the socket, its object, address reuse,
  resolving the local address, binding, connecting (port reuse may fail).  On success there is one
  descriptor more, with address and port reuse set, bound and connected, and \<open>*pstfd\<close> is a new
  object for it.  On failure \<open>*pstfd\<close> is \<open>NULL\<close> and the tables are as before, the socket closed
  again, with one leak: when \<open>SO_REUSEADDR\<close> cannot be set, the error is returned with the socket and
  its object left open, and the caller cannot close them.  Only a close that fails itself stops the
  program, at the assertion of \<open>srs_close_stfd\<close>.
\<close>

theorem tcp_bind_connect_result:
  assumes "fresh a n"
    and "server_ai = ans_getaddrinfo a (c_str server) (sport_text port) (AF_UNSPEC, SOCK_STREAM, 0)"
    and "bind_ai = ans_getaddrinfo a (c_str bindserver) (sport_text bindport) (AF_UNSPEC, SOCK_STREAM, 0)"
    and "sock = Option.bind server_ai (\<lambda>r. ans_socket a (ai_kind r))"
    and "stfd = Option.bind sock (ans_open a)"
  shows "(case srs_tcp_bind_connect at a server port bindserver bindport tm n of
      Inl f \<Rightarrow> f = Assert_failed \<and> (\<exists>p. stfd = Some p \<and> ans_close a p \<noteq> 0)
    | Inr (err, pstfd, n') \<Rightarrow>
        ends_with_code err (first_failure (bind_connect_steps a server_ai bind_ai sock stfd tm)) \<and>
        (if err = None
         then pstfd = stfd \<and> n' = with_netfd (the stfd) (the sock) (with_fd (the sock)
           (connected_fd (SO_REUSEADDR # reuseport_opts a (the sock)) (Some (ai_addr (the bind_ai)))
             (ai_addr (the server_ai))) n)
         else pstfd = None \<and>
           n' = (if srs_error_code err = ERROR_SOCKET_SETREUSEADDR
             then with_netfd (the stfd) (the sock) (with_fd (the sock) new_fd n) else n)))"
proof (cases server_ai)
  case None
  then show ?thesis by (simp add: assms srs_tcp_bind_connect_def bind_connect_steps_def srs_error_new_def)
next
  case r: (Some r)
  show ?thesis
  proof (cases "ans_socket a (ai_kind r)")
    case None
    then show ?thesis using r
      by (simp add: assms srs_tcp_bind_connect_def sys_socket_fd
          bind_connect_steps_def srs_error_new_def)
  next
    case fd: (Some fd)
    note free = fresh_socket [OF assms(1) fd] fresh_open [OF assms(1), of fd]
    show ?thesis using r fd free
      by (simp add: assms srs_tcp_bind_connect_def sys_socket_fd
          open_socket_fd connected_fd_def new_fd_def bind_connect_steps_def srs_error_new_def srs_error_wrap_def
          srs_fd_reuseaddr_def srs_fd_reuseport_def reuseport_opts_def split: option.split)
  qed
qed

lemma tcp_bind_connect_result_witness:
  "(\<exists>e. srs_tcp_bind_connect main_at ((all_ok 3 1 (Sockaddr_in 0x901F 0))\<lparr>ans_setopt := (\<lambda>_ _. False)\<rparr>)
       ''localhost'' 8080 ''0.0.0.0'' 0 SRS_UTIME_NO_TIMEOUT no_net =
     Inr (e, None, with_netfd 1 3 (with_fd 3 new_fd no_net))) \<and>
   (\<exists>e. srs_tcp_bind_connect main_at ((all_ok 3 1 (Sockaddr_in 0x901F 0))\<lparr>ans_open := (\<lambda>_. None)\<rparr>)
       ''localhost'' 8080 ''0.0.0.0'' 0 SRS_UTIME_NO_TIMEOUT no_net = Inr (e, None, no_net))"
  using tcp_bind_connect_result [where a = "(all_ok 3 1 (Sockaddr_in 0x901F 0))\<lparr>ans_setopt := (\<lambda>_ _. False)\<rparr>"
      and n = no_net and server = "''localhost''" and port = 8080 and at = main_at
      and bindserver = "''0.0.0.0''" and bindport = 0 and tm = SRS_UTIME_NO_TIMEOUT,
      OF fresh_no_net refl refl refl refl]
    tcp_bind_connect_result [where a = "(all_ok 3 1 (Sockaddr_in 0x901F 0))\<lparr>ans_open := (\<lambda>_. None)\<rparr>"
      and n = no_net and server = "''localhost''" and port = 8080 and at = main_at
      and bindserver = "''0.0.0.0''" and bindport = 0 and tm = SRS_UTIME_NO_TIMEOUT,
      OF fresh_no_net refl refl refl refl]
  by (auto simp: bind_connect_steps_def ends_with_code_def split: sum.splits if_splits)

subsection \<open>Starting state-threads keeps the id of the process\<close>

text \<open>
  \<open>srs_st_init\<close> is called before any coroutine runs.  The id that was set before (the default), or a
  random one when none was, becomes the id of the primordial coroutine; the default stays as it was.
  A second call fails, as the event system is set already, although \<open>st_init\<close> itself could be repeated.
\<close>

theorem st_init_keeps_id:
  assumes "ctx_inv s" "this_thread s = None" "key_max s < ST_KEYS_MAX" "evsys \<noteq> - 1"
  shows "(case srs_st_init at evsys name 0 rnd main s of
      Inl f \<Rightarrow> ctx_empty (srs_context_default s) \<and> ctx_generate_id rnd = Inl f
    | Inr (err, s') \<Rightarrow> err = None \<and> this_thread s' = Some main \<and>
        srs_context_default s' = srs_context_default s \<and>
        (if ctx_empty (srs_context_default s) then ctx_generate_id rnd = Inr (ctx_get_id s')
         else ctx_get_id s' = srs_context_default s)) \<and>
    srs_error_code (case srs_st_init at (- 1) name 0 rnd main s of Inr (err, s') \<Rightarrow> err | Inl f \<Rightarrow> None) = ERROR_ST_SET_EPOLL"
proof -
  have set: "\<exists>s'. ctx_set_id v (s\<lparr>this_thread := Some main\<rparr>) = Inr (v, s') \<and> this_thread s' = Some main \<and>
      srs_context_default s' = srs_context_default s \<and> ctx_get_id s' = v" for v
    using assms by (auto simp: ctx_inv_def ctx_set_id_def ctx_get_id_def st_key_create_def
        st_thread_setspecific_def st_thread_getspecific_def ST_KEYS_MAX_def)
  have get: "ctx_get_id s = srs_context_default s" using assms by (simp add: ctx_get_id_def)
  show ?thesis
  proof (cases "ctx_empty (srs_context_default s)")
    case True
    show ?thesis
    proof (cases "ctx_generate_id rnd")
      case (Inr v)
      then show ?thesis using set [of v] assms(4) True get by (auto simp: srs_st_init_def Let_def)
    qed (use assms(4) True get in \<open>simp add: srs_st_init_def Let_def\<close>)
  next
    case False
    show ?thesis
      using set [of "srs_context_default s"] assms(4) False get by (auto simp: srs_st_init_def Let_def)
  qed
qed

lemma st_init_keeps_id_witness:
  "\<exists>s'. srs_st_init main_at 0 ''select'' 0 (\<lambda>k. k) 1 (ctx_init\<lparr>srs_context_default := SrsContextId ''main''\<rparr>) = Inr (None, s') \<and>
     ctx_get_id s' = SrsContextId ''main''"
  using st_init_keeps_id [where s = "ctx_init\<lparr>srs_context_default := SrsContextId ''main''\<rparr>" and evsys = 0
      and at = main_at and name = "''select''" and rnd = "\<lambda>k. k" and main = 1]
  by (auto simp: ctx_inv_def ctx_init_def ST_KEYS_MAX_def ctx_empty_def split: sum.splits)

end
