(* ===== verification/Srs_Service_Socket.thy ===== *)
theory Srs_Service_Socket
  imports Srs_Service_Net
begin

section \<open>Sockets and the TCP client (core/srs_service_st.cpp)\<close>

text \<open>
  \<open>SrsStSocket\<close> reads and writes a descriptor object of state-threads with timeouts and counts the
  bytes; \<open>SrsTcpClient\<close> owns one connection and such a socket on it.  What \<open>st_read\<close>,
  \<open>st_read_fully\<close>, \<open>st_write\<close> and \<open>st_writev\<close> answer are arguments: \<open>Inl errno\<close> for -1, else the
  bytes read or the number written.
\<close>

subsection \<open>\<open>SrsStSocket\<close>\<close>

definition ETIME :: int where "ETIME = 62"
definition ECONNRESET :: int where "ECONNRESET = 104"

record st_socket =
  rtm :: srs_utime_t
  stm :: srs_utime_t
  rbytes :: int
  sbytes :: int
  sk_stfd :: "netfd option"

definition SrsStSocket :: st_socket where
  "SrsStSocket = \<lparr>rtm = SRS_UTIME_NO_TIMEOUT, stm = SRS_UTIME_NO_TIMEOUT, rbytes = 0, sbytes = 0, sk_stfd = None\<rparr>"

definition sock_initialize :: "netfd option \<Rightarrow> st_socket \<Rightarrow> srs_error_t \<times> st_socket" where
  "sock_initialize fd s = (None, s\<lparr>sk_stfd := fd\<rparr>)"

definition set_recv_timeout :: "srs_utime_t \<Rightarrow> st_socket \<Rightarrow> st_socket" where
  "set_recv_timeout tm s = s\<lparr>rtm := tm\<rparr>"

definition set_send_timeout :: "srs_utime_t \<Rightarrow> st_socket \<Rightarrow> st_socket" where
  "set_send_timeout tm s = s\<lparr>stm := tm\<rparr>"

definition get_recv_timeout :: "st_socket \<Rightarrow> srs_utime_t" where "get_recv_timeout s = rtm s"
definition get_send_timeout :: "st_socket \<Rightarrow> srs_utime_t" where "get_send_timeout s = stm s"
definition get_recv_bytes :: "st_socket \<Rightarrow> int" where "get_recv_bytes s = rbytes s"
definition get_send_bytes :: "st_socket \<Rightarrow> int" where "get_send_bytes s = sbytes s"

text \<open>The value returned by a call, and the place of an error with the errno it left.\<close>

definition read_count :: "int + byte list \<Rightarrow> int" where
  "read_count r = (case r of Inl _ \<Rightarrow> - 1 | Inr bs \<Rightarrow> int (length bs))"

definition write_count :: "int + nat \<Rightarrow> int" where
  "write_count r = (case r of Inl _ \<Rightarrow> - 1 | Inr k \<Rightarrow> int k)"

definition with_errno :: "(int + 'a) \<Rightarrow> err_site \<Rightarrow> err_site" where
  "with_errno r at = (case r of Inl e \<Rightarrow> at\<lparr>at_errno := e\<rparr> | Inr _ \<Rightarrow> at)"

definition read_data :: "int + byte list \<Rightarrow> byte list" where
  "read_data r = (case r of Inl _ \<Rightarrow> [] | Inr bs \<Rightarrow> bs)"

type_synonym st_reader = "netfd option \<Rightarrow> nat \<Rightarrow> st_utime \<Rightarrow> int + byte list"
type_synonym 'a st_writer = "netfd option \<Rightarrow> 'a \<Rightarrow> st_utime \<Rightarrow> int + nat"

text \<open>The results are the error, \<open>*nread\<close> and the bytes of \<open>buf\<close> that it counts.\<close>

definition sock_read ::
  "err_site \<Rightarrow> st_reader \<Rightarrow> nat \<Rightarrow> st_socket \<Rightarrow> (srs_error_t \<times> int \<times> byte list) \<times> st_socket" where
  "sock_read at st_read nbyte s =
     (let r = st_read (sk_stfd s) nbyte (st_timeout (rtm s)); nb_read = read_count r; at = with_errno r at in
      if nb_read \<le> 0 then
        (if nb_read < 0 \<and> at_errno at = ETIME
         then ((srs_error_new at ERROR_SOCKET_TIMEOUT (''timeout '' @ int_str (srsu2msi (rtm s)) @ '' ms''), nb_read, []), s)
         else let at = (if nb_read = 0 then at\<lparr>at_errno := ECONNRESET\<rparr> else at)
              in ((srs_error_new at ERROR_SOCKET_READ ''read'', nb_read, []), s))
      else ((None, nb_read, read_data r), s\<lparr>rbytes := rbytes s + nb_read\<rparr>))"

definition sock_read_fully ::
  "err_site \<Rightarrow> st_reader \<Rightarrow> nat \<Rightarrow> st_socket \<Rightarrow> (srs_error_t \<times> int \<times> byte list) \<times> st_socket" where
  "sock_read_fully at st_read_fully nbyte s =
     (let r = st_read_fully (sk_stfd s) nbyte (st_timeout (rtm s)); nb_read = read_count r; at = with_errno r at in
      if nb_read \<noteq> int nbyte then
        (if nb_read < 0 \<and> at_errno at = ETIME
         then ((srs_error_new at ERROR_SOCKET_TIMEOUT (''timeout '' @ int_str (srsu2msi (rtm s)) @ '' ms''), nb_read, read_data r), s)
         else let at = (if nb_read \<ge> 0 then at\<lparr>at_errno := ECONNRESET\<rparr> else at)
              in ((srs_error_new at ERROR_SOCKET_READ_FULLY ''read fully'', nb_read, read_data r), s))
      else ((None, nb_read, read_data r), s\<lparr>rbytes := rbytes s + nb_read\<rparr>))"

definition sock_write ::
  "err_site \<Rightarrow> byte list st_writer \<Rightarrow> byte list \<Rightarrow> st_socket \<Rightarrow> (srs_error_t \<times> int) \<times> st_socket" where
  "sock_write at st_write buf s =
     (let r = st_write (sk_stfd s) buf (st_timeout (stm s)); nb_write = write_count r; at = with_errno r at in
      if nb_write \<le> 0 then
        (if nb_write < 0 \<and> at_errno at = ETIME
         then ((srs_error_new at ERROR_SOCKET_TIMEOUT (''write timeout '' @ int_str (srsu2msi (stm s)) @ '' ms''), nb_write), s)
         else ((srs_error_new at ERROR_SOCKET_WRITE ''write'', nb_write), s))
      else ((None, nb_write), s\<lparr>sbytes := sbytes s + nb_write\<rparr>))"

definition sock_writev ::
  "err_site \<Rightarrow> byte list list st_writer \<Rightarrow> byte list list \<Rightarrow> st_socket \<Rightarrow> (srs_error_t \<times> int) \<times> st_socket" where
  "sock_writev at st_writev iov s =
     (let r = st_writev (sk_stfd s) iov (st_timeout (stm s)); nb_write = write_count r; at = with_errno r at in
      if nb_write \<le> 0 then
        (if nb_write < 0 \<and> at_errno at = ETIME
         then ((srs_error_new at ERROR_SOCKET_TIMEOUT (''writev timeout '' @ int_str (srsu2msi (stm s)) @ '' ms''), nb_write), s)
         else ((srs_error_new at ERROR_SOCKET_WRITE ''writev'', nb_write), s))
      else ((None, nb_write), s\<lparr>sbytes := sbytes s + nb_write\<rparr>))"

subsection \<open>\<open>SrsTcpClient\<close>\<close>

record tcp_client =
  tc_stfd :: "netfd option"
  tc_io :: "st_socket option"
  tc_host :: string
  tc_port :: int
  tc_timeout :: srs_utime_t

definition SrsTcpClient :: "string \<Rightarrow> int \<Rightarrow> srs_utime_t \<Rightarrow> tcp_client" where
  "SrsTcpClient h p tm = \<lparr>tc_stfd = None, tc_io = Some SrsStSocket, tc_host = h, tc_port = p, tc_timeout = tm\<rparr>"

definition tc_close :: "net_answers \<Rightarrow> tcp_client \<Rightarrow> net \<Rightarrow> (tcp_client \<times> net) outcome" where
  "tc_close a c n = (if tc_io c = None then Inr (c, n)
     else rbind (srs_close_stfd a (tc_stfd c) n) (\<lambda>(stfd, n). Inr (c\<lparr>tc_stfd := stfd\<rparr>, n)))"

text \<open>The destructor: close and free the socket object.\<close>

definition tc_delete :: "net_answers \<Rightarrow> tcp_client \<Rightarrow> net \<Rightarrow> (tcp_client \<times> net) outcome" where
  "tc_delete a c n = rbind (tc_close a c n) (\<lambda>(c, n). Inr (c\<lparr>tc_io := None\<rparr>, n))"

definition tc_to_io :: "(st_socket \<Rightarrow> 'a \<times> st_socket) \<Rightarrow> tcp_client \<Rightarrow> ('a \<times> tcp_client) outcome" where
  "tc_to_io f c = (case tc_io c of None \<Rightarrow> Inl Bad_access
     | Some s \<Rightarrow> (case f s of (v, s) \<Rightarrow> Inr (v, c\<lparr>tc_io := Some s\<rparr>)))"

definition tc_connect ::
  "err_site \<Rightarrow> net_answers \<Rightarrow> tcp_client \<Rightarrow> net \<Rightarrow> (srs_error_t \<times> tcp_client \<times> net) outcome" where
  "tc_connect at a c n =
     rbind (tc_close a c n) (\<lambda>(c, n).
     rbind (srs_assert (tc_stfd c = None)) (\<lambda>_.
     rbind (srs_tcp_connect at a (tc_host c) (tc_port c) (tc_timeout c) n) (\<lambda>(err, stfd, n).
     let c = c\<lparr>tc_stfd := stfd\<rparr> in
     if err \<noteq> None
     then Inr (srs_error_wrap at err (''tcp: connect '' @ c_str (tc_host c) @ '':'' @ int_str (tc_port c) @ '' to='' @
         int_str (srsu2msi (tc_timeout c)) @ ''ms''), c, n)
     else rbind (tc_to_io (sock_initialize (tc_stfd c)) c) (\<lambda>(err, c).
       if err \<noteq> None then Inr (srs_error_wrap at err ''tcp: init socket object'', c, n)
       else Inr (None, c, n)))))"

definition tc_bind_and_connect ::
  "err_site \<Rightarrow> net_answers \<Rightarrow> string \<Rightarrow> int \<Rightarrow> tcp_client \<Rightarrow> net \<Rightarrow> (srs_error_t \<times> tcp_client \<times> net) outcome" where
  "tc_bind_and_connect at a bindserver bindport c n =
     rbind (tc_close a c n) (\<lambda>(c, n).
     rbind (srs_assert (tc_stfd c = None)) (\<lambda>_.
     rbind (srs_tcp_bind_connect at a (tc_host c) (tc_port c) bindserver bindport (tc_timeout c) n) (\<lambda>(err, stfd, n).
     let c = c\<lparr>tc_stfd := stfd\<rparr> in
     if err \<noteq> None
     then Inr (srs_error_wrap at err (''tcp: connect '' @ c_str (tc_host c) @ '':'' @ int_str (tc_port c) @ '' to='' @
         int_str (srsu2msi (tc_timeout c)) @ ''ms  bind:['' @ c_str bindserver @ '':'' @ int_str bindport @ '']''), c, n)
     else rbind (tc_to_io (sock_initialize (tc_stfd c)) c) (\<lambda>(err, c).
       if err \<noteq> None then Inr (srs_error_wrap at err ''tcp: init socket object'', c, n)
       else Inr (None, c, n)))))"

text \<open>The rest forwards to the socket object.\<close>

definition tc_read ::
  "err_site \<Rightarrow> st_reader \<Rightarrow> nat \<Rightarrow> tcp_client \<Rightarrow> ((srs_error_t \<times> int \<times> byte list) \<times> tcp_client) outcome" where
  "tc_read at st_read nbyte = tc_to_io (sock_read at st_read nbyte)"

definition tc_read_fully ::
  "err_site \<Rightarrow> st_reader \<Rightarrow> nat \<Rightarrow> tcp_client \<Rightarrow> ((srs_error_t \<times> int \<times> byte list) \<times> tcp_client) outcome" where
  "tc_read_fully at st_read_fully nbyte = tc_to_io (sock_read_fully at st_read_fully nbyte)"

definition tc_write ::
  "err_site \<Rightarrow> byte list st_writer \<Rightarrow> byte list \<Rightarrow> tcp_client \<Rightarrow> ((srs_error_t \<times> int) \<times> tcp_client) outcome" where
  "tc_write at st_write buf = tc_to_io (sock_write at st_write buf)"

definition tc_writev ::
  "err_site \<Rightarrow> byte list list st_writer \<Rightarrow> byte list list \<Rightarrow> tcp_client \<Rightarrow> ((srs_error_t \<times> int) \<times> tcp_client) outcome" where
  "tc_writev at st_writev iov = tc_to_io (sock_writev at st_writev iov)"

definition tc_set_recv_timeout :: "srs_utime_t \<Rightarrow> tcp_client \<Rightarrow> (unit \<times> tcp_client) outcome" where
  "tc_set_recv_timeout tm = tc_to_io (\<lambda>s. ((), set_recv_timeout tm s))"

definition tc_set_send_timeout :: "srs_utime_t \<Rightarrow> tcp_client \<Rightarrow> (unit \<times> tcp_client) outcome" where
  "tc_set_send_timeout tm = tc_to_io (\<lambda>s. ((), set_send_timeout tm s))"

definition tc_get_recv_timeout :: "tcp_client \<Rightarrow> (srs_utime_t \<times> tcp_client) outcome" where
  "tc_get_recv_timeout = tc_to_io (\<lambda>s. (get_recv_timeout s, s))"

definition tc_get_send_timeout :: "tcp_client \<Rightarrow> (srs_utime_t \<times> tcp_client) outcome" where
  "tc_get_send_timeout = tc_to_io (\<lambda>s. (get_send_timeout s, s))"

definition tc_get_recv_bytes :: "tcp_client \<Rightarrow> (int \<times> tcp_client) outcome" where
  "tc_get_recv_bytes = tc_to_io (\<lambda>s. (get_recv_bytes s, s))"

definition tc_get_send_bytes :: "tcp_client \<Rightarrow> (int \<times> tcp_client) outcome" where
  "tc_get_send_bytes = tc_to_io (\<lambda>s. (get_send_bytes s, s))"

subsection \<open>The end of a connection\<close>

text \<open>
  The bytes of the reads that succeeded, and the error of a read at the end of the input.  What a
  sequence of reads receives is in theory Srs\_Socket\_Stream.
\<close>

definition counted :: "(srs_error_t \<times> int \<times> byte list) list \<Rightarrow> int" where
  "counted outs = (\<Sum>(err, nread, data)\<leftarrow>outs. if err = None then int (length data) else 0)"

lemma counted_simps [simp]:
  "counted [] = 0"
  "counted ((err, nread, data) # outs) = (if err = None then int (length data) else 0) + counted outs"
  by (simp_all add: counted_def)

definition peer_gone :: "srs_error_t \<Rightarrow> bool" where
  "peer_gone err \<longleftrightarrow> srs_is_client_gracefully_close err \<and> (\<exists>e. err = Some e \<and> err_rerrno (err_node e) = ECONNRESET)"

lemma peer_gone_new [simp]:
  "peer_gone (srs_error_new (at\<lparr>at_errno := ECONNRESET\<rparr>) ERROR_SOCKET_READ t)"
  "peer_gone (srs_error_new (at\<lparr>at_errno := ECONNRESET\<rparr>) ERROR_SOCKET_READ_FULLY t)"
  by (simp_all add: peer_gone_def srs_is_client_gracefully_close_def srs_error_new_def error_node_at_def
      srs_error_code_def)

lemma peer_gone_some:
  "srs_error_new (at\<lparr>at_errno := ECONNRESET\<rparr>) ERROR_SOCKET_READ t = Some e \<Longrightarrow> peer_gone (Some e)"
  "srs_error_new (at\<lparr>at_errno := ECONNRESET\<rparr>) ERROR_SOCKET_READ_FULLY t = Some e \<Longrightarrow> peer_gone (Some e)"
  using peer_gone_new by metis+

subsection \<open>What a writer sends\<close>

text \<open>\<open>st_write\<close> and \<open>st_writev\<close> send all bytes or fail with an errno.\<close>

datatype send_op = Send "byte list" "int option" | Sendv "byte list list" "int option"

definition stream_write :: "int option \<Rightarrow> ('a \<Rightarrow> nat) \<Rightarrow> 'a st_writer" where
  "stream_write e len = (\<lambda>_ buf _. case e of Some e \<Rightarrow> Inl e | None \<Rightarrow> Inr (len buf))"

fun send_bytes :: "send_op \<Rightarrow> byte list" where
  "send_bytes (Send buf _) = buf"
| "send_bytes (Sendv iov _) = concat iov"

fun send_errno :: "send_op \<Rightarrow> int option" where
  "send_errno (Send _ e) = e"
| "send_errno (Sendv _ e) = e"

fun send_step :: "err_site \<Rightarrow> send_op \<Rightarrow> st_socket \<Rightarrow> (srs_error_t \<times> int) \<times> st_socket" where
  "send_step at (Send buf e) s = sock_write at (stream_write e length) buf s"
| "send_step at (Sendv iov e) s = sock_writev at (stream_write e (\<lambda>v. length (concat v))) iov s"

fun send_run :: "err_site \<Rightarrow> send_op list \<Rightarrow> st_socket \<Rightarrow> srs_error_t list \<times> st_socket" where
  "send_run at [] s = ([], s)"
| "send_run at (opn # ops) s = (case send_step at opn s of ((err, nwrite), s) \<Rightarrow>
     case send_run at ops s of (errs, s) \<Rightarrow> (err # errs, s))"

definition send_code :: "send_op \<Rightarrow> int" where
  "send_code opn = (case send_errno opn of
       None \<Rightarrow> if send_bytes opn = [] then ERROR_SOCKET_WRITE else ERROR_SUCCESS
     | Some e \<Rightarrow> if e = ETIME then ERROR_SOCKET_TIMEOUT else ERROR_SOCKET_WRITE)"

lemma send_step_result:
  "case send_step at opn s of ((err, nwrite), s') \<Rightarrow> ends_with_code err (send_code opn) \<and>
     sbytes s' = sbytes s + (if send_errno opn = None then int (length (send_bytes opn)) else 0)"
  by (cases opn; cases "send_errno opn")
     (auto simp: sock_write_def sock_writev_def stream_write_def write_count_def with_errno_def Let_def send_code_def
       simp flip: length_concat split: if_splits)

text \<open>
  Any sequence of \<open>write\<close> and \<open>writev\<close>: each ends as the send did, a timeout is told from
  other failures, and \<open>get_send_bytes\<close> grows by exactly the bytes sent.  A write of no bytes is
  reported as a failed write, although \<open>st_write\<close> succeeded.
\<close>

theorem socket_counts_sent:
  "case send_run at ops s of (errs, s') \<Rightarrow>
     list_all2 ends_with_code errs (map send_code ops) \<and>
     get_send_bytes s' = get_send_bytes s +
       (\<Sum>opn\<leftarrow>ops. if send_errno opn = None then int (length (send_bytes opn)) else 0)"
proof (induction ops arbitrary: s)
  case (Cons opn ops)
  obtain err nwrite s1 where st: "send_step at opn s = ((err, nwrite), s1)" by (metis prod.exhaust)
  obtain errs s2 where "send_run at ops s1 = (errs, s2)" by fastforce
  with Cons.IH [of s1] send_step_result [where at = at and opn = opn and s = s] show ?case by (simp add: st get_send_bytes_def)
qed (simp add: get_send_bytes_def)

subsection \<open>A client owns at most one connection\<close>

fun tc_connects :: "err_site \<Rightarrow> net_answers list \<Rightarrow> tcp_client \<Rightarrow> net \<Rightarrow> (tcp_client \<times> net) outcome" where
  "tc_connects at [] c n = Inr (c, n)"
| "tc_connects at (a # as) c n = rbind (tc_connect at a c n) (\<lambda>(err, c, n). tc_connects at as c n)"

text \<open>Relative to the tables without the client: nothing else, or one socket and its object.\<close>

definition owns :: "net \<Rightarrow> tcp_client \<Rightarrow> net \<Rightarrow> bool" where
  "owns base c n \<longleftrightarrow> tc_io c \<noteq> None \<and> (case tc_stfd c of None \<Rightarrow> n = base
     | Some p \<Rightarrow> \<exists>fd s. fds base fd = None \<and> netfds base p = None \<and> n = with_fd fd s (with_netfd p fd base))"

lemma tc_close_owned:
  "owns base c n \<Longrightarrow> (\<And>p. tc_stfd c = Some p \<Longrightarrow> ans_close a p = 0) \<Longrightarrow> tc_close a c n = Inr (c\<lparr>tc_stfd := None\<rparr>, base)"
  by (cases "tc_stfd c") (auto simp: owns_def tc_close_def srs_close_stfd_def [of _ None])

lemma srs_tcp_connect_owned:
  assumes "fresh a base" and "\<And>p. ans_close a p = 0"
  shows "\<exists>err stfd n. srs_tcp_connect at a host port tm base = Inr (err, stfd, n) \<and> (err = None \<longleftrightarrow> stfd \<noteq> None) \<and>
    (case stfd of None \<Rightarrow> n = base
     | Some p \<Rightarrow> \<exists>fd s. fds base fd = None \<and> netfds base p = None \<and> n = with_fd fd s (with_netfd p fd base))"
  using assms fresh_open [OF assms(1)]
  by (auto simp: srs_tcp_connect_def sys_socket_fd open_socket_fd dest: fresh_socket simp del: not_None_eq
      split: option.split)

lemma tc_connect_owned:
  assumes "owns base c n" and "fresh a base" and "\<And>p. ans_close a p = 0"
  shows "\<exists>err c' n'. tc_connect at a c n = Inr (err, c', n') \<and> owns base c' n' \<and> (err = None \<longleftrightarrow> tc_stfd c' \<noteq> None) \<and>
    tc_host c' = tc_host c \<and> tc_port c' = tc_port c \<and>
    (if err = None then \<exists>io. tc_io c' = Some io \<and> sk_stfd io = tc_stfd c' else tc_io c' = tc_io c)"
proof -
  have close: "tc_close a c n = Inr (c\<lparr>tc_stfd := None\<rparr>, base)" using assms by (intro tc_close_owned)
  obtain io where io: "tc_io c = Some io" using assms(1) by (auto simp: owns_def)
  obtain err stfd n' where con: "srs_tcp_connect at a (tc_host c) (tc_port c) (tc_timeout c) base = Inr (err, stfd, n')"
    "err = None \<longleftrightarrow> stfd \<noteq> None"
    "case stfd of None \<Rightarrow> n' = base
     | Some p \<Rightarrow> \<exists>fd s. fds base fd = None \<and> netfds base p = None \<and> n' = with_fd fd s (with_netfd p fd base)"
    using srs_tcp_connect_owned [OF assms(2,3)] by blast
  show ?thesis
  proof (cases err)
    case None
    then show ?thesis using con io by (auto simp: tc_connect_def close Let_def tc_to_io_def sock_initialize_def owns_def)
  next
    case (Some e)
    then have "stfd = None" "n' = base" using con by auto
    then show ?thesis using con io Some by (auto simp: tc_connect_def close Let_def owns_def simp del: not_None_eq)
  qed
qed

lemma tc_connects_owned:
  "owns base c n \<Longrightarrow> list_all (\<lambda>a. fresh a base \<and> (\<forall>p. ans_close a p = 0)) as \<Longrightarrow>
   \<exists>c' n'. tc_connects at as c n = Inr (c', n') \<and> owns base c' n'"
proof (induction as arbitrary: c n)
  case (Cons a as)
  obtain err c1 n1 where "tc_connect at a c n = Inr (err, c1, n1)" "owns base c1 n1"
    using tc_connect_owned [OF Cons.prems(1), of a at] Cons.prems(2) by auto
  with Cons.IH [of c1 n1] Cons.prems(2) show ?case by simp
qed simp

text \<open>
  C32: However often a client connects, with any successes and failures, it never stops at an assertion, it
  holds at most one connection (each connect closes the one before), and its destructor gives back the
  tables as they were before: nothing leaks.  (Hypotheses: new numbers and addresses are not in use by
  others, and closing works.)
\<close>

theorem tcp_client_no_leak:
  assumes "list_all (\<lambda>a. fresh a base \<and> (\<forall>p. ans_close a p = 0)) (a # as)"
  shows "\<exists>c n c'. tc_connects at as (SrsTcpClient host port tm) base = Inr (c, n) \<and>
    (\<forall>fd. fds n fd \<noteq> fds base fd \<longrightarrow> (\<exists>p. tc_stfd c = Some p \<and> netfds n p = Some fd)) \<and>
    tc_delete a c n = Inr (c', base)"
proof -
  have "owns base (SrsTcpClient host port tm) base" by (simp add: owns_def SrsTcpClient_def)
  from tc_connects_owned [OF this, of as at] assms obtain c n where
    run: "tc_connects at as (SrsTcpClient host port tm) base = Inr (c, n)" "owns base c n" by auto
  moreover have "tc_close a c n = Inr (c\<lparr>tc_stfd := None\<rparr>, base)" using assms run by (intro tc_close_owned) simp_all
  moreover from run(2) have "fds n fd \<noteq> fds base fd \<Longrightarrow> \<exists>p. tc_stfd c = Some p \<and> netfds n p = Some fd" for fd
    by (auto simp: owns_def split: option.splits if_splits)
  ultimately show ?thesis by (simp add: tc_delete_def)
qed

lemma tcp_client_no_leak_witness:
  "\<exists>c n c'. tc_connects main_at [all_ok 3 1 (Sockaddr_in 0x901F 0), all_ok 3 2 (Sockaddr_in 0x901F 0)]
      (SrsTcpClient ''localhost'' 8080 9000000) no_net = Inr (c, n) \<and>
    tc_delete (all_ok 3 2 (Sockaddr_in 0x901F 0)) c n = Inr (c', no_net)"
  using tcp_client_no_leak [of no_net "all_ok 3 2 (Sockaddr_in 0x901F 0)"
      "[all_ok 3 1 (Sockaddr_in 0x901F 0), all_ok 3 2 (Sockaddr_in 0x901F 0)]" main_at "''localhost''" 8080 9000000]
  by auto

text \<open>
  After a successful connect, a connect that fails leaves the socket object on the closed descriptor
  object: its \<open>stfd\<close> is an address that is not in the table any more, so a later \<open>read\<close> of the client
  uses freed memory instead of failing.
\<close>

theorem failed_reconnect_leaves_stale_socket:
  assumes "fresh a base" "\<And>p. ans_close a p = 0" "fresh b base" "\<And>p. ans_close b p = 0"
    and "tc_connect at a (SrsTcpClient host port tm) base = Inr (None, c1, n1)"
    and "ans_getaddrinfo b (c_str host) (sport_text port) (AF_UNSPEC, SOCK_STREAM, 0) = None"
  shows "\<exists>e c2 n2 io p. tc_connect at b c1 n1 = Inr (Some e, c2, n2) \<and> tc_stfd c2 = None \<and>
    tc_io c2 = Some io \<and> sk_stfd io = Some p \<and> netfds n2 p = None"
proof -
  have "owns base (SrsTcpClient host port tm) base" by (simp add: owns_def SrsTcpClient_def)
  from tc_connect_owned [OF this assms(1,2), of at] assms(5) obtain io where
    c1: "owns base c1 n1" "tc_stfd c1 \<noteq> None" "tc_io c1 = Some io" "sk_stfd io = tc_stfd c1"
      "tc_host c1 = host" "tc_port c1 = port" by (auto simp: SrsTcpClient_def)
  have close: "tc_close b c1 n1 = Inr (c1\<lparr>tc_stfd := None\<rparr>, base)" using c1(1) assms(4) by (intro tc_close_owned)
  have "tc_connect at b c1 n1 = Inr (srs_error_wrap at (srs_error_new at ERROR_SYSTEM_IP_INVALID ''get address info'')
      (''tcp: connect '' @ c_str host @ '':'' @ int_str port @ '' to='' @ int_str (srsu2msi (tc_timeout c1)) @ ''ms''),
      c1\<lparr>tc_stfd := None\<rparr>, base)"
    using assms(6) c1 by (simp add: tc_connect_def close srs_tcp_connect_def Let_def)
  moreover obtain p where "tc_stfd c1 = Some p" "netfds base p = None" using c1(1,2) by (auto simp: owns_def)
  ultimately show ?thesis using c1 by (auto simp: srs_error_wrap_def)
qed

lemma failed_reconnect_leaves_stale_socket_witness:
  "\<exists>c1 n1 e c2 n2 io. tc_connect main_at (all_ok 3 1 (Sockaddr_in 0x901F 0)) (SrsTcpClient ''localhost'' 8080 9000000) no_net =
      Inr (None, c1, n1) \<and>
    tc_connect main_at ((all_ok 3 1 (Sockaddr_in 0x901F 0))\<lparr>ans_getaddrinfo := (\<lambda>_ _ _. None)\<rparr>) c1 n1 = Inr (Some e, c2, n2) \<and>
    tc_io c2 = Some io \<and> (\<exists>p. sk_stfd io = Some p \<and> netfds n2 p = None)"
proof -
  let ?a = "all_ok 3 1 (Sockaddr_in 0x901F 0)"
  let ?b = "?a\<lparr>ans_getaddrinfo := (\<lambda>_ _ _. None)\<rparr>"
  obtain c1 n1 where c1: "tc_connect main_at ?a (SrsTcpClient ''localhost'' 8080 9000000) no_net = Inr (None, c1, n1)"
    by (simp add: tc_connect_def tc_close_def SrsTcpClient_def srs_close_stfd_def [of _ None] srs_tcp_connect_def
        sys_socket_fd open_socket_fd tc_to_io_def sock_initialize_def Let_def)
  have "\<exists>e c2 n2 io p. tc_connect main_at ?b c1 n1 = Inr (Some e, c2, n2) \<and> tc_stfd c2 = None \<and>
    tc_io c2 = Some io \<and> sk_stfd io = Some p \<and> netfds n2 p = None"
    by (rule failed_reconnect_leaves_stale_socket [OF _ _ _ _ c1]) simp_all
  with c1 show ?thesis by blast
qed

end
