(* ===== verification/Srs_App_Listener.thy ===== *)
theory Srs_App_Listener
  imports Srs_App_Coroutine Srs_Service_Net
begin

section \<open>UDP and TCP listeners (core/srs_app_listener.cpp)\<close>

text \<open>
  A listener owns a listening descriptor object and a coroutine that serves it: the UDP listener
  receives packets and hands them to its handler, the TCP listener accepts connections.  The
  tables of descriptors are those of srs_service_st.cpp.  A cycle is a loop of rounds; what the
  coroutine, the network and the handler do in a round is an argument indexed by the round.
\<close>

subsection \<open>The interface of the listening calls\<close>

text \<open>
  What a listener relies on: a failing \<open>listen\<close> leaves the tables alone and at most clears
  \<open>*pfd\<close>; a successful one adds one socket with a new object.
\<close>

locale listening =
  fixes listen :: "net_answers \<Rightarrow> netfd option \<Rightarrow> net \<Rightarrow> srs_error_t \<times> netfd option \<times> net"
  assumes listen_fails: "fresh a n \<Longrightarrow> listen a pfd n = (Some e, pfd', n') \<Longrightarrow> n' = n \<and> (pfd' = pfd \<or> pfd' = None)"
    and listen_adds: "fresh a n \<Longrightarrow> listen a pfd n = (None, pfd', n') \<Longrightarrow>
      \<exists>p fd s. pfd' = Some p \<and> fds n fd = None \<and> netfds n p = None \<and> n' = with_fd fd s (with_netfd p fd n)"
begin

lemma close_after_listen:
  assumes "fresh a n" "listen a None n = (err, pfd, n')" "\<And>p. ans_close b p = 0"
  shows "srs_close_stfd b pfd n' = Inr (None, n)"
proof (cases err)
  case None
  with listen_adds [OF assms(1), of None] assms show ?thesis by auto
next
  case (Some e)
  with listen_fails [OF assms(1), of None] assms show ?thesis by (auto simp: srs_close_stfd_def)
qed

lemma second_listen_leaks:
  assumes "fresh a n" "listen a None n = (None, Some p, n1)"
    and "fresh b n1" "listen b (Some p) n1 = (None, Some q, n2)" "\<And>p. ans_close c p = 0"
  shows "q \<noteq> p \<and> srs_close_stfd c (Some q) n2 = Inr (None, n1) \<and> netfds n1 p \<noteq> None"
proof -
  have p: "netfds n1 p \<noteq> None" using listen_adds [OF assms(1,2)] by auto
  obtain fd s where q: "fds n1 fd = None" "netfds n1 q = None" "n2 = with_fd fd s (with_netfd q fd n1)"
    using listen_adds [OF assms(3,4)] by auto
  from p q(2) have "q \<noteq> p" by auto
  then show ?thesis using p q assms(5) by simp
qed

end

lemma listens_listening:
  assumes "fresh a n" "listens tcp a ip port pfd n (err, pfd', n')"
  shows "if err = None
    then \<exists>p fd s. pfd' = Some p \<and> fds n fd = None \<and> netfds n p = None \<and> n' = with_fd fd s (with_netfd p fd n)
    else n' = n \<and> (pfd' = pfd \<or> pfd' = None)"
  using assms(2) fresh_open [OF assms(1)]
  by (cases err) (auto simp: listens_def dest: fresh_socket [OF assms(1)] split: option.splits if_splits)

interpretation tcp: listening "\<lambda>a. srs_tcp_listen at a ip port" for at ip port
proof
  fix a n pfd pfd' n' e
  assume f: "fresh a n"
  show "srs_tcp_listen at a ip port pfd n = (Some e, pfd', n') \<Longrightarrow> n' = n \<and> (pfd' = pfd \<or> pfd' = None)"
    using srs_tcp_listen_listens [OF f, of ip port pfd at] listens_listening [OF f] by fastforce
  show "srs_tcp_listen at a ip port pfd n = (None, pfd', n') \<Longrightarrow>
    \<exists>p fd s. pfd' = Some p \<and> fds n fd = None \<and> netfds n p = None \<and> n' = with_fd fd s (with_netfd p fd n)"
    using srs_tcp_listen_listens [OF f, of ip port pfd at] listens_listening [OF f] by fastforce
qed

interpretation udp: listening "\<lambda>a. srs_udp_listen at a ip port" for at ip port
proof
  fix a n pfd pfd' n' e
  assume f: "fresh a n"
  show "srs_udp_listen at a ip port pfd n = (Some e, pfd', n') \<Longrightarrow> n' = n \<and> (pfd' = pfd \<or> pfd' = None)"
    using srs_udp_listen_listens [OF f, of ip port pfd at] listens_listening [OF f] by fastforce
  show "srs_udp_listen at a ip port pfd n = (None, pfd', n') \<Longrightarrow>
    \<exists>p fd s. pfd' = Some p \<and> fds n fd = None \<and> netfds n p = None \<and> n' = with_fd fd s (with_netfd p fd n)"
    using srs_udp_listen_listens [OF f, of ip port pfd at] listens_listening [OF f] by fastforce
qed

subsection \<open>The coroutine of a listener\<close>

text \<open>
  \<open>trd\<close> is a \<open>SrsDummyCoroutine\<close> until \<open>listen\<close> replaces it.  Freeing a coroutine runs its destructor,
  which stops it: when there is a worker, it waits in the join until the worker, described by
  \<open>worker\<close>, has exited.
\<close>

datatype listener_trd = Dummy_trd | St_trd coroutine

definition trd_pull :: "err_site \<Rightarrow> listener_trd \<Rightarrow> srs_error_t" where
  "trd_pull at t = (case t of Dummy_trd \<Rightarrow> dummy_pull at () | St_trd c \<Rightarrow> co_pull c)"

definition trd_free :: "err_site \<Rightarrow> (coroutine \<Rightarrow> coroutine) \<Rightarrow> listener_trd \<Rightarrow> unit outcome" where
  "trd_free at worker t = (case t of Dummy_trd \<Rightarrow> Inr ()
     | St_trd c \<Rightarrow> rbind (co_stop at c) (\<lambda>c.
         if stopping c then rbind (co_stop_joined at True (worker c)) (\<lambda>_. Inr ()) else Inr ()))"

subsection \<open>\<open>SrsUdpListener\<close>\<close>

definition SRS_UDP_MAX_PACKET_SIZE :: nat where "SRS_UDP_MAX_PACKET_SIZE = 65535"
definition SrsUdpPacketRecvCycleInterval :: srs_utime_t where "SrsUdpPacketRecvCycleInterval = 0"

record udp_listener =
  ul_lfd :: "netfd option"
  ul_trd :: listener_trd
  ul_cid :: SrsContextId
  ul_nb_buf :: nat
  ul_ip :: string
  ul_port :: int

definition SrsUdpListener :: "SrsContextId \<Rightarrow> string \<Rightarrow> int \<Rightarrow> udp_listener" where
  "SrsUdpListener new_id i p = \<lparr>ul_lfd = None, ul_trd = Dummy_trd, ul_cid = new_id,
     ul_nb_buf = SRS_UDP_MAX_PACKET_SIZE, ul_ip = i, ul_port = p\<rparr>"

definition ul_delete :: "err_site \<Rightarrow> net_answers \<Rightarrow> (coroutine \<Rightarrow> coroutine) \<Rightarrow> udp_listener \<Rightarrow> net \<Rightarrow> net outcome" where
  "ul_delete at a worker l n = rbind (trd_free at worker (ul_trd l)) (\<lambda>_.
     rbind (srs_close_stfd a (ul_lfd l) n) (\<lambda>(_, n). Inr n))"

definition lfd_fileno :: "netfd option \<Rightarrow> net \<Rightarrow> int outcome" where
  "lfd_fileno lfd n = (case lfd of None \<Rightarrow> Inl Bad_access | Some p \<Rightarrow> srs_netfd_fileno p n)"

definition ul_fd :: "udp_listener \<Rightarrow> net \<Rightarrow> int outcome" where "ul_fd l = lfd_fileno (ul_lfd l)"
definition ul_stfd :: "udp_listener \<Rightarrow> netfd option" where "ul_stfd l = ul_lfd l"

text \<open>
  \<open>q\<close> holds the answers to the four \<open>getsockopt\<close> calls, whose failures are ignored.  The result is
  the tables and the line for the log; a size that cannot be set is only warned about.
\<close>

definition set_socket_buffer ::
  "net_answers \<Rightarrow> int option \<times> int option \<times> int option \<times> int option \<Rightarrow> udp_listener \<Rightarrow> net \<Rightarrow> (string \<times> net) outcome" where
  "set_socket_buffer a q l n = rbind (ul_fd l n) (\<lambda>fd. case q of (q1, q2, q3, q4) \<Rightarrow>
     let value = (\<lambda>r v. case r of None \<Rightarrow> v | Some w \<Rightarrow> w);
         expect_sndbuf = 1024 * 1024 * 10;
         default_sndbuf = value q1 0;
         (ok_sndbuf, n) = sys_setopt a fd (SO_SNDBUF expect_sndbuf) n;
         r0_sndbuf = (if ok_sndbuf then 0 else - 1);
         actual_sndbuf = value q2 expect_sndbuf;
         expect_rcvbuf = 1024 * 1024 * 10;
         default_rcvbuf = value q3 0;
         (ok_rcvbuf, n) = sys_setopt a fd (SO_RCVBUF expect_rcvbuf) n;
         r0_rcvbuf = (if ok_rcvbuf then 0 else - 1);
         actual_rcvbuf = value q4 expect_rcvbuf;
         sizes = (\<lambda>d e v r. ''(default='' @ int_str d @ '', expect='' @ int_str e @ '', actual='' @ int_str v @
           '', r0='' @ int_str r @ '')'')
     in Inr (''UDP #'' @ int_str fd @ '' LISTEN at '' @ c_str (ul_ip l) @ '':'' @ int_str (ul_port l) @
          '', SO_SNDBUF'' @ sizes default_sndbuf expect_sndbuf actual_sndbuf r0_sndbuf @
          '', SO_RCVBUF'' @ sizes default_rcvbuf expect_rcvbuf actual_rcvbuf r0_rcvbuf, n))"

text \<open>
  \<open>created\<close> tells whether the thread could be created, \<open>worker\<close> is the worker of the coroutine that is
  replaced; \<open>set_stfd\<close> is the call of the handler on its state.
\<close>

definition ul_listen ::
  "err_site \<Rightarrow> net_answers \<Rightarrow> int option \<times> int option \<times> int option \<times> int option \<Rightarrow> bool \<Rightarrow> (coroutine \<Rightarrow> coroutine) \<Rightarrow>
   (netfd option \<Rightarrow> 'h \<Rightarrow> 'h) \<Rightarrow> udp_listener \<Rightarrow> 'h \<Rightarrow> net \<Rightarrow> (srs_error_t \<times> udp_listener \<times> 'h \<times> net) outcome" where
  "ul_listen at a q created worker set_stfd l h n =
     (case srs_udp_listen at a (ul_ip l) (ul_port l) (ul_lfd l) n of (err, lfd, n) \<Rightarrow>
      let l = l\<lparr>ul_lfd := lfd\<rparr> in
      if err \<noteq> None
      then Inr (srs_error_wrap at err (''listen '' @ c_str (ul_ip l) @ '':'' @ int_str (ul_port l)), l, h, n)
      else
        rbind (set_socket_buffer a q l n) (\<lambda>(trace, n).
        let h = set_stfd (ul_lfd l) h in
        rbind (trd_free at worker (ul_trd l)) (\<lambda>_.
        case co_start at created (SrsFastCoroutine_cid ''udp'' (ul_cid l)) of (err, c) \<Rightarrow>
          let l = l\<lparr>ul_trd := St_trd c\<rparr> in
          if err \<noteq> None then Inr (srs_error_wrap at err ''start thread'', l, h, n)
          else Inr (None, l, h, n))))"

subsection \<open>\<open>SrsTcpListener\<close>\<close>

record tcp_listener =
  tl_lfd :: "netfd option"
  tl_trd :: listener_trd
  tl_ip :: string
  tl_port :: int

definition SrsTcpListener :: "string \<Rightarrow> int \<Rightarrow> tcp_listener" where
  "SrsTcpListener i p = \<lparr>tl_lfd = None, tl_trd = Dummy_trd, tl_ip = i, tl_port = p\<rparr>"

definition tl_delete :: "err_site \<Rightarrow> net_answers \<Rightarrow> (coroutine \<Rightarrow> coroutine) \<Rightarrow> tcp_listener \<Rightarrow> net \<Rightarrow> net outcome" where
  "tl_delete at a worker l n = rbind (trd_free at worker (tl_trd l)) (\<lambda>_.
     rbind (srs_close_stfd a (tl_lfd l) n) (\<lambda>(_, n). Inr n))"

definition tl_fd :: "tcp_listener \<Rightarrow> net \<Rightarrow> int outcome" where "tl_fd l = lfd_fileno (tl_lfd l)"

definition tl_listen ::
  "err_site \<Rightarrow> net_answers \<Rightarrow> bool \<Rightarrow> (coroutine \<Rightarrow> coroutine) \<Rightarrow> tcp_listener \<Rightarrow> net \<Rightarrow>
   (srs_error_t \<times> tcp_listener \<times> net) outcome" where
  "tl_listen at a created worker l n =
     (case srs_tcp_listen at a (tl_ip l) (tl_port l) (tl_lfd l) n of (err, lfd, n) \<Rightarrow>
      let l = l\<lparr>tl_lfd := lfd\<rparr> in
      if err \<noteq> None
      then Inr (srs_error_wrap at err (''listen at '' @ c_str (tl_ip l) @ '':'' @ int_str (tl_port l)), l, n)
      else
        rbind (trd_free at worker (tl_trd l)) (\<lambda>_.
        case co_start at created (set_stack_size (2 ^ 18) (SrsFastCoroutine ''tcp'')) of (err, c) \<Rightarrow>
          let l = l\<lparr>tl_trd := St_trd c\<rparr> in
          if err \<noteq> None then Inr (srs_error_wrap at err ''start coroutine'', l, n)
          else Inr (None, l, n)))"

subsection \<open>The cycles\<close>

text \<open>A loop of rounds: a round ends the loop with a result or goes on with a new state.\<close>

partial_function (option) serve :: "(nat \<Rightarrow> 's \<Rightarrow> 'r + 's) \<Rightarrow> nat \<Rightarrow> 's \<Rightarrow> 'r option" where
  "serve step k s = (case step k s of Inl r \<Rightarrow> Some r | Inr s \<Rightarrow> serve step (Suc k) s)"

text \<open>
  One round of \<open>SrsUdpListener::cycle\<close>: \<open>recv k\<close> is an errno or a packet with the address of its
  sender; the handler sees the packets so far.
\<close>

type_synonym packet = "sockaddr \<times> byte list"

definition udp_round ::
  "err_site \<Rightarrow> (nat \<Rightarrow> coroutine) \<Rightarrow> (nat \<Rightarrow> int + packet) \<Rightarrow> (packet list \<Rightarrow> packet \<Rightarrow> srs_error_t) \<Rightarrow>
   nat \<Rightarrow> packet list \<Rightarrow> (srs_error_t \<times> packet list) + packet list" where
  "udp_round at co recv on_udp_packet k handed =
     (if co_pull (co k) \<noteq> None then Inl (srs_error_wrap at (co_pull (co k)) ''udp listener'', handed)
      else case recv k of
        Inl e \<Rightarrow> Inl (srs_error_new (at\<lparr>at_errno := e\<rparr>) ERROR_SOCKET_READ (''udp read, nread='' @ int_str (- 1)), handed)
      | Inr (addr, buf) \<Rightarrow>
         (let nread = int (length buf) in
          if nread \<le> 0 then Inl (srs_error_new at ERROR_SOCKET_READ (''udp read, nread='' @ int_str nread), handed)
          else
            let err = on_udp_packet handed (addr, buf); handed = handed @ [(addr, buf)] in
            if err \<noteq> None then Inl (srs_error_wrap at err (''handle packet '' @ int_str nread @ '' bytes''), handed)
            else Inr handed))"

definition udp_cycle ::
  "err_site \<Rightarrow> (nat \<Rightarrow> coroutine) \<Rightarrow> (nat \<Rightarrow> int + packet) \<Rightarrow> (packet list \<Rightarrow> packet \<Rightarrow> srs_error_t) \<Rightarrow>
   (srs_error_t \<times> packet list) option" where
  "udp_cycle at co recv on_udp_packet = serve (udp_round at co recv on_udp_packet) 0 []"

text \<open>
  One round of \<open>SrsTcpListener::cycle\<close>: \<open>accept k\<close> is a new descriptor with its object, or
  nothing.  The handler may change the tables (it owns the connection).  The state is the
  tables and the list of connections handed over.
\<close>

definition tcp_round ::
  "err_site \<Rightarrow> net_answers \<Rightarrow> tcp_listener \<Rightarrow> (nat \<Rightarrow> coroutine) \<Rightarrow> (nat \<Rightarrow> (int \<times> netfd) option) \<Rightarrow>
   (nat \<Rightarrow> netfd \<Rightarrow> net \<Rightarrow> srs_error_t \<times> net) \<Rightarrow> nat \<Rightarrow> net \<times> netfd list \<Rightarrow>
   (srs_error_t \<times> net \<times> netfd list) outcome + net \<times> netfd list" where
  "tcp_round at a l co accept on_tcp_client k st = (case st of (n, handed) \<Rightarrow>
     if co_pull (co k) \<noteq> None then Inl (Inr (srs_error_wrap at (co_pull (co k)) ''tcp listener'', n, handed))
     else case accept k of
       None \<Rightarrow> Inl (rbind (tl_fd l n) (\<lambda>lfd.
         Inr (srs_error_new at ERROR_SOCKET_ACCEPT (''accept at fd='' @ int_str lfd), n, handed)))
     | Some (osfd, fd) \<Rightarrow>
        (case srs_fd_closeexec at a osfd (with_fd osfd new_fd (with_netfd fd osfd n)) of
           (Some e, n) \<Rightarrow> Inl (Inr (srs_error_wrap at (Some e) ''set closeexec'', n, handed))
         | (None, n) \<Rightarrow>
            (case on_tcp_client k fd n of
               (Some e, n) \<Rightarrow> Inl (rbind (srs_netfd_fileno fd n) (\<lambda>no.
                 Inr (srs_error_wrap at (Some e) (''handle fd='' @ int_str no), n, handed @ [fd])))
             | (None, n) \<Rightarrow> Inr (n, handed @ [fd]))))"

definition tcp_cycle ::
  "err_site \<Rightarrow> net_answers \<Rightarrow> tcp_listener \<Rightarrow> (nat \<Rightarrow> coroutine) \<Rightarrow> (nat \<Rightarrow> (int \<times> netfd) option) \<Rightarrow>
   (nat \<Rightarrow> netfd \<Rightarrow> net \<Rightarrow> srs_error_t \<times> net) \<Rightarrow> net \<Rightarrow> (srs_error_t \<times> net \<times> netfd list) outcome option" where
  "tcp_cycle at a l co accept on_tcp_client n = serve (tcp_round at a l co accept on_tcp_client) 0 (n, [])"

subsection \<open>What a loop of rounds returns\<close>

lemma serve_step:
  "step k s = Inl r \<Longrightarrow> serve step k s = Some r"
  "step k s = Inr s' \<Longrightarrow> serve step k s = serve step (Suc k) s'"
  by (subst serve.simps, simp)+

lemma serve_prefix:
  "(\<And>k. k < n \<Longrightarrow> step k (s k) = Inr (s (Suc k))) \<Longrightarrow> serve step 0 (s 0) = serve step n (s n)"
  by (induction n) (simp_all add: serve_step(2))

lemma serve_until:
  "(\<And>k. k < n \<Longrightarrow> step k (s k) = Inr (s (Suc k))) \<Longrightarrow> step n (s n) = Inl r \<Longrightarrow> serve step 0 (s 0) = Some r"
  using serve_prefix [of n step s] by (simp add: serve_step(1))

lemma serve_stops:
  assumes "\<And>s. \<exists>r. step m s = Inl r" and "k \<le> m"
  shows "\<exists>j s' r. k \<le> j \<and> j \<le> m \<and> step j s' = Inl r \<and> serve step k s = Some r"
  using assms(2)
proof (induction "m - k" arbitrary: k s)
  case 0
  then have "k = m" by simp
  with assms(1) [of s] show ?case by (metis order_refl serve_step(1))
next
  case (Suc d)
  show ?case
  proof (cases "step k s")
    case (Inl r)
    then show ?thesis using Suc.prems by (metis order_refl serve_step(1))
  next
    case (Inr s1)
    have "\<exists>j s' r. Suc k \<le> j \<and> j \<le> m \<and> step j s' = Inl r \<and> serve step (Suc k) s1 = Some r"
      using Suc by (intro Suc.hyps(1)) auto
    then show ?thesis using Inr serve_step(2) [of step k s s1] by (metis Suc_leD)
  qed
qed

text \<open>
  C33: The UDP cycle hands every packet to the handler, in the order of arrival and each once, until
  a round ends it: the coroutine is stopped, the receive fails, the handler fails, or a packet is empty.
  The last is a way for any sender to end the listener: an empty datagram is valid, \<open>recvfrom\<close>
  answers 0 for it, and the cycle takes that for an error of the socket.
\<close>

theorem udp_cycle_delivers:
  assumes "\<And>k. k < n \<Longrightarrow> co_pull (co k) = None \<and> recv k = Inr (p k) \<and> snd (p k) \<noteq> [] \<and>
      on_udp_packet (map p [0..<k]) (p k) = None"
  shows "(co_pull (co n) \<noteq> None \<longrightarrow>
      udp_cycle at co recv on_udp_packet = Some (srs_error_wrap at (co_pull (co n)) ''udp listener'', map p [0..<n])) \<and>
    (co_pull (co n) = None \<and> recv n = Inl e \<longrightarrow>
      (\<exists>err. udp_cycle at co recv on_udp_packet = Some (err, map p [0..<n]) \<and> srs_error_code err = ERROR_SOCKET_READ)) \<and>
    (co_pull (co n) = None \<and> recv n = Inr (addr, []) \<longrightarrow>
      udp_cycle at co recv on_udp_packet = Some (srs_error_new at ERROR_SOCKET_READ ''udp read, nread=0'', map p [0..<n])) \<and>
    (co_pull (co n) = None \<and> recv n = Inr q \<and> snd q \<noteq> [] \<and> on_udp_packet (map p [0..<n]) q = Some e' \<longrightarrow>
      (\<exists>err. udp_cycle at co recv on_udp_packet = Some (err, map p [0..<n] @ [q]) \<and>
         srs_error_code err = srs_error_code (Some e')))"
proof -
  have "udp_round at co recv on_udp_packet k (map p [0..<k]) = Inr (map p [0..<Suc k])" if "k < n" for k
    using assms [OF that] by (cases "p k") (auto simp: udp_round_def Let_def)
  note pre = serve_prefix [of n "udp_round at co recv on_udp_packet" "\<lambda>k. map p [0..<k]", OF this]
  have cyc: "udp_cycle at co recv on_udp_packet = serve (udp_round at co recv on_udp_packet) n (map p [0..<n])"
    using pre by (simp add: udp_cycle_def)
  have zero: "int_str 0 = ''0''" by code_simp
  show ?thesis
    unfolding cyc
    by (cases q) (auto simp: udp_round_def Let_def zero simp del: upt_Suc intro!: serve_step(1))
qed

lemma udp_cycle_delivers_witness:
  "udp_cycle main_at (\<lambda>_. running_co) (\<lambda>k. Inr (Sockaddr_in 0x5000 1, if k = 0 then [7] else [])) (\<lambda>_ _. None) =
     Some (srs_error_new main_at ERROR_SOCKET_READ ''udp read, nread=0'', [(Sockaddr_in 0x5000 1, [7])])"
  using udp_cycle_delivers [where n = 1 and co = "\<lambda>_. running_co" and p = "\<lambda>_. (Sockaddr_in 0x5000 1, [7])"
      and recv = "\<lambda>k. Inr (Sockaddr_in 0x5000 1, if k = 0 then [7] else [])" and on_udp_packet = "\<lambda>_ _. None"
      and addr = "Sockaddr_in 0x5000 1" and at = main_at]
  by (simp add: running_co_def)

text \<open>
  C34: Both cycles end.  When the coroutine of a listener is interrupted at a round \<open>m\<close>, and all that happens
  to it are steps of coroutines, its cycle returns at the latest at the head of round \<open>m + 1\<close>, whatever
  the network and the handler do in between; then \<open>stop\<close> can join the worker.
\<close>

theorem listener_cycles_stop:
  assumes "co_reachable (co 0)" "\<And>k. co_steps (co k) (co (Suc k))"
    and "trd (co m) = Some Running" "co (Suc m) = co_interrupt at (co m)"
  shows "(\<exists>err handed. udp_cycle at' co recv on_udp_packet = Some (err, handed) \<and> err \<noteq> None) \<and>
    tcp_cycle at' a l co accept on_tcp_client n \<noteq> None"
proof -
  have rounds: "srs_coroutine.rounds co_inv co_steps co"
    using assms(1,2) co_reachable_inv by (simp add: fast.rounds_def)
  have ends: "co_pull (co (Suc m)) \<noteq> None"
    by (rule fast.interrupt_ends_rounds [OF rounds _ assms(4)]) (simp_all add: assms(3))
  have "\<exists>r. udp_round at' co recv on_udp_packet (Suc m) s = Inl r" for s
    using ends by (simp add: udp_round_def del: co_pull_failed)
  from serve_stops [where step = "udp_round at' co recv on_udp_packet", OF this, of 0 "[]"]
  obtain j s r where udp: "udp_round at' co recv on_udp_packet j s = Inl r"
    "serve (udp_round at' co recv on_udp_packet) 0 [] = Some r" by blast
  then have "fst r \<noteq> None"
    by (auto simp: udp_round_def Let_def simp del: co_pull_failed not_None_eq split: if_splits sum.splits)
  moreover have "\<exists>r. tcp_round at' a l co accept on_tcp_client (Suc m) s = Inl r" for s
    using ends by (cases s) (simp add: tcp_round_def del: co_pull_failed)
  from serve_stops [where step = "tcp_round at' a l co accept on_tcp_client", OF this, of 0 "(n, [])"]
  have "tcp_cycle at' a l co accept on_tcp_client n \<noteq> None" by (auto simp: tcp_cycle_def)
  ultimately show ?thesis using udp(2) by (cases r) (auto simp: udp_cycle_def)
qed

definition stopped_in_round_2 :: "nat \<Rightarrow> coroutine" where
  "stopped_in_round_2 k = (if k < 3 then running_co else co_interrupt main_at running_co)"

lemma listener_cycles_stop_witness:
  "\<exists>err handed. udp_cycle main_at stopped_in_round_2 (\<lambda>k. Inr (Sockaddr_in 0x5000 1, [7])) (\<lambda>_ _. None) = Some (err, handed) \<and>
     err \<noteq> None"
proof -
  have "co_steps (stopped_in_round_2 k) (stopped_in_round_2 (Suc k))" for k
    by (simp add: stopped_in_round_2_def co_steps_interrupt co_steps_refl)
  with listener_cycles_stop [where co = stopped_in_round_2 and m = 2 and at = main_at and at' = main_at
      and recv = "\<lambda>k. Inr (Sockaddr_in 0x5000 1, [7])" and on_udp_packet = "\<lambda>_ _. None"] running_co_reachable
  show ?thesis by (simp add: stopped_in_round_2_def running_co_def)
qed

text \<open>The connection as the handler gets it.\<close>

definition accepted_conn :: "net_answers \<Rightarrow> int \<Rightarrow> netfd \<Rightarrow> net \<Rightarrow> net" where
  "accepted_conn a osfd fd n = with_fd osfd (add_opt (closeexec_flags a osfd) new_fd) (with_netfd fd osfd n)"

text \<open>
  C35: The TCP cycle hands each accepted connection to the handler, once and in the order of acceptance,
  and each is open and close-on-exec when the handler gets it.  It ends when the coroutine is
  stopped, when \<open>accept\<close> fails, when the handler fails, or when close-on-exec cannot be set.  In the
  last case the accepted connection was not handed over, and it is not closed either: it stays
  in the tables with nobody to close it.
\<close>

theorem tcp_cycle_hands_over:
  assumes "N 0 = net0"
    and "\<And>k. k < n \<Longrightarrow> co_pull (co k) = None \<and> accept k = Some (osfd k, fd k) \<and>
      ans_setopt a (osfd k) (closeexec_flags a (osfd k)) \<and>
      on_tcp_client k (fd k) (accepted_conn a (osfd k) (fd k) (N k)) = (None, N (Suc k))"
  shows "(co_pull (co n) \<noteq> None \<longrightarrow> tcp_cycle at a l co accept on_tcp_client net0 =
      Some (Inr (srs_error_wrap at (co_pull (co n)) ''tcp listener'', N n, map fd [0..<n]))) \<and>
    (co_pull (co n) = None \<and> accept n = None \<and> tl_fd l (N n) = Inr lfd \<longrightarrow>
      (\<exists>err. tcp_cycle at a l co accept on_tcp_client net0 = Some (Inr (err, N n, map fd [0..<n])) \<and>
         srs_error_code err = ERROR_SOCKET_ACCEPT)) \<and>
    (co_pull (co n) = None \<and> accept n = Some (s, p) \<and> \<not> ans_setopt a s (closeexec_flags a s) \<longrightarrow>
      (\<exists>err. tcp_cycle at a l co accept on_tcp_client net0 =
           Some (Inr (err, with_fd s new_fd (with_netfd p s (N n)), map fd [0..<n])) \<and>
         srs_error_code err = ERROR_SOCKET_SETCLOSEEXEC)) \<and>
    (co_pull (co n) = None \<and> accept n = Some (s, p) \<and> ans_setopt a s (closeexec_flags a s) \<and>
       on_tcp_client n p (accepted_conn a s p (N n)) = (Some e, n') \<and> netfds n' p = Some s \<longrightarrow>
      (\<exists>err. tcp_cycle at a l co accept on_tcp_client net0 = Some (Inr (err, n', map fd [0..<n] @ [p])) \<and>
         srs_error_code err = srs_error_code (Some e)))"
proof -
  let ?step = "tcp_round at a l co accept on_tcp_client"
  have closeexec: "srs_fd_closeexec at a s (with_fd s new_fd (with_netfd p s m)) =
      (if ans_setopt a s (closeexec_flags a s) then (None, accepted_conn a s p m)
       else (srs_error_new at ERROR_SOCKET_SETCLOSEEXEC (''FD_CLOEXEC fd='' @ int_str s), with_fd s new_fd (with_netfd p s m)))"
    for s p m by (simp add: srs_fd_closeexec_def closeexec_flags_def accepted_conn_def Let_def)
  have "?step k (N k, map fd [0..<k]) = Inr (N (Suc k), map fd [0..<Suc k])" if "k < n" for k
    using assms(2) [OF that] by (simp add: tcp_round_def closeexec)
  from serve_prefix [of n ?step "\<lambda>k. (N k, map fd [0..<k])", OF this]
  have cyc: "tcp_cycle at a l co accept on_tcp_client net0 = serve ?step n (N n, map fd [0..<n])"
    by (simp add: tcp_cycle_def assms(1))
  have new: "(case srs_error_new at ERROR_SOCKET_SETCLOSEEXEC t of None \<Rightarrow> x | Some e \<Rightarrow> f e) =
      f (SrsCplxError (error_node_at at ERROR_SOCKET_SETCLOSEEXEC t) None)" for t x and f :: "SrsCplxError \<Rightarrow> 'z"
    by (simp add: srs_error_new_def)
  show ?thesis
    unfolding cyc
    by (auto simp: tcp_round_def closeexec new srs_netfd_fileno_def simp del: upt_Suc intro!: serve_step(1))
qed

lemma tcp_cycle_hands_over_witness:
  "\<exists>err. tcp_cycle main_at ((all_ok 3 1 (Sockaddr_in 0x901F 0))\<lparr>ans_setopt := (\<lambda>_ _. False)\<rparr>)
      (SrsTcpListener ''0.0.0.0'' 8080) (\<lambda>_. running_co) (\<lambda>k. Some (7, 8)) (\<lambda>_ _ n. (None, n)) no_net =
    Some (Inr (err, with_fd 7 new_fd (with_netfd 8 7 no_net), []))"
  using tcp_cycle_hands_over [where n = 0 and N = "\<lambda>_. no_net" and ?net0.0 = no_net and co = "\<lambda>_. running_co"
      and accept = "\<lambda>k. Some (7, 8)" and on_tcp_client = "\<lambda>_ _ n. (None, n)" and s = 7 and p = 8
      and a = "(all_ok 3 1 (Sockaddr_in 0x901F 0))\<lparr>ans_setopt := (\<lambda>_ _. False)\<rparr>" and at = main_at
      and l = "SrsTcpListener ''0.0.0.0'' 8080"]
  by (auto simp: running_co_def)

subsection \<open>The life of a listener\<close>

text \<open>The worker of a listener that is being stopped: it enters the cycle, which returns, as shown above.\<close>

definition worker_ends :: "err_site \<Rightarrow> SrsContextId \<Rightarrow> srs_error_t \<Rightarrow> coroutine \<Rightarrow> coroutine" where
  "worker_ends at i r c = co_cycle_return at r (co_enter i c)"

lemma trd_free_started:
  "trd_free at (worker_ends at' i r) (St_trd (snd (co_start at'' created (SrsFastCoroutine_cid t j)))) = Inr ()"
  "trd_free at (worker_ends at' i r) (St_trd (snd (co_start at'' created (set_stack_size v (SrsFastCoroutine t))))) = Inr ()"
  by (cases created; cases r; simp add: trd_free_def worker_ends_def co_op_defs SrsFastCoroutine_cid_def
      SrsFastCoroutine_def set_stack_size_def failed_def srs_error_new_def srs_error_copy_def srs_error_wrap_def
      del: trd_err_None)+

lemma set_socket_buffer_fd:
  "ul_lfd l = Some p \<Longrightarrow> netfds n p = Some fd \<Longrightarrow>
   \<exists>trace s'. set_socket_buffer a q l (with_fd fd s n) = Inr (trace, with_fd fd s' n)"
  by (cases q; cases "ans_setopt a fd (SO_SNDBUF (1024 * 1024 * 10))"; cases "ans_setopt a fd (SO_RCVBUF (1024 * 1024 * 10))")
     (simp_all add: set_socket_buffer_def ul_fd_def lfd_fileno_def srs_netfd_fileno_def Let_def)

text \<open>
  A listener gives back what it took.  Whatever the listen of a new listener answered, and also when its thread
  could not be created, the destructor (which stops and joins the worker and closes the descriptor)
  leaves the tables as they were before the listen.
\<close>

theorem listener_lifecycle:
  assumes "fresh a n" "\<And>p. ans_close b p = 0" "worker = worker_ends at' i r"
  shows "(case tl_listen at a created worker (SrsTcpListener ip port) n of Inl f \<Rightarrow> False
    | Inr (err, l, n') \<Rightarrow> tl_delete at b worker l n' = Inr n) \<and>
   (case ul_listen at a q created worker set_stfd (SrsUdpListener cid ip port) h n of Inl f \<Rightarrow> False
    | Inr (err, l, h', n') \<Rightarrow> ul_delete at b worker l n' = Inr n)"
proof
  obtain e lfd n1 where l: "srs_tcp_listen at a ip port None n = (e, lfd, n1)" by (metis prod_cases3)
  note close = tcp.close_after_listen [OF assms(1) l assms(2)]
  show "case tl_listen at a created worker (SrsTcpListener ip port) n of Inl f \<Rightarrow> False
    | Inr (err, l, n') \<Rightarrow> tl_delete at b worker l n' = Inr n"
    using close trd_free_started(2) [of at at' i r at created "2 ^ 18" "''tcp''"]
    by (cases e; cases "co_start at created (set_stack_size (2 ^ 18) (SrsFastCoroutine ''tcp''))")
       (auto simp: tl_listen_def tl_delete_def SrsTcpListener_def trd_free_def [of _ _ Dummy_trd] l Let_def assms(3))
next
  obtain e lfd n1 where l: "srs_udp_listen at a ip port None n = (e, lfd, n1)" by (metis prod_cases3)
  show "case ul_listen at a q created worker set_stfd (SrsUdpListener cid ip port) h n of Inl f \<Rightarrow> False
    | Inr (err, l, h', n') \<Rightarrow> ul_delete at b worker l n' = Inr n"
  proof (cases e)
    case (Some x)
    then show ?thesis
      using udp.close_after_listen [OF assms(1) l assms(2)]
      by (auto simp: ul_listen_def ul_delete_def SrsUdpListener_def trd_free_def l Let_def)
  next
    case None
    obtain p fd s where p: "lfd = Some p" "fds n fd = None" "netfds n p = None" "n1 = with_fd fd s (with_netfd p fd n)"
      using udp.listen_adds [OF assms(1)] l None by blast
    let ?l = "(SrsUdpListener cid ip port)\<lparr>ul_lfd := Some p\<rparr>"
    obtain trace s' where buf: "set_socket_buffer a q ?l n1 = Inr (trace, with_fd fd s' (with_netfd p fd n))"
      using set_socket_buffer_fd [of ?l p "with_netfd p fd n" fd a q s] by (auto simp: p)
    show ?thesis
      using p buf assms(2) trd_free_started(1) [of at at' i r at created "''udp''" cid]
      by (cases "co_start at created (SrsFastCoroutine_cid ''udp'' cid)")
         (auto simp: ul_listen_def ul_delete_def SrsUdpListener_def trd_free_def [of _ _ Dummy_trd] l None Let_def assms(3))
  qed
qed

lemma listener_lifecycle_witness:
  "\<exists>err l n'. tl_listen main_at (all_ok 3 2 (Sockaddr_in 0x901F 0)) True (worker_ends main_at ctx_none None)
      (SrsTcpListener ''0.0.0.0'' 8080) no_net = Inr (err, l, n') \<and>
    tl_delete main_at (all_ok 3 2 (Sockaddr_in 0x901F 0)) (worker_ends main_at ctx_none None) l n' = Inr no_net"
  using listener_lifecycle [where a = "all_ok 3 2 (Sockaddr_in 0x901F 0)" and b = "all_ok 3 2 (Sockaddr_in 0x901F 0)"
      and worker = "worker_ends main_at ctx_none None" and n = no_net and at = main_at and at' = main_at
      and i = ctx_none and r = None and created = True and ip = "''0.0.0.0''" and port = 8080
      and q = "(None, None, None, None)" and set_stfd = "\<lambda>_ h. h" and cid = ctx_none and h = "()"]
  by (auto split: sum.splits)

text \<open>A second \<open>listen\<close> does not close the descriptor of the first, which nobody can close any more.\<close>

theorem second_listen_leaks_the_first:
  assumes "fresh a n" "tl_listen at a created worker (SrsTcpListener ip port) n = Inr (None, l1, n1)"
    and "fresh b n1" "tl_listen at b created worker l1 n1 = Inr (None, l2, n2)" "\<And>p. ans_close c p = 0"
  shows "\<exists>p. tl_lfd l1 = Some p \<and> tl_lfd l2 \<noteq> Some p \<and> srs_close_stfd c (tl_lfd l2) n2 = Inr (None, n1) \<and> netfds n1 p \<noteq> None"
proof -
  obtain e lfd m where l: "srs_tcp_listen at a ip port None n = (e, lfd, m)" by (metis prod_cases3)
  then have 1: "e = None" "tl_lfd l1 = lfd" "m = n1" "tl_ip l1 = ip" "tl_port l1 = port"
    using assms(2) by (auto simp: tl_listen_def SrsTcpListener_def trd_free_def Let_def split: prod.splits if_splits)
  obtain p where p: "lfd = Some p" using tcp.listen_adds [OF assms(1)] l 1 by blast
  obtain e' lfd' m' where l': "srs_tcp_listen at b ip port (Some p) n1 = (e', lfd', m')" by (metis prod_cases3)
  then have 2: "e' = None" "tl_lfd l2 = lfd'" "m' = n2"
    using assms(4) 1 p by (auto simp: tl_listen_def Let_def split: prod.splits if_splits)
  obtain q where q: "lfd' = Some q" using tcp.listen_adds [OF assms(3)] l' 2 by blast
  have "q \<noteq> p \<and> srs_close_stfd c (Some q) n2 = Inr (None, n1) \<and> netfds n1 p \<noteq> None"
    using l l' 1 2 p q by (intro tcp.second_listen_leaks [OF assms(1) _ assms(3) _ assms(5)]) auto
  then show ?thesis using 1 2 p q by auto
qed

end
