(* ===== verification/Srs_App_Mux.thy ===== *)
theory Srs_App_Mux
  imports Srs_Kernel_Buffer Srs_Service_Socket
begin

unbundle bit_operations_syntax

section \<open>The UDP socket of many peers (core/srs_app_listener.cpp)\<close>

text \<open>
  \<open>SrsUdpMuxSocket\<close> receives packets of any sender on one descriptor into one buffer and
  identifies the sender of the last packet, by text (\<open>peer_id\<close>, with a cache of formatted
  addresses) and by number (\<open>fast_id\<close>).  The buffer lives in a byte heap, because the cache
  buffer handed to the users is a cursor into it.  \<open>from\<close> and \<open>local_port_\<close> are not initialised
  by the constructor: they are \<open>None\<close> until they are set, and reading them then is a fault.
\<close>

subsection \<open>Addresses\<close>

definition htons :: "16 word \<Rightarrow> 16 word" where
  "htons w = push_bit 8 w OR drop_bit 8 w"

definition ntohs :: "16 word \<Rightarrow> 16 word" where
  "ntohs w = push_bit 8 w OR drop_bit 8 w"

text \<open>The four bytes of an address in memory, lowest first.\<close>

definition inet_ntoa :: "u32 \<Rightarrow> string" where
  "inet_ntoa a = (let octet = (\<lambda>i. nat_str (unat (drop_bit (8 * i) a AND 0xFF))) in
     octet 0 @ ''.'' @ octet 1 @ ''.'' @ octet 2 @ ''.'' @ octet 3)"

definition sockaddr_size :: "sockaddr \<Rightarrow> int" where
  "sockaddr_size s = (case s of Sockaddr_in _ _ \<Rightarrow> 16 | Sockaddr_other _ bs \<Rightarrow> 2 + int (length bs))"

definition sizeof_sockaddr_storage :: int where "sizeof_sockaddr_storage = 128"

subsection \<open>The socket\<close>

record mux_socket =
  nn_msgs_for_yield :: u32
  mux_cache :: "u32 \<rightharpoonup> string"
  cache_buffer :: srs_buffer
  mux_buf :: int
  mux_nb_buf :: int
  mux_nread :: int
  mux_lfd :: "netfd option"
  mux_from :: "sockaddr option"
  mux_fromlen :: int
  mux_peer_ip :: string
  mux_peer_port :: int
  mux_local_port :: "int option"
  mux_peer_id :: string
  address_changed :: bool
  mux_fast_id :: "64 word"

text \<open>\<open>buf\<close> is the address that \<open>new char[nb_buf]\<close> returned.\<close>

definition MUX_MAX_PACKET_SIZE :: int where "MUX_MAX_PACKET_SIZE = 65535"

definition SrsUdpMuxSocket :: "int \<Rightarrow> netfd option \<Rightarrow> mux_socket" where
  "SrsUdpMuxSocket buf fd = \<lparr>nn_msgs_for_yield = 0, mux_cache = Map.empty,
     cache_buffer = SrsBuffer buf MUX_MAX_PACKET_SIZE, mux_buf = buf, mux_nb_buf = MUX_MAX_PACKET_SIZE,
     mux_nread = 0, mux_lfd = fd, mux_from = None, mux_fromlen = 0, mux_peer_ip = [], mux_peer_port = 0,
     mux_local_port = None, mux_peer_id = [], address_changed = False, mux_fast_id = 0\<rparr>"

text \<open>Freeing an array of \<open>n\<close> bytes; the destructor frees the buffer.\<close>

definition heap_free :: "int \<Rightarrow> int \<Rightarrow> heap \<Rightarrow> heap" where
  "heap_free a n h = (\<lambda>x. if a \<noteq> 0 \<and> a \<le> x \<and> x < a + n then None else h x)"

definition mux_delete :: "mux_socket \<Rightarrow> heap \<Rightarrow> heap" where
  "mux_delete m h = heap_free (mux_buf m) (mux_nb_buf m) h"

text \<open>\<open>inet_addr\<close> is the conversion of the C library.\<close>

definition update_from_sockaddr :: "(string \<Rightarrow> u32) \<Rightarrow> string \<Rightarrow> int \<Rightarrow> mux_socket \<Rightarrow> srs_error_t \<times> mux_socket" where
  "update_from_sockaddr inet_addr ip port m =
     (None, m\<lparr>mux_from := Some (Sockaddr_in (htons (word_of_int port)) (inet_addr (c_str ip))),
        mux_fromlen := 16, address_changed := True\<rparr>)"

definition health_check :: "heap \<Rightarrow> int \<Rightarrow> int \<Rightarrow> bool" where
  "health_check h buf nread \<longleftrightarrow> nread = 21 \<and> h buf = Some 0x48 \<and> h (buf + 1) = Some 0x65 \<and>
     h (buf + 2) = Some 0x61 \<and> h (buf + 3) = Some 0x6C \<and> h (buf + 19) = Some 0x63 \<and> h (buf + 20) = Some 0x6B"

definition fast_id_of :: "16 word \<Rightarrow> u32 \<Rightarrow> 64 word" where
  "fast_id_of port addr = push_bit 48 (ucast port) OR ucast addr"

text \<open>
  The answer of \<open>srs_recvfrom\<close> is an errno, or the sender and the bytes it stored in \<open>buf\<close>, at
  most \<open>nb_buf\<close>.  The result is the return value, the heap and the socket.
\<close>

definition mux_recvfrom :: "int + sockaddr \<times> byte list \<Rightarrow> heap \<Rightarrow> mux_socket \<Rightarrow> (int \<times> heap \<times> mux_socket) outcome" where
  "mux_recvfrom ans h m =
     (let m = m\<lparr>mux_fromlen := sizeof_sockaddr_storage\<rparr> in
      case ans of
        Inl _ \<Rightarrow> Inr (- 1, h, m\<lparr>mux_nread := - 1\<rparr>)
      | Inr (addr, pkt) \<Rightarrow>
          rbind (put_bytes h (SrsBuffer (mux_buf m) (mux_nb_buf m)) (take (nat (mux_nb_buf m)) pkt)) (\<lambda>(h, _).
          let nread = int (length (take (nat (mux_nb_buf m)) pkt));
              m = m\<lparr>mux_nread := nread, mux_from := Some addr, mux_fromlen := sockaddr_size addr\<rparr>
          in if nread \<le> 0 then Inr (nread, h, m)
             else
               let b = set_size nread (cache_buffer m) in
               rbind (skip (- 1 * buffer_pos b) b) (\<lambda>b.
               let m = m\<lparr>cache_buffer := b\<rparr> in
               if health_check h (mux_buf m) nread then Inr (0, h, m)
               else
                 let m = (case addr of Sockaddr_in port a \<Rightarrow> m\<lparr>mux_fast_id := fast_id_of port a\<rparr> | _ \<Rightarrow> m)
                 in Inr (nread, h, m\<lparr>address_changed := True\<rparr>))))"

text \<open>\<open>st_sendto\<close> answers an errno or a count; the flag tells whether the coroutine yielded.\<close>

definition mux_sendto ::
  "err_site \<Rightarrow> (netfd option \<Rightarrow> sockaddr option \<Rightarrow> int \<Rightarrow> byte list \<Rightarrow> int + nat) \<Rightarrow> byte list \<Rightarrow> srs_utime_t \<Rightarrow>
   mux_socket \<Rightarrow> srs_error_t \<times> bool \<times> mux_socket" where
  "mux_sendto at st_sendto buf timeout m =
     (let r = st_sendto (mux_lfd m) (mux_from m) (mux_fromlen m) buf; nb_write = write_count r; at = with_errno r at in
      if nb_write \<le> 0 then
        (if nb_write < 0 \<and> at_errno at = ETIME
         then (srs_error_new at ERROR_SOCKET_TIMEOUT (''sendto timeout '' @ int_str (srsu2msi timeout) @ '' ms''), False, m)
         else (srs_error_new at ERROR_SOCKET_WRITE ''sendto'', False, m))
      else
        let m = m\<lparr>nn_msgs_for_yield := nn_msgs_for_yield m + 1\<rparr> in
        if nn_msgs_for_yield m > 20 then (None, True, m\<lparr>nn_msgs_for_yield := 0\<rparr>)
        else (None, False, m))"

text \<open>
  \<open>peer_id\<close>.  \<open>getnameinfo\<close> gives host and service as text for other families.  The id is
  formatted into a static buffer of 128 bytes and copied with the length that \<open>snprintf\<close>
  returns, which is the length of the whole text.
\<close>

definition mux_format_id :: "mux_socket \<Rightarrow> (string \<times> mux_socket) outcome" where
  "mux_format_id m =
     (let t = c_str (mux_peer_ip m) @ '':'' @ int_str (mux_peer_port m) in
      if length t \<le> 128
      then let id_buf = snprintf_text 128 t @ (if length t = 128 then [NUL] else [])
           in Inr (id_buf, m\<lparr>mux_peer_id := id_buf\<rparr>)
      else Inl Bad_access)"

definition peer_id ::
  "(sockaddr \<Rightarrow> int \<Rightarrow> (string \<times> string) option) \<Rightarrow> mux_socket \<Rightarrow> (string \<times> mux_socket) outcome" where
  "peer_id getnameinfo m =
     (if \<not> address_changed m then Inr (mux_peer_id m, m)
      else
        let m = m\<lparr>address_changed := False\<rparr> in
        case mux_from m of
          None \<Rightarrow> Inl Bad_access
        | Some (Sockaddr_in port a) \<Rightarrow>
            let m = (case mux_cache m a of
                  None \<Rightarrow> m\<lparr>mux_peer_ip := inet_ntoa a, mux_cache := (mux_cache m)(a \<mapsto> inet_ntoa a)\<rparr>
                | Some t \<Rightarrow> m\<lparr>mux_peer_ip := t\<rparr>);
                m = m\<lparr>mux_peer_port := uint (ntohs port)\<rparr>
            in mux_format_id m
        | Some other \<Rightarrow>
            (case getnameinfo other (mux_fromlen m) of
               None \<Rightarrow> Inr ([], m)
             | Some (address_string, port_string) \<Rightarrow>
                 mux_format_id (m\<lparr>mux_peer_ip := address_string, mux_peer_port := atoi port_string\<rparr>)))"

definition mux_data :: "mux_socket \<Rightarrow> int" where "mux_data m = mux_buf m"
definition mux_size :: "mux_socket \<Rightarrow> int" where "mux_size m = mux_nread m"
definition mux_stfd :: "mux_socket \<Rightarrow> netfd option" where "mux_stfd m = mux_lfd m"
definition peer_addrlen :: "mux_socket \<Rightarrow> int" where "peer_addrlen m = mux_fromlen m"
definition get_peer_ip :: "mux_socket \<Rightarrow> string" where "get_peer_ip m = mux_peer_ip m"
definition get_peer_port :: "mux_socket \<Rightarrow> int" where "get_peer_port m = mux_peer_port m"
definition get_fast_id :: "mux_socket \<Rightarrow> 64 word" where "get_fast_id m = mux_fast_id m"
definition mux_buffer :: "mux_socket \<Rightarrow> srs_buffer" where "mux_buffer m = cache_buffer m"

definition get_local_port :: "mux_socket \<Rightarrow> int outcome" where
  "get_local_port m = (case mux_local_port m of None \<Rightarrow> Inl Bad_access | Some p \<Rightarrow> Inr p)"

definition set_local_port :: "int \<Rightarrow> mux_socket \<Rightarrow> mux_socket" where
  "set_local_port port m = m\<lparr>mux_local_port := Some port\<rparr>"

text \<open>
  The copy allocates a buffer at \<open>buf\<close> and frees it again.  Its cache buffer was built on that
  buffer and is not replaced.
\<close>

definition copy_sendonly :: "int \<Rightarrow> mux_socket \<Rightarrow> heap \<Rightarrow> mux_socket \<times> heap" where
  "copy_sendonly buf m h =
     (let s = SrsUdpMuxSocket buf (mux_lfd m); h = heap_free buf MUX_MAX_PACKET_SIZE h in
      (s\<lparr>mux_buf := 0, mux_nb_buf := 0, mux_nread := 0, mux_lfd := mux_lfd m, mux_from := mux_from m,
         mux_fromlen := mux_fromlen m, mux_peer_ip := mux_peer_ip m, mux_peer_port := mux_peer_port m,
         mux_peer_id := mux_peer_id m, mux_fast_id := mux_fast_id m, address_changed := address_changed m\<rparr>, h))"

subsection \<open>The invariant\<close>

definition allocated :: "heap \<Rightarrow> int \<Rightarrow> int \<Rightarrow> bool" where
  "allocated h a n \<longleftrightarrow> (\<forall>x. a \<le> x \<and> x < a + n \<longrightarrow> h x \<noteq> None)"

text \<open>
  The cache buffer is a cursor inside the packet buffer, the address cache holds what
  \<open>inet_ntoa\<close> gives, the count of messages stays below the limit.
\<close>

definition mux_inv :: "heap \<Rightarrow> mux_socket \<Rightarrow> bool" where
  "mux_inv h m \<longleftrightarrow> 0 < mux_buf m \<and> mux_nb_buf m = MUX_MAX_PACKET_SIZE \<and> allocated h (mux_buf m) MUX_MAX_PACKET_SIZE \<and>
     buf_bytes (cache_buffer m) = mux_buf m \<and> 0 \<le> nb_bytes (cache_buffer m) \<and> nb_bytes (cache_buffer m) \<le> MUX_MAX_PACKET_SIZE \<and>
     mux_buf m \<le> buf_p (cache_buffer m) \<and> buf_p (cache_buffer m) \<le> mux_buf m + nb_bytes (cache_buffer m) \<and>
     (\<forall>a t. mux_cache m a = Some t \<longrightarrow> t = inet_ntoa a) \<and> nn_msgs_for_yield m \<le> 20 \<and>
     (address_changed m \<longrightarrow> mux_from m \<noteq> None)"

datatype mux_event =
    Mux_recv "int + sockaddr \<times> byte list"
  | Mux_update string int
  | Mux_peer_id
  | Mux_send "int + nat"
  | Mux_consume int

text \<open>\<open>Mux_consume\<close> is a user of the cache buffer that moves its cursor, where that is possible.\<close>

fun mux_step ::
  "(sockaddr \<Rightarrow> int \<Rightarrow> (string \<times> string) option) \<Rightarrow> (string \<Rightarrow> u32) \<Rightarrow> mux_event \<Rightarrow> heap \<times> mux_socket \<Rightarrow> (heap \<times> mux_socket) outcome" where
  "mux_step gni ia (Mux_recv ans) (h, m) = rbind (mux_recvfrom ans h m) (\<lambda>(_, h, m). Inr (h, m))"
| "mux_step gni ia (Mux_update ip port) (h, m) = Inr (h, snd (update_from_sockaddr ia ip port m))"
| "mux_step gni ia Mux_peer_id (h, m) = rbind (peer_id gni m) (\<lambda>(_, m). Inr (h, m))"
| "mux_step gni ia (Mux_send r) (h, m) = Inr (h, snd (snd (mux_sendto main_at (\<lambda>_ _ _ _. r) [] 0 m)))"
| "mux_step gni ia (Mux_consume k) (h, m) = (case skip k (cache_buffer m) of
     Inl _ \<Rightarrow> Inr (h, m) | Inr b \<Rightarrow> Inr (h, m\<lparr>cache_buffer := b\<rparr>))"

fun mux_run ::
  "(sockaddr \<Rightarrow> int \<Rightarrow> (string \<times> string) option) \<Rightarrow> (string \<Rightarrow> u32) \<Rightarrow> mux_event list \<Rightarrow> heap \<times> mux_socket \<Rightarrow> (heap \<times> mux_socket) outcome" where
  "mux_run gni ia [] s = Inr s"
| "mux_run gni ia (e # es) s = rbind (mux_step gni ia e s) (mux_run gni ia es)"

text \<open>What \<open>getnameinfo\<close> writes into its buffers: at most 63 characters and the number of a port.\<close>

definition names_short :: "(sockaddr \<Rightarrow> int \<Rightarrow> (string \<times> string) option) \<Rightarrow> bool" where
  "names_short gni \<longleftrightarrow> (\<forall>s l a p. gni s l = Some (a, p) \<longrightarrow> length a < 64 \<and> 0 \<le> atoi p \<and> atoi p < 65536)"

lemma length_port_text: "0 \<le> k \<Longrightarrow> k < 65536 \<Longrightarrow> length (int_str k) \<le> 5"
  using length_nat_str [of 5 "nat k"] by (simp add: int_str_def)

lemma length_octet: "length (nat_str (unat (w AND 0xFF :: u32))) \<le> 3"
proof -
  have "w AND 0xFF \<le> 0xFF" by (rule word_and_le1)
  then have "unat (w AND 0xFF) \<le> 255" by (simp add: word_le_nat_alt)
  then show ?thesis using length_nat_str [of 3] by simp
qed

lemma length_inet_ntoa: "length (inet_ntoa a) \<le> 15"
  using length_octet [of a] length_octet [of "drop_bit 8 a"] length_octet [of "drop_bit 16 a"] length_octet [of "drop_bit 24 a"]
  by (simp add: inet_ntoa_def Let_def)

lemma NUL_inet_ntoa [simp]: "NUL \<notin> set (inet_ntoa a)"
  by (simp add: inet_ntoa_def Let_def)

definition id_text :: "string \<Rightarrow> int \<Rightarrow> string" where
  "id_text ip port = ip @ '':'' @ int_str port"

lemma mux_format_id_short:
  assumes "length (mux_peer_ip m) < 64" "0 \<le> mux_peer_port m" "mux_peer_port m < 65536"
  shows "mux_format_id m = Inr (id_text (c_str (mux_peer_ip m)) (mux_peer_port m),
    m\<lparr>mux_peer_id := id_text (c_str (mux_peer_ip m)) (mux_peer_port m)\<rparr>)"
proof -
  have "length (c_str (mux_peer_ip m)) \<le> length (mux_peer_ip m)"
    unfolding c_str_def by (rule length_takeWhile_le)
  then have "length (id_text (c_str (mux_peer_ip m)) (mux_peer_port m)) < 128"
    using assms length_port_text [of "mux_peer_port m"] by (simp add: id_text_def)
  moreover have "NUL \<notin> set (id_text (c_str (mux_peer_ip m)) (mux_peer_port m))" by (simp add: id_text_def)
  moreover have "c_str (mux_peer_ip m) @ '':'' @ int_str (mux_peer_port m) = id_text (c_str (mux_peer_ip m)) (mux_peer_port m)"
    by (simp only: id_text_def)
  ultimately show ?thesis unfolding mux_format_id_def Let_def by (simp only:) simp
qed

lemma peer_id_ipv4:
  assumes "address_changed m" "mux_from m = Some (Sockaddr_in port a)" "\<And>t. mux_cache m a = Some t \<Longrightarrow> t = inet_ntoa a"
  shows "peer_id gni m = Inr (id_text (inet_ntoa a) (uint (ntohs port)),
    m\<lparr>address_changed := False, mux_cache := (mux_cache m)(a \<mapsto> inet_ntoa a), mux_peer_ip := inet_ntoa a,
      mux_peer_port := uint (ntohs port), mux_peer_id := id_text (inet_ntoa a) (uint (ntohs port))\<rparr>)"
proof -
  have port: "uint (ntohs port) < 65536" using uint_bounded [of "ntohs port"] by simp
  have ip: "length (inet_ntoa a) < 64" using length_inet_ntoa [of a] by simp
  show ?thesis
  proof (cases "mux_cache m a")
    case None
    then show ?thesis using assms port ip by (simp add: peer_id_def Let_def mux_format_id_short)
  next
    case (Some t)
    then have "(mux_cache m)(a \<mapsto> inet_ntoa a) = mux_cache m" using assms(3) by (auto simp: fun_upd_idem)
    then show ?thesis using assms port ip Some by (simp add: peer_id_def Let_def mux_format_id_short)
  qed
qed

lemma peer_id_total:
  assumes "mux_inv h m" "names_short gni"
  shows "\<exists>t m'. peer_id gni m = Inr (t, m') \<and> mux_inv h m'"
proof (cases "address_changed m")
  case False
  then show ?thesis using assms by (simp add: peer_id_def)
next
  case True
  then obtain s where s: "mux_from m = Some s" using assms(1) by (auto simp: mux_inv_def)
  show ?thesis
  proof (cases s)
    case (Sockaddr_in port a)
    then show ?thesis
      using peer_id_ipv4 [OF True, of port a gni] assms(1) s by (simp add: mux_inv_def)
  next
    case (Sockaddr_other fam bs)
    show ?thesis
    proof (cases "gni s (mux_fromlen m)")
      case None
      then show ?thesis using True s Sockaddr_other assms(1) by (simp add: peer_id_def Let_def mux_inv_def)
    next
      case (Some q)
      then obtain ip pt where q: "gni s (mux_fromlen m) = Some (ip, pt)" by (cases q) auto
      with assms(2) have "length ip < 64" "0 \<le> atoi pt" "atoi pt < 65536" by (auto simp: names_short_def)
      with True s Sockaddr_other q assms(1) show ?thesis
        by (simp add: peer_id_def Let_def mux_inv_def mux_format_id_short)
    qed
  qed
qed

text \<open>What one receive does.\<close>

definition health_packet :: "byte list \<Rightarrow> bool" where
  "health_packet pkt \<longleftrightarrow> length pkt = 21 \<and> pkt ! 0 = 0x48 \<and> pkt ! 1 = 0x65 \<and> pkt ! 2 = 0x61 \<and> pkt ! 3 = 0x6C \<and>
     pkt ! 19 = 0x63 \<and> pkt ! 20 = 0x6B"

lemma heap_write_nth: "i < length vs \<Longrightarrow> heap_write h a vs (a + int i) = Some (vs ! i)"
proof (induction vs arbitrary: h a i)
  case (Cons v vs)
  show ?case
  proof (cases i)
    case 0
    then show ?thesis by (simp add: heap_write_other)
  next
    case (Suc j)
    then show ?thesis using Cons.prems by (simp add: Cons.IH [where a = "a + 1", unfolded add.assoc])
  qed
qed simp

lemma health_check_packet: "health_check (heap_write h a pkt) a (int (length pkt)) \<longleftrightarrow> health_packet pkt"
proof (cases "length pkt = 21")
  case True
  then show ?thesis
    using heap_write_nth [of 0 pkt h a] heap_write_nth [of 1 pkt h a] heap_write_nth [of 2 pkt h a]
      heap_write_nth [of 3 pkt h a] heap_write_nth [of 19 pkt h a] heap_write_nth [of 20 pkt h a]
    by (simp add: health_check_def health_packet_def)
qed (simp add: health_check_def health_packet_def)

text \<open>The socket with the packet stored and the cache buffer reset to it.\<close>

definition mux_received :: "sockaddr \<Rightarrow> byte list \<Rightarrow> mux_socket \<Rightarrow> mux_socket" where
  "mux_received addr pkt m = m\<lparr>mux_fromlen := sockaddr_size addr, mux_nread := int (length pkt), mux_from := Some addr,
     cache_buffer := SrsBuffer (mux_buf m) (int (length pkt))\<rparr>"

definition mux_identified :: "sockaddr \<Rightarrow> mux_socket \<Rightarrow> mux_socket" where
  "mux_identified addr m = m\<lparr>address_changed := True,
     mux_fast_id := (case addr of Sockaddr_in port a \<Rightarrow> fast_id_of port a | _ \<Rightarrow> mux_fast_id m)\<rparr>"

lemma mux_recvfrom_packet:
  assumes inv: "mux_inv h m" and pkt: "pkt \<noteq> []" "length pkt \<le> 65535"
  shows "mux_recvfrom (Inr (addr, pkt)) h m =
    (if health_packet pkt then Inr (0, heap_write h (mux_buf m) pkt, mux_received addr pkt m)
     else Inr (int (length pkt), heap_write h (mux_buf m) pkt, mux_identified addr (mux_received addr pkt m)))"
proof -
  have inv': "0 < mux_buf m" "mux_nb_buf m = 65535" "allocated h (mux_buf m) 65535" "buf_bytes (cache_buffer m) = mux_buf m"
    "mux_buf m \<le> buf_p (cache_buffer m)" "buf_p (cache_buffer m) \<le> mux_buf m + 65535"
    using inv by (auto simp: mux_inv_def MUX_MAX_PACKET_SIZE_def)
  have put: "put_bytes h (SrsBuffer (mux_buf m) 65535) pkt =
      Inr (heap_write h (mux_buf m) pkt, (SrsBuffer (mux_buf m) 65535)\<lparr>buf_p := mux_buf m + int (length pkt)\<rparr>)"
    using put_bytes_ok [of "SrsBuffer (mux_buf m) 65535" pkt h] inv'(3) pkt(2) by (simp add: SrsBuffer_def allocated_def)
  have "skip (- 1 * buffer_pos (set_size (int (length pkt)) (cache_buffer m))) (set_size (int (length pkt)) (cache_buffer m)) =
      Inr (SrsBuffer (mux_buf m) (int (length pkt)))"
    using inv' by (simp add: skip_def set_size_def buffer_pos_def SrsBuffer_def)
  then show ?thesis
    using pkt inv'(2)
    by (cases addr) (simp_all add: mux_recvfrom_def Let_def put health_check_packet mux_received_def mux_identified_def)
qed

lemma mux_recvfrom_nothing:
  "mux_recvfrom (Inl e) h m = Inr (- 1, h, m\<lparr>mux_fromlen := sizeof_sockaddr_storage, mux_nread := - 1\<rparr>)"
  "mux_recvfrom (Inr (addr, [])) h m = Inr (0, h, m\<lparr>mux_fromlen := sockaddr_size addr, mux_nread := 0, mux_from := Some addr\<rparr>)"
  by (simp_all add: mux_recvfrom_def Let_def)

lemma allocated_write: "allocated h a n \<Longrightarrow> allocated (heap_write h b vs) a n"
  by (simp add: allocated_def heap_write_alloc del: not_None_eq)

lemma mux_inv_received:
  assumes "mux_inv h m" "length pkt \<le> 65535"
  shows "mux_inv (heap_write h (mux_buf m) pkt) (mux_received addr pkt m)"
    and "mux_inv (heap_write h (mux_buf m) pkt) (mux_identified addr (mux_received addr pkt m))"
  using assms allocated_write
  by (simp_all add: mux_inv_def mux_received_def mux_identified_def SrsBuffer_def MUX_MAX_PACKET_SIZE_def)

fun mux_event_ok :: "mux_event \<Rightarrow> bool" where
  "mux_event_ok (Mux_recv (Inr (addr, pkt))) \<longleftrightarrow> length pkt \<le> 65535"
| "mux_event_ok _ \<longleftrightarrow> True"

lemma mux_step_inv:
  assumes "mux_inv h m" "names_short gni" "mux_event_ok e"
  shows "\<exists>h' m'. mux_step gni ia e (h, m) = Inr (h', m') \<and> mux_inv h' m'"
proof (cases e)
  case (Mux_recv ans)
  show ?thesis
  proof (cases ans)
    case (Inl k)
    then show ?thesis using assms(1) Mux_recv by (simp add: mux_recvfrom_nothing mux_inv_def)
  next
    case (Inr q)
    then obtain addr pkt where q: "ans = Inr (addr, pkt)" by (cases q) auto
    show ?thesis
    proof (cases "pkt = []")
      case True
      then show ?thesis using assms(1) Mux_recv q by (simp add: mux_recvfrom_nothing mux_inv_def)
    next
      case False
      then show ?thesis
        using assms Mux_recv q mux_inv_received [of h m pkt addr]
        by (simp add: mux_recvfrom_packet)
    qed
  qed
next
  case (Mux_update ip port)
  then show ?thesis using assms(1) by (simp add: update_from_sockaddr_def mux_inv_def)
next
  case Mux_peer_id
  with peer_id_total [OF assms(1,2)] show ?thesis by auto
next
  case (Mux_send r)
  have "nn_msgs_for_yield m + 1 > 20 \<or> nn_msgs_for_yield m + 1 \<le> (20 :: u32)" by (simp add: not_less [symmetric])
  then show ?thesis using assms(1) Mux_send by (auto simp: mux_sendto_def Let_def mux_inv_def)
next
  case (Mux_consume k)
  then show ?thesis
    using assms(1) by (auto simp: skip_def mux_inv_def rbind_def srs_assert_def split: sum.splits if_splits)
qed

lemma mux_run_inv:
  "mux_inv h m \<Longrightarrow> names_short gni \<Longrightarrow> list_all mux_event_ok es \<Longrightarrow>
   \<exists>h' m'. mux_run gni ia es (h, m) = Inr (h', m') \<and> mux_inv h' m'"
proof (induction es arbitrary: h m)
  case (Cons e es)
  obtain h1 m1 where "mux_step gni ia e (h, m) = Inr (h1, m1)" "mux_inv h1 m1"
    using mux_step_inv [OF Cons.prems(1,2), of e ia] Cons.prems(3) by auto
  with Cons.IH [of h1 m1] Cons.prems show ?case by simp
qed simp

lemma mux_inv_new:
  "0 < buf \<Longrightarrow> allocated h buf MUX_MAX_PACKET_SIZE \<Longrightarrow> mux_inv h (SrsUdpMuxSocket buf fd)"
  by (simp add: mux_inv_def SrsUdpMuxSocket_def SrsBuffer_def MUX_MAX_PACKET_SIZE_def)

subsection \<open>The sender of a packet\<close>

text \<open>
  C36: Whatever happened to the socket before (packets of any sender, health checks, failed receives, sends,
  changed addresses, users moving the cursor of the cache buffer), nothing of it stopped at a fault; and
  after receiving a packet of an IPv4 sender that is not empty and not a health check, the buffer holds exactly this packet with its cursor at the
  start, \<open>peer_id\<close>, the ip and the port are those of its sender (the cache of formatted addresses never
  answers for another one), asking again gives the same, and \<open>fast_id\<close> is the number of the sender.  For the other senders it is not so:
  \<open>fast_id_identifies_ipv4\<close> and \<open>peer_id_goes_stale\<close> say what they leave.
\<close>

theorem mux_identifies_sender:
  assumes "0 < buf" "allocated h buf MUX_MAX_PACKET_SIZE" "names_short gni" "list_all mux_event_ok es"
    and "pkt \<noteq> []" "length pkt \<le> 65535" "\<not> health_packet pkt"
  shows "\<exists>h1 m1 h2 m2 m3. mux_run gni ia es (h, SrsUdpMuxSocket buf fd) = Inr (h1, m1) \<and>
    mux_recvfrom (Inr (Sockaddr_in port a, pkt)) h1 m1 = Inr (int (length pkt), h2, m2) \<and>
    buf_ok h2 (mux_buffer m2) \<and> buf_rest h2 (mux_buffer m2) = pkt \<and> buffer_pos (mux_buffer m2) = 0 \<and>
    peer_id gni m2 = Inr (id_text (inet_ntoa a) (uint (ntohs port)), m3) \<and>
    get_peer_ip m3 = inet_ntoa a \<and> get_peer_port m3 = uint (ntohs port) \<and> get_fast_id m3 = fast_id_of port a \<and>
    peer_id gni m3 = Inr (id_text (inet_ntoa a) (uint (ntohs port)), m3)"
proof -
  obtain h1 m1 where run: "mux_run gni ia es (h, SrsUdpMuxSocket buf fd) = Inr (h1, m1)" and inv: "mux_inv h1 m1"
    using mux_run_inv [OF mux_inv_new [OF assms(1,2)] assms(3,4)] by blast
  define h2 where "h2 = heap_write h1 (mux_buf m1) pkt"
  define m2 where "m2 = mux_identified (Sockaddr_in port a) (mux_received (Sockaddr_in port a) pkt m1)"
  have recv: "mux_recvfrom (Inr (Sockaddr_in port a, pkt)) h1 m1 = Inr (int (length pkt), h2, m2)"
    using mux_recvfrom_packet [OF inv assms(5,6), of "Sockaddr_in port a"] assms(7) by (simp add: h2_def m2_def)
  have "mux_inv h2 m2" unfolding h2_def m2_def by (rule mux_inv_received(2) [OF inv assms(6)])
  then have peer: "peer_id gni m2 = Inr (id_text (inet_ntoa a) (uint (ntohs port)),
    m2\<lparr>address_changed := False, mux_cache := (mux_cache m2)(a \<mapsto> inet_ntoa a), mux_peer_ip := inet_ntoa a,
      mux_peer_port := uint (ntohs port), mux_peer_id := id_text (inet_ntoa a) (uint (ntohs port))\<rparr>)"
    by (intro peer_id_ipv4) (auto simp: m2_def mux_identified_def mux_received_def mux_inv_def)
  have "allocated h2 (mux_buf m1) 65535" "0 < mux_buf m1"
    using inv allocated_write by (auto simp: mux_inv_def h2_def MUX_MAX_PACKET_SIZE_def)
  then have "buf_ok h2 (mux_buffer m2)" "buf_rest h2 (mux_buffer m2) = pkt" "buffer_pos (mux_buffer m2) = 0"
    using assms(6) by (auto simp: mux_buffer_def m2_def mux_identified_def mux_received_def SrsBuffer_def buf_ok_def
        allocated_def buf_rest_def h2_def mem_heap_write buffer_pos_def simp del: not_None_eq)
  then show ?thesis
    using run recv peer by (auto simp: get_peer_ip_def get_peer_port_def get_fast_id_def m2_def mux_identified_def peer_id_def)
qed

lemma mux_identifies_sender_witness:
  "\<exists>h1 m1 h2 m2 m3. mux_run (\<lambda>_ _. None) (\<lambda>_. 0) [Mux_recv (Inr (Sockaddr_other 10 [], [1, 2])), Mux_peer_id]
      (alloc_at 1000 (replicate 65535 0), SrsUdpMuxSocket 1000 (Some 1)) = Inr (h1, m1) \<and>
    mux_recvfrom (Inr (Sockaddr_in 0x5000 0x0100007F, [7])) h1 m1 = Inr (1, h2, m2) \<and>
    peer_id (\<lambda>_ _. None) m2 = Inr (''127.0.0.1:80'', m3)"
proof -
  have "id_text (inet_ntoa 0x0100007F) (uint (ntohs 0x5000)) = ''127.0.0.1:80''" by code_simp
  moreover have "allocated (alloc_at 1000 (replicate 65535 0)) 1000 MUX_MAX_PACKET_SIZE"
    using heap_write_some [of 1000 _ "replicate 65535 0" "\<lambda>_. None"]
    by (simp add: allocated_def alloc_at_def MUX_MAX_PACKET_SIZE_def del: not_None_eq)
  ultimately show ?thesis
    using mux_identifies_sender [where buf = 1000 and h = "alloc_at 1000 (replicate 65535 0)" and gni = "\<lambda>_ _. None"
        and es = "[Mux_recv (Inr (Sockaddr_other 10 [], [1, 2])), Mux_peer_id]" and pkt = "[7]" and ia = "\<lambda>_. 0"
        and fd = "Some 1" and port = "0x5000" and a = "0x0100007F"]
    by (auto simp: names_short_def health_packet_def)
qed

lemma fast_id_addr: "ucast (fast_id_of port a) = a"
  unfolding fast_id_of_def by (rule bit_word_eqI) (auto simp: bit_simps)

lemma fast_id_port: "ucast (drop_bit 48 (fast_id_of port a)) = port"
  unfolding fast_id_of_def by (rule bit_word_eqI) (auto simp: bit_simps dest: bit_imp_le_length)

text \<open>
  \<open>fast_id\<close> tells IPv4 senders apart: it is the same exactly for the same port and address.  For a sender
  of another family it is not updated: it stays that of the last IPv4 sender.
\<close>

theorem fast_id_identifies_ipv4:
  assumes "mux_inv h m" "pkt \<noteq> []" "length pkt \<le> 65535" "\<not> health_packet pkt"
  shows "(fast_id_of port a = fast_id_of port' a' \<longleftrightarrow> port = port' \<and> a = a') \<and>
    (case mux_recvfrom (Inr (Sockaddr_in port a, pkt)) h m of Inl f \<Rightarrow> False
       | Inr (r, h', m') \<Rightarrow> get_fast_id m' = fast_id_of port a) \<and>
    (case mux_recvfrom (Inr (Sockaddr_other fam bs, pkt)) h m of Inl f \<Rightarrow> False
       | Inr (r, h', m') \<Rightarrow> r = int (length pkt) \<and> get_fast_id m' = get_fast_id m)"
  using assms fast_id_addr [of port a] fast_id_addr [of port' a'] fast_id_port [of port a] fast_id_port [of port' a']
  by (auto simp: mux_recvfrom_packet get_fast_id_def mux_identified_def mux_received_def)

lemma fast_id_identifies_ipv4_witness:
  "\<exists>h m r h' m'. mux_recvfrom (Inr (Sockaddr_other 10 [], [7])) h m = Inr (r, h', m') \<and> get_fast_id m' = get_fast_id m"
proof -
  have "mux_inv (alloc_at 1000 (replicate 65535 0)) (SrsUdpMuxSocket 1000 None)"
    using heap_write_some [of 1000 _ "replicate 65535 0" "\<lambda>_. None"]
    by (intro mux_inv_new) (simp_all add: allocated_def alloc_at_def MUX_MAX_PACKET_SIZE_def del: not_None_eq)
  from fast_id_identifies_ipv4 [OF this, of "[7]" 1 1 1 1 10 "[]"] show ?thesis
    by (simp add: health_packet_def split: sum.splits prod.splits) blast
qed

text \<open>
  When \<open>getnameinfo\<close> fails for a sender, the first \<open>peer_id\<close> returns the empty string, but clears
  \<open>address_changed\<close>: the next one returns the id of the previous sender as if it were this one's.
\<close>

theorem peer_id_goes_stale:
  assumes "mux_inv h m" "pkt \<noteq> []" "length pkt \<le> 65535" "\<not> health_packet pkt"
    and "gni (Sockaddr_other fam bs) (sockaddr_size (Sockaddr_other fam bs)) = None"
  shows "\<exists>h' m' m''. mux_recvfrom (Inr (Sockaddr_other fam bs, pkt)) h m = Inr (int (length pkt), h', m') \<and>
    peer_id gni m' = Inr ([], m'') \<and> peer_id gni m'' = Inr (mux_peer_id m, m'')"
  using assms by (auto simp: mux_recvfrom_packet mux_identified_def mux_received_def peer_id_def Let_def)

lemma peer_id_goes_stale_witness:
  "\<exists>h m h' m' m''. mux_peer_id m = ''10.0.0.1:80'' \<and> mux_recvfrom (Inr (Sockaddr_other 10 [], [7])) h m = Inr (1, h', m') \<and>
    peer_id (\<lambda>_ _. None) m' = Inr ([], m'') \<and> peer_id (\<lambda>_ _. None) m'' = Inr (''10.0.0.1:80'', m'')"
proof -
  let ?m = "(SrsUdpMuxSocket 1000 None)\<lparr>mux_peer_id := ''10.0.0.1:80''\<rparr>"
  have "mux_inv (alloc_at 1000 (replicate 65535 0)) (SrsUdpMuxSocket 1000 None)"
    using heap_write_some [of 1000 _ "replicate 65535 0" "\<lambda>_. None"]
    by (intro mux_inv_new) (simp_all add: allocated_def alloc_at_def MUX_MAX_PACKET_SIZE_def del: not_None_eq)
  then have "mux_inv (alloc_at 1000 (replicate 65535 0)) ?m" by (simp add: mux_inv_def)
  from peer_id_goes_stale [OF this, of "[7]" "\<lambda>_ _. None" 10 "[]"] show ?thesis
    by - (rule exI [of _ "alloc_at 1000 (replicate 65535 0)"], rule exI [of _ ?m], simp add: health_packet_def)
qed

subsection \<open>Sending\<close>

fun mux_sends :: "err_site \<Rightarrow> nat list \<Rightarrow> mux_socket \<Rightarrow> nat \<times> mux_socket" where
  "mux_sends at [] m = (0, m)"
| "mux_sends at (k # ks) m = (case mux_sendto at (\<lambda>_ _ _ _. Inr k) [] 0 m of (err, yielded, m) \<Rightarrow>
     case mux_sends at ks m of (y, m) \<Rightarrow> (y + (if yielded then 1 else 0), m))"

text \<open>
  A sender that only sends lets the other coroutines run: of any number of successful sends every 21st
  yields, counted from a new socket.
\<close>

theorem mux_sends_yield:
  assumes "list_all (\<lambda>k. 0 < k) ks"
  shows "fst (mux_sends at ks (SrsUdpMuxSocket buf fd)) = length ks div 21"
proof -
  have "unat (nn_msgs_for_yield m) \<le> 20 \<Longrightarrow> list_all (\<lambda>k. 0 < k) ks \<Longrightarrow>
     fst (mux_sends at ks m) = (unat (nn_msgs_for_yield m) + length ks) div 21" for m
  proof (induction ks arbitrary: m)
    case (Cons k ks)
    have u: "unat (nn_msgs_for_yield m + 1) = unat (nn_msgs_for_yield m) + 1"
      using Cons.prems(1) by (simp add: unat_word_ariths)
    then have lim: "20 < nn_msgs_for_yield m + 1 \<longleftrightarrow> unat (nn_msgs_for_yield m) = 20"
      using Cons.prems(1) by (auto simp: word_less_nat_alt)
    show ?case
    proof (cases "unat (nn_msgs_for_yield m) = 20")
      case True
      then have "mux_sendto at (\<lambda>_ _ _ _. Inr k) [] 0 m = (None, True, m\<lparr>nn_msgs_for_yield := 0\<rparr>)"
        using Cons.prems(2) lim by (simp add: mux_sendto_def Let_def write_count_def)
      then show ?thesis
        using Cons.IH [of "m\<lparr>nn_msgs_for_yield := 0\<rparr>"] Cons.prems(2) True
        by (auto split: prod.splits)
    next
      case False
      then have "mux_sendto at (\<lambda>_ _ _ _. Inr k) [] 0 m = (None, False, m\<lparr>nn_msgs_for_yield := nn_msgs_for_yield m + 1\<rparr>)"
        using Cons.prems(2) lim by (simp add: mux_sendto_def Let_def write_count_def)
      then show ?thesis
        using Cons.IH [of "m\<lparr>nn_msgs_for_yield := nn_msgs_for_yield m + 1\<rparr>"] Cons.prems False u
        by (auto split: prod.splits)
    qed
  qed simp
  from this [of "SrsUdpMuxSocket buf fd"] assms show ?thesis by (simp add: SrsUdpMuxSocket_def)
qed

lemma mux_sends_yield_witness: "fst (mux_sends main_at (replicate 45 3) (SrsUdpMuxSocket 1000 None)) = 2"
  using mux_sends_yield [of "replicate 45 3" main_at 1000 None] by (simp add: list_all_iff)

subsection \<open>The copy for sending\<close>

text \<open>
  The copy for sending sends to the same peer and reports the same fast id, but its cache buffer
  still points to the memory that was freed with its packet buffer: the first read from it is an access to
  freed memory.
\<close>

theorem copy_sendonly_buffer_dangles:
  assumes "0 < buf" "copy_sendonly buf m h = (s, h')"
  shows "mux_stfd s = mux_stfd m \<and> mux_from s = mux_from m \<and> peer_addrlen s = peer_addrlen m \<and>
    get_fast_id s = get_fast_id m \<and> read_1bytes h' (mux_buffer s) = Inl Bad_access"
  using assms by (auto simp: copy_sendonly_def Let_def mux_stfd_def peer_addrlen_def get_fast_id_def mux_buffer_def
      read_1bytes_def require_def SrsBuffer_def SrsUdpMuxSocket_def MUX_MAX_PACKET_SIZE_def next_byte_def heap_free_def)

lemma copy_sendonly_buffer_dangles_witness:
  "read_1bytes (snd (copy_sendonly 5000 (SrsUdpMuxSocket 1000 None) (alloc_at 5000 [1, 2, 3])))
     (mux_buffer (fst (copy_sendonly 5000 (SrsUdpMuxSocket 1000 None) (alloc_at 5000 [1, 2, 3])))) = Inl Bad_access"
  using copy_sendonly_buffer_dangles [of 5000 "SrsUdpMuxSocket 1000 None" "alloc_at 5000 [1, 2, 3]"]
  by (metis prod.collapse zero_less_numeral)

end
