(* ===== verification/Srs_Log.thy ===== *)
theory Srs_Log
  imports Srs_Context Srs_Kernel_Error
begin

section \<open>Logs (core/srs_service_log.cpp, core/srs_app_log.cpp)\<close>

text \<open>
  \<open>SrsConsoleLog\<close> and \<open>SrsFileLog\<close> format a line into a buffer of 8192 characters: a header with
  time, level, process and context id, then the message, for errors the text of \<open>errno\<close>.  The
  buffer is a list of characters, and \<open>snprintf\<close> at an offset is a write into it that is a
  \<open>Bad_access\<close> when it passes the end.  The message is the text that the format gives;
  clock, calendar, process id, \<open>errno\<close> and \<open>open\<close> are arguments.
\<close>

subsection \<open>Levels\<close>

datatype SrsLogLevel =
    SrsLogLevelForbidden | SrsLogLevelVerbose | SrsLogLevelInfo | SrsLogLevelTrace
  | SrsLogLevelWarn | SrsLogLevelError | SrsLogLevelDisabled

fun level_value :: "SrsLogLevel \<Rightarrow> int" where
  "level_value SrsLogLevelForbidden = 0x00"
| "level_value SrsLogLevelVerbose = 0x01"
| "level_value SrsLogLevelInfo = 0x02"
| "level_value SrsLogLevelTrace = 0x04"
| "level_value SrsLogLevelWarn = 0x08"
| "level_value SrsLogLevelError = 0x10"
| "level_value SrsLogLevelDisabled = 0x20"

instantiation SrsLogLevel :: linorder
begin

definition less_eq_SrsLogLevel :: "SrsLogLevel \<Rightarrow> SrsLogLevel \<Rightarrow> bool" where
  "less_eq_SrsLogLevel a b \<longleftrightarrow> level_value a \<le> level_value b"

definition less_SrsLogLevel :: "SrsLogLevel \<Rightarrow> SrsLogLevel \<Rightarrow> bool" where
  "less_SrsLogLevel a b \<longleftrightarrow> level_value a < level_value b"

instance
proof
  fix a b :: SrsLogLevel
  show "a \<le> b \<Longrightarrow> b \<le> a \<Longrightarrow> a = b"
    by (cases a; cases b) (simp_all add: less_eq_SrsLogLevel_def)
qed (auto simp: less_eq_SrsLogLevel_def less_SrsLogLevel_def)

end

subsection \<open>Formatting into a buffer\<close>

text \<open>
  \<open>snprintf(buf + off, n, ...)\<close> for the text \<open>t\<close>: the characters that fit and a NUL; the result is the
  length of the whole text (an \<open>int\<close>: texts of 2 GB and more, for which it is -1, are left aside).  A negative size is converted to \<open>size_t\<close>.
\<close>

definition size_t :: "int \<Rightarrow> nat" where
  "size_t k = nat (k mod 2 ^ 64)"

definition buf_snprintf :: "nat \<Rightarrow> int \<Rightarrow> string \<Rightarrow> string \<Rightarrow> (string \<times> int) outcome" where
  "buf_snprintf off n t buf =
     (let w = (if size_t n = 0 then [] else take (size_t n - 1) t @ [NUL]) in
      if w = [] then Inr (buf, int (length t))
      else if off + length w \<le> length buf then Inr (take off buf @ w @ drop (off + length w) buf, int (length t))
      else Inl Bad_access)"

text \<open>\<open>%0wd\<close>\<close>

definition pad0 :: "nat \<Rightarrow> int \<Rightarrow> string" where
  "pad0 w k = (let d = nat_str (nat \<bar>k\<bar>); w = (if k < 0 then w - 1 else w)
     in (if k < 0 then ''-'' else []) @ replicate (w - length d) (CHR ''0'') @ d)"

record tm =
  tm_year :: int
  tm_mon :: int
  tm_mday :: int
  tm_hour :: int
  tm_min :: int
  tm_sec :: int

text \<open>
  What a line is formatted from: the answer of \<open>gettimeofday\<close>, the conversions to calendar time (UTC
  or local), the process id, \<open>errno\<close> and its text.
\<close>

record log_env =
  env_time :: "(int \<times> int) option"
  env_calendar :: "bool \<Rightarrow> int \<Rightarrow> tm option"
  env_pid :: int
  env_errno :: int
  env_strerror :: string

definition time_text :: "tm \<Rightarrow> int \<Rightarrow> string" where
  "time_text now usec = ''['' @ int_str (1900 + tm_year now) @ ''-'' @ pad0 2 (1 + tm_mon now) @ ''-'' @ pad0 2 (tm_mday now) @
     '' '' @ pad0 2 (tm_hour now) @ '':'' @ pad0 2 (tm_min now) @ '':'' @ pad0 2 (tm_sec now) @ ''.'' @
     pad0 3 (int32 (usec sdiv 1000)) @ '']''"

definition header_text :: "log_env \<Rightarrow> tm \<Rightarrow> int \<Rightarrow> bool \<Rightarrow> string option \<Rightarrow> SrsContextId \<Rightarrow> string \<Rightarrow> string" where
  "header_text e now usec dangerous tag cid level =
     time_text now usec @ ''['' @ level @ ''][''  @ int_str (env_pid e) @ ''][''  @ c_str (ctx_v cid) @ '']'' @
     (if dangerous then ''['' @ int_str (env_errno e) @ '']'' else []) @
     (case tag of None \<Rightarrow> [] | Some tag \<Rightarrow> ''['' @ c_str tag @ '']'') @ '' ''"

text \<open>The result is the return value, the buffer and \<open>*psize\<close>.\<close>

definition srs_log_header ::
  "log_env \<Rightarrow> string \<Rightarrow> int \<Rightarrow> bool \<Rightarrow> bool \<Rightarrow> string option \<Rightarrow> SrsContextId \<Rightarrow> string \<Rightarrow> int \<Rightarrow> (bool \<times> string \<times> int) outcome" where
  "srs_log_header e buffer size0 utc dangerous tag cid level psize =
     (case env_time e of None \<Rightarrow> Inr (False, buffer, psize)
      | Some (sec, usec) \<Rightarrow>
     (case env_calendar e utc sec of None \<Rightarrow> Inr (False, buffer, psize)
      | Some now \<Rightarrow>
          rbind (buf_snprintf 0 size0 (header_text e now usec dangerous tag cid level) buffer) (\<lambda>(buffer, written).
          if written \<ge> size0 then Inr (False, buffer, psize)
          else if written = - 1 then Inr (False, buffer, psize)
          else Inr (True, buffer, written))))"

subsection \<open>\<open>SrsConsoleLog\<close>\<close>

definition SRS_BASIC_LOG_SIZE :: int where "SRS_BASIC_LOG_SIZE = 8192"

record console_log =
  cl_level :: SrsLogLevel
  cl_utc :: bool
  cl_buffer :: string

text \<open>\<open>garbage\<close> is what the new array holds.\<close>

definition SrsConsoleLog :: "string \<Rightarrow> SrsLogLevel \<Rightarrow> bool \<Rightarrow> console_log" where
  "SrsConsoleLog garbage l u = \<lparr>cl_level = l, cl_utc = u, cl_buffer = garbage\<rparr>"

definition cl_initialize :: "console_log \<Rightarrow> srs_error_t \<times> console_log" where "cl_initialize l = (None, l)"
definition cl_reopen :: "console_log \<Rightarrow> console_log" where "cl_reopen l = l"

text \<open>
  The common part of the five methods: header and message.  \<open>None\<close> when nothing is logged, else
  the size.  The printed lines are pairs of the stream (\<open>True\<close> for \<open>stderr\<close>) and the text.
\<close>

definition cl_format ::
  "log_env \<Rightarrow> SrsLogLevel \<Rightarrow> string \<Rightarrow> bool \<Rightarrow> string option \<Rightarrow> SrsContextId \<Rightarrow> string \<Rightarrow> console_log \<Rightarrow>
   (int option \<times> console_log) outcome" where
  "cl_format e lv name dangerous tag cid msg l =
     (if cl_level l > lv then Inr (None, l)
      else rbind (srs_log_header e (cl_buffer l) SRS_BASIC_LOG_SIZE (cl_utc l) dangerous tag cid name 0) (\<lambda>(ok, buffer, sz).
        if \<not> ok then Inr (None, l\<lparr>cl_buffer := buffer\<rparr>)
        else rbind (buf_snprintf (nat sz) (SRS_BASIC_LOG_SIZE - sz) msg buffer) (\<lambda>(buffer, k).
          Inr (Some (sz + k), l\<lparr>cl_buffer := buffer\<rparr>))))"

definition cl_print ::
  "bool \<Rightarrow> int option \<times> console_log \<Rightarrow> ((bool \<times> string) list \<times> console_log) outcome" where
  "cl_print to_stderr r = (case r of (None, l) \<Rightarrow> Inr ([], l)
     | (Some _, l) \<Rightarrow> Inr ([(to_stderr, c_str (cl_buffer l) @ [LF])], l))"

type_synonym console_method =
  "log_env \<Rightarrow> string option \<Rightarrow> SrsContextId \<Rightarrow> string \<Rightarrow> console_log \<Rightarrow> ((bool \<times> string) list \<times> console_log) outcome"

definition cl_verbose :: console_method where
  "cl_verbose e tag cid msg l = rbind (cl_format e SrsLogLevelVerbose ''Verb'' False tag cid msg l) (cl_print False)"

definition cl_info :: console_method where
  "cl_info e tag cid msg l = rbind (cl_format e SrsLogLevelInfo ''Debug'' False tag cid msg l) (cl_print False)"

definition cl_trace :: console_method where
  "cl_trace e tag cid msg l = rbind (cl_format e SrsLogLevelTrace ''Trace'' False tag cid msg l) (cl_print False)"

definition cl_warn :: console_method where
  "cl_warn e tag cid msg l = rbind (cl_format e SrsLogLevelWarn ''Warn'' True tag cid msg l) (cl_print True)"

definition cl_error :: console_method where
  "cl_error e tag cid msg l = rbind (cl_format e SrsLogLevelError ''Error'' True tag cid msg l) (\<lambda>(r, l).
     case r of None \<Rightarrow> Inr ([], l)
     | Some sz \<Rightarrow>
         rbind (if env_errno e \<noteq> 0
                then rbind (buf_snprintf (nat sz) (SRS_BASIC_LOG_SIZE - sz) (''('' @ c_str (env_strerror e) @ '')'') (cl_buffer l))
                  (\<lambda>(buffer, k). Inr (Some (sz + k), l\<lparr>cl_buffer := buffer\<rparr>))
                else Inr (r, l)) (cl_print True))"

subsection \<open>\<open>SrsFileLog\<close>\<close>

definition LOG_MAX_SIZE :: int where "LOG_MAX_SIZE = 8192"
definition LOG_TAIL :: char where "LOG_TAIL = LF"
definition LOG_TAIL_SIZE :: int where "LOG_TAIL_SIZE = 1"

record file_log =
  fl_level :: SrsLogLevel
  fl_data :: string
  fl_fd :: int
  log_to_file_tank :: bool
  fl_utc :: bool

definition SrsFileLog :: "string \<Rightarrow> file_log" where
  "SrsFileLog garbage = \<lparr>fl_level = SrsLogLevelTrace, fl_data = garbage, fl_fd = - 1, log_to_file_tank = True, fl_utc = False\<rparr>"

definition fl_initialize :: "file_log \<Rightarrow> srs_error_t \<times> file_log" where
  "fl_initialize l = (None, l\<lparr>log_to_file_tank := True, fl_level := SrsLogLevelVerbose, fl_utc := False\<rparr>)"

text \<open>
  What a log does outside: opening the file with the answer of \<open>open\<close>, closing or writing a
  descriptor, printing to the console.
\<close>

datatype log_effect = Opened int | Closed int | Wrote int string | Printed string

definition open_log_file :: "int \<Rightarrow> file_log \<Rightarrow> log_effect list \<times> file_log" where
  "open_log_file opened l =
     (let filename = ''/home/gaoxiang/selfw/eventWork/log/st.log'' in
      if filename = [] then ([], l) else ([Opened opened], l\<lparr>fl_fd := opened\<rparr>))"

definition fl_delete :: "file_log \<Rightarrow> log_effect list \<times> file_log" where
  "fl_delete l = (if fl_fd l > 0 then ([Closed (fl_fd l)], l\<lparr>fl_fd := - 1\<rparr>) else ([], l))"

definition fl_reopen :: "int \<Rightarrow> file_log \<Rightarrow> log_effect list \<times> file_log" where
  "fl_reopen opened l =
     (let closed = (if fl_fd l > 0 then [Closed (fl_fd l)] else []) in
      if \<not> log_to_file_tank l then (closed, l)
      else case open_log_file opened l of (fx, l) \<Rightarrow> (closed @ fx, l))"

text \<open>\<open>str_log[i] = c\<close>\<close>

definition buf_set :: "int \<Rightarrow> char \<Rightarrow> string \<Rightarrow> string outcome" where
  "buf_set i c buf = (if 0 \<le> i \<and> nat i < length buf then Inr (buf[nat i := c]) else Inl Bad_access)"

definition colored :: "int \<Rightarrow> string \<Rightarrow> string" where
  "colored level t =
     (if level \<le> level_value SrsLogLevelTrace then t
      else if level = level_value SrsLogLevelWarn then CHR 0x1B # ''[33m'' @ t @ CHR 0x1B # ''[0m''
      else CHR 0x1B # ''[31m'' @ t @ CHR 0x1B # ''[0m'')"

definition write_log :: "int \<Rightarrow> int \<Rightarrow> int \<Rightarrow> file_log \<Rightarrow> (log_effect list \<times> file_log) outcome" where
  "write_log opened sz level l =
     (let sz = min (LOG_MAX_SIZE - 1 - LOG_TAIL_SIZE) sz in
      rbind (buf_set sz LOG_TAIL (fl_data l)) (\<lambda>str_log.
      let l = l\<lparr>fl_data := str_log\<rparr>; sz = sz + 1; line = take (nat sz) str_log in
      if \<not> log_to_file_tank l then Inr ([Printed (colored level (c_str line))], l)
      else
        case (if fl_fd l < 0 then open_log_file opened l else ([], l)) of (fx, l) \<Rightarrow>
        Inr (fx @ (if fl_fd l > 0 then [Wrote (fl_fd l) line] else []), l)))"

definition fl_format ::
  "log_env \<Rightarrow> SrsLogLevel \<Rightarrow> string \<Rightarrow> bool \<Rightarrow> string option \<Rightarrow> SrsContextId \<Rightarrow> string \<Rightarrow> file_log \<Rightarrow>
   (int option \<times> file_log) outcome" where
  "fl_format e lv name dangerous tag cid msg l =
     (if fl_level l > lv then Inr (None, l)
      else rbind (srs_log_header e (fl_data l) LOG_MAX_SIZE (fl_utc l) dangerous tag cid name 0) (\<lambda>(ok, buffer, sz).
        if \<not> ok then Inr (None, l\<lparr>fl_data := buffer\<rparr>)
        else rbind (buf_snprintf (nat sz) (LOG_MAX_SIZE - sz) msg buffer) (\<lambda>(buffer, k).
          Inr (Some (sz + k), l\<lparr>fl_data := buffer\<rparr>))))"

definition fl_write :: "int \<Rightarrow> SrsLogLevel \<Rightarrow> int option \<times> file_log \<Rightarrow> (log_effect list \<times> file_log) outcome" where
  "fl_write opened lv r = (case r of (None, l) \<Rightarrow> Inr ([], l) | (Some sz, l) \<Rightarrow> write_log opened sz (level_value lv) l)"

type_synonym file_method =
  "log_env \<Rightarrow> int \<Rightarrow> string option \<Rightarrow> SrsContextId \<Rightarrow> string \<Rightarrow> file_log \<Rightarrow> (log_effect list \<times> file_log) outcome"

definition fl_verbose :: file_method where
  "fl_verbose e opened tag cid msg l =
     rbind (fl_format e SrsLogLevelVerbose ''Verb'' False tag cid msg l) (fl_write opened SrsLogLevelVerbose)"

definition fl_info :: file_method where
  "fl_info e opened tag cid msg l =
     rbind (fl_format e SrsLogLevelInfo ''Debug'' False tag cid msg l) (fl_write opened SrsLogLevelInfo)"

definition fl_trace :: file_method where
  "fl_trace e opened tag cid msg l =
     rbind (fl_format e SrsLogLevelTrace ''Trace'' False tag cid msg l) (fl_write opened SrsLogLevelTrace)"

definition fl_warn :: file_method where
  "fl_warn e opened tag cid msg l =
     rbind (fl_format e SrsLogLevelWarn ''Warn'' True tag cid msg l) (fl_write opened SrsLogLevelWarn)"

definition fl_error :: file_method where
  "fl_error e opened tag cid msg l =
     rbind (fl_format e SrsLogLevelError ''Error'' True tag cid msg l) (\<lambda>(r, l).
     case r of None \<Rightarrow> Inr ([], l)
     | Some sz \<Rightarrow>
         rbind (if env_errno e \<noteq> 0 \<and> sz < LOG_MAX_SIZE
                then rbind (buf_snprintf (nat sz) (LOG_MAX_SIZE - sz) (''('' @ c_str (env_strerror e) @ '')'') (fl_data l))
                  (\<lambda>(buffer, k). Inr (Some (sz + k), l\<lparr>fl_data := buffer\<rparr>))
                else Inr (r, l)) (fl_write opened SrsLogLevelError))"

subsection \<open>The buffer holds the text, as far as it fits\<close>

definition holds :: "string \<Rightarrow> string \<Rightarrow> bool" where
  "holds t b \<longleftrightarrow> length b = 8192 \<and> take (Suc (length (take 8191 t))) b = take 8191 t @ [NUL]"

lemma holds_length: "holds t b \<Longrightarrow> length b = 8192"
  by (simp add: holds_def)

lemma holds_take:
  assumes "holds t b" and "k \<le> 8191" "k \<le> length t"
  shows "take k b = take k t"
proof -
  have "take k b = take k (take (Suc (length (take 8191 t))) b)" using assms by simp
  also have "\<dots> = take k (take 8191 t @ [NUL])" using assms(1) by (simp only: holds_def)
  also have "\<dots> = take k t" using assms(2,3) by simp
  finally show ?thesis .
qed

lemma size_t_small: "0 \<le> k \<Longrightarrow> k \<le> 8192 \<Longrightarrow> size_t k = nat k"
  by (simp add: size_t_def)

lemma buf_snprintf_at:
  assumes "length b = 8192" "length h < 8192" "take (length h) b = h"
  shows "\<exists>b'. buf_snprintf (length h) (8192 - int (length h)) t b = Inr (b', int (length t)) \<and> holds (h @ t) b'"
proof -
  let ?n = "8192 - length h"
  have n: "size_t (8192 - int (length h)) = ?n" using assms(2) by (subst size_t_small) auto
  let ?w = "take (?n - 1) t @ [NUL]"
  have fits: "length h + length ?w \<le> length b" using assms(1,2) by simp
  have cut: "take 8191 (h @ t) = h @ take (?n - 1) t" using assms(2) by simp
  have "holds (h @ t) (h @ ?w @ drop (length h + length ?w) b)"
  proof -
    have first: "take (length xs) (xs @ ys) = xs" for xs ys :: string by simp
    have "take (Suc (length (h @ take (?n - 1) t))) (h @ ?w @ drop (length h + length ?w) b) = h @ take (?n - 1) t @ [NUL]"
      using first [of "h @ take (?n - 1) t @ [NUL]" "drop (length h + length ?w) b"]
      by (simp only: length_append append_assoc list.size add_Suc_right Nat.add_0_right add.assoc append.simps)
    then show ?thesis using assms(1) fits unfolding holds_def cut by simp
  qed
  then show ?thesis using fits assms(2,3) by (simp add: buf_snprintf_def n Let_def)
qed

lemma buf_snprintf_append:
  assumes "holds h b" "length h < 8192"
  shows "\<exists>b'. buf_snprintf (length h) (8192 - int (length h)) t b = Inr (b', int (length t)) \<and> holds (h @ t) b'"
  using assms by (intro buf_snprintf_at) (auto simp: holds_length holds_take)

text \<open>What a line is made of, and when there is one.\<close>

definition log_head :: "log_env \<Rightarrow> bool \<Rightarrow> bool \<Rightarrow> string option \<Rightarrow> SrsContextId \<Rightarrow> string \<Rightarrow> string option" where
  "log_head e utc dangerous tag cid level = (case env_time e of None \<Rightarrow> None
     | Some (sec, usec) \<Rightarrow> (case env_calendar e utc sec of None \<Rightarrow> None
        | Some now \<Rightarrow> let t = header_text e now usec dangerous tag cid level in if length t < 8192 then Some t else None))"

lemma srs_log_header_head:
  assumes "length b = 8192"
  shows "case log_head e utc dangerous tag cid level of
     None \<Rightarrow> \<exists>b'. srs_log_header e b 8192 utc dangerous tag cid level 0 = Inr (False, b', 0) \<and> length b' = 8192
   | Some t \<Rightarrow> \<exists>b'. srs_log_header e b 8192 utc dangerous tag cid level 0 = Inr (True, b', int (length t)) \<and> holds t b' \<and> length t < 8192"
proof -
  have snp: "\<exists>b'. buf_snprintf 0 8192 t b = Inr (b', int (length t)) \<and> holds t b'" for t
    using buf_snprintf_at [OF assms, of "[]" t] by simp
  show ?thesis
  proof (cases "env_time e")
    case (Some tv)
    obtain sec usec where tv: "tv = (sec, usec)" by (cases tv) auto
    show ?thesis
    proof (cases "env_calendar e utc sec")
      case (Some now)
      obtain b' where "buf_snprintf 0 8192 (header_text e now usec dangerous tag cid level) b =
          Inr (b', int (length (header_text e now usec dangerous tag cid level)))"
        "holds (header_text e now usec dangerous tag cid level) b'" using snp by blast
      then show ?thesis
        using \<open>env_time e = Some tv\<close> tv Some holds_length by (auto simp: log_head_def srs_log_header_def Let_def)
    qed (use \<open>env_time e = Some tv\<close> tv assms in \<open>simp add: log_head_def srs_log_header_def\<close>)
  qed (use assms in \<open>simp add: log_head_def srs_log_header_def\<close>)
qed

subsection \<open>The file log\<close>

text \<open>The name of a level in the header, and whether it is one that carries \<open>errno\<close>.\<close>

fun level_name :: "SrsLogLevel \<Rightarrow> string" where
  "level_name SrsLogLevelVerbose = ''Verb''"
| "level_name SrsLogLevelInfo = ''Debug''"
| "level_name SrsLogLevelTrace = ''Trace''"
| "level_name SrsLogLevelWarn = ''Warn''"
| "level_name SrsLogLevelError = ''Error''"
| "level_name _ = []"

definition level_dangerous :: "SrsLogLevel \<Rightarrow> bool" where
  "level_dangerous lv \<longleftrightarrow> lv = SrsLogLevelWarn \<or> lv = SrsLogLevelError"

text \<open>The whole line before it is cut to the buffer, if the level and the header allow one.\<close>

definition log_text ::
  "SrsLogLevel \<Rightarrow> bool \<Rightarrow> SrsLogLevel \<Rightarrow> log_env \<Rightarrow> string option \<Rightarrow> SrsContextId \<Rightarrow> string \<Rightarrow> string option" where
  "log_text min_level utc lv e tag cid msg =
     (if lv < min_level then None
      else map_option (\<lambda>h. h @ msg @ (if lv = SrsLogLevelError \<and> env_errno e \<noteq> 0 \<and> length (h @ msg) < 8192
             then ''('' @ c_str (env_strerror e) @ '')'' else []))
           (log_head e utc (level_dangerous lv) tag cid (level_name lv)))"

fun fl_call :: "SrsLogLevel \<Rightarrow> file_method" where
  "fl_call SrsLogLevelVerbose = fl_verbose"
| "fl_call SrsLogLevelInfo = fl_info"
| "fl_call SrsLogLevelTrace = fl_trace"
| "fl_call SrsLogLevelWarn = fl_warn"
| "fl_call SrsLogLevelError = fl_error"
| "fl_call _ = (\<lambda>e opened tag cid msg l. Inr ([], l))"

definition is_method_level :: "SrsLogLevel \<Rightarrow> bool" where
  "is_method_level lv \<longleftrightarrow> lv \<noteq> SrsLogLevelForbidden \<and> lv \<noteq> SrsLogLevelDisabled"

lemma fl_format_result:
  assumes "length (fl_data l) = 8192"
  shows "case (if lv < fl_level l then None else log_head e (fl_utc l) dangerous tag cid name) of
     None \<Rightarrow> \<exists>b. fl_format e lv name dangerous tag cid msg l = Inr (None, l\<lparr>fl_data := b\<rparr>) \<and> length b = 8192
   | Some h \<Rightarrow> \<exists>b. fl_format e lv name dangerous tag cid msg l = Inr (Some (int (length (h @ msg))), l\<lparr>fl_data := b\<rparr>) \<and> holds (h @ msg) b"
proof (cases "lv < fl_level l")
  case True
  then show ?thesis using assms by (auto simp: fl_format_def intro: exI [of _ "fl_data l"])
next
  case False
  note head = srs_log_header_head [OF assms, of e "fl_utc l" dangerous tag cid name]
  show ?thesis
  proof (cases "log_head e (fl_utc l) dangerous tag cid name")
    case None
    then show ?thesis using head False by (auto simp: fl_format_def LOG_MAX_SIZE_def)
  next
    case (Some h)
    with head obtain b where b: "srs_log_header e (fl_data l) 8192 (fl_utc l) dangerous tag cid name 0 = Inr (True, b, int (length h))"
      "holds h b" "length h < 8192" by auto
    obtain b' where "buf_snprintf (length h) (8192 - int (length h)) msg b = Inr (b', int (length msg))" "holds (h @ msg) b'"
      using buf_snprintf_append [OF b(2,3), of msg] by blast
    then show ?thesis using Some False b(1) by (auto simp: fl_format_def LOG_MAX_SIZE_def)
  qed
qed

lemma write_log_line:
  assumes "holds t b" "fl_data l = b" "log_to_file_tank l"
  shows "\<exists>b'. length b' = 8192 \<and> write_log opened (int (length t)) lv l =
    (let fd = (if fl_fd l < 0 then opened else fl_fd l) in
     Inr ((if fl_fd l < 0 then [Opened opened] else []) @ (if fd > 0 then [Wrote fd (take 8190 t @ [LF])] else []),
       l\<lparr>fl_data := b', fl_fd := fd\<rparr>))"
proof -
  let ?k = "min 8190 (length t)"
  have k: "min (LOG_MAX_SIZE - 1 - LOG_TAIL_SIZE) (int (length t)) = int ?k"
    by (simp add: LOG_MAX_SIZE_def LOG_TAIL_SIZE_def of_nat_min)
  have len: "length b = 8192" by (rule holds_length [OF assms(1)])
  have set: "buf_set (int ?k) LOG_TAIL b = Inr (b[?k := LF])"
    using len by (simp add: buf_set_def LOG_TAIL_def min_def)
  have "take (Suc ?k) (b[?k := LF]) = take ?k b @ [LF]"
    using len by (subst take_Suc_conv_app_nth) (simp_all add: min_def)
  then have line: "take (Suc ?k) (b[?k := LF]) = take 8190 t @ [LF]"
    using holds_take [OF assms(1), of ?k] by (simp add: min_def split: if_splits)
  have nat: "nat (int ?k + 1) = Suc ?k" by simp
  show ?thesis
    unfolding write_log_def k Let_def assms(2) set
    using len line assms(3)
    by (intro exI [of _ "b[?k := LF]"]) (simp add: open_log_file_def nat nat_add_distrib)
qed

text \<open>The line of a call, cut to the buffer and ended.\<close>

definition log_line :: "string \<Rightarrow> string" where
  "log_line t = take 8190 t @ [LF]"

definition fl_inv :: "file_log \<Rightarrow> bool" where
  "fl_inv l \<longleftrightarrow> length (fl_data l) = 8192 \<and> log_to_file_tank l"

definition fl_effects :: "int \<Rightarrow> int \<Rightarrow> string option \<Rightarrow> log_effect list" where
  "fl_effects fd opened t = (case t of None \<Rightarrow> []
     | Some t \<Rightarrow> (if fd < 0 then [Opened opened] else []) @
         (let fd = (if fd < 0 then opened else fd) in if fd > 0 then [Wrote fd (log_line t)] else []))"

lemma fl_call_result:
  assumes "fl_inv l" "is_method_level lv"
  shows "\<exists>l'. fl_call lv e opened tag cid msg l =
      Inr (fl_effects (fl_fd l) opened (log_text (fl_level l) (fl_utc l) lv e tag cid msg), l') \<and> fl_inv l' \<and>
    fl_level l' = fl_level l \<and> fl_utc l' = fl_utc l \<and>
    fl_fd l' = (if fl_fd l < 0 \<and> log_text (fl_level l) (fl_utc l) lv e tag cid msg \<noteq> None then opened else fl_fd l)"
proof -
  have len: "length (fl_data l) = 8192" and tank: "log_to_file_tank l" using assms(1) by (simp_all add: fl_inv_def)
  let ?w = "fl_write opened lv"
  let ?f = "fl_format e lv (level_name lv) (level_dangerous lv) tag cid msg l"
  let ?head = "if lv < fl_level l then None else log_head e (fl_utc l) (level_dangerous lv) tag cid (level_name lv)"
  note format = fl_format_result [OF len, where lv = lv and e = e and dangerous = "level_dangerous lv" and tag = tag and cid = cid
      and name = "level_name lv" and msg = msg]
  show ?thesis
  proof (cases ?head)
    case None
    then have "log_text (fl_level l) (fl_utc l) lv e tag cid msg = None" by (auto simp: log_text_def split: if_splits)
    moreover obtain b where "?f = Inr (None, l\<lparr>fl_data := b\<rparr>)" "length b = 8192" using format None by auto
    ultimately show ?thesis
      using assms(2) tank
      by (cases lv) (auto simp: fl_verbose_def fl_info_def fl_trace_def fl_warn_def fl_error_def level_dangerous_def
          is_method_level_def fl_write_def fl_effects_def fl_inv_def)
  next
    case (Some h)
    obtain b where f: "?f = Inr (Some (int (length (h @ msg))), l\<lparr>fl_data := b\<rparr>)" and b: "holds (h @ msg) b"
      using format Some by auto
    let ?err = "if lv = SrsLogLevelError \<and> env_errno e \<noteq> 0 \<and> length (h @ msg) < 8192
      then ''('' @ c_str (env_strerror e) @ '')'' else []"
    have line: "log_text (fl_level l) (fl_utc l) lv e tag cid msg = Some (h @ msg @ ?err)"
      using Some by (auto simp: log_text_def split: if_splits)
    have "\<exists>b'. holds (h @ msg @ ?err) b' \<and> fl_call lv e opened tag cid msg l =
        write_log opened (int (length (h @ msg @ ?err))) (level_value lv) (l\<lparr>fl_data := b'\<rparr>)"
    proof (cases "lv = SrsLogLevelError")
      case False
      then show ?thesis
        using assms(2) f b
        by (intro exI [of _ b], cases lv) (auto simp: fl_verbose_def fl_info_def fl_trace_def fl_warn_def level_dangerous_def
            is_method_level_def fl_write_def)
    next
      case True
      then have f': "fl_format e SrsLogLevelError ''Error'' True tag cid msg l = Inr (Some (int (length (h @ msg))), l\<lparr>fl_data := b\<rparr>)"
        using f by (simp add: level_dangerous_def)
      show ?thesis
      proof (cases "env_errno e \<noteq> 0 \<and> length (h @ msg) < 8192")
        case True2: True
        obtain b' where "buf_snprintf (length (h @ msg)) (8192 - int (length (h @ msg))) (''('' @ c_str (env_strerror e) @ '')'') b =
            Inr (b', int (length (''('' @ c_str (env_strerror e) @ '')'')))" "holds ((h @ msg) @ ''('' @ c_str (env_strerror e) @ '')'') b'"
          using buf_snprintf_append [OF b, of "''('' @ c_str (env_strerror e) @ '')''"] True2 by blast
        then show ?thesis
          using True True2 f'
          by (intro exI [of _ b']) (simp add: fl_error_def fl_write_def LOG_MAX_SIZE_def nat_int_add add_ac)
      next
        case False
        then show ?thesis using True f' b
          by (intro exI [of _ b]) (auto simp: fl_error_def fl_write_def LOG_MAX_SIZE_def)
      qed
    qed
    then obtain b' where b': "holds (h @ msg @ ?err) b'" "fl_call lv e opened tag cid msg l =
        write_log opened (int (length (h @ msg @ ?err))) (level_value lv) (l\<lparr>fl_data := b'\<rparr>)" by blast
    from write_log_line [OF b'(1), of "l\<lparr>fl_data := b'\<rparr>" opened "level_value lv"] tank b'(2) show ?thesis
      unfolding line by (auto simp: fl_effects_def fl_inv_def log_line_def Let_def)
  qed
qed

type_synonym log_call = "SrsLogLevel \<times> log_env \<times> string option \<times> SrsContextId \<times> string"

fun fl_run :: "int \<Rightarrow> log_call list \<Rightarrow> file_log \<Rightarrow> (log_effect list \<times> file_log) outcome" where
  "fl_run opened [] l = Inr ([], l)"
| "fl_run opened ((lv, e, tag, cid, msg) # calls) l =
     rbind (fl_call lv e opened tag cid msg l) (\<lambda>(fx, l).
     rbind (fl_run opened calls l) (\<lambda>(fxs, l). Inr (fx @ fxs, l)))"

definition call_text :: "SrsLogLevel \<Rightarrow> bool \<Rightarrow> log_call \<Rightarrow> string option" where
  "call_text min_level utc c = (case c of (lv, e, tag, cid, msg) \<Rightarrow> log_text min_level utc lv e tag cid msg)"

lemma call_text_simp [simp]: "call_text m u (lv, e, tag, cid, msg) = log_text m u lv e tag cid msg"
  by (simp add: call_text_def)

lemma fl_run_result:
  assumes "fl_inv l" "list_all (\<lambda>c. is_method_level (fst c)) calls" "0 < opened" "fl_fd l < 0 \<or> fl_fd l = opened"
  shows "\<exists>l'. fl_run opened calls l = Inr (
      (let lines = map (\<lambda>t. Wrote opened (log_line t)) (List.map_filter (call_text (fl_level l) (fl_utc l)) calls)
       in if fl_fd l < 0 \<and> lines \<noteq> [] then Opened opened # lines else lines), l') \<and> fl_inv l'"
  using assms
proof (induction calls arbitrary: l)
  case Nil
  then show ?case by (simp add: List.map_filter_def)
next
  case (Cons c calls)
  obtain lv e tag cid msg where c: "c = (lv, e, tag, cid, msg)" by (metis prod_cases5)
  let ?t = "log_text (fl_level l) (fl_utc l) lv e tag cid msg"
  have "is_method_level lv" using Cons.prems(2) c by simp
  from fl_call_result [OF Cons.prems(1) this, of e opened tag cid msg] obtain l1 where
    l1: "fl_call lv e opened tag cid msg l = Inr (fl_effects (fl_fd l) opened ?t, l1)" "fl_inv l1"
      "fl_level l1 = fl_level l" "fl_utc l1 = fl_utc l" "fl_fd l1 = (if fl_fd l < 0 \<and> ?t \<noteq> None then opened else fl_fd l)"
    by blast
  have "fl_fd l1 < 0 \<or> fl_fd l1 = opened" using Cons.prems(4) l1(5) by auto
  with Cons.IH [OF l1(2)] Cons.prems l1(3,4) obtain l2 where
    "fl_run opened calls l1 = Inr ((let lines = map (\<lambda>t. Wrote opened (log_line t)) (List.map_filter (call_text (fl_level l) (fl_utc l)) calls)
       in if fl_fd l1 < 0 \<and> lines \<noteq> [] then Opened opened # lines else lines), l2)" "fl_inv l2"
    by auto
  then show ?case
    using l1 c Cons.prems(3,4)
    by (cases ?t) (auto simp: fl_effects_def List.map_filter_simps Let_def)
qed

text \<open>
  C40: The file log.  From a new, initialised log, any sequence of calls at any levels, with messages and headers of any
  length, stays inside its buffer of 8192 characters; a call writes one line exactly when its level is not below
  the level of the log and its header fits; the lines are written to the file in the order of the calls, which is
  opened once, before the first; each line is its text cut to 8190 characters and one newline.
\<close>

theorem file_log_writes_lines:
  assumes "length garbage = 8192" "list_all (\<lambda>c. is_method_level (fst c)) calls" "0 < opened"
  shows "\<exists>l'. fl_run opened calls (snd (fl_initialize (SrsFileLog garbage))) = Inr (
      (case List.map_filter (call_text SrsLogLevelVerbose False) calls of
         [] \<Rightarrow> [] | texts \<Rightarrow> Opened opened # map (\<lambda>t. Wrote opened (log_line t)) texts), l') \<and>
    length (fl_data l') = 8192"
proof -
  let ?l = "snd (fl_initialize (SrsFileLog garbage))"
  have "fl_inv ?l" "fl_fd ?l = - 1" "fl_level ?l = SrsLogLevelVerbose" "\<not> fl_utc ?l"
    using assms(1) by (simp_all add: fl_inv_def fl_initialize_def SrsFileLog_def)
  with fl_run_result [of ?l calls opened] assms(2,3) show ?thesis
    by (cases "List.map_filter (call_text SrsLogLevelVerbose False) calls") (auto simp: fl_inv_def)
qed

definition noon :: log_env where
  "noon = \<lparr>env_time = Some (1700000000, 250000), env_calendar = (\<lambda>_ _. Some \<lparr>tm_year = 123, tm_mon = 10, tm_mday = 14,
     tm_hour = 12, tm_min = 0, tm_sec = 5\<rparr>), env_pid = 42, env_errno = 0, env_strerror = ''Success''\<rparr>"

lemma noon_head: "log_head noon False False None (SrsContextId ''c1'') ''Trace'' = Some ''[2023-11-14 12:00:05.250][Trace][42][c1] ''"
  by code_simp

lemma file_log_writes_lines_witness:
  "\<exists>l'. fl_run 5 [(SrsLogLevelTrace, noon, None, SrsContextId ''c1'', ''hi'')]
       (snd (fl_initialize (SrsFileLog (replicate 8192 NUL)))) =
     Inr ([Opened 5, Wrote 5 (''[2023-11-14 12:00:05.250][Trace][42][c1] hi'' @ [LF])], l')"
proof -
  have "call_text SrsLogLevelVerbose False (SrsLogLevelTrace, noon, None, SrsContextId ''c1'', ''hi'') =
      Some ''[2023-11-14 12:00:05.250][Trace][42][c1] hi''"
    by (simp add: log_text_def level_dangerous_def noon_head less_SrsLogLevel_def)
  then show ?thesis
    using file_log_writes_lines [of "replicate 8192 NUL" "[(SrsLogLevelTrace, noon, None, SrsContextId ''c1'', ''hi'')]" 5]
    by (auto simp: is_method_level_def List.map_filter_simps log_line_def)
qed

subsection \<open>The console log\<close>

lemma cl_format_fl_format:
  "cl_format e lv name dangerous tag cid msg l =
     rbind (fl_format e lv name dangerous tag cid msg \<lparr>fl_level = cl_level l, fl_data = cl_buffer l, fl_fd = fd,
         log_to_file_tank = tank, fl_utc = cl_utc l\<rparr>) (\<lambda>(r, f). Inr (r, l\<lparr>cl_buffer := fl_data f\<rparr>))"
  by (simp add: cl_format_def fl_format_def SRS_BASIC_LOG_SIZE_def LOG_MAX_SIZE_def rbind_def split: sum.split prod.split)

lemma c_str_NUL: "c_str (u @ NUL # r) = c_str u"
  unfolding c_str_def by (induction u) auto

lemma holds_c_str: "holds t b \<Longrightarrow> c_str b = c_str (take 8191 t)"
  using append_take_drop_id [of "Suc (length (take 8191 t))" b] c_str_NUL [of "take 8191 t"]
  unfolding holds_def by (metis append_assoc append_Cons append_Nil)

lemma snprintf_past_end:
  assumes "length b = 8192" "8192 < k" "k < 2 ^ 31"
  shows "buf_snprintf k (8192 - int k) t b = Inl Bad_access"
proof -
  have "(8192 - int k) mod 2 ^ 64 = (8192 - int k + 2 ^ 64) mod 2 ^ 64" by (rule mod_add_self2 [symmetric])
  also have "\<dots> = 8192 - int k + 2 ^ 64" using assms(2,3) by (intro mod_pos_pos_trivial) auto
  finally have "size_t (8192 - int k) \<noteq> 0" using assms(2,3) by (simp add: size_t_def)
  then show ?thesis using assms(1,2) by (simp add: buf_snprintf_def Let_def)
qed

lemma cl_format_holds:
  assumes "length (cl_buffer l) = 8192" "\<not> lv < cl_level l" "log_head e (cl_utc l) True tag cid name = Some x"
  obtains b where "cl_format e lv name True tag cid msg l = Inr (Some (int (length (x @ msg))), l\<lparr>cl_buffer := b\<rparr>)" "holds (x @ msg) b"
  using fl_format_result [of "\<lparr>fl_level = cl_level l, fl_data = cl_buffer l, fl_fd = 0, log_to_file_tank = True, fl_utc = cl_utc l\<rparr>",
      where lv = lv and e = e and dangerous = True and tag = tag and cid = cid and name = name and msg = msg] assms
  by (auto simp: cl_format_fl_format [where fd = 0 and tank = True])

lemma cl_error_result:
  assumes "cl_format e SrsLogLevelError ''Error'' True tag cid msg l = Inr (Some (int (length t)), l\<lparr>cl_buffer := b\<rparr>)"
    and "holds t b" "length t < 2 ^ 31"
  shows "if env_errno e \<noteq> 0 \<and> 8192 < length t then cl_error e tag cid msg l = Inl Bad_access
     else \<exists>l'. cl_error e tag cid msg l = Inr ([(True, c_str (take 8191 (t @
       (if env_errno e \<noteq> 0 then ''('' @ c_str (env_strerror e) @ '')'' else []))) @ [LF])], l')"
proof -
  let ?err = "''('' @ c_str (env_strerror e) @ '')''"
  consider "env_errno e = 0" | "env_errno e \<noteq> 0" "8192 < length t" | "env_errno e \<noteq> 0" "length t = 8192"
    | "env_errno e \<noteq> 0" "length t < 8192" by linarith
  then show ?thesis
  proof cases
    case 1
    then show ?thesis using assms(1) holds_c_str [OF assms(2)] by (simp add: cl_error_def cl_print_def)
  next
    case 2
    then show ?thesis using assms(1) snprintf_past_end [OF holds_length [OF assms(2)] 2(2) assms(3)]
      by (simp add: cl_error_def SRS_BASIC_LOG_SIZE_def)
  next
    case 3
    then show ?thesis using assms(1) holds_c_str [OF assms(2)]
      by (simp add: cl_error_def SRS_BASIC_LOG_SIZE_def buf_snprintf_def size_t_def cl_print_def)
  next
    case 4
    obtain b' where "buf_snprintf (length t) (8192 - int (length t)) ?err b = Inr (b', int (length ?err))" "holds (t @ ?err) b'"
      using buf_snprintf_append [OF assms(2) 4(2)] by blast
    then show ?thesis using 4 assms(1) holds_c_str [of "t @ ?err" b']
      by (simp add: cl_error_def SRS_BASIC_LOG_SIZE_def cl_print_def)
  qed
qed

text \<open>
  The console log.  A warning, like the levels below, prints its line cut to 8191 characters.  An error does the same
  with the text of \<open>errno\<close> appended, but when \<open>errno\<close> is set and header and message are longer than 8192
  characters, the append writes outside the buffer: the size that is left is negative and is converted to
  an unsigned one.  \<open>SrsFileLog::error\<close> has the check that is missing here.
\<close>

theorem console_error_overflows:
  assumes "length (cl_buffer l) = 8192" "cl_level l \<le> SrsLogLevelWarn"
    and "log_head e (cl_utc l) True tag cid ''Error'' = Some h" "log_head e (cl_utc l) True tag cid ''Warn'' = Some w"
    and "length h + length msg < 2 ^ 31"
  shows "(\<exists>l'. cl_warn e tag cid msg l = Inr ([(True, c_str (take 8191 (w @ msg)) @ [LF])], l')) \<and>
    (if env_errno e \<noteq> 0 \<and> 8192 < length (h @ msg) then cl_error e tag cid msg l = Inl Bad_access
     else \<exists>l'. cl_error e tag cid msg l = Inr ([(True, c_str (take 8191 (h @ msg @
       (if env_errno e \<noteq> 0 then ''('' @ c_str (env_strerror e) @ '')'' else []))) @ [LF])], l'))"
proof -
  have level: "\<not> SrsLogLevelWarn < cl_level l" "\<not> SrsLogLevelError < cl_level l"
    using assms(2) by (auto simp: less_SrsLogLevel_def less_eq_SrsLogLevel_def)
  obtain b where warn: "cl_format e SrsLogLevelWarn ''Warn'' True tag cid msg l = Inr (Some (int (length (w @ msg))), l\<lparr>cl_buffer := b\<rparr>)"
    "holds (w @ msg) b" by (rule cl_format_holds [OF assms(1) level(1) assms(4)])
  have print: "\<exists>l'. cl_warn e tag cid msg l = Inr ([(True, c_str (take 8191 (w @ msg)) @ [LF])], l')"
    using warn holds_c_str by (simp add: cl_warn_def cl_print_def)
  obtain b where err: "cl_format e SrsLogLevelError ''Error'' True tag cid msg l = Inr (Some (int (length (h @ msg))), l\<lparr>cl_buffer := b\<rparr>)"
    "holds (h @ msg) b" by (rule cl_format_holds [OF assms(1) level(2) assms(3)])
  have len: "length (h @ msg) < 2 ^ 31" using assms(5) by simp
  from print cl_error_result [OF err len, unfolded append_assoc] show ?thesis by (rule conjI)
qed

definition noon_again :: log_env where
  "noon_again = noon\<lparr>env_errno := 11\<rparr>"

lemma noon_again_head:
  "log_head noon_again False True None (SrsContextId ''c1'') ''Error'' = Some ''[2023-11-14 12:00:05.250][Error][42][c1][11] ''"
  "log_head noon_again False True None (SrsContextId ''c1'') ''Warn'' = Some ''[2023-11-14 12:00:05.250][Warn][42][c1][11] ''"
  by code_simp+

lemma console_error_overflows_witness:
  "cl_error noon_again None (SrsContextId ''c1'') (replicate 9000 (CHR ''x''))
     (SrsConsoleLog (replicate 8192 NUL) SrsLogLevelTrace False) = Inl Bad_access"
proof -
  let ?l = "SrsConsoleLog (replicate 8192 NUL) SrsLogLevelTrace False"
  have "cl_level ?l \<le> SrsLogLevelWarn" "length (cl_buffer ?l) = 8192" "\<not> cl_utc ?l" "env_errno noon_again \<noteq> 0"
    by (simp_all add: SrsConsoleLog_def less_eq_SrsLogLevel_def noon_again_def)
  then show ?thesis
    using console_error_overflows [of ?l noon_again None "SrsContextId ''c1''" _ _ "replicate 9000 (CHR ''x'')"]
      noon_again_head by fastforce
qed

end
