(* ===== verification/St_Heap.thy ===== *)
theory St_Heap
  imports Srs_Prelude "HOL-Library.Tree"
begin

section \<open>The timeout heap of state-threads (state-threads/sched.c)\<close>

text \<open>
  The sleep queue is a binary tree of thread objects with the earliest timeout at the root.  The
  pointers \<open>left\<close> and \<open>right\<close> of the objects make up the tree; \<open>due\<close> and \<open>heap_index\<close> are fields of
  the objects, here maps from threads.  A pointer to a pointer that walks down the tree
  (\<open>p\<close> in the code) is the path to it, a list of turns.
\<close>

type_synonym thread = nat

record sleepq =
  sleep_q :: "thread tree"
  sleepq_size :: nat
  due :: "thread \<Rightarrow> 64 word"
  heap_index :: "thread \<Rightarrow> nat"

text \<open>The first loop of both functions counts the bits of a number, the second takes them from the top.\<close>

fun heap_bits :: "nat \<Rightarrow> nat" where
  "heap_bits s = (if s = 0 then 0 else Suc (heap_bits (s div 2)))"

declare heap_bits.simps [simp del]

definition heap_path :: "nat \<Rightarrow> bool list" where
  "heap_path target = map (bit target) (rev [0..<heap_bits target - 1])"

text \<open>
  \<open>heap_insert\<close>: \<open>t\<close> is the thread carried down, \<open>index\<close> the number of the current place.  The last
  place is overwritten, with no children.  A missing place on the way is a null pointer.
\<close>

fun heap_insert_loop ::
  "(thread \<Rightarrow> 64 word) \<Rightarrow> bool list \<Rightarrow> nat \<Rightarrow> thread \<Rightarrow> thread tree \<Rightarrow> (thread \<Rightarrow> nat) \<Rightarrow>
   (thread tree \<times> (thread \<Rightarrow> nat)) outcome" where
  "heap_insert_loop d [] index t q hi = Inr (Node Leaf t Leaf, hi(t := index))"
| "heap_insert_loop d (b # bs) index t Leaf hi = Inl Bad_access"
| "heap_insert_loop d (b # bs) index t (Node l u r) hi =
     (let (here, carried, hi) = (if d t < d u then (t, u, hi(t := index)) else (u, t, hi)) in
      if b then rbind (heap_insert_loop d bs (2 * index + 1) carried r hi) (\<lambda>(r, hi). Inr (Node l here r, hi))
      else rbind (heap_insert_loop d bs (2 * index) carried l hi) (\<lambda>(l, hi). Inr (Node l here r, hi)))"

definition heap_insert :: "thread \<Rightarrow> sleepq \<Rightarrow> sleepq outcome" where
  "heap_insert t q = rbind (heap_insert_loop (due q) (heap_path (heap_index q t)) 1 t (sleep_q q) (heap_index q))
     (\<lambda>(root, hi). Inr (q\<lparr>sleep_q := root, heap_index := hi\<rparr>))"

text \<open>\<open>heap_delete\<close> first unlinks the last element, \<open>None\<close> when the pointer there is null.\<close>

fun heap_unlink :: "bool list \<Rightarrow> thread tree \<Rightarrow> (thread option \<times> thread tree) outcome" where
  "heap_unlink [] Leaf = Inr (None, Leaf)"
| "heap_unlink [] (Node l t r) = Inr (Some t, Leaf)"
| "heap_unlink (b # bs) Leaf = Inl Bad_access"
| "heap_unlink (b # bs) (Node l u r) =
     (if b then rbind (heap_unlink bs r) (\<lambda>(t, r). Inr (t, Node l u r))
      else rbind (heap_unlink bs l) (\<lambda>(t, l). Inr (t, Node l u r)))"

text \<open>
  The fields \<open>left\<close> and \<open>right\<close> of a thread that is in the tree.  \<open>heap_insert\<close> at the index of a thread does
  not touch its fields, so they are read before it here.
\<close>

fun heap_children :: "thread \<Rightarrow> thread tree \<Rightarrow> (thread tree \<times> thread tree) option" where
  "heap_children t Leaf = None"
| "heap_children t (Node l u r) = (if u = t then Some (l, r)
     else case heap_children t l of None \<Rightarrow> heap_children t r | Some lr \<Rightarrow> Some lr)"

text \<open>The last loop moves \<open>t\<close>, with the children \<open>l\<close> and \<open>r\<close>, down as long as a child is due earlier.\<close>

definition swap_index :: "thread \<Rightarrow> thread \<Rightarrow> (thread \<Rightarrow> nat) \<Rightarrow> thread \<Rightarrow> nat" where
  "swap_index t y hi = hi(t := hi y, y := hi t)"

function (sequential) heap_sift ::
  "(thread \<Rightarrow> 64 word) \<Rightarrow> thread tree \<Rightarrow> thread \<Rightarrow> thread tree \<Rightarrow> (thread \<Rightarrow> nat) \<Rightarrow> thread tree \<times> (thread \<Rightarrow> nat)" where
  "heap_sift d Leaf t r hi = (Node Leaf t r, hi)"
| "heap_sift d (Node ll y lr) t Leaf hi =
     (if d t > d y then case heap_sift d ll t lr (swap_index t y hi) of (s, hi) \<Rightarrow> (Node s y Leaf, hi)
      else (Node (Node ll y lr) t Leaf, hi))"
| "heap_sift d (Node ll x lr) t (Node rl y rr) hi =
     (if d x < d y
      then if d t > d x then case heap_sift d ll t lr (swap_index t x hi) of (s, hi) \<Rightarrow> (Node s x (Node rl y rr), hi)
           else (Node (Node ll x lr) t (Node rl y rr), hi)
      else if d t > d y then case heap_sift d rl t rr (swap_index t y hi) of (s, hi) \<Rightarrow> (Node (Node ll x lr) y s, hi)
           else (Node (Node ll x lr) t (Node rl y rr), hi))"
  by pat_completeness auto
termination by (relation "measure (\<lambda>(d, l, t, r, hi). size l + size r)") auto

text \<open>What \<open>p\<close> points to is changed by \<open>f\<close>.\<close>

fun heap_at ::
  "bool list \<Rightarrow> (thread tree \<Rightarrow> (thread \<Rightarrow> nat) \<Rightarrow> (thread tree \<times> (thread \<Rightarrow> nat)) outcome) \<Rightarrow> thread tree \<Rightarrow> (thread \<Rightarrow> nat) \<Rightarrow>
   (thread tree \<times> (thread \<Rightarrow> nat)) outcome" where
  "heap_at [] f q hi = f q hi"
| "heap_at (b # bs) f Leaf hi = Inl Bad_access"
| "heap_at (b # bs) f (Node l u r) hi =
     (if b then rbind (heap_at bs f r hi) (\<lambda>(r, hi). Inr (Node l u r, hi))
      else rbind (heap_at bs f l hi) (\<lambda>(l, hi). Inr (Node l u r, hi)))"

text \<open>The thread that is now at the place of the deleted one gets its children and moves down.\<close>

definition heap_adopt ::
  "(thread \<Rightarrow> 64 word) \<Rightarrow> thread tree \<times> thread tree \<Rightarrow> thread tree \<Rightarrow> (thread \<Rightarrow> nat) \<Rightarrow> (thread tree \<times> (thread \<Rightarrow> nat)) outcome" where
  "heap_adopt d lr q hi = (case q of Leaf \<Rightarrow> Inl Bad_access | Node _ t _ \<Rightarrow> Inr (heap_sift d (fst lr) t (snd lr) hi))"

definition heap_delete :: "thread \<Rightarrow> sleepq \<Rightarrow> sleepq outcome" where
  "heap_delete t q =
     rbind (heap_unlink (heap_path (sleepq_size q)) (sleep_q q)) (\<lambda>(e, root).
     let q = q\<lparr>sleep_q := root, sleepq_size := sleepq_size q - 1\<rparr> in
     if e = Some t then Inr q
     else case e of None \<Rightarrow> Inl Bad_access
     | Some e \<Rightarrow>
         let q = q\<lparr>heap_index := (heap_index q)(e := heap_index q t)\<rparr>;
             place = heap_path (heap_index q t);
             children = (case heap_children t root of None \<Rightarrow> (Leaf, Leaf) | Some lr \<Rightarrow> lr)
         in rbind (heap_insert e q) (\<lambda>q.
            rbind (heap_at place (heap_adopt (due q) children) (sleep_q q) (heap_index q)) (\<lambda>(root, hi).
            Inr (q\<lparr>sleep_q := root, heap_index := hi\<rparr>))))"

subsection \<open>Places and their numbers\<close>

text \<open>The number of the place that a path leads to, from the place \<open>k\<close>.\<close>

primrec place :: "nat \<Rightarrow> bool list \<Rightarrow> nat" where
  "place k [] = k"
| "place k (b # bs) = place (if b then 2 * k + 1 else 2 * k) bs"

lemma place_append: "place k (bs @ cs) = place (place k bs) cs"
  by (induction bs arbitrary: k) auto

lemma place_ge: "k \<le> place k bs"
proof (induction bs arbitrary: k)
  case (Cons b bs)
  from Cons.IH [of "if b then 2 * k + 1 else 2 * k"] show ?case by (auto split: if_splits)
qed simp

lemma place_snoc_greater: "0 < k \<Longrightarrow> k < place k (bs @ [b])"
  using place_ge [of k bs] by (simp add: place_append)

lemma place_inject: "0 < k \<Longrightarrow> place k bs = place k cs \<Longrightarrow> bs = cs"
proof (induction bs arbitrary: cs rule: rev_induct)
  case Nil
  show ?case
  proof (cases cs rule: rev_exhaust)
    case (snoc ys y)
    then show ?thesis using Nil.prems place_snoc_greater [of k ys y] by simp
  qed simp
next
  case (snoc b bs)
  have "k < place k (bs @ [b])" using place_snoc_greater snoc.prems(1) by blast
  then obtain c cs' where cs: "cs = cs' @ [c]" using snoc.prems(2) by (cases cs rule: rev_exhaust) auto
  then have "2 * place k bs + of_bool b = 2 * place k cs' + of_bool c"
    using snoc.prems(2) by (simp add: place_append of_bool_def split: if_splits)
  then have "b = c \<and> place k bs = place k cs'" by (cases b; cases c; simp; presburger)
  then show ?case using snoc.IH [of cs'] snoc.prems(1) cs by simp
qed

lemma heap_bits_place: "heap_bits (place 1 bs) = Suc (length bs)"
proof (induction bs rule: rev_induct)
  case Nil
  then show ?case by (simp add: heap_bits.simps)
next
  case (snoc b bs)
  have "0 < place 1 bs" using place_ge [of 1 bs] by simp
  then show ?case using snoc by (subst heap_bits.simps) (auto simp: place_append)
qed

lemma heap_path_place [simp]: "heap_path (place (Suc 0) bs) = bs"
proof (induction bs rule: rev_induct)
  case Nil
  then show ?case by (simp add: heap_path_def heap_bits.simps)
next
  case (snoc b bs)
  let ?m = "place (Suc 0) bs"
  have p: "place (Suc 0) (bs @ [b]) = 2 * ?m + of_bool b" by (simp add: place_append)
  have bit: "bit (2 * ?m + of_bool b) i = (if i = 0 then b else bit ?m (i - 1))" for i
    by (cases i; cases b) (simp_all add: bit_0 bit_Suc)
  have "[0..<Suc k] = 0 # map Suc [0..<k]" for k by (simp add: map_Suc_upt upt_conv_Cons del: upt_Suc)
  then have up: "rev [0..<Suc k] = map Suc (rev [0..<k]) @ [0]" for k by (simp only: rev.simps rev_map)
  have "heap_bits (2 * ?m + of_bool b) - 1 = Suc (heap_bits ?m - 1)"
    using heap_bits_place [of "bs @ [b]"] heap_bits_place [of bs] p by simp
  then have "heap_path (2 * ?m + of_bool b) = heap_path ?m @ [b]"
    unfolding heap_path_def by (simp only: up map_append map_map) (simp add: bit)
  then show ?case using snoc p by simp
qed

lemma place_exists: "0 < m \<Longrightarrow> \<exists>bs. m = place (Suc 0) bs"
proof (induction m rule: less_induct)
  case (less m)
  show ?case
  proof (cases "m = 1")
    case True
    then show ?thesis by (intro exI [of _ "[]"]) simp
  next
    case False
    then have "0 < m div 2" "m div 2 < m" using less.prems by auto
    from less.IH [OF this(2,1)] obtain bs where "m div 2 = place (Suc 0) bs" ..
    then show ?thesis by (intro exI [of _ "bs @ [odd m]"]) (auto simp: place_append elim!: oddE evenE)
  qed
qed

subsection \<open>The invariant\<close>

text \<open>
  The nodes are numbered from 1 as in an array, without gaps up to \<open>n\<close>; each thread knows its number;
  no thread is due before the one above it.
\<close>

primrec numbered :: "(thread \<Rightarrow> nat) \<Rightarrow> nat \<Rightarrow> nat \<Rightarrow> thread tree \<Rightarrow> bool" where
  "numbered hi n k Leaf \<longleftrightarrow> n < k"
| "numbered hi n k (Node l x r) \<longleftrightarrow> k \<le> n \<and> hi x = k \<and> numbered hi n (2 * k) l \<and> numbered hi n (2 * k + 1) r"

primrec due_ordered :: "(thread \<Rightarrow> 64 word) \<Rightarrow> thread tree \<Rightarrow> bool" where
  "due_ordered d Leaf \<longleftrightarrow> True"
| "due_ordered d (Node l x r) \<longleftrightarrow> (\<forall>y \<in> set_tree l \<union> set_tree r. d x \<le> d y) \<and> due_ordered d l \<and> due_ordered d r"

definition sleepq_inv :: "sleepq \<Rightarrow> bool" where
  "sleepq_inv q \<longleftrightarrow> numbered (heap_index q) (sleepq_size q) 1 (sleep_q q) \<and> due_ordered (due q) (sleep_q q) \<and>
     distinct (inorder (sleep_q q))"

definition sleepers :: "sleepq \<Rightarrow> thread set" where
  "sleepers q = set_tree (sleep_q q)"

lemma numbered_cong: "(\<And>x. x \<in> set_tree t \<Longrightarrow> hi x = hi' x) \<Longrightarrow> numbered hi n k t \<longleftrightarrow> numbered hi' n k t"
  by (induction t arbitrary: k) auto

lemma due_ordered_cong: "(\<And>x. x \<in> set_tree t \<Longrightarrow> d x = d' x) \<Longrightarrow> due_ordered d t \<longleftrightarrow> due_ordered d' t"
  by (induction t) auto

lemma numbered_change:
  assumes "\<And>bs. place k bs \<noteq> max n m" "n \<le> Suc m" "m \<le> Suc n" "0 < k"
  shows "numbered hi n k t \<Longrightarrow> numbered hi m k t"
  using assms
proof (induction t arbitrary: k)
  case Leaf
  from Leaf.prems(2) [of "[]"] show ?case using Leaf.prems by (auto simp: max_def split: if_splits)
next
  case (Node l x r)
  have "place (2 * k) bs \<noteq> max n m" "place (2 * k + 1) bs \<noteq> max n m" for bs
    using Node.prems(2) [of "False # bs"] Node.prems(2) [of "True # bs"] by simp_all
  moreover have "k \<noteq> max n m" using Node.prems(2) [of "[]"] by simp
  ultimately show ?case using Node by (auto simp: max_def split: if_splits)
qed

lemma place_sides: "0 < k \<Longrightarrow> place (2 * k) bs \<noteq> place (2 * k + 1) cs"
  using place_inject [of k "False # bs" "True # cs"] by auto

subsection \<open>The way down\<close>

text \<open>
  Both uses of \<open>heap_insert\<close> are one walk down a path with a thread in the hand, which ends with an action \<open>g\<close>
  at the last place: a new leaf, or the place of the deleted thread.
\<close>

fun descend ::
  "(thread \<Rightarrow> 64 word) \<Rightarrow> (nat \<Rightarrow> thread \<Rightarrow> thread tree \<Rightarrow> (thread \<Rightarrow> nat) \<Rightarrow> thread tree \<times> (thread \<Rightarrow> nat)) \<Rightarrow>
   bool list \<Rightarrow> nat \<Rightarrow> thread \<Rightarrow> thread tree \<Rightarrow> (thread \<Rightarrow> nat) \<Rightarrow> (thread tree \<times> (thread \<Rightarrow> nat)) outcome" where
  "descend d g [] k t q hi = Inr (g k t q hi)"
| "descend d g (b # bs) k t Leaf hi = Inl Bad_access"
| "descend d g (b # bs) k t (Node l u r) hi =
     (let (here, carried, hi) = (if d t < d u then (t, u, hi(t := k)) else (u, t, hi)) in
      if b then rbind (descend d g bs (2 * k + 1) carried r hi) (\<lambda>(r, hi). Inr (Node l here r, hi))
      else rbind (descend d g bs (2 * k) carried l hi) (\<lambda>(l, hi). Inr (Node l here r, hi)))"

fun subtree_at :: "bool list \<Rightarrow> thread tree \<Rightarrow> thread tree option" where
  "subtree_at [] q = Some q"
| "subtree_at (b # bs) Leaf = None"
| "subtree_at (b # bs) (Node l u r) = subtree_at bs (if b then r else l)"

lemma heap_insert_loop_descend:
  "heap_insert_loop d bs k t q hi = descend d (\<lambda>k t q hi. (Node Leaf t Leaf, hi(t := k))) bs k t q hi"
  by (induction d bs k t q hi rule: heap_insert_loop.induct) (auto simp: fun_upd_def)

lemma heap_adopt_descend:
  "rbind (heap_insert_loop d bs k t q hi) (\<lambda>(root, hi). heap_at bs (heap_adopt d lr) root hi) =
     descend d (\<lambda>k t q hi. heap_sift d (fst lr) t (snd lr) (hi(t := k))) bs k t q hi"
proof (induction bs arbitrary: k t q hi)
  case (Cons b bs)
  let ?g = "\<lambda>k t q hi. heap_sift d (fst lr) t (snd lr) (hi(t := k))"
  have step: "rbind (rbind (heap_insert_loop d bs k c s hi) (\<lambda>(s, hi). Inr (N s, hi))) (\<lambda>(root, hi). F root hi) =
      rbind (descend d ?g bs k c s hi) (\<lambda>(s, hi). Inr (N s, hi))"
    if "\<And>s hi. F (N s) hi = rbind (heap_at bs (heap_adopt d lr) s hi) (\<lambda>(s, hi). Inr (N s, hi))"
    for k c s hi F and N :: "thread tree \<Rightarrow> thread tree"
    using Cons.IH [of k c s hi, symmetric] that by (cases "heap_insert_loop d bs k c s hi") (auto split: prod.split simp del: fun_upd_apply)
  show ?case by (cases q; cases b; cases "d t < d (value q)") (simp_all add: step del: fun_upd_apply)
qed (simp add: heap_adopt_def)

text \<open>What an action does to the subtree \<open>s\<close> at the place \<open>k\<close>: the threads \<open>R\<close> leave, \<open>t\<close> comes in.\<close>

definition action_ok ::
  "(thread \<Rightarrow> 64 word) \<Rightarrow> thread set \<Rightarrow> nat \<Rightarrow> nat \<Rightarrow> thread tree \<Rightarrow> thread \<Rightarrow> (thread \<Rightarrow> nat) \<Rightarrow> thread tree \<times> (thread \<Rightarrow> nat) \<Rightarrow> bool" where
  "action_ok d R n k s t hi res \<longleftrightarrow> (case res of (s', hi') \<Rightarrow>
     numbered hi' n k s' \<and> due_ordered d s' \<and> distinct (inorder s') \<and> set_tree s' = insert t (set_tree s - R) \<and>
     (\<forall>y. y \<notin> insert t (set_tree s) \<longrightarrow> hi' y = hi y))"

lemma descend_ok:
  assumes "\<And>y hi. y \<notin> set_tree s \<Longrightarrow> numbered hi n (place k bs) s \<Longrightarrow> action_ok d R m (place k bs) s y hi (g (place k bs) y s hi)"
    and "n = m \<or> m = Suc n \<and> place k bs = m"
    and "subtree_at bs q = Some s" "R \<subseteq> set_tree s" "0 < k"
    and "numbered hi n k q" "due_ordered d q" "distinct (inorder q)" "x \<notin> set_tree q"
  shows "\<exists>res. descend d g bs k x q hi = Inr res \<and> action_ok d R m k q x hi res"
  using assms
proof (induction bs arbitrary: k x q hi)
  case Nil
  then show ?case by auto
next
  case (Cons b bs)
  obtain l u r where q: "q = Node l u r" using Cons.prems(3) by (cases q) auto
  obtain here carried hi1 where h: "(here, carried, hi1) = (if d x < d u then (x, u, hi(x := k)) else (u, x, hi))" by (metis prod_cases3)
  have "subtree_at bs t = Some s \<Longrightarrow> set_tree s \<subseteq> set_tree t" for t
    by (induction bs t rule: subtree_at.induct) (auto split: if_splits)
  then have s: "R \<subseteq> set_tree (if b then r else l)" using Cons.prems(3,4) q by force
  have k: "hi1 here = k" "k \<le> m" "{here, carried} = {x, u}" "here \<noteq> carried" "d here \<le> d carried"
    "\<And>y. y \<in> set_tree l \<union> set_tree r \<Longrightarrow> d here \<le> d y \<and> hi1 y = hi y \<and> y \<noteq> here \<and> y \<noteq> carried"
    using h Cons.prems(2,6-9) q by (auto split: if_splits intro: less_imp_le order.trans [OF less_imp_le])
  have nums: "numbered hi1 n (2 * k) l" "numbered hi1 n (2 * k + 1) r"
    using Cons.prems(6) k(6) q numbered_cong [of l hi1 hi] numbered_cong [of r hi1 hi] by auto
  show ?case
  proof (cases b)
    case True
    have "\<exists>res. descend d g bs (2 * k + 1) carried r hi1 = Inr res \<and> action_ok d R m (2 * k + 1) r carried hi1 res"
      using Cons.prems True q nums k(6) by (intro Cons.IH) auto
    then obtain r' hi2 where r': "descend d g bs (2 * k + 1) carried r hi1 = Inr (r', hi2)" "action_ok d R m (2 * k + 1) r carried hi1 (r', hi2)"
      by auto
    have "place (2 * k) cs \<noteq> max n m" if "n \<noteq> m" for cs
      using place_sides [of k cs bs] Cons.prems(2,5) True that by (auto simp: max_def)
    then have "numbered hi1 m (2 * k) l"
      using Cons.prems(2,5) nums(1) numbered_change [of "2 * k" n m hi1 l] by (cases "n = m") auto
    moreover have keep: "hi2 y = hi1 y" if "y \<notin> insert carried (set_tree r)" for y using r'(2) that by (auto simp: action_ok_def)
    have "hi2 y = hi1 y" if "y \<in> set_tree l" for y using keep [of y] k(6) [of y] that Cons.prems(8) q by auto
    ultimately have "numbered hi2 m (2 * k) l" using numbered_cong by blast
    moreover have "hi2 here = k" using keep [of here] k Cons.prems(8) q by auto
    ultimately show ?thesis using Cons.prems(7,8) q True h r' k s
      by (auto simp: action_ok_def Let_def split: if_splits)
  next
    case False
    have "\<exists>res. descend d g bs (2 * k) carried l hi1 = Inr res \<and> action_ok d R m (2 * k) l carried hi1 res"
      using Cons.prems False q nums k(6) by (intro Cons.IH) auto
    then obtain l' hi2 where l': "descend d g bs (2 * k) carried l hi1 = Inr (l', hi2)" "action_ok d R m (2 * k) l carried hi1 (l', hi2)"
      by auto
    have "place (2 * k + 1) cs \<noteq> max n m" if "n \<noteq> m" for cs
      using place_sides [of k bs cs] Cons.prems(2,5) False that by (auto simp: max_def)
    then have "numbered hi1 m (2 * k + 1) r"
      using Cons.prems(2,5) nums(2) numbered_change [of "2 * k + 1" n m hi1 r] by (cases "n = m") auto
    moreover have keep: "hi2 y = hi1 y" if "y \<notin> insert carried (set_tree l)" for y using l'(2) that by (auto simp: action_ok_def)
    have "hi2 y = hi1 y" if "y \<in> set_tree r" for y using keep [of y] k(6) [of y] that Cons.prems(8) q by auto
    ultimately have "numbered hi2 m (2 * k + 1) r" using numbered_cong by blast
    moreover have "hi2 here = k" using keep [of here] k Cons.prems(8) q by auto
    ultimately show ?thesis using Cons.prems(7,8) q False h l' k s
      by (auto simp: action_ok_def Let_def split: if_splits)
  qed
qed

text \<open>Moving a thread down restores the order below it.\<close>

definition sifted ::
  "(thread \<Rightarrow> 64 word) \<Rightarrow> nat \<Rightarrow> nat \<Rightarrow> thread set \<Rightarrow> (thread \<Rightarrow> nat) \<Rightarrow> thread tree \<times> (thread \<Rightarrow> nat) \<Rightarrow> bool" where
  "sifted d n k T hi res \<longleftrightarrow> (case res of (s', hi') \<Rightarrow> numbered hi' n k s' \<and> due_ordered d s' \<and>
     distinct (inorder s') \<and> set_tree s' = T \<and> (\<forall>y. y \<notin> T \<longrightarrow> hi' y = hi y))"

lemma swap_index_simps [simp]: "swap_index t y hi t = hi y" "swap_index t y hi y = hi t"
  by (auto simp: swap_index_def)

lemma numbered_swap [simp]:
  "t \<notin> set_tree s \<Longrightarrow> y \<notin> set_tree s \<Longrightarrow> numbered (swap_index t y hi) n k s \<longleftrightarrow> numbered hi n k s"
  by (rule numbered_cong) (auto simp: swap_index_def)

text \<open>One step: the child \<open>y\<close> comes up, below it the thread has been moved on.\<close>

lemma sift_step:
  assumes "sifted d n j (insert t (set_tree ll \<union> set_tree lr)) (swap_index t y hi) (s', hi')"
    and "distinct (inorder ll @ y # inorder lr)" "distinct (inorder o')"
    and "({t, y} \<union> set_tree ll \<union> set_tree lr) \<inter> set_tree o' = {}" "t \<noteq> y" "t \<notin> set_tree ll \<union> set_tree lr"
    and "hi t = k" "k \<le> n" "numbered hi n k' o'" "due_ordered d o'" "d y \<le> d t"
    and "\<forall>z \<in> set_tree ll \<union> set_tree lr \<union> set_tree o'. d y \<le> d z"
    and "T = {t, y} \<union> set_tree ll \<union> set_tree lr \<union> set_tree o'"
  shows "j = 2 * k \<Longrightarrow> k' = 2 * k + 1 \<Longrightarrow> sifted d n k T hi (Node s' y o', hi')"
    and "j = 2 * k + 1 \<Longrightarrow> k' = 2 * k \<Longrightarrow> sifted d n k T hi (Node o' y s', hi')"
proof -
  have s: "numbered hi' n j s'" "due_ordered d s'" "distinct (inorder s')" "set_tree s' = insert t (set_tree ll \<union> set_tree lr)"
    and keep: "\<And>z. z \<notin> insert t (set_tree ll \<union> set_tree lr) \<Longrightarrow> hi' z = swap_index t y hi z"
    using assms(1) by (auto simp: sifted_def)
  have same: "hi' z = hi z" if "z \<notin> {t, y} \<union> set_tree ll \<union> set_tree lr" for z
    using keep [of z] that by (simp add: swap_index_def)
  have "hi' z = hi z" if "z \<in> set_tree o'" for z using same [of z] assms(4) that by blast
  then have o': "numbered hi' n k' o'" using assms(9) numbered_cong [of o' hi' hi] by blast
  have y: "hi' y = k" "y \<notin> set_tree s'" using keep [of y] assms(2,5,7) s(4) by auto
  have set: "set_tree s' \<inter> set_tree o' = {}" "y \<notin> set_tree o'" "\<forall>z \<in> set_tree s' \<union> set_tree o'. d y \<le> d z"
    using s(4) assms(4,11,12) by auto
  have "\<forall>z. z \<notin> T \<longrightarrow> hi' z = hi z" "T = insert y (set_tree s' \<union> set_tree o')" using same assms(13) s(4) by auto
  then show "j = 2 * k \<Longrightarrow> k' = 2 * k + 1 \<Longrightarrow> sifted d n k T hi (Node s' y o', hi')"
    "j = 2 * k + 1 \<Longrightarrow> k' = 2 * k \<Longrightarrow> sifted d n k T hi (Node o' y s', hi')"
    using s(1-3) o' y set assms(3,8,10) by (simp_all add: sifted_def Int_commute Un_commute ball_Un)
qed

lemma due_cases: "a < b \<and> a < c \<or> \<not> a < b \<and> b < c \<or> c \<le> a \<and> c \<le> b" for a b c :: "64 word"
  by (cases "a < b"; cases "a < c"; cases "b < c"; simp add: not_less; order)

lemma heap_sift_ok:
  assumes "numbered hi n (2 * k) l" "numbered hi n (2 * k + 1) r" "due_ordered d l" "due_ordered d r"
    and "distinct (inorder l @ t # inorder r)" "hi t = k" "k \<le> n"
  shows "sifted d n k (insert t (set_tree l \<union> set_tree r)) hi (heap_sift d l t r hi)"
  using assms
proof (induction d l t r hi arbitrary: k rule: heap_sift.induct)
  case (1 d t r hi)
  then show ?case by (cases r) (auto simp: sifted_def)
next
  case (2 d ll y lr t hi)
  show ?case
  proof (cases "d y < d t")
    case True
    obtain s' hi' where s': "heap_sift d ll t lr (swap_index t y hi) = (s', hi')" by force
    have "sifted d n (2 * k) (insert t (set_tree ll \<union> set_tree lr)) (swap_index t y hi) (s', hi')"
      unfolding s' [symmetric] using "2.prems" True by (intro "2.IH") auto
    from sift_step(1) [OF this, of Leaf k "2 * k + 1"] "2.prems" True
    have "sifted d n k (insert t (set_tree (Node ll y lr) \<union> set_tree Leaf)) hi (Node s' y Leaf, hi')" by auto
    then show ?thesis using True s' by simp
  next
    case False
    then have "d t \<le> d y" by (rule leI)
    then show ?thesis using "2.prems" False by (auto simp: sifted_def intro: order.trans)
  qed
next
  case (3 d ll x lr t rl y rr hi)
  consider (left) "d x < d y" "d x < d t" | (right) "\<not> d x < d y" "d y < d t" | (stop) "d t \<le> d x" "d t \<le> d y"
    using due_cases [of "d x" "d y" "d t"] by blast
  then show ?case
  proof cases
    case left
    obtain s' hi' where s': "heap_sift d ll t lr (swap_index t x hi) = (s', hi')" by force
    have "sifted d n (2 * k) (insert t (set_tree ll \<union> set_tree lr)) (swap_index t x hi) (s', hi')"
      unfolding s' [symmetric] using "3.prems" left by (intro "3.IH"(1)) auto
    moreover have "\<forall>z \<in> set_tree ll \<union> set_tree lr \<union> set_tree (Node rl y rr). d x \<le> d z"
      using "3.prems"(3,4) left(1) by (auto intro: order.trans [OF less_imp_le])
    ultimately have "sifted d n k (insert t (set_tree (Node ll x lr) \<union> set_tree (Node rl y rr))) hi (Node s' x (Node rl y rr), hi')"
      using "3.prems" left(2) by (intro sift_step(1) [where k = k and j = "2 * k" and k' = "2 * k + 1"]) auto
    then show ?thesis using left s' by simp
  next
    case right
    obtain s' hi' where s': "heap_sift d rl t rr (swap_index t y hi) = (s', hi')" by force
    have "sifted d n (2 * k + 1) (insert t (set_tree rl \<union> set_tree rr)) (swap_index t y hi) (s', hi')"
      unfolding s' [symmetric] using "3.prems" right by (intro "3.IH"(2)) auto
    moreover have "\<forall>z \<in> set_tree rl \<union> set_tree rr \<union> set_tree (Node ll x lr). d y \<le> d z"
      using "3.prems"(3,4) leI [OF right(1)] by (auto intro: order.trans)
    ultimately have "sifted d n k (insert t (set_tree (Node ll x lr) \<union> set_tree (Node rl y rr))) hi (Node (Node ll x lr) y s', hi')"
      using "3.prems" right(2) by (intro sift_step(2) [where k = k and j = "2 * k + 1" and k' = "2 * k"]) auto
    then show ?thesis using right s' by simp
  next
    case stop
    then show ?thesis using "3.prems" by (auto simp: sifted_def intro: order.trans)
  qed
qed

subsection \<open>Unlinking the last node\<close>

lemma numbered_beyond: "numbered hi n k q \<Longrightarrow> n < k \<Longrightarrow> q = Leaf"
  by (cases q) auto

lemma subtree_at_last:
  assumes "numbered hi n k q" "place k bs = n" "0 < k"
  shows "\<exists>t. subtree_at bs q = Some (Node Leaf t Leaf) \<and> hi t = n"
  using assms
proof (induction bs arbitrary: k q)
  case Nil
  then show ?case by (cases q) (auto dest: numbered_beyond)
next
  case (Cons b bs)
  have "k < n" using Cons.prems(2,3) place_ge [of "if b then 2 * k + 1 else 2 * k" bs] by (auto split: if_splits)
  then show ?case using Cons by (cases q) auto
qed

lemma subtree_at_next:
  assumes "numbered hi n k q" "place k bs = Suc n" "0 < k"
  shows "subtree_at bs q = Some Leaf"
  using assms
proof (induction bs arbitrary: k q)
  case Nil
  then show ?case by (cases q) auto
next
  case (Cons b bs)
  have "k < Suc n" using Cons.prems(2,3) place_ge [of "if b then 2 * k + 1 else 2 * k" bs] by (auto split: if_splits)
  then show ?case using Cons by (cases q) auto
qed

lemma subtree_at_index:
  assumes "numbered hi n k q" "t \<in> set_tree q"
  shows "\<exists>bs l r. subtree_at bs q = Some (Node l t r) \<and> hi t = place k bs"
  using assms
proof (induction q arbitrary: k)
  case (Node l u r)
  consider "t = u" | "t \<in> set_tree l" | "t \<in> set_tree r" using Node.prems(2) by auto
  then show ?case
  proof cases
    case 1
    then show ?thesis using Node.prems(1) by (intro exI [of _ "[]"]) auto
  next
    case 2
    with Node.IH(1) [of "2 * k"] Node.prems(1) obtain bs l' r' where "subtree_at bs l = Some (Node l' t r')" "hi t = place (2 * k) bs" by auto
    then show ?thesis by (intro exI [of _ "False # bs"]) auto
  next
    case 3
    with Node.IH(2) [of "2 * k + 1"] Node.prems(1) obtain bs l' r' where "subtree_at bs r = Some (Node l' t r')" "hi t = place (2 * k + 1) bs" by auto
    then show ?thesis by (intro exI [of _ "True # bs"]) auto
  qed
qed simp

lemma subtree_at_children:
  assumes "subtree_at bs q = Some (Node l t r)" "distinct (inorder q)"
  shows "heap_children t q = Some (l, r)" "distinct (inorder (Node l t r))" "set_tree (Node l t r) \<subseteq> set_tree q"
proof -
  have in_tree: "t \<in> set_tree s" if "heap_children t s = Some lr" for s lr
    using that by (induction s) (auto split: if_splits option.splits)
  have "heap_children t q = Some (l, r) \<and> distinct (inorder (Node l t r)) \<and> set_tree (Node l t r) \<subseteq> set_tree q"
    using assms by (induction bs q rule: subtree_at.induct) (auto dest: in_tree split: if_splits option.splits)
  then show "heap_children t q = Some (l, r)" "distinct (inorder (Node l t r))" "set_tree (Node l t r) \<subseteq> set_tree q" by blast+
qed

lemma subtree_at_inv:
  assumes "subtree_at bs q = Some s" "numbered hi n k q" "due_ordered d q"
  shows "numbered hi n (place k bs) s \<and> due_ordered d s"
  using assms by (induction bs q arbitrary: k rule: subtree_at.induct) (auto split: if_splits)

lemma heap_unlink_ok:
  assumes "numbered hi n k q" "due_ordered d q" "distinct (inorder q)" "place k bs = n" "0 < k"
  shows "\<exists>t q'. heap_unlink bs q = Inr (Some t, q') \<and> numbered hi (n - 1) k q' \<and> due_ordered d q' \<and> distinct (inorder q') \<and>
    t \<notin> set_tree q' \<and> set_tree q = insert t (set_tree q') \<and> hi t = n"
  using assms
proof (induction bs arbitrary: k q)
  case Nil
  then obtain t where "q = Node Leaf t Leaf" "hi t = n" using subtree_at_last [of hi n k q "[]"] by auto
  then show ?case using Nil by auto
next
  case (Cons b bs)
  have k: "k < n" using Cons.prems(4,5) place_ge [of "if b then 2 * k + 1 else 2 * k" bs] by (auto split: if_splits)
  then obtain l u r where q: "q = Node l u r" using Cons.prems(1) by (cases q) auto
  have pred: "numbered hi (n - 1) j s" if "numbered hi n j s" "\<And>cs. place j cs \<noteq> n" "0 < j" for j s
    using numbered_change [of j n "n - 1" hi s] that k by (simp add: max.absorb1)
  show ?case
  proof (cases b)
    case True
    then obtain t r' where "heap_unlink bs r = Inr (Some t, r')" "numbered hi (n - 1) (2 * k + 1) r'" "due_ordered d r'"
      "distinct (inorder r')" "t \<notin> set_tree r'" "set_tree r = insert t (set_tree r')" "hi t = n"
      using Cons.IH [of "2 * k + 1" r] Cons.prems q by auto
    moreover have "numbered hi (n - 1) (2 * k) l"
      using pred [of "2 * k" l] place_sides [of k _ bs] Cons.prems q True by auto
    ultimately show ?thesis using Cons.prems q True k by auto
  next
    case False
    then obtain t l' where "heap_unlink bs l = Inr (Some t, l')" "numbered hi (n - 1) (2 * k) l'" "due_ordered d l'"
      "distinct (inorder l')" "t \<notin> set_tree l'" "set_tree l = insert t (set_tree l')" "hi t = n"
      using Cons.IH [of "2 * k" l] Cons.prems q by auto
    moreover have "place (2 * k + 1) cs \<noteq> n" for cs using place_sides [of k bs cs] Cons.prems False by auto
    then have "numbered hi (n - 1) (2 * k + 1) r" using pred [of "2 * k + 1" r] Cons.prems q by auto
    ultimately show ?thesis using Cons.prems q False k by auto
  qed
qed

lemma numbered_upd [simp]: "x \<notin> set_tree t \<Longrightarrow> numbered (hi(x := i)) n k t \<longleftrightarrow> numbered hi n k t"
  by (rule numbered_cong) auto

lemma due_ordered_upd [simp]: "x \<notin> set_tree t \<Longrightarrow> due_ordered (d(x := w)) t \<longleftrightarrow> due_ordered d t"
  by (rule due_ordered_cong) auto

subsection \<open>The queue operations\<close>

text \<open>
  What \<open>_st_add_sleep_q\<close> does to the queue: the thread gets its time and the next number, and is
  inserted.
\<close>

definition heap_add :: "thread \<Rightarrow> 64 word \<Rightarrow> sleepq \<Rightarrow> sleepq outcome" where
  "heap_add t when q =
     (let q = q\<lparr>due := (due q)(t := when), sleepq_size := sleepq_size q + 1\<rparr>
      in heap_insert t (q\<lparr>heap_index := (heap_index q)(t := sleepq_size q)\<rparr>))"

lemma heap_add_ok:
  assumes "sleepq_inv q" "t \<notin> sleepers q"
  shows "\<exists>q'. heap_add t when q = Inr q' \<and> sleepq_inv q' \<and> sleepers q' = insert t (sleepers q) \<and> due q' = (due q)(t := when)"
proof -
  let ?n = "sleepq_size q" and ?d = "(due q)(t := when)" and ?hi = "(heap_index q)(t := sleepq_size q + 1)"
    and ?g = "\<lambda>k t q hi. (Node Leaf t Leaf, hi(t := k))"
  obtain bs where bs: "Suc ?n = place (Suc 0) bs" using place_exists by blast
  have q: "numbered ?hi ?n 1 (sleep_q q)" "due_ordered ?d (sleep_q q)" "distinct (inorder (sleep_q q))" "t \<notin> set_tree (sleep_q q)"
    using assms by (auto simp: sleepq_inv_def sleepers_def)
  have "\<exists>res. descend ?d ?g bs 1 t (sleep_q q) ?hi = Inr res \<and> action_ok ?d {} (Suc ?n) 1 (sleep_q q) t ?hi res"
    using q bs subtree_at_next [OF q(1)] by (intro descend_ok [where s = Leaf and n = ?n]) (auto simp: action_ok_def)
  then obtain root hi where "descend ?d ?g bs 1 t (sleep_q q) ?hi = Inr (root, hi)" "action_ok ?d {} (Suc ?n) 1 (sleep_q q) t ?hi (root, hi)"
    by auto
  then show ?thesis
    using bs by (simp add: heap_add_def heap_insert_def heap_insert_loop_descend action_ok_def sleepq_inv_def sleepers_def)
qed

lemma heap_delete_ok:
  assumes "sleepq_inv q" "t \<in> sleepers q"
  shows "\<exists>q'. heap_delete t q = Inr q' \<and> sleepq_inv q' \<and> sleepers q' = sleepers q - {t} \<and> due q' = due q"
proof -
  let ?n = "sleepq_size q" and ?d = "due q"
  have q: "numbered (heap_index q) ?n 1 (sleep_q q)" "due_ordered ?d (sleep_q q)" "distinct (inorder (sleep_q q))" "t \<in> set_tree (sleep_q q)"
    using assms by (auto simp: sleepq_inv_def sleepers_def)
  have "0 < ?n" using q(1,4) by (cases "sleep_q q") auto
  then obtain bs where bs: "?n = place (Suc 0) bs" using place_exists by blast
  obtain e root where e: "heap_unlink bs (sleep_q q) = Inr (Some e, root)" "numbered (heap_index q) (?n - 1) 1 root" "due_ordered ?d root"
    "distinct (inorder root)" "e \<notin> set_tree root" "set_tree (sleep_q q) = insert e (set_tree root)"
    using heap_unlink_ok [OF q(1,2,3), of bs] bs by auto
  show ?thesis
  proof (cases "e = t")
    case True
    then show ?thesis using e bs by (simp add: heap_delete_def Let_def sleepq_inv_def sleepers_def insert_Diff_if)
  next
    case False
    let ?hi = "(heap_index q)(e := heap_index q t)"
    have "t \<in> set_tree root" using q(4) e(6) False by auto
    then obtain cs l r where cs: "subtree_at cs root = Some (Node l t r)" "heap_index q t = place 1 cs"
      using subtree_at_index [OF e(2)] by blast
    note children = subtree_at_children [OF cs(1) e(4)]
    let ?g = "\<lambda>k t q hi. heap_sift ?d l t r (hi(t := k))"
    have root: "numbered ?hi (?n - 1) 1 root" using e(2,5) by simp
    have act: "action_ok ?d {t} (?n - 1) (place 1 cs) (Node l t r) y hi (?g (place 1 cs) y (Node l t r) hi)"
      if "y \<notin> set_tree (Node l t r)" "numbered hi (?n - 1) (place 1 cs) (Node l t r)" for y hi
    proof -
      let ?k = "place 1 cs"
      have "numbered (hi(y := ?k)) (?n - 1) (2 * ?k) l" "numbered (hi(y := ?k)) (?n - 1) (2 * ?k + 1) r" "?k \<le> ?n - 1"
        using that by auto
      moreover have "due_ordered ?d l" "due_ordered ?d r" using subtree_at_inv [OF cs(1) e(2,3)] by auto
      ultimately have "sifted ?d (?n - 1) ?k (insert y (set_tree l \<union> set_tree r)) (hi(y := ?k)) (?g ?k y (Node l t r) hi)"
        using that(1) children(2) by (intro heap_sift_ok) auto
      then show ?thesis using children(2) that(1) by (auto simp: sifted_def action_ok_def)
    qed
    have "\<exists>res. descend ?d ?g cs 1 e root ?hi = Inr res \<and> action_ok ?d {t} (?n - 1) 1 root e ?hi res"
      using act cs(1) root e by (intro descend_ok [where s = "Node l t r" and n = "?n - 1"]) auto
    then obtain root' hi where "descend ?d ?g cs 1 e root ?hi = Inr (root', hi)" "action_ok ?d {t} (?n - 1) 1 root e ?hi (root', hi)"
      by auto
    note res = this
    have "rbind (heap_insert_loop ?d cs 1 e root ?hi) (\<lambda>(root, hi). heap_at cs (heap_adopt ?d (l, r)) root hi) = Inr (root', hi)"
      unfolding heap_adopt_descend using res(1) by simp
    then obtain root1 hi1 where "heap_insert_loop ?d cs 1 e root ?hi = Inr (root1, hi1)" "heap_at cs (heap_adopt ?d (l, r)) root1 hi1 = Inr (root', hi)"
      by auto
    moreover have "heap_path (heap_index q t) = cs" using cs(2) by simp
    ultimately have "heap_delete t q = Inr (q\<lparr>sleep_q := root', sleepq_size := ?n - 1, heap_index := hi\<rparr>)"
      using e(1) bs False children(1) by (simp add: heap_delete_def heap_insert_def)
    then show ?thesis using res(2) e(5,6) q(4) False by (simp add: sleepq_inv_def sleepers_def action_ok_def insert_Diff_if)
  qed
qed

subsection \<open>The contract of a timeout queue\<close>

text \<open>
  What the scheduler relies on: it adds threads that are not in the queue, deletes threads that are,
  and looks at the first.
\<close>

definition first_sleeper :: "sleepq \<Rightarrow> thread option" where
  "first_sleeper q = (case sleep_q q of Leaf \<Rightarrow> None | Node _ t _ \<Rightarrow> Some t)"

locale timeout_queue =
  fixes add :: "'t \<Rightarrow> 'w::linorder \<Rightarrow> 'q \<Rightarrow> 'q outcome"
    and del :: "'t \<Rightarrow> 'q \<Rightarrow> 'q outcome"
    and first :: "'q \<Rightarrow> 't option"
    and members :: "'q \<Rightarrow> 't set"
    and due_of :: "'q \<Rightarrow> 't \<Rightarrow> 'w"
    and inv :: "'q \<Rightarrow> bool"
  assumes add_law: "inv q \<Longrightarrow> t \<notin> members q \<Longrightarrow>
      \<exists>q'. add t w q = Inr q' \<and> inv q' \<and> members q' = insert t (members q) \<and> due_of q' = (due_of q)(t := w)"
    and del_law: "inv q \<Longrightarrow> t \<in> members q \<Longrightarrow>
      \<exists>q'. del t q = Inr q' \<and> inv q' \<and> members q' = members q - {t} \<and> due_of q' = due_of q"
    and first_None: "inv q \<Longrightarrow> first q = None \<longleftrightarrow> members q = {}"
    and first_Some: "inv q \<Longrightarrow> first q = Some t \<Longrightarrow> t \<in> members q \<and> (\<forall>u \<in> members q. due_of q t \<le> due_of q u)"

text \<open>Taking off the first one again and again: the threads in the order they come off.\<close>

primrec pops :: "('q \<Rightarrow> 't option) \<Rightarrow> ('t \<Rightarrow> 'q \<Rightarrow> 'q outcome) \<Rightarrow> 't list \<Rightarrow> 'q \<Rightarrow> 'q \<Rightarrow> bool" where
  "pops first del [] q q' \<longleftrightarrow> q' = q"
| "pops first del (t # ts) q q' \<longleftrightarrow> first q = Some t \<and> (\<exists>q1. del t q = Inr q1 \<and> pops first del ts q1 q')"

context timeout_queue
begin

lemma pops_sorted:
  assumes "inv q" "pops first del ts q q'"
  shows "inv q' \<and> due_of q' = due_of q \<and> distinct ts \<and> set ts \<subseteq> members q \<and> members q' = members q - set ts \<and>
    sorted (map (due_of q) ts) \<and> (\<forall>t \<in> set ts. \<forall>u \<in> members q'. due_of q t \<le> due_of q u)"
  using assms
proof (induction ts arbitrary: q)
  case (Cons t ts)
  then obtain q1 where q1: "first q = Some t" "del t q = Inr q1" "pops first del ts q1 q'" by auto
  have t: "t \<in> members q" "\<forall>u \<in> members q. due_of q t \<le> due_of q u" using first_Some [OF Cons.prems(1) q1(1)] by auto
  have "inv q1 \<and> members q1 = members q - {t} \<and> due_of q1 = due_of q"
    using del_law [OF Cons.prems(1) t(1)] q1(2) by auto
  with Cons.IH [of q1] q1(3) t show ?case by auto
qed simp

end

lemma first_sleeper_min:
  assumes "sleepq_inv q" "first_sleeper q = Some t"
  shows "t \<in> sleepers q \<and> (\<forall>u \<in> sleepers q. due q t \<le> due q u)"
  using assms by (auto simp: first_sleeper_def sleepq_inv_def sleepers_def split: tree.splits)

interpretation heap: timeout_queue heap_add heap_delete first_sleeper sleepers due sleepq_inv
proof
  show "sleepq_inv q \<Longrightarrow> first_sleeper q = None \<longleftrightarrow> sleepers q = {}" for q
    by (auto simp: first_sleeper_def sleepers_def split: tree.splits)
qed (auto intro: heap_add_ok heap_delete_ok simp: first_sleeper_min)

subsection \<open>The heap is a timeout queue\<close>

definition no_sleepers :: sleepq where
  "no_sleepers = \<lparr>sleep_q = Leaf, sleepq_size = 0, due = (\<lambda>_. 0), heap_index = (\<lambda>_. 0)\<rparr>"

lemma no_sleepers_inv [simp]: "sleepq_inv no_sleepers" "sleepers no_sleepers = {}"
  by (simp_all add: no_sleepers_def sleepq_inv_def sleepers_def)

datatype sleep_op = Sleep_until thread "64 word" | Wake thread

fun sleep_op_step :: "sleep_op \<Rightarrow> sleepq \<Rightarrow> sleepq outcome" where
  "sleep_op_step (Sleep_until t w) q = heap_add t w q"
| "sleep_op_step (Wake t) q = heap_delete t q"

primrec sleep_ops :: "sleep_op list \<Rightarrow> sleepq \<Rightarrow> sleepq outcome" where
  "sleep_ops [] q = Inr q"
| "sleep_ops (x # xs) q = rbind (sleep_op_step x q) (sleep_ops xs)"

text \<open>The specification: a map from the sleeping threads to their times, and which operations it allows.\<close>

fun asleep_step :: "sleep_op \<Rightarrow> (thread \<rightharpoonup> 64 word) \<Rightarrow> (thread \<rightharpoonup> 64 word) option" where
  "asleep_step (Sleep_until t w) m = (if m t = None then Some (m(t \<mapsto> w)) else None)"
| "asleep_step (Wake t) m = (if m t = None then None else Some (m(t := None)))"

primrec asleep :: "sleep_op list \<Rightarrow> (thread \<rightharpoonup> 64 word) \<Rightarrow> (thread \<rightharpoonup> 64 word) option" where
  "asleep [] m = Some m"
| "asleep (x # xs) m = Option.bind (asleep_step x m) (asleep xs)"

definition asleep_of :: "sleepq \<Rightarrow> thread \<rightharpoonup> 64 word" where
  "asleep_of q = (\<lambda>t. if t \<in> sleepers q then Some (due q t) else None)"

lemma sleep_ops_refine:
  assumes "sleepq_inv q" "asleep xs (asleep_of q) = Some m"
  shows "\<exists>q'. sleep_ops xs q = Inr q' \<and> sleepq_inv q' \<and> asleep_of q' = m"
  using assms
proof (induction xs arbitrary: q)
  case (Cons x xs)
  have "\<exists>q1. sleep_op_step x q = Inr q1 \<and> sleepq_inv q1 \<and> asleep_step x (asleep_of q) = Some (asleep_of q1)"
  proof (cases x)
    case (Sleep_until t w)
    then have "t \<notin> sleepers q" using Cons.prems(2) by (auto simp: asleep_of_def split: if_splits)
    with heap_add_ok [OF Cons.prems(1), of t w] Sleep_until show ?thesis by (auto simp: asleep_of_def fun_eq_iff)
  next
    case (Wake t)
    then have "t \<in> sleepers q" using Cons.prems(2) by (auto simp: asleep_of_def split: if_splits)
    with heap_delete_ok [OF Cons.prems(1), of t] Wake show ?thesis by (auto simp: asleep_of_def fun_eq_iff)
  qed
  then obtain q1 where "sleep_op_step x q = Inr q1" "sleepq_inv q1" "asleep_step x (asleep_of q) = Some (asleep_of q1)" by blast
  with Cons.IH [of q1] Cons.prems(2) show ?case by simp
qed simp

lemma numbered_onto:
  assumes "numbered hi n k q" "place k bs \<le> n" "0 < k"
  shows "\<exists>x \<in> set_tree q. hi x = place k bs"
  using assms
proof (induction bs arbitrary: k q)
  case Nil
  then show ?case by (cases q) auto
next
  case (Cons b bs)
  have "k \<le> n" using Cons.prems(2) place_ge [of "if b then 2 * k + 1 else 2 * k" bs] by (auto split: if_splits)
  then obtain l u r where "q = Node l u r" using Cons.prems(1) by (cases q) auto
  then show ?case using Cons.prems Cons.IH [of "if b then 2 * k + 1 else 2 * k" "if b then r else l"]
    by (auto split: if_splits)
qed

lemma subtree_at_numbered: "subtree_at bs q = Some s \<Longrightarrow> numbered hi n k q \<Longrightarrow> numbered hi n (place k bs) s"
  by (induction bs q arbitrary: k rule: subtree_at.induct) (auto split: if_splits)

lemma numbered_card:
  assumes "numbered hi n 1 q"
  shows "card (set_tree q) = n"
proof -
  have at: "\<exists>bs l r. subtree_at bs q = Some (Node l x r) \<and> hi x = place 1 bs" if "x \<in> set_tree q" for x
    by (rule subtree_at_index [OF assms that])
  have "inj_on hi (set_tree q)"
  proof (rule inj_onI)
    fix x y assume "x \<in> set_tree q" "y \<in> set_tree q" "hi x = hi y"
    with at [of x] at [of y] show "x = y" using place_inject [of 1] by fastforce
  qed
  moreover have "hi ` set_tree q = {1..n}"
  proof
    have "1 \<le> hi x \<and> hi x \<le> n" if "x \<in> set_tree q" for x
    proof -
      obtain bs l r where bs: "subtree_at bs q = Some (Node l x r)" "hi x = place 1 bs" using at [OF \<open>x \<in> set_tree q\<close>] by blast
      have "numbered hi n (place 1 bs) s" if "subtree_at bs q = Some s" for s bs
        using that assms by (rule subtree_at_numbered)
      from this [OF bs(1)] bs(2) show ?thesis using place_ge [of 1 bs] by simp
    qed
    then show "hi ` set_tree q \<subseteq> {1..n}" by auto
    show "{1..n} \<subseteq> hi ` set_tree q"
    proof
      fix m assume "m \<in> {1..n}"
      then obtain bs where "m = place 1 bs" using place_exists [of m] by auto
      with numbered_onto [OF assms, of bs] \<open>m \<in> {1..n}\<close> show "m \<in> hi ` set_tree q" by force
    qed
  qed
  ultimately have "card {1..n} = card (set_tree q)" using card_image by metis
  then show ?thesis by simp
qed

text \<open>
  C9: The pointer heap of sleeping threads implements a map from threads to timeouts.  Any sequence of
  insertions of threads that do not sleep and deletions of threads that do, in any order and from anywhere in
  the heap, follows no null pointer, leaves exactly the expected threads with their times, keeps the nodes
  numbered without gaps from the root and every thread's index right; and the root is always a thread that is due first.
\<close>

theorem heap_refines_timeouts:
  assumes "asleep xs Map.empty = Some m"
  shows "\<exists>q. sleep_ops xs no_sleepers = Inr q \<and> asleep_of q = m \<and>
    numbered (heap_index q) (sleepq_size q) 1 (sleep_q q) \<and> sleepq_size q = card (dom m) \<and>
    (case first_sleeper q of None \<Rightarrow> m = Map.empty | Some t \<Rightarrow> m t = Some (due q t) \<and> (\<forall>u w. m u = Some w \<longrightarrow> due q t \<le> w))"
proof -
  have "asleep_of no_sleepers = Map.empty" by (simp add: asleep_of_def)
  with sleep_ops_refine [of no_sleepers xs m] assms obtain q where
    q: "sleep_ops xs no_sleepers = Inr q" "sleepq_inv q" "asleep_of q = m" by auto
  have dom: "dom m = sleepers q" using q(3) by (auto simp: asleep_of_def split: if_splits)
  have "card (dom m) = sleepq_size q" "numbered (heap_index q) (sleepq_size q) 1 (sleep_q q)"
    using numbered_card [of "heap_index q" "sleepq_size q" "sleep_q q"] q(2) dom by (simp_all add: sleepq_inv_def sleepers_def)
  moreover have "case first_sleeper q of None \<Rightarrow> m = Map.empty | Some t \<Rightarrow> m t = Some (due q t) \<and> (\<forall>u w. m u = Some w \<longrightarrow> due q t \<le> w)"
    using heap.first_None [OF q(2)] heap.first_Some [OF q(2)] q(3) dom
    by (auto simp: asleep_of_def split: option.split if_splits)
  ultimately show ?thesis using q(1,3) by auto
qed

lemma heap_refines_timeouts_witness:
  "\<exists>q. sleep_ops [Sleep_until 1 50, Sleep_until 2 40, Sleep_until 3 45, Sleep_until 4 10, Wake 4, Sleep_until 5 45, Wake 1] no_sleepers = Inr q \<and>
     asleep_of q = [2 \<mapsto> 40, 3 \<mapsto> 45, 5 \<mapsto> 45] \<and> sleepq_size q = 3"
proof -
  let ?m = "[2 \<mapsto> 40, 3 \<mapsto> 45, 5 \<mapsto> 45] :: thread \<rightharpoonup> 64 word"
  have "asleep [Sleep_until 1 50, Sleep_until 2 40, Sleep_until 3 45, Sleep_until 4 10, Wake 4, Sleep_until 5 45, Wake 1] Map.empty = Some ?m"
    by (simp add: fun_eq_iff)
  from heap_refines_timeouts [OF this] show ?thesis by auto
qed

end
