(* ===== verification/St_Sched.thy ===== *)
theory St_Sched
  imports St_Heap
begin

section \<open>The scheduler of state-threads (state-threads/sched.c, sync.c)\<close>

text \<open>
  Threads are scheduled cooperatively: a call that blocks puts the calling thread on a queue and
  switches to the next runnable thread.  A blocking function is modelled in two parts, up to
  \<open>_ST_SWITCH_CONTEXT\<close> and after it; \<open>resume_at\<close> is where a thread that was switched away
  goes on.  Lists of links are lists of threads.  A pointer to a freed thread, condition variable or
  mutex is a \<open>Bad_access\<close>.
\<close>

subsection \<open>The virtual processor\<close>

datatype st_state =
    ST_RUNNING | ST_RUNNABLE | ST_IO_WAIT | ST_LOCK_WAIT | ST_COND_WAIT | ST_SLEEPING | ST_ZOMBIE | ST_SUSPENDED

datatype st_flag = FL_PRIMORDIAL | FL_IDLE_THREAD | FL_ON_SLEEPQ | FL_INTERRUPT | FL_TIMEDOUT

datatype st_errno =
    EINTR | ETIME | EBUSY | EDEADLK | EPERM | EINVAL | EMFILE | EBADF | EAGAIN | EINPROGRESS | EADDRINUSE
  | EEXIST | ENOENT | ENOMEM | Errno int

type_synonym st_cond = nat
type_synonym st_mutex = nat

text \<open>A freshly created thread and one that runs have nothing to resume.\<close>

datatype resume_point =
    At_user | At_usleep | At_cond st_cond | At_join thread st_cond | At_mutex st_mutex | At_poll | At_yield | At_exit | At_idle

record pollfd =
  pf_fd :: int
  pf_events :: int
  pf_revents :: int

record st_mutex_t =
  owner :: "thread option"
  mutex_wait_q :: "thread list"

record vp =
  threads :: "thread set"
  th_state :: "thread \<Rightarrow> st_state"
  th_flags :: "thread \<Rightarrow> st_flag set"
  th_term :: "thread \<Rightarrow> st_cond option"
  th_retval :: "thread \<Rightarrow> int"
  resume_at :: "thread \<Rightarrow> resume_point"
  this_thread :: thread
  idle_thread :: thread
  active_count :: int
  run_q :: "thread list"
  zombie_q :: "thread list"
  io_q :: "thread list"
  on_ioq :: "thread \<Rightarrow> bool"
  poll_fds :: "thread \<Rightarrow> pollfd list"
  sleeping :: sleepq
  last_clock :: "64 word"
  curr_time :: int
  last_tset :: "64 word"
  cond_wait_q :: "st_cond \<rightharpoonup> thread list"
  mutexes :: "st_mutex \<rightharpoonup> st_mutex_t"

definition ST_UTIME_NO_TIMEOUT :: "64 word" where
  "ST_UTIME_NO_TIMEOUT = - 1"

definition set_state :: "thread \<Rightarrow> st_state \<Rightarrow> vp \<Rightarrow> vp" where
  "set_state t s v = v\<lparr>th_state := (th_state v)(t := s)\<rparr>"

definition set_flag :: "thread \<Rightarrow> st_flag \<Rightarrow> vp \<Rightarrow> vp" where
  "set_flag t f v = v\<lparr>th_flags := (th_flags v)(t := insert f (th_flags v t))\<rparr>"

definition clear_flag :: "thread \<Rightarrow> st_flag \<Rightarrow> vp \<Rightarrow> vp" where
  "clear_flag t f v = v\<lparr>th_flags := (th_flags v)(t := th_flags v t - {f})\<rparr>"

definition add_runq :: "thread \<Rightarrow> vp \<Rightarrow> vp" where
  "add_runq t v = v\<lparr>run_q := run_q v @ [t]\<rparr>"

definition insert_runq :: "thread \<Rightarrow> vp \<Rightarrow> vp" where
  "insert_runq t v = v\<lparr>run_q := t # run_q v\<rparr>"

definition del_runq :: "thread \<Rightarrow> vp \<Rightarrow> vp" where
  "del_runq t v = v\<lparr>run_q := remove1 t (run_q v)\<rparr>"

definition st_add_sleep_q :: "thread \<Rightarrow> 64 word \<Rightarrow> vp \<Rightarrow> vp outcome" where
  "st_add_sleep_q t timeout v = rbind (heap_add t (last_clock v + timeout) (sleeping v)) (\<lambda>q.
     Inr (set_flag t FL_ON_SLEEPQ (v\<lparr>sleeping := q\<rparr>)))"

definition st_del_sleep_q :: "thread \<Rightarrow> vp \<Rightarrow> vp outcome" where
  "st_del_sleep_q t v = rbind (heap_delete t (sleeping v)) (\<lambda>q. Inr (clear_flag t FL_ON_SLEEPQ (v\<lparr>sleeping := q\<rparr>)))"

text \<open>
  \<open>if (flags & ON_SLEEPQ) DEL_SLEEPQ; state = RUNNABLE; ADD_RUNQ\<close>: what signal, unlock, interrupt and the
  event system do to a thread they wake.
\<close>

definition make_runnable :: "thread \<Rightarrow> vp \<Rightarrow> vp outcome" where
  "make_runnable t v =
     rbind (if FL_ON_SLEEPQ \<in> th_flags v t then st_del_sleep_q t v else Inr v) (\<lambda>v.
     Inr (add_runq t (set_state t ST_RUNNABLE v)))"

subsection \<open>Switching\<close>

definition st_vp_schedule :: "vp \<Rightarrow> vp outcome" where
  "st_vp_schedule v =
     (let (t, v) = (case run_q v of t # ts \<Rightarrow> (t, v\<lparr>run_q := ts\<rparr>) | [] \<Rightarrow> (idle_thread v, v)) in
      rbind (srs_assert (th_state v t = ST_RUNNABLE)) (\<lambda>_.
      Inr ((set_state t ST_RUNNING v)\<lparr>this_thread := t\<rparr>)))"

definition st_switch_context :: "resume_point \<Rightarrow> vp \<Rightarrow> vp outcome" where
  "st_switch_context p v = st_vp_schedule (v\<lparr>resume_at := (resume_at v)(this_thread v := p)\<rparr>)"

text \<open>The answer of a call: a result, with the \<open>errno\<close> of a \<open>-1\<close>, or nothing when the thread was switched away.\<close>

type_synonym st_answer = "((st_errno + int) option \<times> vp) outcome"

definition returns :: "st_errno + int \<Rightarrow> vp \<Rightarrow> st_answer" where
  "returns r v = Inr (Some r, v\<lparr>resume_at := (resume_at v)(this_thread v := At_user)\<rparr>)"

definition switches :: "resume_point \<Rightarrow> vp \<Rightarrow> st_answer" where
  "switches p v = rbind (st_switch_context p v) (\<lambda>v. Inr (None, v))"

text \<open>\<open>if (me->flags & INTERRUPT) { clear it; errno = EINTR; return -1; }\<close>\<close>

definition unless_interrupted :: "(vp \<Rightarrow> st_answer) \<Rightarrow> vp \<Rightarrow> st_answer" where
  "unless_interrupted f v =
     (if FL_INTERRUPT \<in> th_flags v (this_thread v) then returns (Inl EINTR) (clear_flag (this_thread v) FL_INTERRUPT v) else f v)"

subsection \<open>Sleeping\<close>

definition st_usleep :: "64 word \<Rightarrow> vp \<Rightarrow> st_answer" where
  "st_usleep usecs = unless_interrupted (\<lambda>v.
     let me = this_thread v in
     rbind (if usecs \<noteq> ST_UTIME_NO_TIMEOUT then st_add_sleep_q me usecs (set_state me ST_SLEEPING v)
            else Inr (set_state me ST_SUSPENDED v)) (switches At_usleep))"

definition st_usleep_resume :: "vp \<Rightarrow> st_answer" where
  "st_usleep_resume = unless_interrupted (returns (Inr 0))"

definition st_sleep :: "int \<Rightarrow> vp \<Rightarrow> st_answer" where
  "st_sleep secs = st_usleep (if secs \<ge> 0 then word_of_int secs * 1000000 else ST_UTIME_NO_TIMEOUT)"

subsection \<open>Condition variables\<close>

text \<open>\<open>c\<close> is the address that \<open>calloc\<close> answers.\<close>

definition st_cond_new :: "st_cond option \<Rightarrow> vp \<Rightarrow> st_cond option \<times> vp" where
  "st_cond_new c v = (case c of None \<Rightarrow> (None, v) | Some c \<Rightarrow> (Some c, v\<lparr>cond_wait_q := (cond_wait_q v)(c \<mapsto> [])\<rparr>))"

definition the_cond :: "st_cond \<Rightarrow> vp \<Rightarrow> thread list outcome" where
  "the_cond c v = (case cond_wait_q v c of None \<Rightarrow> Inl Bad_access | Some q \<Rightarrow> Inr q)"

definition st_cond_destroy :: "st_cond \<Rightarrow> vp \<Rightarrow> ((st_errno + int) \<times> vp) outcome" where
  "st_cond_destroy c v = rbind (the_cond c v) (\<lambda>q.
     if q \<noteq> [] then Inr (Inl EBUSY, v) else Inr (Inr 0, v\<lparr>cond_wait_q := (cond_wait_q v)(c := None)\<rparr>))"

definition cond_enter :: "resume_point \<Rightarrow> st_cond \<Rightarrow> 64 word \<Rightarrow> vp \<Rightarrow> st_answer" where
  "cond_enter p c timeout = unless_interrupted (\<lambda>v.
     let me = this_thread v in
     rbind (the_cond c v) (\<lambda>q.
     let v = (set_state me ST_COND_WAIT v)\<lparr>cond_wait_q := (cond_wait_q v)(c \<mapsto> q @ [me])\<rparr> in
     rbind (if timeout \<noteq> ST_UTIME_NO_TIMEOUT then st_add_sleep_q me timeout v else Inr v) (switches p)))"

definition st_cond_timedwait :: "st_cond \<Rightarrow> 64 word \<Rightarrow> vp \<Rightarrow> st_answer" where
  "st_cond_timedwait c = cond_enter (At_cond c) c"

text \<open>The part after the switch: \<open>rv\<close> and the state.\<close>

definition cond_leave :: "st_cond \<Rightarrow> vp \<Rightarrow> ((st_errno + int) \<times> vp) outcome" where
  "cond_leave c v =
     (let me = this_thread v in
      rbind (the_cond c v) (\<lambda>q.
      let v = v\<lparr>cond_wait_q := (cond_wait_q v)(c \<mapsto> remove1 me q)\<rparr>;
          (rv, v) = (if FL_TIMEDOUT \<in> th_flags v me then (Inl ETIME, clear_flag me FL_TIMEDOUT v) else (Inr 0, v))
      in Inr (if FL_INTERRUPT \<in> th_flags v me then (Inl EINTR, clear_flag me FL_INTERRUPT v) else (rv, v))))"

definition st_cond_timedwait_resume :: "st_cond \<Rightarrow> vp \<Rightarrow> st_answer" where
  "st_cond_timedwait_resume c v = rbind (cond_leave c v) (\<lambda>(rv, v). returns rv v)"

definition st_cond_wait :: "st_cond \<Rightarrow> vp \<Rightarrow> st_answer" where
  "st_cond_wait c = st_cond_timedwait c ST_UTIME_NO_TIMEOUT"

fun cond_signal_loop :: "bool \<Rightarrow> thread list \<Rightarrow> vp \<Rightarrow> vp outcome" where
  "cond_signal_loop broadcast [] v = Inr v"
| "cond_signal_loop broadcast (t # q) v =
     (if th_state v t = ST_COND_WAIT
      then rbind (make_runnable t v) (\<lambda>v. if broadcast then cond_signal_loop broadcast q v else Inr v)
      else cond_signal_loop broadcast q v)"

definition cond_signal :: "st_cond \<Rightarrow> bool \<Rightarrow> vp \<Rightarrow> vp outcome" where
  "cond_signal c broadcast v = rbind (the_cond c v) (\<lambda>q. cond_signal_loop broadcast q v)"

definition st_cond_signal :: "st_cond \<Rightarrow> vp \<Rightarrow> st_answer" where
  "st_cond_signal c v = rbind (cond_signal c False v) (returns (Inr 0))"

definition st_cond_broadcast :: "st_cond \<Rightarrow> vp \<Rightarrow> st_answer" where
  "st_cond_broadcast c v = rbind (cond_signal c True v) (returns (Inr 0))"

subsection \<open>Mutexes\<close>

definition st_mutex_new :: "st_mutex option \<Rightarrow> vp \<Rightarrow> st_mutex option \<times> vp" where
  "st_mutex_new m v = (case m of None \<Rightarrow> (None, v)
     | Some m \<Rightarrow> (Some m, v\<lparr>mutexes := (mutexes v)(m \<mapsto> \<lparr>owner = None, mutex_wait_q = []\<rparr>)\<rparr>))"

definition the_mutex :: "st_mutex \<Rightarrow> vp \<Rightarrow> st_mutex_t outcome" where
  "the_mutex m v = (case mutexes v m of None \<Rightarrow> Inl Bad_access | Some x \<Rightarrow> Inr x)"

definition set_mutex :: "st_mutex \<Rightarrow> st_mutex_t \<Rightarrow> vp \<Rightarrow> vp" where
  "set_mutex m x v = v\<lparr>mutexes := (mutexes v)(m \<mapsto> x)\<rparr>"

definition st_mutex_destroy :: "st_mutex \<Rightarrow> vp \<Rightarrow> st_answer" where
  "st_mutex_destroy m v = rbind (the_mutex m v) (\<lambda>x.
     if owner x \<noteq> None \<or> mutex_wait_q x \<noteq> [] then returns (Inl EBUSY) v
     else returns (Inr 0) (v\<lparr>mutexes := (mutexes v)(m := None)\<rparr>))"

definition st_mutex_lock :: "st_mutex \<Rightarrow> vp \<Rightarrow> st_answer" where
  "st_mutex_lock m = unless_interrupted (\<lambda>v.
     let me = this_thread v in
     rbind (the_mutex m v) (\<lambda>x.
     if owner x = None then returns (Inr 0) (set_mutex m (x\<lparr>owner := Some me\<rparr>) v)
     else if owner x = Some me then returns (Inl EDEADLK) v
     else switches (At_mutex m) (set_mutex m (x\<lparr>mutex_wait_q := mutex_wait_q x @ [me]\<rparr>) (set_state me ST_LOCK_WAIT v))))"

definition st_mutex_lock_resume :: "st_mutex \<Rightarrow> vp \<Rightarrow> st_answer" where
  "st_mutex_lock_resume m v =
     (let me = this_thread v in
      rbind (the_mutex m v) (\<lambda>x.
      let v = set_mutex m (x\<lparr>mutex_wait_q := remove1 me (mutex_wait_q x)\<rparr>) v in
      if FL_INTERRUPT \<in> th_flags v me \<and> owner x \<noteq> Some me then returns (Inl EINTR) (clear_flag me FL_INTERRUPT v)
      else returns (Inr 0) v))"

text \<open>The first waiter that still waits becomes the owner.\<close>

definition st_mutex_unlock :: "st_mutex \<Rightarrow> vp \<Rightarrow> st_answer" where
  "st_mutex_unlock m v = rbind (the_mutex m v) (\<lambda>x.
     if owner x \<noteq> Some (this_thread v) then returns (Inl EPERM) v
     else case filter (\<lambda>t. th_state v t = ST_LOCK_WAIT) (mutex_wait_q x) of
       t # _ \<Rightarrow> returns (Inr 0) (add_runq t (set_state t ST_RUNNABLE (set_mutex m (x\<lparr>owner := Some t\<rparr>) v)))
     | [] \<Rightarrow> returns (Inr 0) (set_mutex m (x\<lparr>owner := None\<rparr>) v))"

definition st_mutex_trylock :: "st_mutex \<Rightarrow> vp \<Rightarrow> st_answer" where
  "st_mutex_trylock m v = rbind (the_mutex m v) (\<lambda>x.
     if owner x \<noteq> None then returns (Inl EBUSY) v
     else returns (Inr 0) (set_mutex m (x\<lparr>owner := Some (this_thread v)\<rparr>) v))"

subsection \<open>Threads\<close>

text \<open>
  \<open>stack\<close> is the answer of the stack allocation: the address of the thread object on the stack;
  \<open>c\<close> that of the allocation of the termination variable.
\<close>

definition st_thread_create :: "thread option \<Rightarrow> st_cond option \<Rightarrow> bool \<Rightarrow> vp \<Rightarrow> thread option \<times> vp" where
  "st_thread_create stack c joinable v = (case stack of None \<Rightarrow> (None, v)
     | Some t \<Rightarrow>
        (let (joined, v) = (if joinable then st_cond_new c v else (None, v)) in
         if joinable \<and> joined = None then (None, v)
         else (Some t, add_runq t (v\<lparr>threads := insert t (threads v), th_state := (th_state v)(t := ST_RUNNABLE),
            th_flags := (th_flags v)(t := {}), th_term := (th_term v)(t := joined), th_retval := (th_retval v)(t := 0),
            resume_at := (resume_at v)(t := At_user), active_count := active_count v + 1\<rparr>))))"

text \<open>
  The end of \<open>st_thread_exit\<close>, after the last use of the thread: its stack is given back and with it the
  thread object, and another thread is scheduled.  The object of the primordial thread is not on its stack and
  stays: \<open>threads\<close> are the threads that have not ended, a thread object is there for these and the primordial thread.
\<close>

definition thread_object :: "thread \<Rightarrow> vp \<Rightarrow> bool" where
  "thread_object t v \<longleftrightarrow> t \<in> threads v \<or> FL_PRIMORDIAL \<in> th_flags v t"

definition thread_free :: "vp \<Rightarrow> st_answer" where
  "thread_free v = switches At_exit (v\<lparr>threads := threads v - {this_thread v}\<rparr>)"

definition st_thread_exit :: "int \<Rightarrow> vp \<Rightarrow> st_answer" where
  "st_thread_exit retval v =
     (let me = this_thread v;
          v = v\<lparr>th_retval := (th_retval v)(me := retval), active_count := active_count v - 1\<rparr> in
      case th_term v me of
        None \<Rightarrow> thread_free v
      | Some c \<Rightarrow> rbind (cond_signal c False (set_state me ST_ZOMBIE (v\<lparr>zombie_q := zombie_q v @ [me]\<rparr>))) (switches At_exit))"

definition st_thread_exit_resume :: "vp \<Rightarrow> st_answer" where
  "st_thread_exit_resume v =
     (let me = this_thread v in
      case th_term v me of None \<Rightarrow> Inl Bad_access
      | Some c \<Rightarrow> rbind (st_cond_destroy c v) (\<lambda>(_, v). thread_free (v\<lparr>th_term := (th_term v)(me := None)\<rparr>)))"

text \<open>The loop of \<open>st_thread_join\<close> up to the next switch.\<close>

definition join_loop :: "thread \<Rightarrow> st_cond \<Rightarrow> vp \<Rightarrow> st_answer" where
  "join_loop t c v =
     (if \<not> thread_object t v then Inl Bad_access
      else if th_state v t \<noteq> ST_ZOMBIE then cond_enter (At_join t c) c ST_UTIME_NO_TIMEOUT v
      else returns (Inr (th_retval v t))
        (add_runq t ((set_state t ST_RUNNABLE v)\<lparr>zombie_q := remove1 t (zombie_q v)\<rparr>)))"

definition st_thread_join :: "thread \<Rightarrow> vp \<Rightarrow> st_answer" where
  "st_thread_join t v =
     (if \<not> thread_object t v then Inl Bad_access
      else case th_term v t of None \<Rightarrow> returns (Inl EINVAL) v
      | Some c \<Rightarrow>
          if this_thread v = t then returns (Inl EDEADLK) v
          else rbind (the_cond c v) (\<lambda>q. if q \<noteq> [] then returns (Inl EINVAL) v else join_loop t c v))"

definition st_thread_join_resume :: "thread \<Rightarrow> st_cond \<Rightarrow> vp \<Rightarrow> st_answer" where
  "st_thread_join_resume t c v = rbind (cond_leave c v) (\<lambda>(rv, v). if rv \<noteq> Inr 0 then returns rv v else join_loop t c v)"

definition st_thread_interrupt :: "thread \<Rightarrow> vp \<Rightarrow> st_answer" where
  "st_thread_interrupt t v =
     (if \<not> thread_object t v then Inl Bad_access
      else if th_state v t = ST_ZOMBIE then returns (Inr 0) v
      else
        let v = set_flag t FL_INTERRUPT v in
        if th_state v t = ST_RUNNING \<or> th_state v t = ST_RUNNABLE then returns (Inr 0) v
        else rbind (make_runnable t v) (returns (Inr 0)))"

subsection \<open>The clock\<close>

text \<open>
  \<open>now\<close> and \<open>seconds\<close> are the answers of \<open>st_utime\<close> and \<open>time\<close>.  Expired threads go to the head of the run queue.
\<close>

partial_function (option) check_clock_loop :: "64 word \<Rightarrow> vp \<Rightarrow> vp outcome option" where
  "check_clock_loop now v = (case first_sleeper (sleeping v) of None \<Rightarrow> Some (Inr v)
     | Some t \<Rightarrow>
        if FL_ON_SLEEPQ \<notin> th_flags v t then Some (Inl Assert_failed)
        else if due (sleeping v) t > now then Some (Inr v)
        else case st_del_sleep_q t v of Inl f \<Rightarrow> Some (Inl f)
        | Inr v \<Rightarrow>
            (let v = (if th_state v t = ST_COND_WAIT then set_flag t FL_TIMEDOUT v else v) in
             if FL_IDLE_THREAD \<in> th_flags v t then Some (Inl Assert_failed)
             else check_clock_loop now (insert_runq t (set_state t ST_RUNNABLE v))))"

definition st_vp_check_clock :: "64 word \<Rightarrow> int \<Rightarrow> vp \<Rightarrow> vp outcome option" where
  "st_vp_check_clock now seconds v =
     (let v = v\<lparr>last_clock := now\<rparr> in
      check_clock_loop now (if curr_time v \<noteq> 0 \<and> now - last_tset v > 999000
        then v\<lparr>curr_time := seconds, last_tset := now\<rparr> else v))"

definition st_thread_yield :: "64 word \<Rightarrow> int \<Rightarrow> vp \<Rightarrow> st_answer option" where
  "st_thread_yield now seconds v = map_option (\<lambda>r. rbind r (\<lambda>v.
     if run_q v = [] then returns (Inr 0) v
     else switches At_yield (add_runq (this_thread v) (set_state (this_thread v) ST_RUNNABLE v))))
     (st_vp_check_clock now seconds v)"

definition st_timecache_set :: "bool \<Rightarrow> 64 word \<Rightarrow> int \<Rightarrow> vp \<Rightarrow> int \<times> vp" where
  "st_timecache_set on now seconds v =
     (let wason = (if curr_time v \<noteq> 0 then 1 else 0) in
      (wason, if on then v\<lparr>curr_time := seconds, last_tset := now\<rparr> else v\<lparr>curr_time := 0\<rparr>))"

definition st_time :: "int \<Rightarrow> vp \<Rightarrow> int" where
  "st_time seconds v = (if curr_time v \<noteq> 0 then curr_time v else seconds)"

subsection \<open>Waiting for descriptors\<close>

text \<open>\<open>added\<close> is the answer of \<open>pollset_add\<close> of the event system (\<open>Inl\<close> an errno).\<close>

definition st_poll :: "st_errno + unit \<Rightarrow> pollfd list \<Rightarrow> 64 word \<Rightarrow> vp \<Rightarrow> st_answer" where
  "st_poll added pds timeout = unless_interrupted (\<lambda>v.
     let me = this_thread v in
     case added of Inl e \<Rightarrow> returns (Inl e) v
     | Inr _ \<Rightarrow>
         let v = v\<lparr>poll_fds := (poll_fds v)(me := pds), on_ioq := (on_ioq v)(me := True), io_q := io_q v @ [me]\<rparr> in
         rbind (if timeout \<noteq> ST_UTIME_NO_TIMEOUT then st_add_sleep_q me timeout v else Inr v) (\<lambda>v.
         switches At_poll (set_state me ST_IO_WAIT v)))"

text \<open>After it the entry, a local variable, is gone.\<close>

definition st_poll_resume :: "vp \<Rightarrow> st_answer" where
  "st_poll_resume v =
     (let me = this_thread v;
          (n, v) = (if on_ioq v me then (0, v\<lparr>io_q := remove1 me (io_q v), on_ioq := (on_ioq v)(me := False)\<rparr>)
             else (int (length (filter (\<lambda>pd. pf_revents pd \<noteq> 0) (poll_fds v me))), v))
      in unless_interrupted (returns (Inr n)) v)"

text \<open>
  What the event systems do for an entry of the io queue with some event: \<open>fds\<close> are its descriptors
  with the events filled in.
\<close>

definition io_notify :: "thread \<Rightarrow> pollfd list \<Rightarrow> vp \<Rightarrow> vp outcome" where
  "io_notify t fds v = (if list_ex (\<lambda>pd. pf_revents pd \<noteq> 0) fds
     then make_runnable t (v\<lparr>io_q := remove1 t (io_q v), on_ioq := (on_ioq v)(t := False), poll_fds := (poll_fds v)(t := fds)\<rparr>)
     else Inr (v\<lparr>poll_fds := (poll_fds v)(t := fds)\<rparr>))"

fun io_dispatch :: "(thread \<Rightarrow> pollfd list) \<Rightarrow> thread list \<Rightarrow> vp \<Rightarrow> vp outcome" where
  "io_dispatch ev [] v = Inr v"
| "io_dispatch ev (t # q) v = rbind (io_notify t (ev t) v) (io_dispatch ev q)"

text \<open>
  One round of the idle thread: the event system waits and notifies (\<open>ev\<close> are the descriptors of each
  waiting thread after it, \<open>None\<close> when nothing happened), then expired threads are woken.
\<close>

definition vp_idle :: "(thread \<Rightarrow> pollfd list) option \<Rightarrow> vp \<Rightarrow> vp outcome" where
  "vp_idle ev v = (case ev of None \<Rightarrow> Inr v | Some ev \<Rightarrow> io_dispatch ev (io_q v) v)"

definition idle_round :: "(thread \<Rightarrow> pollfd list) option \<Rightarrow> 64 word \<Rightarrow> int \<Rightarrow> vp \<Rightarrow> st_answer option" where
  "idle_round ev now seconds v =
     (case vp_idle ev v of Inl f \<Rightarrow> Some (Inl f)
      | Inr v \<Rightarrow> map_option (\<lambda>r. rbind r (\<lambda>v. switches At_idle (set_state (this_thread v) ST_RUNNABLE v)))
          (st_vp_check_clock now seconds v))"

subsection \<open>Initialisation\<close>

text \<open>
  The processor before \<open>st_init\<close>; \<open>sys_ok\<close> tells whether the event system and the descriptors could be set up, \<open>stack\<close> and \<open>main\<close> are the addresses of the idle and of the primordial thread.
\<close>

definition st_no_vp :: vp where
  "st_no_vp = \<lparr>threads = {}, th_state = (\<lambda>_. ST_RUNNING), th_flags = (\<lambda>_. {}), th_term = Map.empty, th_retval = (\<lambda>_. 0),
     resume_at = (\<lambda>_. At_user), this_thread = 0, idle_thread = 0, active_count = 0, run_q = [], zombie_q = [], io_q = [],
     on_ioq = (\<lambda>_. False), poll_fds = (\<lambda>_. []), sleeping = no_sleepers, last_clock = 0, curr_time = 0, last_tset = 0,
     cond_wait_q = Map.empty, mutexes = Map.empty\<rparr>"

definition st_init :: "bool \<Rightarrow> 64 word \<Rightarrow> thread option \<Rightarrow> thread option \<Rightarrow> vp \<Rightarrow> int \<times> vp" where
  "st_init sys_ok now stack main v =
     (if active_count v \<noteq> 0 then (0, v)
      else if \<not> sys_ok then (- 1, v)
      else
        case st_thread_create stack None False (v\<lparr>run_q := [], io_q := [], zombie_q := [], sleeping := no_sleepers, last_clock := now\<rparr>) of
          (None, v) \<Rightarrow> (- 1, v)
        | (Some idle, v) \<Rightarrow>
            let v = del_runq idle (v\<lparr>idle_thread := idle, th_flags := (th_flags v)(idle := {FL_IDLE_THREAD}), active_count := active_count v - 1\<rparr>) in
            case main of None \<Rightarrow> (- 1, v)
            | Some m \<Rightarrow> (0, v\<lparr>threads := insert m (threads v), th_state := (th_state v)(m := ST_RUNNING),
                th_flags := (th_flags v)(m := {FL_PRIMORDIAL}), th_term := (th_term v)(m := None),
                resume_at := (resume_at v)(m := At_user), this_thread := m, active_count := active_count v + 1\<rparr>))"

end
