(* ===== verification/St_Invariant.thy ===== *)
theory St_Invariant
  imports St_Sched
begin

section \<open>What always holds in the scheduler of state-threads\<close>

text \<open>
  Steps of the processor, the invariant of its queues, and what follows for mutexes, timeouts and interrupts.
\<close>

subsection \<open>The invariant\<close>

text \<open>
  The queues of the scheduler.  \<open>r\<close> is the thread that runs, if any (none just before another is chosen).
\<close>

definition waits_on :: "vp \<Rightarrow> thread \<Rightarrow> st_cond \<Rightarrow> bool" where
  "waits_on v t c \<longleftrightarrow> resume_at v t = At_cond c \<or> (\<exists>u. resume_at v t = At_join u c)"

definition runs_ok :: "thread option \<Rightarrow> vp \<Rightarrow> bool" where
  "runs_ok r v \<longleftrightarrow> (\<forall>t \<in> threads v. th_state v t = ST_RUNNING \<longleftrightarrow> r = Some t) \<and> (\<forall>t. r = Some t \<longrightarrow> t \<in> threads v) \<and>
     distinct (run_q v) \<and> set (run_q v) = {t \<in> threads v. th_state v t = ST_RUNNABLE \<and> t \<noteq> idle_thread v} \<and>
     idle_thread v \<in> threads v \<and> (th_state v (idle_thread v) = ST_RUNNING \<or> th_state v (idle_thread v) = ST_RUNNABLE) \<and>
     (\<forall>t \<in> threads v. FL_IDLE_THREAD \<in> th_flags v t \<longleftrightarrow> t = idle_thread v) \<and>
     (\<forall>t. FL_PRIMORDIAL \<in> th_flags v t \<longrightarrow> t \<in> threads v \<or> th_state v t = ST_RUNNING)"

definition sleeps_ok :: "vp \<Rightarrow> bool" where
  "sleeps_ok v \<longleftrightarrow> sleepq_inv (sleeping v) \<and> sleepers (sleeping v) = {t \<in> threads v. FL_ON_SLEEPQ \<in> th_flags v t} \<and>
     (\<forall>t \<in> threads v. FL_ON_SLEEPQ \<in> th_flags v t \<longrightarrow> th_state v t \<in> {ST_SLEEPING, ST_COND_WAIT, ST_IO_WAIT})"

definition queues_ok :: "vp \<Rightarrow> bool" where
  "queues_ok v \<longleftrightarrow> distinct (zombie_q v) \<and> set (zombie_q v) = {t \<in> threads v. th_state v t = ST_ZOMBIE} \<and>
     distinct (io_q v) \<and> set (io_q v) = {t \<in> threads v. on_ioq v t} \<and>
     (\<forall>t \<in> threads v. th_state v t = ST_IO_WAIT \<longrightarrow> on_ioq v t) \<and>
     (\<forall>t. on_ioq v t \<longrightarrow> t \<in> threads v \<and> t \<noteq> idle_thread v \<and> resume_at v t = At_poll \<and>
       th_state v t \<in> {ST_IO_WAIT, ST_RUNNABLE, ST_RUNNING}) \<and>
     resume_at v (idle_thread v) \<in> {At_user, At_idle}"

definition conds_ok :: "vp \<Rightarrow> bool" where
  "conds_ok v \<longleftrightarrow> (\<forall>c q. cond_wait_q v c = Some q \<longrightarrow> distinct q \<and> set q = {t \<in> threads v. waits_on v t c}) \<and>
     (\<forall>t \<in> threads v. \<forall>c. waits_on v t c \<longrightarrow> cond_wait_q v c \<noteq> None) \<and>
     (\<forall>t \<in> threads v. th_state v t = ST_COND_WAIT \<longrightarrow> (\<exists>c. waits_on v t c))"

definition mutexes_ok :: "vp \<Rightarrow> bool" where
  "mutexes_ok v \<longleftrightarrow> (\<forall>m x. mutexes v m = Some x \<longrightarrow> distinct (mutex_wait_q x) \<and>
       set (mutex_wait_q x) = {t \<in> threads v. resume_at v t = At_mutex m} \<and>
       (owner x = None \<longrightarrow> (\<forall>t \<in> threads v. resume_at v t = At_mutex m \<longrightarrow> th_state v t \<noteq> ST_LOCK_WAIT))) \<and>
     (\<forall>t \<in> threads v. \<forall>m. resume_at v t = At_mutex m \<longrightarrow> mutexes v m \<noteq> None) \<and>
     (\<forall>t \<in> threads v. th_state v t = ST_LOCK_WAIT \<longrightarrow> (\<exists>m. resume_at v t = At_mutex m))"

definition vp_ok :: "thread option \<Rightarrow> vp \<Rightarrow> bool" where
  "vp_ok r v \<longleftrightarrow> runs_ok r v \<and> sleeps_ok v \<and> queues_ok v \<and> conds_ok v \<and> mutexes_ok v"

definition vp_inv :: "vp \<Rightarrow> bool" where
  "vp_inv v \<longleftrightarrow> vp_ok (Some (this_thread v)) v \<and> (this_thread v = idle_thread v \<longrightarrow> run_q v = [])"

lemmas vp_parts = runs_ok_def sleeps_ok_def queues_ok_def conds_ok_def mutexes_ok_def waits_on_def
text \<open>Which fields each part does not look at.\<close>

named_theorems vp_frame

lemma runs_ok_frame [vp_frame]:
  "runs_ok r (v\<lparr>resume_at := R\<rparr>) = runs_ok r v" "runs_ok r (v\<lparr>cond_wait_q := C\<rparr>) = runs_ok r v" "runs_ok r (v\<lparr>mutexes := M\<rparr>) = runs_ok r v"
  by (simp_all add: runs_ok_def)

lemma sleeps_ok_frame [vp_frame]:
  "sleeps_ok (v\<lparr>resume_at := R\<rparr>) = sleeps_ok v" "sleeps_ok (v\<lparr>cond_wait_q := C\<rparr>) = sleeps_ok v" "sleeps_ok (v\<lparr>mutexes := M\<rparr>) = sleeps_ok v"
  by (simp_all add: sleeps_ok_def)

lemma queues_ok_frame [vp_frame]:
  "queues_ok (v\<lparr>cond_wait_q := C\<rparr>) = queues_ok v" "queues_ok (v\<lparr>mutexes := M\<rparr>) = queues_ok v"
  "queues_ok (v\<lparr>cond_wait_q := C, resume_at := R\<rparr>) = queues_ok (v\<lparr>resume_at := R\<rparr>)"
  "queues_ok (v\<lparr>mutexes := M, resume_at := R\<rparr>) = queues_ok (v\<lparr>resume_at := R\<rparr>)"
  by (simp_all add: queues_ok_def)

lemma conds_ok_frame [vp_frame]:
  "conds_ok (v\<lparr>mutexes := M\<rparr>) = conds_ok v" "conds_ok (v\<lparr>mutexes := M, resume_at := R\<rparr>) = conds_ok (v\<lparr>resume_at := R\<rparr>)"
  by (simp_all add: conds_ok_def waits_on_def)

lemma mutexes_ok_frame [vp_frame]:
  "mutexes_ok (v\<lparr>cond_wait_q := C\<rparr>) = mutexes_ok v"
  "mutexes_ok (v\<lparr>cond_wait_q := C, resume_at := R\<rparr>) = mutexes_ok (v\<lparr>resume_at := R\<rparr>)"
  by (simp_all add: mutexes_ok_def)

lemmas vp_updates = set_state_def set_flag_def clear_flag_def add_runq_def insert_runq_def set_mutex_def

subsection \<open>Switching keeps it\<close>

lemma vp_okD:
  assumes "vp_ok r v"
  shows "runs_ok r v" "sleeps_ok v" "queues_ok v" "conds_ok v" "mutexes_ok v"
  using assms by (simp_all add: vp_ok_def)

lemma schedule_ok:
  assumes "vp_ok None v"
  shows "\<exists>v'. st_vp_schedule v = Inr v' \<and> vp_inv v'"
proof -
  note ok = vp_okD [OF assms]
  obtain t ts where t: "(case run_q v of t # ts \<Rightarrow> (t, v\<lparr>run_q := ts\<rparr>) | [] \<Rightarrow> (idle_thread v, v)) = (t, v\<lparr>run_q := ts\<rparr>)"
    "run_q v = t # ts \<or> run_q v = [] \<and> t = idle_thread v \<and> ts = []"
    by (cases "run_q v") auto
  have queue: "x \<in> set (run_q v) \<longleftrightarrow> x \<in> threads v \<and> th_state v x = ST_RUNNABLE \<and> x \<noteq> idle_thread v" for x
    using ok(1) by (auto simp: runs_ok_def)
  have idle: "distinct (run_q v)" "idle_thread v \<in> threads v" "th_state v (idle_thread v) = ST_RUNNABLE"
    using ok(1) by (auto simp: runs_ok_def)
  have run: "t \<in> threads v" "th_state v t = ST_RUNNABLE" "distinct ts" "t = idle_thread v \<longrightarrow> ts = []" "t \<notin> set ts"
    using t(2) queue [of t] idle by auto
  have "set ts = set (run_q v) - {t}" using t(2) run(5) by auto
  then have rest: "set ts = {u \<in> threads v. th_state v u = ST_RUNNABLE \<and> u \<noteq> idle_thread v} - {t}"
    using queue by blast
  let ?w = "v\<lparr>run_q := ts, th_state := (th_state v)(t := ST_RUNNING), this_thread := t\<rparr>"
  have "st_vp_schedule v = Inr ?w"
    using run(2) unfolding st_vp_schedule_def t(1) by (simp add: set_state_def)
  moreover have "runs_ok (Some t) ?w" using ok(1) run rest by (auto simp: runs_ok_def)
  moreover have "sleeps_ok ?w" using ok(2) run(2) by (auto simp: sleeps_ok_def)
  moreover have "queues_ok ?w" using ok(3) run(2) by (auto simp: queues_ok_def)
  moreover have "conds_ok ?w" using ok(4) run(2) by (simp add: conds_ok_def waits_on_def)
  moreover have "mutexes_ok ?w" using ok(5) run(2) unfolding mutexes_ok_def by auto
  ultimately show ?thesis using run(4) by (auto simp: vp_inv_def vp_ok_def)
qed

lemma switches_ok:
  assumes "vp_ok None (v\<lparr>resume_at := (resume_at v)(this_thread v := p)\<rparr>)"
  shows "\<exists>v'. switches p v = Inr (None, v') \<and> vp_inv v'"
  using schedule_ok [OF assms] by (auto simp: switches_def st_switch_context_def)

text \<open>Going on sleep and waking up.\<close>

lemma add_sleep_ok:
  assumes "sleeps_ok v" "t \<notin> sleepers (sleeping v)"
  shows "\<exists>q. st_add_sleep_q t w v = Inr (set_flag t FL_ON_SLEEPQ (v\<lparr>sleeping := q\<rparr>)) \<and> sleepq_inv q \<and>
    sleepers q = insert t (sleepers (sleeping v))"
  using heap_add_ok [of "sleeping v" t] assms by (fastforce simp: st_add_sleep_q_def sleeps_ok_def)

lemma del_sleep_ok:
  assumes "sleeps_ok v" "t \<in> sleepers (sleeping v)"
  shows "\<exists>q. st_del_sleep_q t v = Inr (clear_flag t FL_ON_SLEEPQ (v\<lparr>sleeping := q\<rparr>)) \<and> sleepq_inv q \<and>
    sleepers q = sleepers (sleeping v) - {t} \<and> due q = due (sleeping v)"
  using heap_delete_ok [of "sleeping v" t] assms by (fastforce simp: st_del_sleep_q_def sleeps_ok_def)

definition waiting_states :: "st_state set" where
  "waiting_states = {ST_IO_WAIT, ST_LOCK_WAIT, ST_COND_WAIT, ST_SLEEPING, ST_SUSPENDED}"

lemma make_runnable_eq:
  assumes "sleeps_ok v" "t \<in> threads v"
  shows "\<exists>q. make_runnable t v = Inr (v\<lparr>sleeping := q, th_flags := (th_flags v)(t := th_flags v t - {FL_ON_SLEEPQ}),
      th_state := (th_state v)(t := ST_RUNNABLE), run_q := run_q v @ [t]\<rparr>) \<and> sleepq_inv q \<and>
    sleepers q = sleepers (sleeping v) - {t} \<and> due q = due (sleeping v)"
proof (cases "FL_ON_SLEEPQ \<in> th_flags v t")
  case True
  then have "t \<in> sleepers (sleeping v)" using assms by (auto simp: sleeps_ok_def)
  from del_sleep_ok [OF assms(1) this] True show ?thesis by (auto simp: make_runnable_def vp_updates)
next
  case False
  then have "t \<notin> sleepers (sleeping v)" "(th_flags v)(t := th_flags v t - {FL_ON_SLEEPQ}) = th_flags v"
    using assms by (auto simp: sleeps_ok_def)
  then show ?thesis using False assms by (intro exI [of _ "sleeping v"]) (cases v, auto simp: make_runnable_def vp_updates sleeps_ok_def)
qed

text \<open>
  While the running thread is inside a call, its \<open>resume_at\<close> may still be that of the call it goes on with: \<open>R\<close>.
\<close>

lemmas vp_ok_resume = runs_ok_frame(1) sleeps_ok_frame(1)

lemma make_runnable_ok:
  assumes "vp_ok r (v\<lparr>resume_at := R\<rparr>)" "t \<in> threads v" "th_state v t \<in> waiting_states"
  shows "\<exists>v'. make_runnable t v = Inr v' \<and> vp_ok r (v'\<lparr>resume_at := R\<rparr>) \<and> this_thread v' = this_thread v \<and> resume_at v' = resume_at v \<and>
    threads v' = threads v \<and> idle_thread v' = idle_thread v \<and> th_state v' = (th_state v)(t := ST_RUNNABLE) \<and>
    cond_wait_q v' = cond_wait_q v \<and> io_q v' = io_q v \<and> on_ioq v' = on_ioq v"
proof -
  note ok = vp_okD [OF assms(1)]
  have s: "sleeps_ok v" using ok(2) by (simp add: vp_ok_resume)
  obtain q where q: "make_runnable t v = Inr (v\<lparr>sleeping := q, th_flags := (th_flags v)(t := th_flags v t - {FL_ON_SLEEPQ}),
      th_state := (th_state v)(t := ST_RUNNABLE), run_q := run_q v @ [t]\<rparr>)" (is "_ = Inr ?w")
    "sleepq_inv q" "sleepers q = sleepers (sleeping v) - {t}"
    using make_runnable_eq [OF s assms(2)] by blast
  let ?w' = "?w\<lparr>resume_at := R\<rparr>"
  have "runs_ok r ?w'" using ok(1) assms(2,3) by (auto simp: runs_ok_def waiting_states_def)
  moreover have "sleeps_ok ?w'" using s q(2,3) by (auto simp: sleeps_ok_def)
  moreover have "queues_ok ?w'" using ok(3) assms(3) by (auto simp: queues_ok_def waiting_states_def)
  moreover have "conds_ok ?w'" using ok(4) by (simp add: conds_ok_def waits_on_def)
  moreover have "mutexes_ok ?w'" using ok(5) unfolding mutexes_ok_def by auto
  ultimately show ?thesis using q(1) by (auto simp: vp_ok_def)
qed

subsection \<open>Every call keeps it\<close>

definition me_ok :: "vp \<Rightarrow> bool" where
  "me_ok v \<longleftrightarrow> vp_ok (Some (this_thread v)) (v\<lparr>resume_at := (resume_at v)(this_thread v := At_user)\<rparr>) \<and> this_thread v \<noteq> idle_thread v"

text \<open>A call of which the objects are \<open>live\<close> does not fail; another can only fail by a pointer to a freed object.\<close>

definition answer_ok :: "bool \<Rightarrow> st_answer \<Rightarrow> bool" where
  "answer_ok live a \<longleftrightarrow> (case a of Inl f \<Rightarrow> f = Bad_access \<and> \<not> live | Inr (r, v) \<Rightarrow> vp_inv v)"

lemma answer_ok_simps [simp]: "answer_ok L (Inl Bad_access) \<longleftrightarrow> \<not> L" "answer_ok L (Inr (r, v)) \<longleftrightarrow> vp_inv v"
  by (simp_all add: answer_ok_def)

lemma returns_ok: "me_ok v \<Longrightarrow> answer_ok L (returns r v)"
  by (simp add: me_ok_def returns_def vp_inv_def)

lemma me_okD:
  assumes "me_ok v"
  shows "this_thread v \<in> threads v" "th_state v (this_thread v) = ST_RUNNING" "FL_ON_SLEEPQ \<notin> th_flags v (this_thread v)"
    "sleeps_ok v" "this_thread v \<notin> sleepers (sleeping v)" "this_thread v \<noteq> idle_thread v" "\<not> on_ioq v (this_thread v)"
proof -
  have ok: "runs_ok (Some (this_thread v)) v" "sleeps_ok v" "queues_ok (v\<lparr>resume_at := (resume_at v)(this_thread v := At_user)\<rparr>)"
    using assms by (simp_all add: me_ok_def vp_ok_def vp_ok_resume)
  show me: "this_thread v \<in> threads v" "th_state v (this_thread v) = ST_RUNNING" using ok(1) by (auto simp: runs_ok_def)
  then show "FL_ON_SLEEPQ \<notin> th_flags v (this_thread v)" "this_thread v \<notin> sleepers (sleeping v)" using ok(2) by (auto simp: sleeps_ok_def)
  show "sleeps_ok v" by (rule ok(2))
  show "this_thread v \<noteq> idle_thread v" using assms by (simp add: me_ok_def)
  show "\<not> on_ioq v (this_thread v)" using ok(3) by (fastforce simp: queues_ok_def)
qed

lemma vp_ok_flags:
  assumes "vp_ok r (v\<lparr>resume_at := R\<rparr>)"
    and same: "\<And>t. FL_IDLE_THREAD \<in> F t \<longleftrightarrow> FL_IDLE_THREAD \<in> th_flags v t" "\<And>t. FL_ON_SLEEPQ \<in> F t \<longleftrightarrow> FL_ON_SLEEPQ \<in> th_flags v t"
      "\<And>t. FL_PRIMORDIAL \<in> F t \<longleftrightarrow> FL_PRIMORDIAL \<in> th_flags v t"
  shows "vp_ok r (v\<lparr>th_flags := F, resume_at := R\<rparr>)"
proof -
  note ok = vp_okD [OF assms(1)]
  have "runs_ok r (v\<lparr>th_flags := F, resume_at := R\<rparr>)" using ok(1) by (auto simp: runs_ok_def same)
  moreover have "sleeps_ok (v\<lparr>th_flags := F, resume_at := R\<rparr>)" using ok(2) by (simp add: sleeps_ok_def same)
  moreover have "queues_ok (v\<lparr>th_flags := F, resume_at := R\<rparr>)" using ok(3) by (simp add: queues_ok_def)
  moreover have "conds_ok (v\<lparr>th_flags := F, resume_at := R\<rparr>)" using ok(4) by (simp add: conds_ok_def waits_on_def)
  moreover have "mutexes_ok (v\<lparr>th_flags := F, resume_at := R\<rparr>)" using ok(5) by (simp add: mutexes_ok_def)
  ultimately show ?thesis by (simp add: vp_ok_def)
qed

lemma me_ok_flag:
  assumes "me_ok v" "f \<in> {FL_INTERRUPT, FL_TIMEDOUT}"
  shows "me_ok (clear_flag t f v)" "me_ok (set_flag t f v)"
proof -
  have "FL_IDLE_THREAD \<noteq> f" "FL_ON_SLEEPQ \<noteq> f" "FL_PRIMORDIAL \<noteq> f" using assms(2) by auto
  then show "me_ok (clear_flag t f v)" "me_ok (set_flag t f v)"
    using assms(1) by (auto simp: me_ok_def clear_flag_def set_flag_def intro!: vp_ok_flags split: if_splits)
qed

lemma unless_interrupted_ok:
  assumes "me_ok v" "answer_ok L (f v)"
  shows "answer_ok L (unless_interrupted f v)"
  using assms me_ok_flag [OF assms(1), of FL_INTERRUPT] by (simp add: unless_interrupted_def returns_ok)

text \<open>Blocking: with or without a timeout.\<close>

lemma sleep_switch_ok:
  assumes "vp_ok None (v\<lparr>resume_at := (resume_at v)(this_thread v := p)\<rparr>)" "this_thread v \<in> threads v"
    and "th_state v (this_thread v) \<in> {ST_SLEEPING, ST_COND_WAIT, ST_IO_WAIT}" "FL_ON_SLEEPQ \<notin> th_flags v (this_thread v)"
  shows "answer_ok L (rbind (st_add_sleep_q (this_thread v) w v) (switches p))"
proof -
  let ?me = "this_thread v"
  note ok = vp_okD [OF assms(1)]
  have s: "sleeps_ok v" using ok(2) by (simp add: vp_ok_resume)
  have "?me \<notin> sleepers (sleeping v)" using s assms(4) by (auto simp: sleeps_ok_def)
  from add_sleep_ok [OF s this] obtain q where
    q: "st_add_sleep_q ?me w v = Inr (set_flag ?me FL_ON_SLEEPQ (v\<lparr>sleeping := q\<rparr>))" "sleepq_inv q" "sleepers q = insert ?me (sleepers (sleeping v))"
    by blast
  let ?w = "set_flag ?me FL_ON_SLEEPQ (v\<lparr>sleeping := q\<rparr>)"
  let ?w' = "?w\<lparr>resume_at := (resume_at ?w)(this_thread ?w := p)\<rparr>"
  have "runs_ok None ?w'" using ok(1) by (auto simp: runs_ok_def set_flag_def)
  moreover have "sleeps_ok ?w'" using s assms(2,3) q by (auto simp: sleeps_ok_def set_flag_def)
  moreover have "queues_ok ?w'" using ok(3) by (simp add: queues_ok_def set_flag_def)
  moreover have "conds_ok ?w'" using ok(4) by (simp add: conds_ok_def waits_on_def set_flag_def)
  moreover have "mutexes_ok ?w'" using ok(5) by (simp add: mutexes_ok_def set_flag_def)
  ultimately have "vp_ok None ?w'" by (simp add: vp_ok_def)
  from switches_ok [OF this] q(1) show ?thesis by auto
qed

lemma switch_ok: "vp_ok None (v\<lparr>resume_at := (resume_at v)(this_thread v := p)\<rparr>) \<Longrightarrow> answer_ok L (switches p v)"
  using switches_ok by fastforce

lemma stop_parts:
  assumes "me_ok v" "s \<notin> {ST_RUNNING, ST_RUNNABLE}"
  shows "runs_ok None (set_state (this_thread v) s v)" "sleeps_ok (set_state (this_thread v) s v)"
proof -
  let ?me = "this_thread v"
  note me = me_okD [OF assms(1)]
  have "runs_ok (Some ?me) v" using assms(1) by (simp add: me_ok_def vp_ok_def vp_ok_resume)
  moreover have "{t \<in> threads v. ((th_state v)(?me := s)) t = ST_RUNNABLE \<and> t \<noteq> idle_thread v} =
      {t \<in> threads v. th_state v t = ST_RUNNABLE \<and> t \<noteq> idle_thread v}"
    using me(2) assms(2) by auto
  ultimately show "runs_ok None (set_state ?me s v)"
    using me(6) assms(2) unfolding runs_ok_def set_state_def by (simp) blast
  show "sleeps_ok (set_state ?me s v)" using me(3,4) by (simp add: sleeps_ok_def set_state_def)
qed

lemma stop_queues:
  assumes "me_ok v" "s \<notin> {ST_ZOMBIE, ST_IO_WAIT}"
  shows "queues_ok ((set_state (this_thread v) s v)\<lparr>resume_at := (resume_at v)(this_thread v := p)\<rparr>)"
  using assms me_okD [OF assms(1)] unfolding me_ok_def vp_ok_def by (auto simp: queues_ok_def set_state_def)

lemma stop_conds:
  assumes "me_ok v" "s \<noteq> ST_COND_WAIT" "\<And>c. p \<noteq> At_cond c" "\<And>c t. p \<noteq> At_join t c"
  shows "conds_ok ((set_state (this_thread v) s v)\<lparr>resume_at := (resume_at v)(this_thread v := p)\<rparr>)"
  using assms unfolding me_ok_def vp_ok_def by (auto simp: conds_ok_def waits_on_def set_state_def)

lemma stop_mutexes:
  assumes "me_ok v" "s \<noteq> ST_LOCK_WAIT" "\<And>m. p \<noteq> At_mutex m"
  shows "mutexes_ok ((set_state (this_thread v) s v)\<lparr>resume_at := (resume_at v)(this_thread v := p)\<rparr>)"
  using assms unfolding me_ok_def vp_ok_def by (auto simp: mutexes_ok_def set_state_def)

lemma st_usleep_ok:
  assumes "me_ok v"
  shows "answer_ok L (st_usleep w v)"
proof -
  note me = me_okD [OF assms]
  have "vp_ok None ((set_state (this_thread v) s v)\<lparr>resume_at := (resume_at v)(this_thread v := At_usleep)\<rparr>)"
    if "s \<in> {ST_SLEEPING, ST_SUSPENDED}" for s
    using that stop_parts [OF assms, of s] stop_queues [OF assms, of s At_usleep] stop_conds [OF assms, of s At_usleep]
      stop_mutexes [OF assms, of s At_usleep] by (auto simp: vp_ok_def vp_ok_resume)
  then have "answer_ok L (rbind (if w \<noteq> ST_UTIME_NO_TIMEOUT then st_add_sleep_q (this_thread v) w (set_state (this_thread v) ST_SLEEPING v)
      else Inr (set_state (this_thread v) ST_SUSPENDED v)) (switches At_usleep))"
    using me sleep_switch_ok [where v = "set_state (this_thread v) ST_SLEEPING v" and p = At_usleep and w = w] switch_ok [where v = "set_state (this_thread v) ST_SUSPENDED v" and p = At_usleep]
    by (simp add: set_state_def)
  then show ?thesis unfolding st_usleep_def by (intro unless_interrupted_ok [OF assms]) (simp only: Let_def)
qed

text \<open>Condition variables.\<close>

lemma me_not_waiting:
  assumes "me_ok v" "cond_wait_q v c = Some q"
  shows "this_thread v \<notin> set q" "distinct q" "set q \<subseteq> threads v"
  using assms unfolding me_ok_def vp_ok_def by (auto simp: conds_ok_def waits_on_def)

lemma cond_enter_ok:
  assumes "me_ok v" "p = At_cond c \<or> (\<exists>t. p = At_join t c)"
  shows "answer_ok (cond_wait_q v c \<noteq> None) (cond_enter p c w v)"
proof -
  let ?me = "this_thread v"
  note me = me_okD [OF assms(1)]
  have "answer_ok (cond_wait_q v c \<noteq> None) (rbind (the_cond c v) (\<lambda>q.
     let v = (set_state ?me ST_COND_WAIT v)\<lparr>cond_wait_q := (cond_wait_q v)(c \<mapsto> q @ [?me])\<rparr> in
     rbind (if w \<noteq> ST_UTIME_NO_TIMEOUT then st_add_sleep_q ?me w v else Inr v) (switches p)))"
  proof (cases "cond_wait_q v c")
    case (Some q)
    let ?w = "(set_state ?me ST_COND_WAIT v)\<lparr>cond_wait_q := (cond_wait_q v)(c \<mapsto> q @ [?me])\<rparr>"
    let ?w' = "?w\<lparr>resume_at := (resume_at v)(?me := p)\<rparr>"
    have "runs_ok None ?w'" "sleeps_ok ?w'"
      using stop_parts [OF assms(1), of ST_COND_WAIT] by (auto simp: runs_ok_def sleeps_ok_def)
    moreover have "queues_ok ?w'" using stop_queues [OF assms(1), of ST_COND_WAIT p] by (simp add: queues_ok_def)
    moreover have "mutexes_ok ((set_state ?me ST_COND_WAIT v)\<lparr>resume_at := (resume_at v)(?me := p)\<rparr>)"
      by (rule stop_mutexes [OF assms(1)]) (use assms(2) in auto)
    then have "mutexes_ok ?w'" by (simp add: mutexes_ok_def set_state_def)
    moreover have "conds_ok ?w'"
    proof -
      have c: "conds_ok (v\<lparr>resume_at := (resume_at v)(?me := At_user)\<rparr>)" using assms(1) by (simp add: me_ok_def vp_ok_def)
      have w: "waits_on ?w' t d \<longleftrightarrow> (if t = ?me then d = c else waits_on v t d)" for t d
        using assms(2) by (auto simp: waits_on_def)
      have w0: "waits_on (v\<lparr>resume_at := (resume_at v)(?me := At_user)\<rparr>) t d \<longleftrightarrow> t \<noteq> ?me \<and> waits_on v t d" for t d
        by (auto simp: waits_on_def)
      show ?thesis
        using c me(1) me_not_waiting [OF assms(1) Some] Some unfolding conds_ok_def w w0 by (auto simp: set_state_def split: if_splits)
    qed
    ultimately have "vp_ok None ?w'" by (simp add: vp_ok_def)
    then have "answer_ok (cond_wait_q v c \<noteq> None) (rbind (st_add_sleep_q ?me w ?w) (switches p))" "answer_ok (cond_wait_q v c \<noteq> None) (switches p ?w)"
      using me sleep_switch_ok [where v = ?w and p = p and w = w] switch_ok [where v = ?w and p = p] by (simp_all add: set_state_def)
    then show ?thesis using Some by (simp add: the_cond_def Let_def)
  qed (simp add: the_cond_def)
  then show ?thesis unfolding cond_enter_def by (intro unless_interrupted_ok [OF assms(1)]) (simp only: Let_def)
qed

lemma cond_leave_ok:
  assumes "vp_inv v" "this_thread v \<noteq> idle_thread v" "waits_on v (this_thread v) c"
  shows "case cond_leave c v of Inl f \<Rightarrow> False | Inr (rv, v') \<Rightarrow> me_ok v' \<and> (\<forall>t. thread_object t v' = thread_object t v) \<and> cond_wait_q v' c \<noteq> None"
proof -
  let ?me = "this_thread v"
  note ok = vp_okD [OF assms(1) [unfolded vp_inv_def, THEN conjunct1]]
  have me: "?me \<in> threads v" "th_state v ?me = ST_RUNNING" using ok(1) by (auto simp: runs_ok_def)
  have "cond_wait_q v c \<noteq> None" using ok(4) assms(3) me(1) unfolding conds_ok_def by blast
  then obtain q where q: "cond_wait_q v c = Some q" "distinct q" using ok(4) by (auto simp: conds_ok_def)
  let ?w = "v\<lparr>cond_wait_q := (cond_wait_q v)(c \<mapsto> remove1 ?me q)\<rparr>"
  let ?w' = "?w\<lparr>resume_at := (resume_at v)(?me := At_user)\<rparr>"
  have unique: "waits_on v ?me d \<longleftrightarrow> d = c" for d using assms(3) by (auto simp: waits_on_def)
  have w: "waits_on ?w' t d \<longleftrightarrow> t \<noteq> ?me \<and> waits_on v t d" for t d by (auto simp: waits_on_def)
  have "conds_ok ?w'"
    using ok(4) me q unique unfolding conds_ok_def w by (auto split: if_splits)
  moreover have "runs_ok (Some ?me) ?w'" "sleeps_ok ?w'" using ok(1,2) by (auto simp: runs_ok_def sleeps_ok_def)
  moreover have "queues_ok ?w'" using ok(3) assms(3) by (auto simp: queues_ok_def waits_on_def)
  moreover have "mutexes_ok ?w'" using ok(5) assms(3) by (auto simp: mutexes_ok_def waits_on_def)
  ultimately have "me_ok ?w" using assms(2) by (simp add: me_ok_def vp_ok_def)
  then show ?thesis
    using me_ok_flag [of ?w FL_TIMEDOUT ?me] me_ok_flag [of ?w FL_INTERRUPT ?me] me_ok_flag [of "clear_flag ?me FL_TIMEDOUT ?w" FL_INTERRUPT ?me] q(1)
    by (auto simp: cond_leave_def the_cond_def Let_def clear_flag_def thread_object_def)
qed

lemma cond_signal_loop_ok:
  assumes "vp_ok r (v\<lparr>resume_at := R\<rparr>)" "set q \<subseteq> threads v"
  shows "\<exists>v'. cond_signal_loop b q v = Inr v' \<and> vp_ok r (v'\<lparr>resume_at := R\<rparr>) \<and> this_thread v' = this_thread v \<and> resume_at v' = resume_at v \<and>
    threads v' = threads v \<and> idle_thread v' = idle_thread v \<and> cond_wait_q v' = cond_wait_q v \<and>
    (\<forall>t. th_state v t \<noteq> ST_COND_WAIT \<longrightarrow> th_state v' t = th_state v t)"
  using assms
proof (induction q arbitrary: v)
  case (Cons t q)
  show ?case
  proof (cases "th_state v t = ST_COND_WAIT")
    case True
    then obtain v1 where "make_runnable t v = Inr v1" "vp_ok r (v1\<lparr>resume_at := R\<rparr>)" "this_thread v1 = this_thread v" "resume_at v1 = resume_at v"
      "threads v1 = threads v" "idle_thread v1 = idle_thread v" "th_state v1 = (th_state v)(t := ST_RUNNABLE)" "cond_wait_q v1 = cond_wait_q v"
      using make_runnable_ok [OF Cons.prems(1), of t] Cons.prems(2) by (auto simp: waiting_states_def)
    with True Cons.IH [of v1] Cons.prems(2) show ?thesis by (cases b) fastforce+
  next
    case False
    then show ?thesis using Cons by simp
  qed
qed simp

lemma me_ok_keep:
  assumes "me_ok v" "vp_ok (Some (this_thread v)) (v'\<lparr>resume_at := (resume_at v)(this_thread v := At_user)\<rparr>)"
    and "this_thread v' = this_thread v" "resume_at v' = resume_at v" "idle_thread v' = idle_thread v"
  shows "me_ok v'"
  using assms by (simp add: me_ok_def)

lemma cond_destroy_ok:
  assumes "me_ok v" "cond_wait_q v c = Some []"
  shows "me_ok (v\<lparr>cond_wait_q := (cond_wait_q v)(c := None)\<rparr>)"
proof (rule me_ok_keep [OF assms(1)])
  let ?w = "(v\<lparr>cond_wait_q := (cond_wait_q v)(c := None)\<rparr>)\<lparr>resume_at := (resume_at v)(this_thread v := At_user)\<rparr>"
  note ok = vp_okD [OF assms(1) [unfolded me_ok_def, THEN conjunct1]]
  have same: "waits_on ?w t d = waits_on (v\<lparr>resume_at := (resume_at v)(this_thread v := At_user)\<rparr>) t d" for t d
    by (simp add: waits_on_def)
  have "t \<in> threads v \<Longrightarrow> \<not> waits_on (v\<lparr>resume_at := (resume_at v)(this_thread v := At_user)\<rparr>) t c" for t
    using ok(4) assms(2) by (fastforce simp: conds_ok_def)
  then have "conds_ok ?w" using ok(4) unfolding conds_ok_def same by auto
  then show "vp_ok (Some (this_thread v)) ?w"
    using ok by (simp add: vp_ok_def vp_frame)
qed simp_all

lemma cond_calls_ok:
  assumes "me_ok v"
  shows "answer_ok (cond_wait_q v c \<noteq> None) (st_cond_timedwait c w v)" "answer_ok (cond_wait_q v c \<noteq> None) (rbind (cond_signal c b v) (returns (Inr 0)))"
    "answer_ok (cond_wait_q v c \<noteq> None) (rbind (st_cond_destroy c v) (\<lambda>(rv, v). returns rv v))"
proof -
  show "answer_ok (cond_wait_q v c \<noteq> None) (st_cond_timedwait c w v)" unfolding st_cond_timedwait_def by (rule cond_enter_ok [OF assms]) simp
  show "answer_ok (cond_wait_q v c \<noteq> None) (rbind (cond_signal c b v) (returns (Inr 0)))"
  proof (cases "cond_wait_q v c")
    case (Some q)
    from cond_signal_loop_ok [OF assms [unfolded me_ok_def, THEN conjunct1] me_not_waiting(3) [OF assms Some], of b]
    obtain v' where "cond_signal_loop b q v = Inr v'" "me_ok v'" using me_ok_keep [OF assms] by blast
    then show ?thesis using Some by (simp add: cond_signal_def the_cond_def returns_ok)
  qed (simp add: cond_signal_def the_cond_def)
  show "answer_ok (cond_wait_q v c \<noteq> None) (rbind (st_cond_destroy c v) (\<lambda>(rv, v). returns rv v))"
  proof (cases "cond_wait_q v c")
    case (Some q)
    then show ?thesis using assms cond_destroy_ok [OF assms] by (simp add: st_cond_destroy_def the_cond_def returns_ok)
  qed (simp add: st_cond_destroy_def the_cond_def)
qed

text \<open>Mutexes.\<close>

lemma set_mutex_ok:
  assumes "me_ok v" "mutexes v m = Some x" "mutex_wait_q x' = mutex_wait_q x" "owner x' \<noteq> None \<or>
      (\<forall>t \<in> threads v. resume_at v t = At_mutex m \<longrightarrow> t \<noteq> this_thread v \<longrightarrow> th_state v t \<noteq> ST_LOCK_WAIT)"
  shows "me_ok (set_mutex m x' v)"
proof (rule me_ok_keep [OF assms(1)])
  let ?w = "(set_mutex m x' v)\<lparr>resume_at := (resume_at v)(this_thread v := At_user)\<rparr>"
  note ok = vp_okD [OF assms(1) [unfolded me_ok_def, THEN conjunct1]]
  have "mutexes_ok ?w" using ok(5) assms(2-4) by (auto simp: mutexes_ok_def set_mutex_def)
  moreover have "runs_ok (Some (this_thread v)) ?w" "sleeps_ok ?w" using ok(1,2) by (auto simp: runs_ok_def sleeps_ok_def set_mutex_def)
  moreover have "queues_ok ?w" using ok(3) by (simp add: queues_ok_def set_mutex_def)
  moreover have "conds_ok ?w" using ok(4) by (simp add: conds_ok_def waits_on_def set_mutex_def)
  ultimately show "vp_ok (Some (this_thread v)) ?w" by (simp add: vp_ok_def)
qed (simp_all add: set_mutex_def)

lemma st_mutex_lock_ok:
  assumes "me_ok v"
  shows "answer_ok (mutexes v m \<noteq> None) (st_mutex_lock m v)"
proof -
  let ?me = "this_thread v"
  note me = me_okD [OF assms]
  have "answer_ok (mutexes v m \<noteq> None) (rbind (the_mutex m v) (\<lambda>x.
     if owner x = None then returns (Inr 0) (set_mutex m (x\<lparr>owner := Some ?me\<rparr>) v)
     else if owner x = Some ?me then returns (Inl EDEADLK) v
     else switches (At_mutex m) (set_mutex m (x\<lparr>mutex_wait_q := mutex_wait_q x @ [?me]\<rparr>) (set_state ?me ST_LOCK_WAIT v))))"
  proof (cases "mutexes v m")
    case (Some x)
    let ?w = "set_mutex m (x\<lparr>mutex_wait_q := mutex_wait_q x @ [?me]\<rparr>) (set_state ?me ST_LOCK_WAIT v)"
    let ?w' = "?w\<lparr>resume_at := (resume_at ?w)(this_thread ?w := At_mutex m)\<rparr>"
    have "answer_ok (mutexes v m \<noteq> None) (switches (At_mutex m) ?w)" if "owner x \<noteq> None"
    proof (rule switch_ok)
      have "runs_ok None ?w'" "sleeps_ok ?w'"
        using stop_parts [OF assms, of ST_LOCK_WAIT] by (auto simp: runs_ok_def sleeps_ok_def set_mutex_def)
      moreover have "queues_ok ?w'" using stop_queues [OF assms, of ST_LOCK_WAIT "At_mutex m"] by (simp add: queues_ok_def set_mutex_def set_state_def)
      moreover have "conds_ok ?w'" using stop_conds [OF assms, of ST_LOCK_WAIT "At_mutex m"]
        by (simp add: conds_ok_def waits_on_def set_mutex_def set_state_def)
      moreover have "mutexes_ok ?w'"
        using assms me(1) Some that unfolding me_ok_def vp_ok_def by (auto simp: mutexes_ok_def set_mutex_def set_state_def)
      ultimately show "vp_ok None ?w'" by (simp add: vp_ok_def)
    qed
    moreover have "me_ok (set_mutex m (x\<lparr>owner := Some ?me\<rparr>) v)" by (rule set_mutex_ok [OF assms Some]) simp_all
    ultimately show ?thesis using Some assms by (simp add: the_mutex_def returns_ok)
  qed (simp add: the_mutex_def)
  then show ?thesis unfolding st_mutex_lock_def by (intro unless_interrupted_ok [OF assms]) (simp only: Let_def)
qed

lemma st_mutex_trylock_ok: "me_ok v \<Longrightarrow> answer_ok (mutexes v m \<noteq> None) (st_mutex_trylock m v)"
  using set_mutex_ok [of v m] by (auto simp: st_mutex_trylock_def the_mutex_def returns_ok split: option.split)

lemma wake_ok:
  assumes "me_ok v" "t \<in> threads v" "th_state v t \<in> waiting_states"
  shows "answer_ok L (rbind (make_runnable t v) (returns r))"
  using make_runnable_ok [OF assms(1) [unfolded me_ok_def, THEN conjunct1] assms(2,3)] me_ok_keep [OF assms(1)] returns_ok
  by fastforce

lemma st_mutex_unlock_ok:
  assumes "me_ok v"
  shows "answer_ok (mutexes v m \<noteq> None) (st_mutex_unlock m v)"
proof (cases "mutexes v m")
  case (Some x)
  let ?ws = "filter (\<lambda>t. th_state v t = ST_LOCK_WAIT) (mutex_wait_q x)"
  note ok = vp_okD [OF assms [unfolded me_ok_def, THEN conjunct1]]
  have q: "set (mutex_wait_q x) = {t \<in> threads v. t \<noteq> this_thread v \<and> resume_at v t = At_mutex m}"
    using ok(5) Some by (auto simp: mutexes_ok_def)
  show ?thesis
  proof (cases ?ws)
    case Nil
    then have "me_ok (set_mutex m (x\<lparr>owner := None\<rparr>) v)"
      using q by (intro set_mutex_ok [OF assms Some]) (auto simp: filter_empty_conv)
    then show ?thesis using Some Nil assms by (simp add: st_mutex_unlock_def the_mutex_def returns_ok)
  next
    case (Cons t ts)
    then have "t \<in> set ?ws" by simp
    then have t: "t \<in> threads v" "th_state v t = ST_LOCK_WAIT" using q by auto
    let ?v = "set_mutex m (x\<lparr>owner := Some t\<rparr>) v"
    have v: "me_ok ?v" by (rule set_mutex_ok [OF assms Some]) simp_all
    have "FL_ON_SLEEPQ \<notin> th_flags ?v t" using me_okD(4) [OF assms] t by (auto simp: sleeps_ok_def set_mutex_def)
    then have "make_runnable t ?v = Inr (add_runq t (set_state t ST_RUNNABLE ?v))" by (simp add: make_runnable_def)
    with wake_ok [OF v, where t = t and r = "Inr 0"] t have "answer_ok (mutexes v m \<noteq> None) (returns (Inr 0) (add_runq t (set_state t ST_RUNNABLE ?v)))"
      by (simp add: set_mutex_def waiting_states_def)
    then show ?thesis using Some Cons assms by (simp add: st_mutex_unlock_def the_mutex_def returns_ok)
  qed
qed (simp add: st_mutex_unlock_def the_mutex_def)

lemma st_mutex_destroy_ok:
  assumes "me_ok v"
  shows "answer_ok (mutexes v m \<noteq> None) (st_mutex_destroy m v)"
proof (cases "mutexes v m")
  case (Some x)
  have "me_ok (v\<lparr>mutexes := (mutexes v)(m := None)\<rparr>)" if "mutex_wait_q x = []"
  proof (rule me_ok_keep [OF assms])
    let ?w = "(v\<lparr>mutexes := (mutexes v)(m := None)\<rparr>)\<lparr>resume_at := (resume_at v)(this_thread v := At_user)\<rparr>"
    note ok = vp_okD [OF assms [unfolded me_ok_def, THEN conjunct1]]
    have "t \<in> threads v \<Longrightarrow> t \<noteq> this_thread v \<Longrightarrow> resume_at v t \<noteq> At_mutex m" for t
      using ok(5) Some that by (fastforce simp: mutexes_ok_def)
    then have "mutexes_ok ?w" using ok(5) by (auto simp: mutexes_ok_def)
    then show "vp_ok (Some (this_thread v)) ?w"
      using ok by (simp add: vp_ok_def vp_frame)
  qed simp_all
  then show ?thesis using Some assms by (simp add: st_mutex_destroy_def the_mutex_def returns_ok)
qed (simp add: st_mutex_destroy_def the_mutex_def)

lemma st_mutex_lock_resume_ok:
  assumes "vp_inv v" "this_thread v \<noteq> idle_thread v" "resume_at v (this_thread v) = At_mutex m"
  shows "answer_ok L (st_mutex_lock_resume m v)"
proof -
  let ?me = "this_thread v"
  note ok = vp_okD [OF assms(1) [unfolded vp_inv_def, THEN conjunct1]]
  have me: "?me \<in> threads v" "th_state v ?me = ST_RUNNING" using ok(1) by (auto simp: runs_ok_def)
  then obtain x where x: "mutexes v m = Some x" using ok(5) assms(3) unfolding mutexes_ok_def by fast
  let ?w = "set_mutex m (x\<lparr>mutex_wait_q := remove1 ?me (mutex_wait_q x)\<rparr>) v"
  let ?w' = "?w\<lparr>resume_at := (resume_at v)(?me := At_user)\<rparr>"
  have "mutexes_ok ?w'" using ok(5) me x assms(3) by (auto simp: mutexes_ok_def set_mutex_def)
  moreover have "runs_ok (Some ?me) ?w'" "sleeps_ok ?w'" using ok(1,2) by (auto simp: runs_ok_def sleeps_ok_def set_mutex_def)
  moreover have "queues_ok ?w'" using ok(3) assms(3) by (auto simp: queues_ok_def set_mutex_def)
  moreover have "conds_ok ?w'" using ok(4) assms(3) me by (auto simp: conds_ok_def waits_on_def set_mutex_def)
  ultimately have "me_ok ?w" using assms(2) by (simp add: me_ok_def vp_ok_def set_mutex_def)
  with me_ok_flag [OF this, of FL_INTERRUPT ?me] show ?thesis
    using x returns_ok by (simp add: st_mutex_lock_resume_def the_mutex_def Let_def)
qed

text \<open>Threads.\<close>

lemma st_thread_interrupt_ok:
  assumes "me_ok v"
  shows "answer_ok (thread_object t v) (st_thread_interrupt t v)"
proof -
  have "t \<in> threads v \<or> th_state v t = ST_RUNNING" if "thread_object t v"
    using assms that by (auto simp: me_ok_def vp_ok_def runs_ok_def thread_object_def)
  note running = this
  have "me_ok (set_flag t FL_INTERRUPT v)" using me_ok_flag [OF assms] by simp
  from returns_ok [OF this] wake_ok [OF this, where t = t and r = "Inr 0"] returns_ok [OF assms, where r = "Inr 0"] running show ?thesis
    by (cases "thread_object t v"; cases "th_state v t") (simp_all add: st_thread_interrupt_def Let_def waiting_states_def set_flag_def)
qed

lemma cond_new_ok:
  assumes "vp_ok r v" "cond_wait_q v c = None"
  shows "vp_ok r (v\<lparr>cond_wait_q := (cond_wait_q v)(c \<mapsto> [])\<rparr>)"
proof -
  note ok = vp_okD [OF assms(1)]
  have "conds_ok (v\<lparr>cond_wait_q := (cond_wait_q v)(c \<mapsto> [])\<rparr>)"
    using ok(4) assms(2) by (fastforce simp: conds_ok_def waits_on_def)
  then show ?thesis using ok by (simp add: vp_ok_def vp_frame)
qed

lemma mutex_new_ok:
  assumes "vp_ok r v" "mutexes v m = None"
  shows "vp_ok r (v\<lparr>mutexes := (mutexes v)(m \<mapsto> \<lparr>owner = None, mutex_wait_q = []\<rparr>)\<rparr>)"
proof -
  note ok = vp_okD [OF assms(1)]
  have "mutexes_ok (v\<lparr>mutexes := (mutexes v)(m \<mapsto> \<lparr>owner = None, mutex_wait_q = []\<rparr>)\<rparr>)"
    using ok(5) assms(2) by (fastforce simp: mutexes_ok_def)
  then show ?thesis using ok by (simp add: vp_ok_def vp_frame)
qed

lemma new_thread_ok:
  assumes "vp_ok r v" "t \<notin> threads v"
  shows "vp_ok r (add_runq t (v\<lparr>threads := insert t (threads v), th_state := (th_state v)(t := ST_RUNNABLE),
            th_flags := (th_flags v)(t := {}), th_term := (th_term v)(t := joined), th_retval := (th_retval v)(t := 0),
            resume_at := (resume_at v)(t := At_user), active_count := n\<rparr>))" (is "vp_ok r ?w")
proof -
  note ok = vp_okD [OF assms(1)]
  have "runs_ok r ?w" using ok(1) assms(2) by (auto simp: runs_ok_def add_runq_def)
  moreover have "sleeps_ok ?w" using ok(2) assms(2) by (auto simp: sleeps_ok_def add_runq_def)
  moreover have "queues_ok ?w" using ok(3) assms(2) by (auto simp: queues_ok_def add_runq_def)
  moreover have "conds_ok ?w"
  proof -
    have w: "waits_on ?w u d \<longleftrightarrow> u \<noteq> t \<and> waits_on v u d" for u d by (auto simp: waits_on_def add_runq_def)
    show ?thesis using ok(4) assms(2) unfolding conds_ok_def w by (auto simp: add_runq_def)
  qed
  moreover have "mutexes_ok ?w" using ok(5) assms(2) by (auto simp: mutexes_ok_def add_runq_def)
  ultimately show ?thesis by (simp add: vp_ok_def)
qed

lemma st_thread_create_ok:
  assumes "vp_ok r v" "t \<notin> threads v" "cond_wait_q v c = None" "st_thread_create (Some t) (Some c) j v = (s, v')"
  shows "vp_ok r v' \<and> this_thread v' = this_thread v \<and> idle_thread v' = idle_thread v"
proof -
  let ?v = "if j then v\<lparr>cond_wait_q := (cond_wait_q v)(c \<mapsto> [])\<rparr> else v"
  have "vp_ok r ?v" using assms(1) cond_new_ok [OF assms(1,3)] by simp
  from new_thread_ok [OF this, where t = t and joined = "if j then Some c else None" and n = "active_count v + 1"] assms(2)
  have "vp_ok r (add_runq t (?v\<lparr>threads := insert t (threads ?v), th_state := (th_state ?v)(t := ST_RUNNABLE),
      th_flags := (th_flags ?v)(t := {}), th_term := (th_term ?v)(t := if j then Some c else None), th_retval := (th_retval ?v)(t := 0),
      resume_at := (resume_at ?v)(t := At_user), active_count := active_count v + 1\<rparr>))" (is "vp_ok r ?w")
    by (cases j) simp_all
  moreover have "v' = ?w" using assms(4) by (cases j) (simp_all add: st_thread_create_def st_cond_new_def)
  ultimately show ?thesis by (simp add: add_runq_def)
qed

text \<open>The end of a thread.\<close>

lemma thread_free_ok:
  assumes "me_ok v"
  shows "answer_ok L (thread_free v)"
  unfolding thread_free_def
proof (rule switch_ok)
  let ?me = "this_thread v"
  let ?w = "v\<lparr>threads := threads v - {?me}, resume_at := (resume_at v)(?me := At_exit)\<rparr>"
  note me = me_okD [OF assms] and ok = vp_okD [OF assms [unfolded me_ok_def, THEN conjunct1]]
  have "runs_ok (Some ?me) v" using ok(1) by (simp add: vp_ok_resume)
  moreover have "{t \<in> threads v - {?me}. th_state v t = ST_RUNNABLE \<and> t \<noteq> idle_thread v} =
      {t \<in> threads v. th_state v t = ST_RUNNABLE \<and> t \<noteq> idle_thread v}"
    using me(2) by auto
  ultimately have "runs_ok None ?w" using me(6) unfolding runs_ok_def by simp blast
  moreover have "sleeps_ok ?w" using ok(2) me(3) by (auto simp: sleeps_ok_def)
  moreover have "queues_ok ?w" using ok(3) me(2,6,7) by (auto simp: queues_ok_def split: if_splits)
  moreover have "conds_ok ?w"
  proof -
    have w: "waits_on ?w u d \<longleftrightarrow> u \<noteq> ?me \<and> waits_on v u d" for u d by (auto simp: waits_on_def)
    have w0: "waits_on (v\<lparr>resume_at := (resume_at v)(?me := At_user)\<rparr>) u d \<longleftrightarrow> u \<noteq> ?me \<and> waits_on v u d" for u d
      by (auto simp: waits_on_def)
    show ?thesis using ok(4) me(2) unfolding conds_ok_def w w0 by auto
  qed
  moreover have "mutexes_ok ?w" using ok(5) me(2) by (auto simp: mutexes_ok_def)
  ultimately have "vp_ok None ?w" by (simp add: vp_ok_def)
  then show "vp_ok None ((v\<lparr>threads := threads v - {?me}\<rparr>)\<lparr>resume_at := (resume_at (v\<lparr>threads := threads v - {?me}\<rparr>))
      (this_thread (v\<lparr>threads := threads v - {?me}\<rparr>) := At_exit)\<rparr>)" by simp
qed

lemma vp_ok_result: "vp_ok r (v\<lparr>th_retval := f, active_count := n\<rparr>) = vp_ok r v"
  by (simp add: vp_ok_def runs_ok_def sleeps_ok_def queues_ok_def conds_ok_def waits_on_def mutexes_ok_def)

lemma st_thread_exit_ok:
  assumes "me_ok v" "resume_at v (this_thread v) = At_user"
  shows "answer_ok (\<forall>c. th_term v (this_thread v) = Some c \<longrightarrow> cond_wait_q v c \<noteq> None) (st_thread_exit rv v)"
proof -
  let ?me = "this_thread v"
  let ?v = "v\<lparr>th_retval := (th_retval v)(?me := rv), active_count := active_count v - 1\<rparr>"
  have R: "(resume_at v)(?me := At_user) = resume_at v" using assms(2) by (simp add: fun_upd_idem)
  note ok = vp_okD [OF assms(1) [unfolded me_ok_def R, THEN conjunct1]]
  have v: "me_ok ?v"
    using assms(1) by (simp add: me_ok_def R vp_ok_result)
  show ?thesis
  proof (cases "th_term v ?me")
    case None
    then show ?thesis using thread_free_ok [OF v] by (simp add: st_thread_exit_def)
  next
    case (Some c)
    let ?w = "set_state ?me ST_ZOMBIE (?v\<lparr>zombie_q := zombie_q v @ [?me]\<rparr>)"
    note me = me_okD [OF v]
    have zombie: "vp_ok None (?w\<lparr>resume_at := R\<rparr>)" if "R = (resume_at v)(?me := p)" "p = At_user \<or> p = At_exit" for p R
    proof -
      have "runs_ok None (?w\<lparr>resume_at := R\<rparr>)" "sleeps_ok (?w\<lparr>resume_at := R\<rparr>)"
        using stop_parts [OF v, of ST_ZOMBIE] by (auto simp: runs_ok_def sleeps_ok_def set_state_def)
      moreover have "queues_ok (?w\<lparr>resume_at := R\<rparr>)"
        using ok(3) me that by (auto simp: queues_ok_def set_state_def)
      moreover have "conds_ok ((set_state ?me ST_ZOMBIE ?v)\<lparr>resume_at := (resume_at ?v)(?me := p)\<rparr>)"
        "mutexes_ok ((set_state ?me ST_ZOMBIE ?v)\<lparr>resume_at := (resume_at ?v)(?me := p)\<rparr>)"
        using stop_conds [OF v, of ST_ZOMBIE p] stop_mutexes [OF v, of ST_ZOMBIE p] that(2) by auto
      then have "conds_ok (?w\<lparr>resume_at := R\<rparr>)" "mutexes_ok (?w\<lparr>resume_at := R\<rparr>)"
        by (simp_all add: that(1) conds_ok_def waits_on_def mutexes_ok_def set_state_def)
      ultimately show ?thesis by (simp add: vp_ok_def)
    qed
    show ?thesis
    proof (cases "cond_wait_q v c")
      case (Some q)
      have "set q \<subseteq> threads ?w" using me_not_waiting(3) [OF v, of c q] Some by (simp add: set_state_def)
      from cond_signal_loop_ok [OF zombie [OF refl, of At_exit] this, of False] obtain w' where
        "cond_signal_loop False q ?w = Inr w'" "vp_ok None (w'\<lparr>resume_at := (resume_at v)(?me := At_exit)\<rparr>)"
        "this_thread w' = ?me" "resume_at w' = resume_at v"
        by (auto simp: set_state_def)
      then show ?thesis using switch_ok [where v = w' and p = At_exit] Some \<open>th_term v ?me = Some c\<close>
        by (simp add: st_thread_exit_def cond_signal_def the_cond_def set_state_def)
    qed (use Some in \<open>simp add: st_thread_exit_def cond_signal_def the_cond_def set_state_def\<close>)
  qed
qed

end
