(* ===== verification/St_Steps.thy ===== *)
theory St_Steps
  imports St_Invariant
begin

section \<open>The steps of the scheduler\<close>

text \<open>
  The rest of the calls keep the invariant: going on after a switch, the end of threads, the clock and the idle
  thread.  Then the steps of the processor, the states they reach, and what follows for mutexes and timeouts.
\<close>

subsection \<open>Going on\<close>

lemma answer_ok_weaken: "answer_ok L a \<Longrightarrow> (L' \<Longrightarrow> L) \<Longrightarrow> answer_ok L' a"
  by (auto simp: answer_ok_def split: sum.splits)


lemma runs_ok_frame_io [vp_frame]:
  "runs_ok r (v\<lparr>io_q := Q\<rparr>) = runs_ok r v" "runs_ok r (v\<lparr>on_ioq := O'\<rparr>) = runs_ok r v" "runs_ok r (v\<lparr>poll_fds := P\<rparr>) = runs_ok r v"
  "runs_ok r (v\<lparr>sleeping := S\<rparr>) = runs_ok r v" "runs_ok r (v\<lparr>th_term := T\<rparr>) = runs_ok r v" "runs_ok r (v\<lparr>zombie_q := Z\<rparr>) = runs_ok r v"
  by (simp_all add: runs_ok_def)

lemma sleeps_ok_frame_io [vp_frame]:
  "sleeps_ok (v\<lparr>io_q := Q\<rparr>) = sleeps_ok v" "sleeps_ok (v\<lparr>on_ioq := O'\<rparr>) = sleeps_ok v" "sleeps_ok (v\<lparr>poll_fds := P\<rparr>) = sleeps_ok v"
  "sleeps_ok (v\<lparr>run_q := U\<rparr>) = sleeps_ok v" "sleeps_ok (v\<lparr>th_term := T\<rparr>) = sleeps_ok v" "sleeps_ok (v\<lparr>zombie_q := Z\<rparr>) = sleeps_ok v"
  by (simp_all add: sleeps_ok_def)

lemma user_ok:
  assumes "vp_inv v" "this_thread v \<noteq> idle_thread v" "resume_at v (this_thread v) \<in> {At_user, At_usleep, At_yield, At_exit, At_idle}"
  shows "me_ok v"
proof -
  let ?me = "this_thread v"
  note ok = vp_okD [OF assms(1) [unfolded vp_inv_def, THEN conjunct1]]
  let ?w = "v\<lparr>resume_at := (resume_at v)(?me := At_user)\<rparr>"
  have "queues_ok ?w" using ok(3) assms(3) by (fastforce simp: queues_ok_def)
  moreover have "waits_on ?w t c = waits_on v t c" for t c using assms(3) by (auto simp: waits_on_def)
  then have "conds_ok ?w" using ok(4) by (simp add: conds_ok_def)
  moreover have "(resume_at ?w t = At_mutex m) = (resume_at v t = At_mutex m)" for t m using assms(3) by auto
  then have "mutexes_ok ?w" using ok(5) by (simp add: mutexes_ok_def)
  ultimately show ?thesis using ok(1,2) assms(2) by (simp add: me_ok_def vp_ok_def vp_frame)
qed

lemma st_usleep_resume_ok:
  assumes "vp_inv v" "this_thread v \<noteq> idle_thread v" "resume_at v (this_thread v) = At_usleep"
  shows "answer_ok L (st_usleep_resume v)"
proof -
  have v: "me_ok v" by (rule user_ok [OF assms(1,2)]) (simp add: assms(3))
  show ?thesis unfolding st_usleep_resume_def by (intro unless_interrupted_ok v returns_ok)
qed

lemma st_cond_timedwait_resume_ok:
  assumes "vp_inv v" "this_thread v \<noteq> idle_thread v" "resume_at v (this_thread v) = At_cond c"
  shows "answer_ok L (st_cond_timedwait_resume c v)"
proof -
  have "waits_on v (this_thread v) c" using assms(3) by (simp add: waits_on_def)
  from cond_leave_ok [OF assms(1,2) this] show ?thesis
    by (auto simp: st_cond_timedwait_resume_def returns_ok split: sum.splits)
qed

lemma st_poll_resume_ok:
  assumes "vp_inv v" "this_thread v \<noteq> idle_thread v" "resume_at v (this_thread v) = At_poll"
  shows "answer_ok L (st_poll_resume v)"
proof -
  let ?me = "this_thread v"
  let ?v = "if on_ioq v ?me then v\<lparr>io_q := remove1 ?me (io_q v), on_ioq := (on_ioq v)(?me := False)\<rparr> else v"
  note ok = vp_okD [OF assms(1) [unfolded vp_inv_def, THEN conjunct1]]
  let ?w = "?v\<lparr>resume_at := (resume_at v)(?me := At_user)\<rparr>"
  have "th_state v ?me = ST_RUNNING" using ok(1) by (simp add: runs_ok_def)
  then have "queues_ok ?w" using ok(3) by (auto simp: queues_ok_def)
  moreover have "waits_on ?w t c = waits_on v t c" for t c using assms(3) by (auto simp: waits_on_def)
  then have "conds_ok ?w" using ok(4) by (simp add: conds_ok_def)
  moreover have "(resume_at ?w t = At_mutex m) = (resume_at v t = At_mutex m)" for t m using assms(3) by auto
  then have "mutexes_ok ?w" using ok(5) by (simp add: mutexes_ok_def)
  moreover have "runs_ok (Some ?me) ?w" "sleeps_ok ?w" using ok(1,2) by (simp_all add: vp_frame)
  ultimately have v: "me_ok ?v" using assms(2) by (cases "on_ioq v ?me") (simp_all add: me_ok_def vp_ok_def)
  have "st_poll_resume v = unless_interrupted (returns (Inr (if on_ioq v ?me then 0
      else int (length (filter (\<lambda>pd. pf_revents pd \<noteq> 0) (poll_fds v ?me)))))) ?v"
    by (simp add: st_poll_resume_def Let_def)
  then show ?thesis using unless_interrupted_ok [OF v] returns_ok [OF v] by simp
qed

lemma add_sleep_state:
  "rbind (st_add_sleep_q t w v) (\<lambda>v. f (set_state u s v)) = rbind (st_add_sleep_q t w (set_state u s v)) f"
proof -
  have "set_state u s (set_flag t FL_ON_SLEEPQ (v\<lparr>sleeping := q\<rparr>)) = set_flag t FL_ON_SLEEPQ ((set_state u s v)\<lparr>sleeping := q\<rparr>)" for q
    by (cases v) (simp add: set_state_def set_flag_def)
  then show ?thesis
    by (cases "heap_add t (last_clock v + w) (sleeping v)") (simp_all add: st_add_sleep_q_def set_state_def)
qed

lemma st_poll_ok:
  assumes "me_ok v"
  shows "answer_ok L (st_poll a fds w v)"
proof -
  let ?me = "this_thread v"
  let ?v = "v\<lparr>poll_fds := (poll_fds v)(?me := fds), on_ioq := (on_ioq v)(?me := True), io_q := io_q v @ [?me]\<rparr>"
  let ?w = "set_state ?me ST_IO_WAIT ?v"
  note me = me_okD [OF assms] and ok = vp_okD [OF assms [unfolded me_ok_def, THEN conjunct1]]
  have w: "vp_ok None (?w\<lparr>resume_at := (resume_at v)(?me := At_poll)\<rparr>)"
  proof -
    let ?s = "(set_state ?me ST_IO_WAIT v)\<lparr>resume_at := (resume_at v)(?me := At_poll)\<rparr>"
    have "conds_ok ?s" "mutexes_ok ?s" by (intro stop_conds stop_mutexes assms, simp_all)+
    then have "conds_ok (?w\<lparr>resume_at := (resume_at v)(?me := At_poll)\<rparr>)" "mutexes_ok (?w\<lparr>resume_at := (resume_at v)(?me := At_poll)\<rparr>)"
      by (simp_all add: conds_ok_def waits_on_def mutexes_ok_def set_state_def)
    moreover have "queues_ok (?w\<lparr>resume_at := (resume_at v)(?me := At_poll)\<rparr>)"
      using ok(3) me(1,2,6,7) by (auto simp: queues_ok_def set_state_def split: if_splits)
    moreover have "runs_ok None (set_state ?me ST_IO_WAIT v)" "sleeps_ok (set_state ?me ST_IO_WAIT v)"
      using stop_parts [OF assms, of ST_IO_WAIT] by simp_all
    then have "runs_ok None ?w" "sleeps_ok ?w" by (auto simp: runs_ok_def sleeps_ok_def set_state_def)
    ultimately show ?thesis by (simp add: vp_ok_def vp_frame)
  qed
  have "answer_ok L (rbind (if w \<noteq> ST_UTIME_NO_TIMEOUT then st_add_sleep_q ?me w ?w else Inr ?w) (switches At_poll))"
    using sleep_switch_ok [where v = ?w and p = At_poll and w = w] switch_ok [where v = ?w and p = At_poll] w me(1,3) by (simp add: set_state_def)
  then have "answer_ok L (rbind (if w \<noteq> ST_UTIME_NO_TIMEOUT then st_add_sleep_q ?me w ?v else Inr ?v) (\<lambda>v. switches At_poll (set_state ?me ST_IO_WAIT v)))"
    by (simp add: add_sleep_state split: if_splits)
  then show ?thesis unfolding st_poll_def using returns_ok [OF assms]
    by (intro unless_interrupted_ok [OF assms]) (simp add: Let_def split: sum.split)
qed

subsection \<open>The end of threads\<close>

lemma me_ok_term: "me_ok (v\<lparr>th_term := T\<rparr>) = me_ok v"
  by (simp add: me_ok_def vp_ok_def runs_ok_def sleeps_ok_def queues_ok_def conds_ok_def waits_on_def mutexes_ok_def)

lemma st_thread_exit_resume_ok:
  assumes "vp_inv v" "this_thread v \<noteq> idle_thread v" "resume_at v (this_thread v) = At_exit"
  shows "answer_ok (\<exists>c. th_term v (this_thread v) = Some c \<and> cond_wait_q v c \<noteq> None) (st_thread_exit_resume v)"
proof (cases "th_term v (this_thread v)")
  case (Some c)
  have v: "me_ok v" by (rule user_ok [OF assms(1,2)]) (simp add: assms(3))
  have free: "answer_ok (\<exists>c. th_term v (this_thread v) = Some c \<and> cond_wait_q v c \<noteq> None) (thread_free (u\<lparr>th_term := T\<rparr>))" if "me_ok u" for u T
    using that by (intro thread_free_ok) (simp add: me_ok_term)
  have "me_ok (v\<lparr>cond_wait_q := (cond_wait_q v)(c := None)\<rparr>)" if "cond_wait_q v c = Some []"
    by (rule cond_destroy_ok [OF v that])
  with free v Some show ?thesis
    by (auto simp: st_thread_exit_resume_def st_cond_destroy_def the_cond_def split: option.split)
qed (simp add: st_thread_exit_resume_def)

lemma runs_ok_zombie: "me_ok v \<Longrightarrow> thread_object t v \<Longrightarrow> th_state v t = ST_ZOMBIE \<Longrightarrow> t \<in> threads v"
  by (auto simp: me_ok_def vp_ok_def runs_ok_def thread_object_def)

lemma join_loop_ok:
  assumes "me_ok v" "cond_wait_q v c \<noteq> None"
  shows "answer_ok (thread_object t v) (join_loop t c v)"
proof (cases "t \<in> threads v \<and> th_state v t = ST_ZOMBIE")
  case True
  let ?w = "add_runq t ((set_state t ST_RUNNABLE v)\<lparr>zombie_q := remove1 t (zombie_q v)\<rparr>)"
  let ?w' = "?w\<lparr>resume_at := (resume_at v)(this_thread v := At_user)\<rparr>"
  note me = me_okD [OF assms(1)] and ok = vp_okD [OF assms(1) [unfolded me_ok_def, THEN conjunct1]]
  have "t \<noteq> idle_thread v" using ok(1) True by (auto simp: runs_ok_def)
  have "vp_ok (Some (this_thread v)) ?w'"
    unfolding vp_ok_def
  proof (intro conjI)
    show "runs_ok (Some (this_thread v)) ?w'" using ok(1) True by (auto simp: runs_ok_def vp_updates)
    show "sleeps_ok ?w'" using ok(2) True by (auto simp: sleeps_ok_def vp_updates)
    show "queues_ok ?w'" using ok(3) True by (auto simp: queues_ok_def vp_updates)
    show "conds_ok ?w'" using ok(4) True by (auto simp: conds_ok_def waits_on_def vp_updates)
    show "mutexes_ok ?w'" using ok(5) True by (auto simp: mutexes_ok_def vp_updates)
  qed
  then have "me_ok ?w" using assms by (simp add: me_ok_def vp_updates)
  with returns_ok [OF this] True show ?thesis by (simp add: join_loop_def thread_object_def)
next
  case False
  then show ?thesis using assms(2) cond_enter_ok [OF assms(1), of "At_join t c" c ST_UTIME_NO_TIMEOUT]
    using runs_ok_zombie [OF assms(1), of t] by (auto simp: join_loop_def)
qed

lemma st_thread_join_ok:
  assumes "me_ok v"
  shows "answer_ok (thread_object t v \<and> (\<forall>c. th_term v t = Some c \<longrightarrow> cond_wait_q v c \<noteq> None)) (st_thread_join t v)"
proof (cases "th_term v t")
  case (Some c)
  have "answer_ok (thread_object t v) (join_loop t c v)" if "cond_wait_q v c \<noteq> None"
    by (rule join_loop_ok [OF assms that])
  with Some returns_ok [OF assms] show ?thesis by (auto simp: st_thread_join_def the_cond_def split: option.split)
qed (simp add: st_thread_join_def returns_ok [OF assms])

lemma st_thread_join_resume_ok:
  assumes "vp_inv v" "this_thread v \<noteq> idle_thread v" "resume_at v (this_thread v) = At_join t c"
  shows "answer_ok (thread_object t v) (st_thread_join_resume t c v)"
proof -
  have "waits_on v (this_thread v) c" using assms(3) by (simp add: waits_on_def)
  from cond_leave_ok [OF assms(1,2) this] obtain rv w where
    w: "cond_leave c v = Inr (rv, w)" "me_ok w" "thread_object t w = thread_object t v" "cond_wait_q w c \<noteq> None"
    by (auto split: sum.splits)
  from join_loop_ok [OF w(2,4), of t] w show ?thesis by (simp add: st_thread_join_resume_def returns_ok)
qed

subsection \<open>The clock\<close>

definition due_flags :: "vp \<Rightarrow> thread set \<Rightarrow> thread \<Rightarrow> st_flag set" where
  "due_flags v ts t = (if t \<in> ts then th_flags v t - {FL_ON_SLEEPQ} \<union> (if th_state v t = ST_COND_WAIT then {FL_TIMEDOUT} else {}) else th_flags v t)"

text \<open>The processor when the threads \<open>ts\<close> are due, in this order, and \<open>q\<close> is what is left of the heap.\<close>

definition woken :: "thread list \<Rightarrow> sleepq \<Rightarrow> vp \<Rightarrow> vp" where
  "woken ts q v = v\<lparr>sleeping := q, th_flags := due_flags v (set ts),
     th_state := (\<lambda>t. if t \<in> set ts then ST_RUNNABLE else th_state v t), run_q := rev ts @ run_q v\<rparr>"

lemma woken_Nil: "woken [] (sleeping v) v = v"
  by (cases v) (simp add: woken_def due_flags_def fun_eq_iff)

lemma woken_Cons: "t \<notin> set ts \<Longrightarrow> woken ts q' (woken [t] q v) = woken (t # ts) q' v"
  by (cases v) (auto simp: woken_def due_flags_def fun_eq_iff)

lemma woken_ok:
  assumes "vp_ok r (v\<lparr>resume_at := R\<rparr>)" "t \<in> sleepers (sleeping v)" "sleepq_inv q" "sleepers q = sleepers (sleeping v) - {t}"
  shows "vp_ok r ((woken [t] q v)\<lparr>resume_at := R\<rparr>)"
proof -
  note ok = vp_okD [OF assms(1)]
  have t: "t \<in> threads v" "FL_ON_SLEEPQ \<in> th_flags v t" "th_state v t \<in> {ST_SLEEPING, ST_COND_WAIT, ST_IO_WAIT}"
    using ok(2) assms(2) by (auto simp: sleeps_ok_def)
  let ?w = "(woken [t] q v)\<lparr>resume_at := R\<rparr>"
  have state: "th_state ?w = (th_state v)(t := ST_RUNNABLE)" by (auto simp: woken_def)
  show ?thesis
    unfolding vp_ok_def
  proof (intro conjI)
    have "FL_IDLE_THREAD \<in> th_flags ?w u \<longleftrightarrow> FL_IDLE_THREAD \<in> th_flags v u"
      "FL_PRIMORDIAL \<in> th_flags ?w u \<longleftrightarrow> FL_PRIMORDIAL \<in> th_flags v u" for u by (simp_all add: woken_def due_flags_def)
    then show "runs_ok r ?w" using ok(1) t unfolding runs_ok_def state by (auto simp: woken_def)
    have "FL_ON_SLEEPQ \<in> th_flags ?w u \<longleftrightarrow> u \<noteq> t \<and> FL_ON_SLEEPQ \<in> th_flags v u" for u by (simp add: woken_def due_flags_def)
    then show "sleeps_ok ?w" using ok(2) assms(3,4) unfolding sleeps_ok_def state by (auto simp: woken_def)
    show "queues_ok ?w" using ok(3) t unfolding queues_ok_def state by (auto simp: woken_def)
    show "conds_ok ?w" using ok(4) unfolding conds_ok_def waits_on_def state by (simp add: woken_def)
    show "mutexes_ok ?w" using ok(5) unfolding mutexes_ok_def state by (auto simp: woken_def)
  qed
qed

lemma finite_sleepers [simp]: "finite (sleepers q)"
  by (simp add: sleepers_def)

lemma check_clock_loop_ok:
  assumes "vp_ok r (v\<lparr>resume_at := R\<rparr>)"
  shows "\<exists>ts q. check_clock_loop now v = Some (Inr (woken ts q v)) \<and> vp_ok r ((woken ts q v)\<lparr>resume_at := R\<rparr>) \<and>
    pops first_sleeper heap_delete ts (sleeping v) q \<and> set ts = {t \<in> sleepers (sleeping v). due (sleeping v) t \<le> now}"
  using assms
proof (induction "card (sleepers (sleeping v))" arbitrary: v rule: less_induct)
  case less
  note ok = vp_okD [OF less.prems]
  have s: "sleeps_ok v" and inv: "sleepq_inv (sleeping v)" using ok(2) by (simp_all add: vp_frame sleeps_ok_def)
  show ?case
  proof (cases "\<exists>t. first_sleeper (sleeping v) = Some t \<and> due (sleeping v) t \<le> now")
    case False
    have "FL_ON_SLEEPQ \<in> th_flags v t \<and> {t \<in> sleepers (sleeping v). due (sleeping v) t \<le> now} = {}"
      if "first_sleeper (sleeping v) = Some t" for t
      using heap.first_Some [OF inv that] s that False by (force simp: sleeps_ok_def)
    moreover have "first_sleeper (sleeping v) = None \<Longrightarrow> sleepers (sleeping v) = {}" using heap.first_None [OF inv] by simp
    ultimately have "check_clock_loop now v = Some (Inr v) \<and> {t \<in> sleepers (sleeping v). due (sleeping v) t \<le> now} = {}"
      using False by (cases "first_sleeper (sleeping v)") (simp_all add: check_clock_loop.simps [of now v] not_le)
    then show ?thesis
      using less.prems woken_Nil [of v] by (intro exI [of _ "[]"] exI [of _ "sleeping v"]) auto
  next
    case True
    then obtain t where t: "first_sleeper (sleeping v) = Some t" "due (sleeping v) t \<le> now" by blast
    have ts: "t \<in> sleepers (sleeping v)" using heap.first_Some [OF inv t(1)] by simp
    from del_sleep_ok [OF s ts] obtain q where
      q: "st_del_sleep_q t v = Inr (clear_flag t FL_ON_SLEEPQ (v\<lparr>sleeping := q\<rparr>))" "sleepq_inv q"
        "sleepers q = sleepers (sleeping v) - {t}" "due q = due (sleeping v)" by blast
    have del: "heap_delete t (sleeping v) = Inr q"
      using q(1) by (cases "heap_delete t (sleeping v)") (auto simp: st_del_sleep_q_def clear_flag_def dest!: arg_cong [where f = sleeping])
    let ?w = "woken [t] q v"
    have "t \<noteq> idle_thread v" using ok(1) s ts by (auto simp: runs_ok_def sleeps_ok_def)
    then have "FL_ON_SLEEPQ \<in> th_flags v t" "FL_IDLE_THREAD \<notin> th_flags v t" using ok(1) s ts by (auto simp: runs_ok_def sleeps_ok_def)
    moreover have "insert_runq t (set_state t ST_RUNNABLE (if th_state v t = ST_COND_WAIT
        then set_flag t FL_TIMEDOUT (clear_flag t FL_ON_SLEEPQ (v\<lparr>sleeping := q\<rparr>)) else clear_flag t FL_ON_SLEEPQ (v\<lparr>sleeping := q\<rparr>))) = ?w"
      by (cases v) (auto simp: vp_updates woken_def due_flags_def fun_eq_iff)
    ultimately have step: "check_clock_loop now v = check_clock_loop now ?w"
      using t(1) q(1) leD [OF t(2)] by (cases "th_state v t = ST_COND_WAIT") (simp_all add: check_clock_loop.simps [of now v] set_flag_def clear_flag_def)
    have "card (sleepers (sleeping ?w)) < card (sleepers (sleeping v))"
      using card_Diff1_less [OF finite_sleepers ts] by (simp add: woken_def q(3))
    from less.hyps [OF this woken_ok [OF less.prems ts q(2,3)]] obtain ts' q' where
      IH: "check_clock_loop now ?w = Some (Inr (woken ts' q' ?w))" "vp_ok r ((woken ts' q' ?w)\<lparr>resume_at := R\<rparr>)"
        "pops first_sleeper heap_delete ts' q q'" "set ts' = {u \<in> sleepers q. due q u \<le> now}"
      by (auto simp: woken_def)
    have "t \<notin> set ts'" using IH(4) q(3) by simp
    note w = woken_Cons [OF this]
    have "set (t # ts') = {u \<in> sleepers (sleeping v). due (sleeping v) u \<le> now}" using IH(4) q(3,4) ts t(2) by auto
    moreover have "pops first_sleeper heap_delete (t # ts') (sleeping v) q'" using t(1) del IH(3) by auto
    ultimately show ?thesis using step IH(1,2) unfolding w by metis
  qed
qed

lemma vp_ok_time:
    "vp_ok r (v\<lparr>last_clock := w, curr_time := n, last_tset := s, resume_at := R\<rparr>) = vp_ok r (v\<lparr>resume_at := R\<rparr>)"
    "vp_ok r (v\<lparr>last_clock := w, resume_at := R\<rparr>) = vp_ok r (v\<lparr>resume_at := R\<rparr>)"
  by (simp_all add: vp_ok_def runs_ok_def sleeps_ok_def queues_ok_def conds_ok_def waits_on_def mutexes_ok_def)

text \<open>The time of \<open>st_vp_check_clock\<close>, with the cached seconds when they are kept.\<close>

definition clock_set :: "64 word \<Rightarrow> int \<Rightarrow> vp \<Rightarrow> vp" where
  "clock_set now seconds v = (if curr_time v \<noteq> 0 \<and> now - last_tset v > 999000
     then v\<lparr>last_clock := now, curr_time := seconds, last_tset := now\<rparr> else v\<lparr>last_clock := now\<rparr>)"

lemma check_clock_ok:
  assumes "vp_ok r (v\<lparr>resume_at := R\<rparr>)"
  shows "\<exists>ts q. st_vp_check_clock now s v = Some (Inr (woken ts q (clock_set now s v))) \<and> vp_ok r ((woken ts q (clock_set now s v))\<lparr>resume_at := R\<rparr>) \<and>
    pops first_sleeper heap_delete ts (sleeping v) q \<and> set ts = {t \<in> sleepers (sleeping v). due (sleeping v) t \<le> now}"
proof -
  have "vp_ok r ((clock_set now s v)\<lparr>resume_at := R\<rparr>)" using assms by (simp add: clock_set_def vp_ok_time)
  moreover have "sleeping (clock_set now s v) = sleeping v" by (simp add: clock_set_def)
  moreover have "st_vp_check_clock now s v = check_clock_loop now (clock_set now s v)" by (simp add: st_vp_check_clock_def clock_set_def)
  ultimately show ?thesis using check_clock_loop_ok [of r R "clock_set now s v" now] by simp
qed

lemma woken_clock_simps [simp]:
  "this_thread (woken ts q (clock_set now s v)) = this_thread v" "idle_thread (woken ts q (clock_set now s v)) = idle_thread v"
  "resume_at (woken ts q (clock_set now s v)) = resume_at v" "threads (woken ts q (clock_set now s v)) = threads v"
  by (simp_all add: woken_def clock_set_def)

lemma yield_runs_ok:
  assumes "runs_ok (Some t) v" "t \<noteq> idle_thread v"
  shows "runs_ok None (add_runq t (set_state t ST_RUNNABLE v))"
proof -
  have one: "\<forall>u \<in> threads v. th_state v u = ST_RUNNING \<longleftrightarrow> u = t" using assms(1) by (auto simp: runs_ok_def)
  have t: "t \<in> threads v" "th_state v t = ST_RUNNING" using assms(1) by (simp_all add: runs_ok_def)
  have "set (run_q v) = {u \<in> threads v. th_state v u = ST_RUNNABLE \<and> u \<noteq> idle_thread v}" using assms(1) by (simp add: runs_ok_def)
  then have "t \<notin> set (run_q v)" using t(2) by simp
  note t = t this
  have "{u \<in> threads v. ((th_state v)(t := ST_RUNNABLE)) u = ST_RUNNABLE \<and> u \<noteq> idle_thread v} =
      insert t {u \<in> threads v. th_state v u = ST_RUNNABLE \<and> u \<noteq> idle_thread v}"
    using t assms(2) by auto
  moreover have "u \<in> threads v \<Longrightarrow> ((th_state v)(t := ST_RUNNABLE)) u \<noteq> ST_RUNNING" for u using one by auto
  ultimately show ?thesis using assms t(1,3) unfolding runs_ok_def add_runq_def set_state_def by (simp cong: conj_cong)
qed

lemma st_thread_yield_ok:
  assumes "me_ok v"
  shows "\<exists>a. st_thread_yield now s v = Some a \<and> answer_ok L a"
proof -
  let ?me = "this_thread v"
  from check_clock_ok [OF assms [unfolded me_ok_def, THEN conjunct1], of now s] obtain ts q where
    c: "st_vp_check_clock now s v = Some (Inr (woken ts q (clock_set now s v)))"
      "vp_ok (Some ?me) ((woken ts q (clock_set now s v))\<lparr>resume_at := (resume_at v)(?me := At_user)\<rparr>)" by blast
  let ?c = "woken ts q (clock_set now s v)"
  have v: "me_ok ?c" using c(2) assms by (simp add: me_ok_def)
  note me = me_okD [OF v] and ok = vp_okD [OF c(2)]
  have "answer_ok L (switches At_yield (add_runq ?me (set_state ?me ST_RUNNABLE ?c)))"
  proof (rule switch_ok)
    let ?w = "add_runq ?me (set_state ?me ST_RUNNABLE ?c)"
    let ?w' = "?w\<lparr>resume_at := (resume_at ?w)(this_thread ?w := At_yield)\<rparr>"
    have "runs_ok None ?w" using ok(1) me(1,2,6) by (intro yield_runs_ok) (simp_all add: vp_frame)
    then have "runs_ok None ?w'" by (simp add: vp_frame)
    moreover have "sleeps_ok ?c" using ok(2) by (simp only: vp_frame)
    then have "sleeps_ok ?w'" using me(3) by (simp add: sleeps_ok_def add_runq_def set_state_def)
    moreover have "queues_ok ?w'" using stop_queues [OF v, of ST_RUNNABLE At_yield] by (simp add: queues_ok_def vp_updates)
    moreover have "conds_ok ?w'" using stop_conds [OF v, of ST_RUNNABLE At_yield] by (simp add: conds_ok_def waits_on_def vp_updates)
    moreover have "mutexes_ok ?w'" using stop_mutexes [OF v, of ST_RUNNABLE At_yield] by (simp add: mutexes_ok_def vp_updates)
    ultimately show "vp_ok None ?w'" by (simp add: vp_ok_def)
  qed
  then show ?thesis using c(1) returns_ok [OF v] by (simp add: st_thread_yield_def)
qed

subsection \<open>The idle thread\<close>

lemma vp_ok_fds: "vp_ok r (v\<lparr>poll_fds := P\<rparr>) = vp_ok r v"
  by (simp add: vp_ok_def runs_ok_def sleeps_ok_def queues_ok_def conds_ok_def waits_on_def mutexes_ok_def)

lemma io_notify_ok:
  assumes "vp_ok r v" "t \<in> threads v" "th_state v t = ST_IO_WAIT" "on_ioq v t"
  shows "\<exists>v'. io_notify t fds v = Inr v' \<and> vp_ok r v' \<and> this_thread v' = this_thread v \<and> threads v' = threads v \<and> idle_thread v' = idle_thread v \<and>
    (\<forall>u. u \<noteq> t \<longrightarrow> th_state v' u = th_state v u \<and> on_ioq v' u = on_ioq v u)"
proof -
  note ok = vp_okD [OF assms(1)]
  let ?u = "v\<lparr>io_q := remove1 t (io_q v), on_ioq := (on_ioq v)(t := False), poll_fds := (poll_fds v)(t := fds)\<rparr>"
  have "sleeps_ok ?u" using ok(2) by (simp add: sleeps_ok_def)
  from make_runnable_eq [OF this, of t] assms(2) obtain q where
    q: "make_runnable t ?u = Inr (?u\<lparr>sleeping := q, th_flags := (th_flags v)(t := th_flags v t - {FL_ON_SLEEPQ}),
      th_state := (th_state v)(t := ST_RUNNABLE), run_q := run_q v @ [t]\<rparr>)" (is "_ = Inr ?w")
    "sleepq_inv q" "sleepers q = sleepers (sleeping v) - {t}" by auto
  have "t \<noteq> idle_thread v" using ok(3) assms(4) by (auto simp: queues_ok_def)
  have "vp_ok r ?w"
    unfolding vp_ok_def
  proof (intro conjI)
    show "runs_ok r ?w" using ok(1) assms(2,3) \<open>t \<noteq> idle_thread v\<close> by (auto simp: runs_ok_def)
    show "sleeps_ok ?w" using ok(2) q(2,3) by (auto simp: sleeps_ok_def)
    show "queues_ok ?w" using ok(3) assms(3) by (auto simp: queues_ok_def)
    show "conds_ok ?w" using ok(4) by (simp add: conds_ok_def waits_on_def)
    show "mutexes_ok ?w" using ok(5) by (auto simp: mutexes_ok_def)
  qed
  moreover have "vp_ok r (v\<lparr>poll_fds := (poll_fds v)(t := fds)\<rparr>)" using assms(1) by (simp add: vp_ok_fds)
  ultimately show ?thesis using q(1) by (auto simp: io_notify_def)
qed

lemma io_dispatch_ok:
  assumes "vp_ok r v" "distinct q" "\<forall>t \<in> set q. t \<in> threads v \<and> th_state v t = ST_IO_WAIT \<and> on_ioq v t"
  shows "\<exists>v'. io_dispatch ev q v = Inr v' \<and> vp_ok r v' \<and> this_thread v' = this_thread v \<and> idle_thread v' = idle_thread v"
  using assms
proof (induction q arbitrary: v)
  case (Cons t q)
  then obtain v1 where v1: "io_notify t (ev t) v = Inr v1" "vp_ok r v1" "this_thread v1 = this_thread v" "threads v1 = threads v" "idle_thread v1 = idle_thread v"
    "\<forall>u. u \<noteq> t \<longrightarrow> th_state v1 u = th_state v u \<and> on_ioq v1 u = on_ioq v u"
    using io_notify_ok [OF Cons.prems(1), of t "ev t"] by auto
  have "\<forall>u \<in> set q. u \<in> threads v1 \<and> th_state v1 u = ST_IO_WAIT \<and> on_ioq v1 u"
    using Cons.prems(2,3) v1(4,6) by auto
  with Cons.IH [OF v1(2)] Cons.prems(2) v1 show ?case by auto
qed simp

lemma idle_waiters:
  assumes "vp_inv v" "this_thread v = idle_thread v"
  shows "distinct (io_q v)" "\<forall>t \<in> set (io_q v). t \<in> threads v \<and> th_state v t = ST_IO_WAIT \<and> on_ioq v t"
proof -
  note ok = vp_okD [OF assms(1) [unfolded vp_inv_def, THEN conjunct1]]
  have run: "run_q v = []" using assms by (simp add: vp_inv_def)
  have "th_state v t = ST_IO_WAIT" if "on_ioq v t" for t
  proof -
    have t: "t \<in> threads v" "t \<noteq> idle_thread v" "th_state v t \<in> {ST_IO_WAIT, ST_RUNNABLE, ST_RUNNING}" using ok(3) that by (auto simp: queues_ok_def)
    have "th_state v t \<noteq> ST_RUNNABLE" using ok(1) t run by (auto simp: runs_ok_def)
    moreover have "th_state v t \<noteq> ST_RUNNING" using ok(1) t assms(2) by (auto simp: runs_ok_def)
    ultimately show ?thesis using t(3) by simp
  qed
  then show "distinct (io_q v)" "\<forall>t \<in> set (io_q v). t \<in> threads v \<and> th_state v t = ST_IO_WAIT \<and> on_ioq v t"
    using ok(3) by (auto simp: queues_ok_def)
qed

lemma vp_idle_ok:
  assumes "vp_inv v" "this_thread v = idle_thread v"
  shows "\<exists>v'. vp_idle ev v = Inr v' \<and> vp_ok (Some (this_thread v)) v' \<and> this_thread v' = this_thread v \<and> idle_thread v' = idle_thread v"
proof -
  have ok: "vp_ok (Some (this_thread v)) v" using assms(1) by (simp add: vp_inv_def)
  show ?thesis using ok io_dispatch_ok [OF ok idle_waiters [OF assms]] by (cases ev) (auto simp: vp_idle_def)
qed

lemma idle_round_ok:
  assumes "vp_inv v" "this_thread v = idle_thread v"
  shows "\<exists>a. idle_round ev now s v = Some a \<and> answer_ok L a"
proof -
  let ?me = "idle_thread v"
  note ok = vp_okD [OF assms(1) [unfolded vp_inv_def, THEN conjunct1]]
  from vp_idle_ok [OF assms, of ev] obtain v1 where
    v1: "vp_idle ev v = Inr v1" "vp_ok (Some ?me) v1" "this_thread v1 = ?me" "idle_thread v1 = ?me" using assms(2) by auto
  have "vp_ok (Some ?me) (v1\<lparr>resume_at := resume_at v1\<rparr>)" using v1(2) by simp
  from check_clock_ok [OF this, of now s] obtain ts q where
    c: "st_vp_check_clock now s v1 = Some (Inr (woken ts q (clock_set now s v1)))" "vp_ok (Some ?me) ((woken ts q (clock_set now s v1))\<lparr>resume_at := resume_at v1\<rparr>)"
    by blast
  let ?c = "woken ts q (clock_set now s v1)"
  have same: "?c\<lparr>resume_at := resume_at v1\<rparr> = ?c" by (simp add: woken_def clock_set_def)
  note ok1 = vp_okD [OF c(2) [unfolded same]]
  have me: "?me \<in> threads ?c" "th_state ?c ?me = ST_RUNNING" "idle_thread ?c = ?me" "this_thread ?c = ?me"
    using ok1(1) v1(3,4) by (auto simp: runs_ok_def)
  have "answer_ok L (switches At_idle (set_state ?me ST_RUNNABLE ?c))"
  proof (rule switch_ok)
    let ?w = "(set_state ?me ST_RUNNABLE ?c)\<lparr>resume_at := (resume_at ?c)(?me := At_idle)\<rparr>"
    have at: "resume_at ?c ?me \<in> {At_user, At_idle}" using ok1(3) v1(4) by (simp add: queues_ok_def)
    have waits: "waits_on ?w t d = waits_on ?c t d" for t d using at by (auto simp: waits_on_def set_state_def)
    have locks: "(resume_at ?w t = At_mutex m) = (resume_at ?c t = At_mutex m)" for t m using at by (auto simp: set_state_def)
    have "runs_ok None ?w" using ok1(1) me by (auto simp: runs_ok_def vp_updates)
    moreover have "sleeps_ok ?w" using ok1(2) me by (auto simp: sleeps_ok_def vp_updates)
    moreover have "queues_ok ?w" using ok1(3) me by (auto simp: queues_ok_def vp_updates)
    moreover have "conds_ok ?w" using ok1(4) unfolding conds_ok_def waits by (simp add: vp_updates)
    moreover have "mutexes_ok ?w" using ok1(5) unfolding mutexes_ok_def locks by (auto simp: vp_updates)
    ultimately have "vp_ok None ?w" by (simp add: vp_ok_def)
    then show "vp_ok None ((set_state ?me ST_RUNNABLE ?c)\<lparr>resume_at := (resume_at (set_state ?me ST_RUNNABLE ?c))
        (this_thread (set_state ?me ST_RUNNABLE ?c) := At_idle)\<rparr>)" using me(4) by (simp add: set_state_def)
  qed
  then show ?thesis using v1 c(1) by (simp add: idle_round_def)
qed

subsection \<open>Steps\<close>

text \<open>
  What the running thread can do: call a function, or go on after it was switched away.  The answers of the
  allocator are addresses that are not in use.
\<close>

datatype st_call =
    C_usleep "64 word" | C_cond_new st_cond | C_cond_destroy st_cond | C_cond_wait st_cond "64 word" | C_cond_signal st_cond
  | C_cond_broadcast st_cond | C_mutex_new st_mutex | C_mutex_destroy st_mutex | C_lock st_mutex | C_unlock st_mutex
  | C_trylock st_mutex | C_create thread st_cond bool | C_exit int | C_join thread | C_interrupt thread
  | C_poll "st_errno + unit" "pollfd list" "64 word"

fun st_do :: "st_call \<Rightarrow> vp \<Rightarrow> st_answer" where
  "st_do (C_usleep w) v = st_usleep w v"
| "st_do (C_cond_new c) v = Inr (map_option (Inr \<circ> int) (fst (st_cond_new (Some c) v)), snd (st_cond_new (Some c) v))"
| "st_do (C_cond_destroy c) v = rbind (st_cond_destroy c v) (\<lambda>(rv, v). returns rv v)"
| "st_do (C_cond_wait c w) v = st_cond_timedwait c w v"
| "st_do (C_cond_signal c) v = st_cond_signal c v"
| "st_do (C_cond_broadcast c) v = st_cond_broadcast c v"
| "st_do (C_mutex_new m) v = Inr (map_option (Inr \<circ> int) (fst (st_mutex_new (Some m) v)), snd (st_mutex_new (Some m) v))"
| "st_do (C_mutex_destroy m) v = st_mutex_destroy m v"
| "st_do (C_lock m) v = st_mutex_lock m v"
| "st_do (C_unlock m) v = st_mutex_unlock m v"
| "st_do (C_trylock m) v = st_mutex_trylock m v"
| "st_do (C_create t c j) v = (case st_thread_create (Some t) (Some c) j v of (r, v) \<Rightarrow> Inr (map_option (Inr \<circ> int) r, v))"
| "st_do (C_exit rv) v = st_thread_exit rv v"
| "st_do (C_join t) v = st_thread_join t v"
| "st_do (C_interrupt t) v = st_thread_interrupt t v"
| "st_do (C_poll a fds w) v = st_poll a fds w v"

fun fresh_addresses :: "st_call \<Rightarrow> vp \<Rightarrow> bool" where
  "fresh_addresses (C_cond_new c) v \<longleftrightarrow> cond_wait_q v c = None"
| "fresh_addresses (C_mutex_new m) v \<longleftrightarrow> mutexes v m = None"
| "fresh_addresses (C_create t c j) v \<longleftrightarrow> \<not> thread_object t v \<and> cond_wait_q v c = None"
| "fresh_addresses _ v \<longleftrightarrow> True"

fun st_resume :: "resume_point \<Rightarrow> vp \<Rightarrow> st_answer" where
  "st_resume At_usleep v = st_usleep_resume v"
| "st_resume (At_cond c) v = st_cond_timedwait_resume c v"
| "st_resume (At_join t c) v = st_thread_join_resume t c v"
| "st_resume (At_mutex m) v = st_mutex_lock_resume m v"
| "st_resume At_poll v = st_poll_resume v"
| "st_resume At_exit v = st_thread_exit_resume v"
| "st_resume _ v = returns (Inr 0) v"

datatype st_event =
    Call st_call | Resume | Yield "64 word" int | Idle "(thread \<Rightarrow> pollfd list) option" "64 word" int

text \<open>The answer of an event; \<open>None\<close> when it does not end.\<close>

fun do_event :: "st_event \<Rightarrow> vp \<Rightarrow> st_answer option" where
  "do_event (Call c) v = Some (st_do c v)"
| "do_event Resume v = Some (st_resume (resume_at v (this_thread v)) v)"
| "do_event (Yield now s) v = st_thread_yield now s v"
| "do_event (Idle ev now s) v = idle_round ev now s v"

text \<open>
  Which events there can be: the idle thread only goes round, a thread that was switched away first goes on,
  others call.
\<close>

fun enabled :: "st_event \<Rightarrow> vp \<Rightarrow> bool" where
  "enabled (Idle ev now s) v \<longleftrightarrow> this_thread v = idle_thread v \<and> active_count v > 0"
| "enabled Resume v \<longleftrightarrow> this_thread v \<noteq> idle_thread v \<and> resume_at v (this_thread v) \<noteq> At_user"
| "enabled (Yield now s) v \<longleftrightarrow> this_thread v \<noteq> idle_thread v \<and> resume_at v (this_thread v) = At_user"
| "enabled (Call c) v \<longleftrightarrow> this_thread v \<noteq> idle_thread v \<and> resume_at v (this_thread v) = At_user \<and> fresh_addresses c v"

text \<open>
  Whether the objects that an event uses still exist: those a call is given, the termination variable
  of the running thread and the thread it waits for.
\<close>

fun live_call :: "st_call \<Rightarrow> vp \<Rightarrow> bool" where
  "live_call (C_cond_destroy c) v \<longleftrightarrow> cond_wait_q v c \<noteq> None"
| "live_call (C_cond_wait c w) v \<longleftrightarrow> cond_wait_q v c \<noteq> None"
| "live_call (C_cond_signal c) v \<longleftrightarrow> cond_wait_q v c \<noteq> None"
| "live_call (C_cond_broadcast c) v \<longleftrightarrow> cond_wait_q v c \<noteq> None"
| "live_call (C_mutex_destroy m) v \<longleftrightarrow> mutexes v m \<noteq> None"
| "live_call (C_lock m) v \<longleftrightarrow> mutexes v m \<noteq> None"
| "live_call (C_unlock m) v \<longleftrightarrow> mutexes v m \<noteq> None"
| "live_call (C_trylock m) v \<longleftrightarrow> mutexes v m \<noteq> None"
| "live_call (C_exit rv) v \<longleftrightarrow> (case th_term v (this_thread v) of None \<Rightarrow> True | Some c \<Rightarrow> cond_wait_q v c \<noteq> None)"
| "live_call (C_join t) v \<longleftrightarrow> thread_object t v \<and> (case th_term v t of None \<Rightarrow> True | Some c \<Rightarrow> cond_wait_q v c \<noteq> None)"
| "live_call (C_interrupt t) v \<longleftrightarrow> thread_object t v"
| "live_call _ v \<longleftrightarrow> True"

fun live_event :: "st_event \<Rightarrow> vp \<Rightarrow> bool" where
  "live_event (Call c) v \<longleftrightarrow> live_call c v"
| "live_event Resume v \<longleftrightarrow> (case resume_at v (this_thread v) of
     At_join t c \<Rightarrow> thread_object t v
   | At_exit \<Rightarrow> (case th_term v (this_thread v) of None \<Rightarrow> False | Some c \<Rightarrow> cond_wait_q v c \<noteq> None)
   | _ \<Rightarrow> True)"
| "live_event _ v \<longleftrightarrow> True"

inductive vp_step :: "vp \<Rightarrow> vp \<Rightarrow> bool" where
  vp_step: "enabled e v \<Longrightarrow> do_event e v = Some (Inr (r, v')) \<Longrightarrow> vp_step v v'"

inductive vp_reachable :: "vp \<Rightarrow> bool" where
  start: "st_init True now (Some idle) (Some main) st_no_vp = (0, v) \<Longrightarrow> idle \<noteq> main \<Longrightarrow> vp_reachable v"
| step: "vp_reachable v \<Longrightarrow> vp_step v v' \<Longrightarrow> vp_reachable v'"

subsection \<open>Every step keeps the invariant\<close>

lemma st_do_ok:
  assumes "me_ok v" "resume_at v (this_thread v) = At_user" "fresh_addresses c v"
  shows "answer_ok (live_call c v) (st_do c v)"
proof -
  have R: "v\<lparr>resume_at := (resume_at v)(this_thread v := At_user)\<rparr> = v" using assms(2) by (simp add: fun_upd_idem)
  have ok: "vp_ok (Some (this_thread v)) v" "this_thread v \<noteq> idle_thread v" using assms(1) unfolding me_ok_def R by auto
  show ?thesis
  proof (cases c)
    case (C_cond_new d)
    then show ?thesis using assms(3) cond_new_ok [OF ok(1), of d] ok(2) by (simp add: st_cond_new_def vp_inv_def)
  next
    case (C_mutex_new m)
    then show ?thesis using assms(3) mutex_new_ok [OF ok(1), of m] ok(2) by (simp add: st_mutex_new_def vp_inv_def)
  next
    case (C_create t d j)
    then show ?thesis using assms(3) st_thread_create_ok [OF ok(1), of t d j] ok(2) thread_object_def [of t v]
      by (cases "st_thread_create (Some t) (Some d) j v") (auto simp: vp_inv_def)
  next
    case (C_exit rv)
    then show ?thesis using answer_ok_weaken [OF st_thread_exit_ok [OF assms(1,2), of rv]] by (simp split: option.splits)
  next
    case (C_join t)
    then show ?thesis using answer_ok_weaken [OF st_thread_join_ok [OF assms(1), of t]] by (simp split: option.splits)
  qed (use assms(1) in \<open>simp_all del: not_None_eq add: st_usleep_ok cond_calls_ok st_mutex_lock_ok st_mutex_trylock_ok st_mutex_unlock_ok
      st_mutex_destroy_ok st_thread_interrupt_ok st_poll_ok st_cond_signal_def st_cond_broadcast_def\<close>)
qed

lemma st_resume_ok:
  assumes "vp_inv v" "this_thread v \<noteq> idle_thread v"
  shows "answer_ok (live_event Resume v) (st_resume (resume_at v (this_thread v)) v)"
proof (cases "resume_at v (this_thread v)")
  case At_exit
  then show ?thesis using answer_ok_weaken [OF st_thread_exit_resume_ok [OF assms]] by (simp split: option.splits)
next
  case (At_join t c)
  then show ?thesis using st_thread_join_resume_ok [OF assms] by simp
qed (use assms user_ok [OF assms] in \<open>simp_all add: st_usleep_resume_ok st_cond_timedwait_resume_ok st_mutex_lock_resume_ok
    st_poll_resume_ok returns_ok\<close>)

lemma do_event_ok:
  assumes "vp_inv v" "enabled e v"
  shows "\<exists>a. do_event e v = Some a \<and> answer_ok (live_event e v) a"
proof (cases e)
  case (Call c)
  then have "me_ok v" using assms by (intro user_ok) auto
  then show ?thesis using st_do_ok [of v c] Call assms(2) by simp
next
  case Resume
  then show ?thesis using st_resume_ok [OF assms(1)] assms(2) by simp
next
  case (Yield now s)
  then have "me_ok v" using assms by (intro user_ok) auto
  then show ?thesis using st_thread_yield_ok [of v] Yield by simp
next
  case (Idle ev now s)
  then show ?thesis using idle_round_ok [OF assms(1)] assms(2) by simp
qed

lemma st_init_ok:
  assumes "st_init True now (Some idle) (Some main) st_no_vp = (0, v)" "idle \<noteq> main"
  shows "vp_inv v"
proof -
  have "threads v = {idle, main}" "th_state v = (\<lambda>_. ST_RUNNING)(idle := ST_RUNNABLE, main := ST_RUNNING)"
    "th_flags v = (\<lambda>_. {})(idle := {FL_IDLE_THREAD}, main := {FL_PRIMORDIAL})" "resume_at v = (\<lambda>_. At_user)" "this_thread v = main"
    "idle_thread v = idle" "run_q v = []" "zombie_q v = []" "io_q v = []" "on_ioq v = (\<lambda>_. False)" "sleeping v = no_sleepers"
    "cond_wait_q v = Map.empty" "mutexes v = Map.empty"
    using assms by (auto simp: st_init_def st_no_vp_def st_thread_create_def add_runq_def del_runq_def Let_def fun_eq_iff)
  then show ?thesis using assms(2) by (auto simp: vp_inv_def vp_ok_def vp_parts)
qed

lemma reachable_inv: "vp_reachable v \<Longrightarrow> vp_inv v"
proof (induction rule: vp_reachable.induct)
  case (step v v')
  then show ?case using do_event_ok by (fastforce elim!: vp_step.cases)
qed (rule st_init_ok)

text \<open>A run of events, when all of them are enabled and answer.\<close>

fun st_run :: "st_event list \<Rightarrow> vp \<Rightarrow> vp option" where
  "st_run [] v = Some v"
| "st_run (e # es) v = (if enabled e v then (case do_event e v of Some (Inr (r, w)) \<Rightarrow> st_run es w | _ \<Rightarrow> None) else None)"

lemma run_reachable: "vp_reachable v \<Longrightarrow> st_run es v = Some w \<Longrightarrow> vp_reachable w"
proof (induction es arbitrary: v)
  case (Cons e es)
  then obtain r u where u: "enabled e v" "do_event e v = Some (Inr (r, u))" "st_run es u = Some w"
    by (auto split: if_splits option.splits sum.splits)
  show ?case by (rule Cons.IH [OF vp_reachable.step [OF Cons.prems(1) vp_step [OF u(1,2)]] u(3)])
qed simp

definition started :: vp where
  "started = snd (st_init True 0 (Some 1) (Some 2) st_no_vp)"

lemma started_reachable: "vp_reachable started"
proof (rule vp_reachable.start)
  show "st_init True 0 (Some 1) (Some 2) st_no_vp = (0, started)"
    unfolding started_def by (simp add: st_init_def st_no_vp_def st_thread_create_def del_runq_def add_runq_def)
qed simp

declare check_clock_loop.simps [code]

subsection \<open>What holds of the scheduler\<close>

lemma invariant_queues:
  assumes "vp_inv v"
  shows "distinct (run_q v)" "set (run_q v) = {t \<in> threads v. th_state v t = ST_RUNNABLE \<and> t \<noteq> idle_thread v}"
    "distinct (zombie_q v)" "set (zombie_q v) = {t \<in> threads v. th_state v t = ST_ZOMBIE}"
    "{t \<in> threads v. th_state v t = ST_RUNNING} = {this_thread v}" "this_thread v = idle_thread v \<longrightarrow> run_q v = []"
    "sleepers (sleeping v) = {t \<in> threads v. FL_ON_SLEEPQ \<in> th_flags v t}"
    "\<forall>t \<in> threads v. FL_ON_SLEEPQ \<in> th_flags v t \<longrightarrow> th_state v t \<in> {ST_SLEEPING, ST_COND_WAIT, ST_IO_WAIT}"
proof -
  note ok = vp_okD [OF assms [unfolded vp_inv_def, THEN conjunct1]]
  have "\<forall>t \<in> threads v. th_state v t = ST_RUNNING \<longleftrightarrow> this_thread v = t" "this_thread v \<in> threads v" using ok(1) by (simp_all add: runs_ok_def)
  then show "{t \<in> threads v. th_state v t = ST_RUNNING} = {this_thread v}" by auto
  show "this_thread v = idle_thread v \<longrightarrow> run_q v = []" using assms by (simp add: vp_inv_def)
qed (use assms in \<open>simp_all add: vp_inv_def vp_ok_def runs_ok_def queues_ok_def sleeps_ok_def\<close>)

lemmas st_eval =
  started_def st_init_def st_no_vp_def no_sleepers_def thread_object_def st_thread_create_def del_runq_def add_runq_def insert_runq_def set_state_def set_flag_def
  clear_flag_def st_cond_new_def st_thread_yield_def st_vp_check_clock_def check_clock_loop.simps first_sleeper_def returns_def switches_def
  st_switch_context_def st_vp_schedule_def st_usleep_def unless_interrupted_def st_add_sleep_q_def ST_UTIME_NO_TIMEOUT_def heap_add_def heap_insert_def
  heap_path_def heap_bits.simps Let_def

text \<open>
  C6: Whatever sequence of calls the threads make, whenever a thread runs it is the only running thread; the run queue
  holds each runnable thread exactly once (the idle thread apart, which runs only when the queue is empty); the
  zombie queue holds each thread that ended and was not joined exactly once; and the timeout heap holds exactly
  the threads that are flagged to be in it, which all sleep or wait.
\<close>

theorem scheduler_invariant:
  assumes "vp_reachable v"
  shows "{t \<in> threads v. th_state v t = ST_RUNNING} = {this_thread v} \<and>
    distinct (run_q v) \<and> set (run_q v) = {t \<in> threads v. th_state v t = ST_RUNNABLE \<and> t \<noteq> idle_thread v} \<and>
    (this_thread v = idle_thread v \<longrightarrow> run_q v = []) \<and>
    distinct (zombie_q v) \<and> set (zombie_q v) = {t \<in> threads v. th_state v t = ST_ZOMBIE} \<and>
    sleepers (sleeping v) = {t \<in> threads v. FL_ON_SLEEPQ \<in> th_flags v t} \<and>
    (\<forall>t \<in> threads v. FL_ON_SLEEPQ \<in> th_flags v t \<longrightarrow> th_state v t \<in> {ST_SLEEPING, ST_COND_WAIT, ST_IO_WAIT})"
  by (intro conjI invariant_queues reachable_inv assms)

lemma run_example:
  "map_option (\<lambda>v. (this_thread v, run_q v, th_state v 3, th_state v 4, resume_at v 2))
     (st_run [Call (C_create 3 7 False), Call (C_create 4 8 True), Yield 10 0, Call (C_usleep 50)] started) =
   Some (4, [2], ST_SLEEPING, ST_RUNNING, At_yield)"
  by (simp add: st_eval)

lemma scheduler_invariant_witness:
  "\<exists>v. vp_reachable v \<and> run_q v = [2] \<and> {t \<in> threads v. th_state v t = ST_RUNNING} = {4} \<and>
    {2} = {t \<in> threads v. th_state v t = ST_RUNNABLE \<and> t \<noteq> idle_thread v}"
proof -
  from run_example obtain v where v: "st_run [Call (C_create 3 7 False), Call (C_create 4 8 True), Yield 10 0, Call (C_usleep 50)] started = Some v"
    "this_thread v = 4" "run_q v = [2]" by auto
  have r: "vp_reachable v" by (rule run_reachable [OF started_reachable v(1)])
  from scheduler_invariant [OF r] v(2,3) r show ?thesis by (intro exI [of _ v]) simp
qed

text \<open>
  C5: No event of a reachable state fails an assertion of the scheduler, follows a null pointer in the timeout heap or
  runs forever: every call, every return from a switch, every yield and every round of the idle thread ends with an answer,
  as long as the threads, condition variables and mutexes it is given were not freed; and the state after it is again reachable.
\<close>

theorem scheduler_sound:
  assumes "vp_reachable v" "enabled e v" "live_event e v"
  shows "\<exists>r v'. do_event e v = Some (Inr (r, v')) \<and> vp_step v v' \<and> vp_reachable v'"
proof -
  from do_event_ok [OF reachable_inv [OF assms(1)] assms(2)] obtain a where a: "do_event e v = Some a" "answer_ok True a" using assms(3) by auto
  then obtain r v' where "a = Inr (r, v')" by (cases a) (auto simp: answer_ok_def)
  with a(1) have "do_event e v = Some (Inr (r, v'))" by simp
  then show ?thesis using vp_step [OF assms(2)] vp_reachable.step [OF assms(1)] by blast
qed

lemma scheduler_sound_witness:
  "\<exists>v r v'. vp_reachable v \<and> run_q v = [2] \<and> do_event (Call (C_join 3)) v = Some (Inr (r, v')) \<and> vp_reachable v'"
proof -
  from run_example obtain v where v: "st_run [Call (C_create 3 7 False), Call (C_create 4 8 True), Yield 10 0, Call (C_usleep 50)] started = Some v"
    "this_thread v = 4" "run_q v = [2]" by auto
  have "map_option (\<lambda>v. enabled (Call (C_join 3)) v \<and> live_event (Call (C_join 3)) v)
      (st_run [Call (C_create 3 7 False), Call (C_create 4 8 True), Yield 10 0, Call (C_usleep 50)] started) = Some True"
    by (simp add: st_eval)
  then have "enabled (Call (C_join 3)) v" "live_event (Call (C_join 3)) v" using v(1) by simp_all
  from scheduler_sound [OF run_reachable [OF started_reachable v(1)] this] v(3) run_reachable [OF started_reachable v(1)]
  show ?thesis by blast
qed

text \<open>
  C8: The clock check of yield and of the idle thread ends, and wakes exactly the threads whose timeout has come: they
  leave the heap in the order of their timeouts and become runnable ahead of the threads that were runnable, the
  one that was due last first; those that waited on a condition variable are flagged as timed out, no other thread changes.
\<close>

theorem check_clock_wakes_due:
  assumes "vp_reachable v"
  shows "\<exists>ts v'. st_vp_check_clock now s v = Some (Inr v') \<and>
    distinct ts \<and> set ts = {t \<in> threads v. FL_ON_SLEEPQ \<in> th_flags v t \<and> due (sleeping v) t \<le> now} \<and>
    sorted (map (due (sleeping v)) ts) \<and> run_q v' = rev ts @ run_q v \<and>
    sleepers (sleeping v') = sleepers (sleeping v) - set ts \<and> last_clock v' = now \<and>
    (\<forall>t. th_state v' t = (if t \<in> set ts then ST_RUNNABLE else th_state v t)) \<and>
    (\<forall>t. FL_TIMEDOUT \<in> th_flags v' t \<longleftrightarrow> FL_TIMEDOUT \<in> th_flags v t \<or> t \<in> set ts \<and> th_state v t = ST_COND_WAIT)"
proof -
  note inv = reachable_inv [OF assms]
  have "vp_ok (Some (this_thread v)) (v\<lparr>resume_at := resume_at v\<rparr>)" using inv by (simp add: vp_inv_def)
  from check_clock_ok [OF this, of now s] obtain ts q where
    c: "st_vp_check_clock now s v = Some (Inr (woken ts q (clock_set now s v)))" "pops first_sleeper heap_delete ts (sleeping v) q"
      "set ts = {t \<in> sleepers (sleeping v). due (sleeping v) t \<le> now}" by blast
  have "sleepq_inv (sleeping v)" using inv by (simp add: vp_inv_def vp_ok_def sleeps_ok_def)
  note p = heap.pops_sorted [OF this c(2)]
  show ?thesis
    by (intro exI [of _ ts] exI [of _ "woken ts q (clock_set now s v)"])
      (use c p invariant_queues(7) [OF inv] in \<open>auto simp: woken_def clock_set_def due_flags_def\<close>)
qed

lemma check_clock_wakes_due_witness:
  "\<exists>v ts v'. vp_reachable v \<and> st_vp_check_clock 100 0 v = Some (Inr v') \<and> set ts = {3} \<and> run_q v' = rev ts @ [2]"
proof -
  let ?es = "[Call (C_create 3 7 False), Call (C_create 4 8 True), Yield 10 0, Call (C_usleep 50)]"
  have "map_option (\<lambda>v. (run_q v, \<forall>t \<in> threads v. FL_ON_SLEEPQ \<in> th_flags v t \<and> due (sleeping v) t \<le> 100 \<longleftrightarrow> t = 3))
      (st_run ?es started) = Some ([2], True)" "map_option (\<lambda>v. 3 \<in> threads v) (st_run ?es started) = Some True"
    by (simp_all add: st_eval)
  then obtain v where v: "st_run ?es started = Some v" "run_q v = [2]" "3 \<in> threads v"
    "\<forall>t \<in> threads v. FL_ON_SLEEPQ \<in> th_flags v t \<and> due (sleeping v) t \<le> 100 \<longleftrightarrow> t = 3" by auto
  have r: "vp_reachable v" by (rule run_reachable [OF started_reachable v(1)])
  have "{t \<in> threads v. FL_ON_SLEEPQ \<in> th_flags v t \<and> due (sleeping v) t \<le> 100} = {3}" using v(3,4) by auto
  with check_clock_wakes_due [OF r, of 100 0] r v(2) show ?thesis by metis
qed

end
