(* ===== verification/St_Mutex.thy ===== *)
theory St_Mutex
  imports St_Steps
begin

section \<open>Mutexes of state-threads exclude each other\<close>

text \<open>
  What an event does to the threads that do not run: they stay where they were switched away, keep their
  interrupts, and one that waits for a mutex goes on only after an interrupt or when it was given the mutex.
\<close>

subsection \<open>Events that leave mutexes alone\<close>

definition others :: "thread \<Rightarrow> vp \<Rightarrow> vp \<Rightarrow> bool" where
  "others me v w \<longleftrightarrow> (\<forall>t. t \<noteq> me \<longrightarrow> t \<in> threads v \<longrightarrow> t \<in> threads w \<and> resume_at w t = resume_at v t \<and>
       (FL_INTERRUPT \<in> th_flags v t \<longrightarrow> FL_INTERRUPT \<in> th_flags w t) \<and>
       (th_state v t = ST_LOCK_WAIT \<longrightarrow> th_state w t = ST_LOCK_WAIT \<or> FL_INTERRUPT \<in> th_flags w t)) \<and>
     (\<forall>t. t \<noteq> me \<longrightarrow> t \<in> threads w \<longrightarrow> t \<in> threads v \<or> resume_at w t = At_user) \<and> mutexes w = mutexes v"

lemma others_trans: "others me v w \<Longrightarrow> others me w u \<Longrightarrow> others me v u"
  unfolding others_def by metis

definition aside :: "thread \<Rightarrow> vp \<Rightarrow> st_answer \<Rightarrow> bool" where
  "aside me v a \<longleftrightarrow> (\<forall>r w. a = Inr (r, w) \<longrightarrow> others me v w \<and> (\<forall>m. resume_at w me \<noteq> At_mutex m))"

text \<open>A state on the way of a call: still the same running thread.\<close>

definition midway :: "thread \<Rightarrow> vp \<Rightarrow> vp \<Rightarrow> bool" where
  "midway me v w \<longleftrightarrow> others me v w \<and> this_thread w = me"

named_theorems aside_rules

lemma midway_refl [aside_rules]: "this_thread v = me \<Longrightarrow> midway me v v"
  by (simp add: midway_def others_def)

lemma midway_step: "midway me v w \<Longrightarrow> others me w u \<Longrightarrow> this_thread u = this_thread w \<Longrightarrow> midway me v u"
  unfolding midway_def using others_trans by metis

text \<open>Fields that the relation does not look at.\<close>

definition same_for_others :: "vp \<Rightarrow> vp \<Rightarrow> bool" where
  "same_for_others w u \<longleftrightarrow> threads u = threads w \<and> resume_at u = resume_at w \<and> th_flags u = th_flags w \<and> th_state u = th_state w \<and>
     mutexes u = mutexes w \<and> this_thread u = this_thread w"

lemma midway_same: "midway me v w \<Longrightarrow> same_for_others w u \<Longrightarrow> midway me v u"
  by (rule midway_step) (simp_all add: others_def same_for_others_def)

lemma midway_frame [aside_rules]:
  assumes "midway me v w"
  shows "midway me v (w\<lparr>cond_wait_q := C\<rparr>)" "midway me v (w\<lparr>zombie_q := Z\<rparr>)" "midway me v (w\<lparr>th_term := T\<rparr>)"
    "midway me v (w\<lparr>th_retval := V, active_count := n\<rparr>)" "midway me v (w\<lparr>io_q := Q, on_ioq := I\<rparr>)"
    "midway me v (w\<lparr>poll_fds := P, on_ioq := I, io_q := Q\<rparr>)" "midway me v (w\<lparr>io_q := Q, on_ioq := I, poll_fds := P\<rparr>)"
    "midway me v (w\<lparr>poll_fds := P\<rparr>)" "midway me v (w\<lparr>sleeping := S\<rparr>)" "midway me v (w\<lparr>last_clock := c\<rparr>)"
    "midway me v (w\<lparr>last_clock := c, curr_time := i, last_tset := c'\<rparr>)" "midway me v (add_runq t w)" "midway me v (insert_runq t w)"
  by (rule midway_same [OF assms], simp add: same_for_others_def add_runq_def insert_runq_def)+

lemma midway_this: "midway me v w \<Longrightarrow> this_thread w = me"
  by (simp add: midway_def)

lemma midway_free [aside_rules]: "midway me v w \<Longrightarrow> midway me v (w\<lparr>threads := threads w - {me}\<rparr>)"
  by (rule midway_step) (auto simp: others_def)

lemma midway_state [aside_rules]:
  "midway me v w \<Longrightarrow> t = me \<or> th_state w t \<noteq> ST_LOCK_WAIT \<or> FL_INTERRUPT \<in> th_flags w t \<Longrightarrow> midway me v (set_state t s w)"
  by (rule midway_step) (auto simp: others_def set_state_def)

lemma midway_set_flag [aside_rules]: "midway me v w \<Longrightarrow> midway me v (set_flag t f w)"
  by (rule midway_step) (auto simp: others_def set_flag_def)

lemma midway_clear_flag [aside_rules]: "midway me v w \<Longrightarrow> t = me \<or> f \<noteq> FL_INTERRUPT \<Longrightarrow> midway me v (clear_flag t f w)"
  by (rule midway_step) (auto simp: others_def clear_flag_def)

lemma aside_returns [aside_rules]:
  assumes "midway me v w"
  shows "aside me v (returns r w)"
proof -
  have "others me w (w\<lparr>resume_at := (resume_at w)(me := At_user)\<rparr>)" by (simp add: others_def)
  then have "others me v (w\<lparr>resume_at := (resume_at w)(me := At_user)\<rparr>)" using assms others_trans unfolding midway_def by blast
  then show ?thesis using midway_this [OF assms] by (simp add: aside_def returns_def)
qed

lemma aside_bind [aside_rules]: "(\<And>x. a = Inr x \<Longrightarrow> aside me v (k x)) \<Longrightarrow> aside me v (rbind a k)"
  by (cases a) (simp_all add: aside_def)

lemma aside_failed [simp]: "aside me v (Inl f)"
  by (simp add: aside_def)

lemma switches_others:
  assumes "midway me v w" "switches p w = Inr (r, u)"
  shows "r = None \<and> others me v u \<and> resume_at u me = p \<and> mutexes u = mutexes w \<and> (th_state w me \<noteq> ST_RUNNABLE \<longrightarrow> th_state u me = th_state w me)"
proof -
    let ?u = "w\<lparr>resume_at := (resume_at w)(me := p)\<rparr>"
    let ?w = "\<lambda>ts. ?u\<lparr>run_q := ts\<rparr>"
    have "\<exists>t ts. (case run_q w of t # ts \<Rightarrow> (t, ?w ts) | [] \<Rightarrow> (idle_thread ?u, ?u)) = (t, ?w ts)"
    proof (cases "run_q w")
      case Nil
      then have "?w [] = ?u" by (cases w) simp
      then show ?thesis unfolding Nil by (intro exI [of _ "idle_thread w"] exI [of _ "[]"]) simp
    qed auto
    then obtain t ts where "(case run_q w of t # ts \<Rightarrow> (t, ?w ts) | [] \<Rightarrow> (idle_thread ?u, ?u)) = (t, ?w ts)" by blast
    with assms(2) have "th_state w t = ST_RUNNABLE" "u = (set_state t ST_RUNNING (?w ts))\<lparr>this_thread := t\<rparr>"
      using midway_this [OF assms(1)] by (auto simp: switches_def st_switch_context_def st_vp_schedule_def)
    then have "others me w u" "resume_at u me = p" "mutexes u = mutexes w" "th_state w me \<noteq> ST_RUNNABLE \<longrightarrow> th_state u me = th_state w me"
      by (auto simp: others_def set_state_def)
    moreover have "others me v u" using assms(1) others_trans \<open>others me w u\<close> unfolding midway_def by blast
    moreover have "r = None" using assms(2) by (auto simp: switches_def)
    ultimately show ?thesis by blast
qed

lemma aside_switches [aside_rules]: "midway me v w \<Longrightarrow> (\<And>m. p \<noteq> At_mutex m) \<Longrightarrow> aside me v (switches p w)"
  unfolding aside_def using switches_others by metis

lemma aside_unless [aside_rules]: "midway me v w \<Longrightarrow> aside me v (f w) \<Longrightarrow> aside me v (unless_interrupted f w)"
  using midway_this [of me v w] by (simp add: unless_interrupted_def aside_returns midway_clear_flag)

lemma midway_add_sleep [aside_rules]:
  assumes "st_add_sleep_q t n w = Inr u" "midway me v w"
  shows "midway me v u"
  using assms by (auto simp: st_add_sleep_q_def intro!: midway_set_flag midway_frame)

lemma midway_del_sleep [aside_rules]:
  assumes "st_del_sleep_q t w = Inr u" "midway me v w"
  shows "midway me v u"
  using assms by (auto simp: st_del_sleep_q_def intro!: midway_clear_flag midway_frame)

lemma midway_make_runnable [aside_rules]:
  assumes "make_runnable t w = Inr u" "midway me v w" "th_state w t \<noteq> ST_LOCK_WAIT \<or> FL_INTERRUPT \<in> th_flags w t"
  shows "midway me v u"
proof -
  obtain w1 where w1: "(if FL_ON_SLEEPQ \<in> th_flags w t then st_del_sleep_q t w else Inr w) = Inr w1" "u = add_runq t (set_state t ST_RUNNABLE w1)"
    using assms(1) by (auto simp: make_runnable_def)
  then have "midway me v w1" using assms(2) midway_del_sleep by (auto split: if_splits)
  moreover have "th_state w1 t \<noteq> ST_LOCK_WAIT \<or> FL_INTERRUPT \<in> th_flags w1 t"
    using w1(1) assms(3) by (auto simp: st_del_sleep_q_def clear_flag_def split: if_splits)
  ultimately show ?thesis unfolding w1(2) by (intro midway_frame midway_state) auto
qed

lemma midway_signal:
  assumes "cond_signal_loop b q w = Inr u" "midway me v w"
  shows "midway me v u"
  using assms
proof (induction q arbitrary: w)
  case (Cons t q)
  show ?case
  proof (cases "th_state w t = ST_COND_WAIT")
    case True
    then obtain w1 where w1: "make_runnable t w = Inr w1" "(if b then cond_signal_loop b q w1 else Inr w1) = Inr u"
      using Cons.prems(1) by auto
    have "midway me v w1" by (rule midway_make_runnable [OF w1(1) Cons.prems(2)]) (simp add: True)
    then show ?thesis using w1(2) Cons.IH by (auto split: if_splits)
  qed (use Cons in simp)
qed simp

lemma aside_cond_enter: "midway me v w \<Longrightarrow> (\<And>m. p \<noteq> At_mutex m) \<Longrightarrow> aside me v (cond_enter p c n w)"
  unfolding cond_enter_def
  by (intro aside_unless aside_bind aside_switches)
    (auto simp: Let_def midway_this intro!: midway_state midway_frame aside_bind aside_switches dest!: midway_add_sleep split: if_splits)

lemma midway_cond_leave:
  assumes "cond_leave c w = Inr (rv, u)" "midway me v w"
  shows "midway me v u"
  using assms midway_this [OF assms(2)]
  by (auto simp: cond_leave_def Let_def split: if_splits intro!: midway_clear_flag midway_frame)

lemma aside_thread_free: "midway me v w \<Longrightarrow> aside me v (thread_free w)"
  unfolding thread_free_def using midway_this [of me v w] midway_free [of me v w] by (intro aside_switches) auto

lemma aside_join_loop: "midway me v w \<Longrightarrow> aside me v (join_loop t c w)"
  unfolding join_loop_def
  by (auto intro!: aside_cond_enter aside_returns midway_frame midway_state)

lemma aside_interrupt:
  assumes "midway me v w"
  shows "aside me v (st_thread_interrupt t w)"
proof -
  let ?w = "set_flag t FL_INTERRUPT w"
  have w: "midway me v ?w" by (rule midway_set_flag [OF assms])
  have "aside me v (rbind (make_runnable t ?w) (returns (Inr 0)))"
    by (rule aside_bind, rule aside_returns, erule midway_make_runnable [OF _ w]) (simp add: set_flag_def)
  then show ?thesis
    using aside_returns [OF assms] aside_returns [OF w] by (simp add: st_thread_interrupt_def Let_def)
qed

lemma midway_woken:
  assumes "midway me v w" "sleeps_ok w" "set ts \<subseteq> sleepers (sleeping w)"
  shows "midway me v (woken ts q (clock_set now s w))"
proof (rule midway_step [OF assms(1)])
  have "th_state w t \<noteq> ST_LOCK_WAIT" if "t \<in> set ts" for t using assms(2,3) that by (auto simp: sleeps_ok_def)
  then show "others me w (woken ts q (clock_set now s w))" by (auto simp: others_def woken_def clock_set_def due_flags_def)
qed simp

lemma midway_io_notify:
  assumes "io_notify t fds w = Inr u" "midway me v w" "th_state w t = ST_IO_WAIT"
  shows "midway me v u"
  using assms by (auto simp: io_notify_def intro: midway_frame midway_make_runnable split: if_splits)

subsection \<open>Every event\<close>

fun mutex_call :: "st_event \<Rightarrow> vp \<Rightarrow> st_mutex \<Rightarrow> bool" where
  "mutex_call (Call (C_mutex_new m)) v m' \<longleftrightarrow> m' = m"
| "mutex_call (Call (C_mutex_destroy m)) v m' \<longleftrightarrow> m' = m"
| "mutex_call (Call (C_lock m)) v m' \<longleftrightarrow> m' = m"
| "mutex_call (Call (C_unlock m)) v m' \<longleftrightarrow> m' = m"
| "mutex_call (Call (C_trylock m)) v m' \<longleftrightarrow> m' = m"
| "mutex_call Resume v m' \<longleftrightarrow> resume_at v (this_thread v) = At_mutex m'"
| "mutex_call _ v m' \<longleftrightarrow> False"

lemma aside_call:
  assumes "vp_inv v" "enabled (Call c) v" "\<And>m. \<not> mutex_call (Call c) v m"
  shows "aside (this_thread v) v (st_do c v)"
proof -
  let ?me = "this_thread v"
  have v: "midway ?me v v" by (rule midway_refl) simp
  have user: "resume_at v ?me = At_user" using assms(2) by simp
  show ?thesis
  proof (cases c)
    case (C_usleep n)
    have "midway ?me v (set_state ?me st v)" for st by (rule midway_state [OF v]) simp
    then show ?thesis using C_usleep v
      by (auto simp: st_usleep_def Let_def intro!: aside_unless aside_bind aside_switches dest!: midway_add_sleep split: if_splits)
  next
    case (C_cond_new d)
    then show ?thesis using user by (simp add: aside_def others_def st_cond_new_def)
  next
    case (C_cond_destroy d)
    then show ?thesis using v by (auto simp: st_cond_destroy_def split: if_splits intro!: aside_bind aside_returns midway_frame)
  next
    case (C_cond_wait d n)
    then show ?thesis using aside_cond_enter [OF v] by (simp add: st_cond_timedwait_def)
  next
    case (C_create t d j)
    then show ?thesis using user assms(1,2)
      by (auto simp: aside_def others_def st_thread_create_def st_cond_new_def add_runq_def thread_object_def)
  next
    case (C_exit rv)
    have w: "midway ?me v (v\<lparr>th_retval := V, active_count := n\<rparr>)" for V n by (rule midway_frame [OF v])
    then have "midway ?me v (set_state ?me ST_ZOMBIE (v\<lparr>th_retval := V, active_count := n, zombie_q := Z\<rparr>))" for V n Z
      by (intro midway_state midway_frame(2) [where w = "v\<lparr>th_retval := V, active_count := n\<rparr>"]) simp_all
    then show ?thesis using C_exit aside_thread_free [OF w]
      by (auto simp: st_thread_exit_def Let_def cond_signal_def intro!: aside_bind aside_switches dest!: midway_signal split: option.split)
  next
    case (C_poll a fds n)
    let ?v = "v\<lparr>poll_fds := (poll_fds v)(?me := fds), on_ioq := (on_ioq v)(?me := True), io_q := io_q v @ [?me]\<rparr>"
    have "midway ?me v ?v" by (rule midway_frame [OF v])
    then have "midway ?me v u" if "(if n \<noteq> ST_UTIME_NO_TIMEOUT then st_add_sleep_q ?me n ?v else Inr ?v) = Inr u" for u
      using that midway_add_sleep by (auto split: if_splits)
    then have "aside ?me v (rbind (if n \<noteq> ST_UTIME_NO_TIMEOUT then st_add_sleep_q ?me n ?v else Inr ?v) (\<lambda>w. switches At_poll (set_state ?me ST_IO_WAIT w)))"
      by (intro aside_bind aside_switches midway_state) auto
    then show ?thesis using aside_returns [OF v] unfolding C_poll st_do.simps st_poll_def
      by (intro aside_unless [OF v]) (simp add: Let_def split: sum.split)
  qed (use assms(3) v in \<open>auto simp: st_cond_signal_def st_cond_broadcast_def cond_signal_def st_thread_join_def
      intro!: aside_bind aside_returns aside_interrupt aside_join_loop dest: midway_signal split: option.split\<close>)
qed

lemma aside_resume:
  assumes "vp_inv v" "enabled Resume v" "\<And>m. \<not> mutex_call Resume v m"
  shows "aside (this_thread v) v (st_resume (resume_at v (this_thread v)) v)"
proof -
  let ?me = "this_thread v"
  have v: "midway ?me v v" by (rule midway_refl) simp
  note rules = aside_unless aside_returns aside_bind midway_clear_flag midway_frame
  show ?thesis
  proof (cases "resume_at v ?me")
    case At_usleep
    then show ?thesis using v by (simp add: st_usleep_resume_def aside_unless aside_returns)
  next
    case (At_cond c)
    have "aside ?me v (returns rv w)" if "cond_leave c v = Inr (rv, w)" for rv w
      using midway_cond_leave [OF that v] by (rule aside_returns)
    then show ?thesis using At_cond by (auto simp: st_cond_timedwait_resume_def intro!: aside_bind)
  next
    case (At_join t c)
    have "midway ?me v w" if "cond_leave c v = Inr (rv, w)" for rv w by (rule midway_cond_leave [OF that v])
    then show ?thesis using At_join by (auto simp: st_thread_join_resume_def intro!: aside_bind aside_returns aside_join_loop)
  next
    case (At_mutex m)
    then show ?thesis using assms(3) [of m] by simp
  next
    case At_poll
    have "midway ?me v (v\<lparr>io_q := Q, on_ioq := I\<rparr>)" for Q I by (rule midway_frame [OF v])
    then show ?thesis using At_poll v by (auto simp: st_poll_resume_def Let_def intro!: aside_unless aside_returns)
  next
    case At_exit
    have "midway ?me v (v\<lparr>th_term := T\<rparr>)" "midway ?me v (v\<lparr>cond_wait_q := C, th_term := T\<rparr>)" for C T
      by (intro midway_frame v)+
    then show ?thesis using At_exit
      by (auto simp: st_thread_exit_resume_def st_cond_destroy_def Let_def intro!: aside_bind aside_thread_free split: option.split if_splits)
  qed (use assms(2) v in \<open>auto intro: aside_returns\<close>)
qed

lemma aside_yield:
  assumes "vp_inv v" "enabled (Yield now s) v" "st_thread_yield now s v = Some a"
  shows "aside (this_thread v) v a"
proof -
  let ?me = "this_thread v"
  have v: "midway ?me v v" by (rule midway_refl) simp
  have "vp_ok (Some ?me) (v\<lparr>resume_at := resume_at v\<rparr>)" using assms(1) by (simp add: vp_inv_def)
  from check_clock_ok [OF this, of now s] obtain ts q where
    c: "st_vp_check_clock now s v = Some (Inr (woken ts q (clock_set now s v)))" "set ts \<subseteq> sleepers (sleeping v)" by auto
  have "sleeps_ok v" using assms(1) by (simp add: vp_inv_def vp_ok_def)
  from midway_woken [OF v this c(2)] have w: "midway ?me v (woken ts q (clock_set now s v))" .
  have "aside ?me v (switches At_yield (add_runq ?me (set_state ?me ST_RUNNABLE (woken ts q (clock_set now s v)))))"
    by (intro aside_switches midway_frame midway_state w) simp_all
  then show ?thesis using assms(3) c(1) aside_returns [OF w] by (auto simp: st_thread_yield_def)
qed

lemma midway_dispatch:
  assumes "io_dispatch ev q w = Inr u" "vp_ok r w" "distinct q" "\<forall>t \<in> set q. t \<in> threads w \<and> th_state w t = ST_IO_WAIT \<and> on_ioq w t" "midway me v w"
  shows "midway me v u"
  using assms
proof (induction q arbitrary: w)
  case (Cons t q)
  then obtain w1 where w1: "io_notify t (ev t) w = Inr w1" "io_dispatch ev q w1 = Inr u" by auto
  have "vp_ok r w1 \<and> threads w1 = threads w \<and> (\<forall>u. u \<noteq> t \<longrightarrow> th_state w1 u = th_state w u \<and> on_ioq w1 u = on_ioq w u)"
    using io_notify_ok [OF Cons.prems(2), of t "ev t"] Cons.prems(4) w1(1) by auto
  moreover have "midway me v w1" using midway_io_notify [OF w1(1) Cons.prems(5)] Cons.prems(4) by simp
  moreover have "u \<in> set q \<Longrightarrow> u \<noteq> t" for u using Cons.prems(3) by auto
  ultimately show ?case using Cons.IH [OF w1(2)] Cons.prems(3,4) by simp
qed simp

lemma aside_idle:
  assumes "vp_inv v" "enabled (Idle ev now s) v" "idle_round ev now s v = Some a"
  shows "aside (this_thread v) v a"
proof -
  let ?me = "this_thread v"
  have v: "midway ?me v v" by (rule midway_refl) simp
  have me: "?me = idle_thread v" using assms(2) by simp
  have ok: "vp_ok (Some ?me) v" using assms(1) by (simp add: vp_inv_def)
  from vp_idle_ok [OF assms(1) me, of ev] obtain v1 where v1: "vp_idle ev v = Inr v1" "vp_ok (Some ?me) v1" by auto
  have m1: "midway ?me v v1"
    using v1(1) v midway_dispatch [OF _ ok idle_waiters [OF assms(1) me] v] by (auto simp: vp_idle_def split: option.splits)
  have "vp_ok (Some ?me) (v1\<lparr>resume_at := resume_at v1\<rparr>)" using v1(2) by simp
  from check_clock_ok [OF this, of now s] obtain ts q where
    c: "st_vp_check_clock now s v1 = Some (Inr (woken ts q (clock_set now s v1)))" "set ts \<subseteq> sleepers (sleeping v1)" by auto
  have "sleeps_ok v1" using v1(2) by (simp add: vp_ok_def)
  from midway_woken [OF m1 this c(2)] have w: "midway ?me v (woken ts q (clock_set now s v1))" .
  have "aside ?me v (switches At_idle (set_state ?me ST_RUNNABLE (woken ts q (clock_set now s v1))))"
    by (intro aside_switches midway_state w) simp_all
  then show ?thesis using assms(3) v1(1) c(1) midway_this [OF w] by (auto simp: idle_round_def)
qed

lemma aside_event:
  assumes "vp_inv v" "enabled e v" "do_event e v = Some a" "\<And>m. \<not> mutex_call e v m"
  shows "aside (this_thread v) v a"
  using assms aside_call aside_resume aside_yield aside_idle by (cases e) auto

subsection \<open>Events of a mutex\<close>

text \<open>A thread that waited for a mutex and goes on was given it or interrupted.\<close>

definition handed_but :: "thread set \<Rightarrow> vp \<Rightarrow> bool" where
  "handed_but ts v \<longleftrightarrow> (\<forall>t m. t \<in> threads v \<longrightarrow> t \<notin> ts \<longrightarrow> resume_at v t = At_mutex m \<longrightarrow> th_state v t \<noteq> ST_LOCK_WAIT \<longrightarrow>
     FL_INTERRUPT \<in> th_flags v t \<or> (\<exists>x. mutexes v m = Some x \<and> owner x = Some t))"

lemma handed_others:
  assumes "handed_but {me} w" "others me w u" "\<And>m. resume_at u me = At_mutex m \<Longrightarrow> th_state u me = ST_LOCK_WAIT"
  shows "handed_but {} u"
  unfolding handed_but_def
proof (intro allI impI)
  fix t m
  assume t: "t \<in> threads u" "resume_at u t = At_mutex m" "th_state u t \<noteq> ST_LOCK_WAIT"
  then have "t \<noteq> me" using assms(3) by auto
  then have w: "t \<in> threads w" "resume_at w t = At_mutex m" "mutexes u = mutexes w" using assms(2) t unfolding others_def by force+
  then show "FL_INTERRUPT \<in> th_flags u t \<or> (\<exists>x. mutexes u m = Some x \<and> owner x = Some t)"
    using assms(1,2) t \<open>t \<noteq> me\<close> unfolding handed_but_def others_def by (metis singletonD)
qed

text \<open>The owner of a mutex is kept.\<close>

definition owner_kept :: "thread set \<Rightarrow> st_mutex \<Rightarrow> vp \<Rightarrow> vp \<Rightarrow> bool" where
  "owner_kept ts m v w \<longleftrightarrow> (\<forall>x t. mutexes v m = Some x \<longrightarrow> owner x = Some t \<longrightarrow> t \<notin> ts \<longrightarrow> (\<exists>x'. mutexes w m = Some x' \<and> owner x' = Some t))"

lemma handed_set_mutex:
  assumes "handed_but {} v" "w = v\<lparr>mutexes := (mutexes v)(m := y)\<rparr>" "owner_kept {me} m v w"
  shows "handed_but {me} w"
  unfolding handed_but_def
proof (intro allI impI)
  fix t k
  assume t: "t \<in> threads w" "t \<notin> {me}" "resume_at w t = At_mutex k" "th_state w t \<noteq> ST_LOCK_WAIT"
  then have "FL_INTERRUPT \<in> th_flags v t \<or> (\<exists>x. mutexes v k = Some x \<and> owner x = Some t)"
    using assms(1,2) by (auto simp: handed_but_def)
  then show "FL_INTERRUPT \<in> th_flags w t \<or> (\<exists>x. mutexes w k = Some x \<and> owner x = Some t)"
    using assms(2,3) t(2) by (cases "k = m") (auto simp: owner_kept_def)
qed

lemma handed_given:
  assumes "handed_but {} v" "mutexes v m = Some x" "owner x = Some me" "resume_at v t = At_mutex m"
  shows "handed_but {me} (set_state t ST_RUNNABLE (set_mutex m (x\<lparr>owner := Some t\<rparr>) v))" (is "handed_but _ ?w")
  unfolding handed_but_def
proof (intro allI impI)
  fix u k
  assume u: "u \<in> threads ?w" "u \<notin> {me}" "resume_at ?w u = At_mutex k" "th_state ?w u \<noteq> ST_LOCK_WAIT"
  show "FL_INTERRUPT \<in> th_flags ?w u \<or> (\<exists>x. mutexes ?w k = Some x \<and> owner x = Some u)"
  proof (cases "u = t")
    case True
    then show ?thesis using u assms(4) by (auto simp: set_state_def set_mutex_def)
  next
    case False
    then have "FL_INTERRUPT \<in> th_flags v u \<or> (\<exists>x. mutexes v k = Some x \<and> owner x = Some u)"
      using assms(1) u by (auto simp: handed_but_def set_state_def set_mutex_def)
    then show ?thesis using u(2) assms(2,3) by (auto simp: set_state_def set_mutex_def)
  qed
qed

text \<open>What an operation on \<open>m\<close> by \<open>me\<close> answers; with \<open>got\<close>, a 0 means that it has the mutex.\<close>

definition mutex_answer :: "thread set \<Rightarrow> st_mutex \<Rightarrow> thread \<Rightarrow> bool \<Rightarrow> vp \<Rightarrow> st_answer \<Rightarrow> bool" where
  "mutex_answer ts m me got v a \<longleftrightarrow> (\<forall>r w. a = Inr (r, w) \<longrightarrow> handed_but {} w \<and> (\<forall>k. k \<noteq> m \<longrightarrow> mutexes w k = mutexes v k) \<and>
     owner_kept ts m v w \<and> (got \<longrightarrow> r = Some (Inr 0) \<longrightarrow> (\<exists>x. mutexes w m = Some x \<and> owner x = Some me)))"

lemma mutex_returns:
  assumes "handed_but {me} w" "this_thread w = me" "\<And>k. k \<noteq> m \<Longrightarrow> mutexes w k = mutexes v k" "owner_kept ts m v w"
    and "got \<Longrightarrow> r = Inr 0 \<Longrightarrow> \<exists>x. mutexes w m = Some x \<and> owner x = Some me"
  shows "mutex_answer ts m me got v (returns r w)"
proof -
  have "others me w (w\<lparr>resume_at := (resume_at w)(me := At_user)\<rparr>)" by (simp add: others_def)
  from handed_others [OF assms(1) this] have "handed_but {} (w\<lparr>resume_at := (resume_at w)(me := At_user)\<rparr>)" by simp
  then show ?thesis using assms(2-5) by (simp add: mutex_answer_def returns_def owner_kept_def)
qed

lemma mutex_failed [simp]: "mutex_answer ts m me got v (Inl f)"
  by (simp add: mutex_answer_def)

lemma handed_but_mono: "handed_but {} v \<Longrightarrow> handed_but ts v"
  by (simp add: handed_but_def)

lemma mutex_unchanged:
  assumes "handed_but {} v" "this_thread v = me" "r \<noteq> Inr 0 \<or> \<not> got"
  shows "mutex_answer ts m me got v (returns r v)"
  by (rule mutex_returns) (use assms in \<open>auto simp: owner_kept_def intro: handed_but_mono\<close>)

lemma mutex_interrupted:
  assumes "handed_but {} v" "this_thread v = me" "mutex_answer ts m me got v (f v)"
  shows "mutex_answer ts m me got v (unless_interrupted f v)"
proof -
  have "handed_but {me} (clear_flag me FL_INTERRUPT v)" using assms(1) by (auto simp: handed_but_def clear_flag_def)
  then have "mutex_answer ts m me got v (returns (Inl EINTR) (clear_flag me FL_INTERRUPT v))"
    by (rule mutex_returns) (use assms(2) in \<open>simp_all add: clear_flag_def owner_kept_def\<close>)
  then show ?thesis using assms(2,3) by (simp add: unless_interrupted_def)
qed

lemma mutex_bind: "(\<And>x. a = Inr x \<Longrightarrow> mutex_answer ts m me got v (k x)) \<Longrightarrow> mutex_answer ts m me got v (rbind a k)"
  by (cases a) (simp_all add: mutex_answer_def)

lemma mutex_changed:
  assumes "handed_but {} v" "this_thread v = me" "owner_kept ts m v (v\<lparr>mutexes := (mutexes v)(m := y)\<rparr>)" "ts \<subseteq> {me}"
    and "got \<Longrightarrow> \<exists>x. y = Some x \<and> owner x = Some me"
  shows "mutex_answer ts m me got v (returns r (v\<lparr>mutexes := (mutexes v)(m := y)\<rparr>))"
proof (rule mutex_returns)
  show "handed_but {me} (v\<lparr>mutexes := (mutexes v)(m := y)\<rparr>)"
    by (rule handed_set_mutex [OF assms(1) refl]) (use assms(3,4) in \<open>auto simp: owner_kept_def\<close>)
qed (use assms(2,3,5) in simp_all)

lemma trylock_answer:
  assumes "handed_but {} v" "this_thread v = me"
  shows "mutex_answer {} m me True v (st_mutex_trylock m v)"
proof -
  have "mutex_answer {} m me True v (returns (Inr 0) (set_mutex m (x\<lparr>owner := Some me\<rparr>) v))" if "mutexes v m = Some x" "owner x = None" for x
    using mutex_changed [OF assms, of "{}" m "Some (x\<lparr>owner := Some me\<rparr>)" True] that by (simp add: set_mutex_def owner_kept_def)
  then show ?thesis using mutex_unchanged [OF assms, of "Inl EBUSY" True "{}" m] assms(2)
    by (auto simp: st_mutex_trylock_def the_mutex_def intro!: mutex_bind split: option.splits)
qed

lemma lock_answer:
  assumes "handed_but {} v" "this_thread v = me"
  shows "mutex_answer {} m me True v (st_mutex_lock m v)"
proof -
  have "mutex_answer {} m me True v (returns (Inr 0) (set_mutex m (x\<lparr>owner := Some me\<rparr>) v))" if "mutexes v m = Some x" "owner x = None" for x
    using mutex_changed [OF assms, of "{}" m "Some (x\<lparr>owner := Some me\<rparr>)" True] that by (simp add: set_mutex_def owner_kept_def)
  moreover have "mutex_answer {} m me True v (switches (At_mutex m) (set_mutex m (x\<lparr>mutex_wait_q := q\<rparr>) (set_state me ST_LOCK_WAIT v)))"
    if x: "mutexes v m = Some x" for x q
  proof -
    let ?w = "v\<lparr>mutexes := (mutexes v)(m \<mapsto> x\<lparr>mutex_wait_q := q\<rparr>)\<rparr>"
    let ?u = "set_mutex m (x\<lparr>mutex_wait_q := q\<rparr>) (set_state me ST_LOCK_WAIT v)"
    have kept: "owner_kept {} m v ?w" using x by (simp add: owner_kept_def)
    have w: "handed_but {me} ?w" by (rule handed_set_mutex [OF assms(1) refl]) (use kept in \<open>simp add: owner_kept_def\<close>)
    have u: "midway me ?w ?u" using assms(2) by (simp add: midway_def others_def set_mutex_def set_state_def)
    have "handed_but {} z \<and> mutexes z = mutexes ?w \<and> r = None" if "switches (At_mutex m) ?u = Inr (r, z)" for r z
      using switches_others [OF u that] handed_others [OF w, of z] by (simp add: set_mutex_def set_state_def)
    then show ?thesis using kept by (auto simp: mutex_answer_def owner_kept_def)
  qed
  ultimately show ?thesis using mutex_unchanged [OF assms, of "Inl EDEADLK" True "{}" m] assms(2)
    unfolding st_mutex_lock_def by (intro mutex_interrupted [OF assms]) (auto simp: the_mutex_def Let_def intro!: mutex_bind split: option.splits)
qed

lemma unlock_answer:
  assumes "handed_but {} v" "this_thread v = me" "mutexes_ok v"
  shows "mutex_answer {me} m me False v (st_mutex_unlock m v)"
proof (cases "mutexes v m")
  case (Some x)
  let ?ws = "filter (\<lambda>t. th_state v t = ST_LOCK_WAIT) (mutex_wait_q x)"
  have "mutex_answer {me} m me False v (returns (Inr 0) (set_mutex m (x\<lparr>owner := None\<rparr>) v))" if "owner x = Some me"
    using mutex_changed [OF assms(1,2), of "{me}" m "Some (x\<lparr>owner := None\<rparr>)" False] that Some by (simp add: set_mutex_def owner_kept_def)
  moreover have "mutex_answer {me} m me False v (returns (Inr 0) (add_runq t (set_state t ST_RUNNABLE (set_mutex m (x\<lparr>owner := Some t\<rparr>) v))))"
    if "owner x = Some me" "?ws = t # ts" for t ts
  proof (rule mutex_returns)
    have "t \<in> set ?ws" using that(2) by simp
    then have "resume_at v t = At_mutex m" using assms(3) Some by (auto simp: mutexes_ok_def)
    from handed_given [OF assms(1) Some that(1) this]
    show "handed_but {me} (add_runq t (set_state t ST_RUNNABLE (set_mutex m (x\<lparr>owner := Some t\<rparr>) v)))" by (simp add: handed_but_def add_runq_def)
  qed (use that(1) Some assms(2) in \<open>simp_all add: add_runq_def set_state_def set_mutex_def owner_kept_def\<close>)
  ultimately show ?thesis using mutex_unchanged [OF assms(1,2), of "Inl EPERM" False "{me}" m] Some assms(2)
    by (auto simp: st_mutex_unlock_def the_mutex_def split: list.split)
qed (simp add: st_mutex_unlock_def the_mutex_def mutex_answer_def)

lemma destroy_answer:
  assumes "handed_but {} v" "this_thread v = me"
  shows "mutex_answer {} m me False v (st_mutex_destroy m v)"
proof -
  have "mutex_answer {} m me False v (returns (Inr 0) (v\<lparr>mutexes := (mutexes v)(m := None)\<rparr>))" if "mutexes v m = Some x" "owner x = None" for x
    using mutex_changed [OF assms, of "{}" m None False] that by (simp add: owner_kept_def)
  then show ?thesis using mutex_unchanged [OF assms, of "Inl EBUSY" False "{}" m]
    by (auto simp: st_mutex_destroy_def the_mutex_def intro!: mutex_bind split: option.splits)
qed

lemma lock_resume_answer:
  assumes "handed_but {} v" "this_thread v = me" "me \<in> threads v" "th_state v me = ST_RUNNING" "resume_at v me = At_mutex m"
  shows "mutex_answer {} m me True v (st_mutex_lock_resume m v)"
proof (cases "mutexes v m")
  case (Some x)
  let ?y = "Some (x\<lparr>mutex_wait_q := remove1 me (mutex_wait_q x)\<rparr>)"
  let ?w = "v\<lparr>mutexes := (mutexes v)(m := ?y)\<rparr>"
  have kept: "owner_kept {} m v ?w" using Some by (simp add: owner_kept_def)
  have w: "handed_but {me} ?w" by (rule handed_set_mutex [OF assms(1) refl]) (use kept in \<open>simp add: owner_kept_def\<close>)
  then have "handed_but {me} (clear_flag me FL_INTERRUPT ?w)" by (auto simp: handed_but_def clear_flag_def)
  then have "mutex_answer {} m me True v (returns (Inl EINTR) (clear_flag me FL_INTERRUPT ?w))"
    by (rule mutex_returns) (use kept assms(2) in \<open>simp_all add: clear_flag_def owner_kept_def\<close>)
  moreover have "mutex_answer {} m me True v (returns (Inr 0) ?w)" if "FL_INTERRUPT \<notin> th_flags v me \<or> owner x = Some me"
    by (rule mutex_returns [OF w])
      (use kept assms that Some in \<open>auto simp: handed_but_def\<close>)
  ultimately show ?thesis using Some assms(2) by (auto simp: st_mutex_lock_resume_def the_mutex_def Let_def set_mutex_def)
qed (simp add: st_mutex_lock_resume_def the_mutex_def mutex_answer_def)

definition takes_lock :: "st_event \<Rightarrow> vp \<Rightarrow> st_mutex \<Rightarrow> bool" where
  "takes_lock e v m \<longleftrightarrow> e = Call (C_lock m) \<or> e = Call (C_trylock m) \<or> e = Resume \<and> resume_at v (this_thread v) = At_mutex m"

lemma mutex_new_answer:
  assumes "handed_but {} v" "resume_at v me = At_user" "mutexes v m = None"
  shows "mutex_answer {} m me False v (st_do (C_mutex_new m) v)"
proof -
  let ?w = "v\<lparr>mutexes := (mutexes v)(m \<mapsto> \<lparr>owner = None, mutex_wait_q = []\<rparr>)\<rparr>"
  have kept: "owner_kept ts m v ?w" for ts using assms(3) by (simp add: owner_kept_def)
  have "others me ?w ?w" by (simp add: others_def)
  from handed_others [OF handed_set_mutex [OF assms(1) refl kept] this] assms(2) kept
  show ?thesis by (simp add: mutex_answer_def st_mutex_new_def)
qed

lemma mutex_event:
  assumes "vp_inv v" "enabled e v" "handed_but {} v" "do_event e v = Some a" "mutex_call e v m"
  shows "mutex_answer (if e = Call (C_unlock m) then {this_thread v} else {}) m (this_thread v) (takes_lock e v m) v a"
proof -
  have ok: "mutexes_ok v" "runs_ok (Some (this_thread v)) v" using assms(1) by (simp_all add: vp_inv_def vp_ok_def)
  show ?thesis
  proof (cases e)
    case (Call c)
    then show ?thesis
      using assms mutex_new_answer [OF assms(3), of "this_thread v" m] destroy_answer [OF assms(3) refl, of m]
        lock_answer [OF assms(3) refl, of m] unlock_answer [OF assms(3) refl ok(1), of m] trylock_answer [OF assms(3) refl, of m]
      by (cases c) (auto simp: takes_lock_def)
  next
    case Resume
    then show ?thesis using assms(4,5) ok(2) lock_resume_answer [OF assms(3) refl] by (auto simp: takes_lock_def runs_ok_def)
  qed (use assms(5) in simp_all)
qed

lemma event_handed:
  assumes "vp_inv v" "enabled e v" "handed_but {} v" "do_event e v = Some (Inr (r, w))"
  shows "handed_but {} w"
proof (cases "\<exists>m. mutex_call e v m")
  case True
  then show ?thesis using mutex_event [OF assms] by (auto simp: mutex_answer_def)
next
  case False
  then have "aside (this_thread v) v (Inr (r, w))" using aside_event [OF assms(1,2,4)] by simp
  then show ?thesis using handed_others [OF handed_but_mono [OF assms(3)]] by (auto simp: aside_def)
qed

lemma reachable_handed: "vp_reachable v \<Longrightarrow> handed_but {} v"
proof (induction rule: vp_reachable.induct)
  case (start now idle main v)
  then have "resume_at v = (\<lambda>_. At_user)"
    by (auto simp: st_init_def st_no_vp_def st_thread_create_def add_runq_def del_runq_def Let_def fun_eq_iff)
  then show ?case by (simp add: handed_but_def)
next
  case (step v v')
  from step.hyps(2) show ?case
    by cases (rule event_handed [OF reachable_inv [OF step.hyps(1)] _ step.IH])
qed

text \<open>
  C7: Mutexes exclude each other, whatever the threads do.  A thread that owns a mutex owns it until it unlocks it
  itself: no other event, by any thread, takes it away or destroys the mutex.  When locking answers 0, at once or after having
  waited, or trying to lock does, the caller is the owner.  And no wake-up is lost: while a thread waits, some thread
  owns the mutex and the waiter is in its queue.
\<close>

theorem mutex_exclusive:
  assumes "vp_reachable v" "enabled e v" "do_event e v = Some (Inr (r, v'))" "mutexes v m = Some x"
  shows "(\<forall>t. owner x = Some t \<longrightarrow> (\<exists>x'. mutexes v' m = Some x' \<and> owner x' = Some t) \<or> t = this_thread v \<and> e = Call (C_unlock m)) \<and>
    (takes_lock e v m \<and> r = Some (Inr 0) \<longrightarrow> (\<exists>x'. mutexes v' m = Some x' \<and> owner x' = Some (this_thread v))) \<and>
    (\<forall>t \<in> threads v. th_state v t = ST_LOCK_WAIT \<and> resume_at v t = At_mutex m \<longrightarrow> owner x \<noteq> None \<and> t \<in> set (mutex_wait_q x))"
proof -
  note inv = reachable_inv [OF assms(1)]
  have "owner_kept (if e = Call (C_unlock m) then {this_thread v} else {}) m v v' \<and>
    (takes_lock e v m \<and> r = Some (Inr 0) \<longrightarrow> (\<exists>x'. mutexes v' m = Some x' \<and> owner x' = Some (this_thread v)))"
  proof (cases "\<exists>k. mutex_call e v k")
    case True
    then obtain k where k: "mutex_call e v k" by blast
    note ans = mutex_event [OF inv assms(2) reachable_handed [OF assms(1)] assms(3) k]
    show ?thesis
    proof (cases "k = m")
      case False
      then have "\<not> takes_lock e v m" using k by (auto simp: takes_lock_def)
      then show ?thesis using ans False by (auto simp: mutex_answer_def owner_kept_def)
    qed (use ans in \<open>auto simp: mutex_answer_def\<close>)
  next
    case False
    then have "mutexes v' = mutexes v" "\<not> takes_lock e v m"
      using aside_event [OF inv assms(2,3)] by (auto simp: aside_def others_def takes_lock_def)
    then show ?thesis by (auto simp: owner_kept_def)
  qed
  moreover have "mutexes_ok v" using inv by (simp add: vp_inv_def vp_ok_def)
  ultimately show ?thesis using assms(4) by (auto simp: owner_kept_def mutexes_ok_def split: if_splits)
qed

lemma mutex_example:
  "map_option (\<lambda>v. (this_thread v, idle_thread v, resume_at v 2, th_state v 3, resume_at v 3, threads v, mutexes v 5))
     (st_run [Call (C_mutex_new 5), Call (C_create 3 7 False), Call (C_lock 5), Yield 10 0, Call (C_lock 5), Resume] started) =
   Some (2, 1, At_user, ST_LOCK_WAIT, At_mutex 5, {3, 2, 1}, Some \<lparr>owner = Some 2, mutex_wait_q = [3]\<rparr>)"
  by (simp add: st_eval st_mutex_new_def st_mutex_lock_def the_mutex_def set_mutex_def)

lemma mutex_exclusive_witness:
  "\<exists>v v' x. vp_reachable v \<and> th_state v 3 = ST_LOCK_WAIT \<and> do_event (Call (C_trylock 5)) v = Some (Inr (Some (Inl EBUSY), v')) \<and>
     mutexes v 5 = Some x \<and> 3 \<in> set (mutex_wait_q x) \<and> (\<exists>x'. mutexes v' 5 = Some x' \<and> owner x' = Some 2)"
proof -
  let ?es = "[Call (C_mutex_new 5), Call (C_create 3 7 False), Call (C_lock 5), Yield 10 0, Call (C_lock 5), Resume]"
  from mutex_example obtain v where v: "st_run ?es started = Some v" "this_thread v = 2" "idle_thread v = 1" "resume_at v 2 = At_user" "th_state v 3 = ST_LOCK_WAIT"
    "resume_at v 3 = At_mutex 5" "threads v = {3, 2, 1}" "mutexes v 5 = Some \<lparr>owner = Some 2, mutex_wait_q = [3]\<rparr>" by auto
  have r: "vp_reachable v" by (rule run_reachable [OF started_reachable v(1)])
  have e: "enabled (Call (C_trylock 5)) v" using v by simp
  obtain v' where "do_event (Call (C_trylock 5)) v = Some (Inr (Some (Inl EBUSY), v'))"
    using v(8) by (simp add: st_mutex_trylock_def the_mutex_def returns_def)
  with mutex_exclusive [OF r e this v(8)] r v show ?thesis by auto
qed

end
