(* ===== verification/St_Event.thy ===== *)
theory St_Event
  imports St_Steps "HOL-Library.Multiset"
begin

unbundle bit_operations_syntax

section \<open>The interface of the event systems of state-threads (state-threads/common.h, sched.c, event.c)\<close>

text \<open>
  An event system is a record of functions; the scheduler calls it in \<open>st_poll\<close> and in its idle thread.  This theory holds
  the record, the contract of its functions as a locale, and what the scheduler and any event system
  with this contract do together.  An entry of the poll queue (\<open>_st_pollq_t\<close>) is here the thread that polls with its
  descriptors.
\<close>

subsection \<open>Poll queue and interface\<close>

datatype poll_kind = KREAD | KWRITE | KEXCEP

fun poll_bit :: "poll_kind \<Rightarrow> int" where
  "poll_bit KREAD = 1"
| "poll_bit KWRITE = 4"
| "poll_bit KEXCEP = 2"

definition asks :: "poll_kind \<Rightarrow> pollfd \<Rightarrow> bool" where
  "asks k pd \<longleftrightarrow> pf_events pd AND poll_bit k \<noteq> 0"

type_synonym pollq = "thread \<times> pollfd list"

text \<open>\<open>'a\<close> is what the system answers to a dispatch, \<open>'d\<close> the data of the event system.\<close>

record ('a, 'd) eventsys =
  es_name :: string
  es_val :: int
  es_dispatch :: "'a \<Rightarrow> pollq list \<Rightarrow> 'd \<Rightarrow> pollq list \<times> pollq list \<times> 'd"
  es_pollset_add :: "pollfd list \<Rightarrow> 'd \<Rightarrow> st_errno option \<times> 'd"
  es_pollset_del :: "pollfd list \<Rightarrow> 'd \<Rightarrow> 'd"
  es_fd_new :: "int \<Rightarrow> 'd \<Rightarrow> st_errno option \<times> 'd"
  es_fd_close :: "int \<Rightarrow> 'd \<Rightarrow> st_errno option"
  es_fd_getlimit :: int

definition vp_pollq :: "vp \<Rightarrow> pollq list" where
  "vp_pollq v = map (\<lambda>t. (t, poll_fds v t)) (io_q v)"

subsection \<open>The scheduler with its event system\<close>

text \<open>
  The three places where the scheduler calls the event system: a thread polls, a thread goes on after \<open>st_poll\<close>
  switched it away, and the idle thread waits.  \<open>None\<close> when the event is not possible, fails or does not end.
\<close>

datatype 'a io_event = Plain st_event | Poll "pollfd list" "64 word" | Wait 'a "64 word" int

definition finish :: "st_event \<Rightarrow> vp \<times> 'd \<Rightarrow> ((st_errno + int) option \<times> vp \<times> 'd) option" where
  "finish e s = (if enabled e (fst s)
     then (case do_event e (fst s) of Some (Inr (r, v)) \<Rightarrow> Some (r, v, snd s) | _ \<Rightarrow> None) else None)"

definition added :: "st_errno option \<Rightarrow> st_errno + unit" where
  "added r = (case r of None \<Rightarrow> Inr () | Some e \<Rightarrow> Inl e)"

definition queue_events :: "pollq list \<Rightarrow> pollq list \<Rightarrow> vp \<Rightarrow> (thread \<Rightarrow> pollfd list) option" where
  "queue_events rest off v = (if rest = vp_pollq v \<and> off = [] then None else Some (\<lambda>t. the (map_of (rest @ off) t)))"

fun io_step :: "('a, 'd) eventsys \<Rightarrow> 'a io_event \<Rightarrow> vp \<times> 'd \<Rightarrow> ((st_errno + int) option \<times> vp \<times> 'd) option" where
  "io_step es (Plain e) (v, d) = (case e of
       Call (C_poll a fds w) \<Rightarrow> None
     | Idle ev now s \<Rightarrow> None
     | Resume \<Rightarrow> finish e (v, if resume_at v (this_thread v) = At_poll \<and> on_ioq v (this_thread v)
         then es_pollset_del es (poll_fds v (this_thread v)) d else d)
     | _ \<Rightarrow> finish e (v, d))"
| "io_step es (Poll fds w) (v, d) =
     (if FL_INTERRUPT \<in> th_flags v (this_thread v) then finish (Call (C_poll (Inr ()) fds w)) (v, d)
      else (case es_pollset_add es fds d of (r, d) \<Rightarrow> finish (Call (C_poll (added r) fds w)) (v, d)))"
| "io_step es (Wait a now s) (v, d) = (case es_dispatch es a (vp_pollq v) d of (rest, off, d) \<Rightarrow>
     finish (Idle (queue_events rest off v) now s) (v, d))"

inductive io_reachable :: "('a, 'd) eventsys \<Rightarrow> 'd \<Rightarrow> vp \<times> 'd \<Rightarrow> bool" for es d0 where
  start: "st_init True now (Some idle) (Some main) st_no_vp = (0, v) \<Longrightarrow> idle \<noteq> main \<Longrightarrow> io_reachable es d0 (v, d0)"
| step: "io_reachable es d0 s \<Longrightarrow> io_step es e s = Some (r, s') \<Longrightarrow> io_reachable es d0 s'"

fun io_run :: "('a, 'd) eventsys \<Rightarrow> 'a io_event list \<Rightarrow> vp \<times> 'd \<Rightarrow> (vp \<times> 'd) option" where
  "io_run es [] s = Some s"
| "io_run es (e # l) s = (case io_step es e s of None \<Rightarrow> None | Some (r, s) \<Rightarrow> io_run es l s)"

lemma io_run_reachable: "io_reachable es d0 s \<Longrightarrow> io_run es l s = Some s' \<Longrightarrow> io_reachable es d0 s'"
  by (induction l arbitrary: s) (auto intro: io_reachable.step split: option.splits)

lemma io_started: "io_reachable es d0 (started, d0)"
proof (rule io_reachable.start)
  show "st_init True 0 (Some 1) (Some 2) st_no_vp = (0, started)"
    unfolding started_def by (simp add: st_init_def st_no_vp_def st_thread_create_def del_runq_def add_runq_def)
qed simp

subsection \<open>Events that leave the poll queue alone\<close>

definition polls :: "vp \<Rightarrow> thread list \<times> (thread \<Rightarrow> pollfd list)" where
  "polls v = (io_q v, poll_fds v)"

definition polls_kept :: "vp \<Rightarrow> st_answer \<Rightarrow> bool" where
  "polls_kept v a \<longleftrightarrow> (\<forall>r w. a = Inr (r, w) \<longrightarrow> polls w = polls v)"

named_theorems polls_rules

lemma polls_updates [simp]:
  "polls (set_state t s v) = polls v" "polls (set_flag t f v) = polls v" "polls (clear_flag t f v) = polls v"
  "polls (add_runq t v) = polls v" "polls (insert_runq t v) = polls v" "polls (set_mutex m x v) = polls v"
  "polls (v\<lparr>resume_at := R\<rparr>) = polls v" "polls (v\<lparr>sleeping := S\<rparr>) = polls v" "polls (v\<lparr>cond_wait_q := C\<rparr>) = polls v"
  "polls (v\<lparr>mutexes := M\<rparr>) = polls v" "polls (v\<lparr>threads := T\<rparr>) = polls v" "polls (v\<lparr>zombie_q := Z\<rparr>) = polls v"
  "polls (v\<lparr>th_term := K\<rparr>) = polls v" "polls (v\<lparr>th_retval := V\<rparr>) = polls v" "polls (v\<lparr>active_count := n\<rparr>) = polls v"
  "polls (v\<lparr>run_q := Q\<rparr>) = polls v" "polls (v\<lparr>this_thread := t\<rparr>) = polls v" "polls (v\<lparr>last_clock := c\<rparr>) = polls v"
  "polls (v\<lparr>curr_time := i\<rparr>) = polls v" "polls (v\<lparr>last_tset := c\<rparr>) = polls v" "polls (v\<lparr>th_state := S'\<rparr>) = polls v"
  "polls (v\<lparr>th_flags := F\<rparr>) = polls v"
  by (simp_all add: polls_def set_state_def set_flag_def clear_flag_def add_runq_def insert_runq_def set_mutex_def)

lemma polls_returns [simp]: "polls w = polls v \<Longrightarrow> polls_kept v (returns r w)"
  by (simp add: polls_kept_def returns_def)

lemma polls_failed [simp]: "polls_kept v (Inl f)"
  by (simp add: polls_kept_def)

lemma polls_switches [simp]: "polls w = polls v \<Longrightarrow> polls_kept v (switches p w)"
  by (auto simp: polls_kept_def switches_def st_switch_context_def st_vp_schedule_def split: list.splits if_splits)

lemma polls_bind [polls_rules]: "(\<And>x. a = Inr x \<Longrightarrow> polls_kept v (k x)) \<Longrightarrow> polls_kept v (rbind a k)"
  by (cases a) simp_all

lemma polls_unless [polls_rules]: "polls w = polls v \<Longrightarrow> polls_kept v (f w) \<Longrightarrow> polls_kept v (unless_interrupted f w)"
  by (simp add: unless_interrupted_def)

lemma polls_sleep [simp]:
  "st_add_sleep_q t n w = Inr u \<Longrightarrow> polls u = polls w" "st_del_sleep_q t w = Inr u \<Longrightarrow> polls u = polls w"
  by (auto simp: st_add_sleep_q_def st_del_sleep_q_def)

lemma polls_make_runnable [simp]: "make_runnable t w = Inr u \<Longrightarrow> polls u = polls w"
  by (auto simp: make_runnable_def split: if_splits sum.splits)

lemma polls_signal_loop: "cond_signal_loop b q w = Inr u \<Longrightarrow> polls u = polls w"
  by (induction q arbitrary: w) (auto split: if_splits)

lemma polls_signal [simp]: "cond_signal c b w = Inr u \<Longrightarrow> polls u = polls w"
  by (auto simp: cond_signal_def dest: polls_signal_loop)

lemma polls_leave [simp]: "cond_leave c w = Inr (r, u) \<Longrightarrow> polls u = polls w"
  by (auto simp: cond_leave_def Let_def split: if_splits)

lemma polls_enter [simp]: "polls w = polls v \<Longrightarrow> polls_kept v (cond_enter p c n w)"
  by (auto simp: cond_enter_def Let_def split: if_splits intro!: polls_rules)

lemma polls_join_loop [simp]: "polls w = polls v \<Longrightarrow> polls_kept v (join_loop t c w)"
  by (simp add: join_loop_def)

lemma polls_free [simp]: "polls w = polls v \<Longrightarrow> polls_kept v (thread_free w)"
  by (simp add: thread_free_def)

lemma polls_create [simp]: "st_thread_create t c j v = (r, w) \<Longrightarrow> polls w = polls v"
  by (auto simp: st_thread_create_def st_cond_new_def split: option.splits if_splits)

lemmas polls_calls = st_usleep_def st_cond_destroy_def st_cond_timedwait_def st_cond_signal_def st_cond_broadcast_def
  st_mutex_destroy_def st_mutex_lock_def st_mutex_unlock_def st_mutex_trylock_def st_thread_exit_def st_thread_join_def
  st_thread_interrupt_def

lemma polls_call:
  assumes "\<And>a fds w. c \<noteq> C_poll a fds w"
  shows "polls_kept v (st_do c v)"
proof (cases c)
  case (C_create t c j)
  then show ?thesis by (auto simp: polls_kept_def split: prod.splits)
next
  case (C_cond_new c)
  then show ?thesis by (auto simp: polls_kept_def st_cond_new_def)
next
  case (C_mutex_new m)
  then show ?thesis by (auto simp: polls_kept_def st_mutex_new_def)
qed (use assms in \<open>auto simp: polls_calls Let_def intro!: polls_rules split: if_splits option.splits list.splits\<close>)

lemma polls_resume:
  assumes "resume_at v (this_thread v) \<noteq> At_poll"
  shows "polls_kept v (st_resume (resume_at v (this_thread v)) v)"
  using assms
  by (cases "resume_at v (this_thread v)")
    (auto simp: st_usleep_resume_def st_cond_timedwait_resume_def st_thread_join_resume_def st_mutex_lock_resume_def
      st_thread_exit_resume_def st_cond_destroy_def Let_def intro!: polls_rules split: if_splits option.splits)

lemma polls_clock:
  assumes "vp_ok r v" "st_vp_check_clock now s v = Some (Inr w)"
  shows "polls w = polls v"
proof -
  have "vp_ok r (v\<lparr>resume_at := resume_at v\<rparr>)" using assms(1) by simp
  from check_clock_ok [OF this, of now s] assms(2) show ?thesis by (auto simp: woken_def clock_set_def polls_def)
qed

lemma polls_yield:
  assumes "vp_inv v" "st_thread_yield now s v = Some a"
  shows "polls_kept v a"
  using assms polls_clock [of _ v now s]
  by (auto simp: st_thread_yield_def vp_inv_def intro!: polls_rules split: sum.splits)

subsection \<open>What a poll queue asks for\<close>

definition pairs :: "pollfd list \<Rightarrow> (int \<times> int) multiset" where
  "pairs pds = mset (map (\<lambda>pd. (pf_fd pd, pf_events pd)) pds)"

text \<open>The descriptors of all entries with their events.\<close>

definition interests :: "pollq list \<Rightarrow> (int \<times> int) multiset" where
  "interests q = mset (map (\<lambda>pd. (pf_fd pd, pf_events pd)) (concat (map snd q)))"

lemma pairs_simps [simp]: "pairs [] = {#}" "pairs (pd # pds) = add_mset (pf_fd pd, pf_events pd) (pairs pds)" "pairs (pds @ pds') = pairs pds + pairs pds'"
  by (simp_all add: pairs_def)

lemma interests_simps [simp]: "interests [] = {#}" "interests ((t, pds) # q) = pairs pds + interests q" "interests (q @ q') = interests q + interests q'"
  by (simp_all add: interests_def pairs_def)

lemma interests_remove1: "e \<in> set q \<Longrightarrow> interests q = interests (remove1 e q) + pairs (snd e)"
  by (induction q) (auto simp: ac_simps)

text \<open>How many descriptors ask for an event of a kind on \<open>fd\<close>.\<close>

definition wanted :: "(int \<times> int) multiset \<Rightarrow> poll_kind \<Rightarrow> int \<Rightarrow> nat" where
  "wanted M k fd = size {#x \<in># M. fst x = fd \<and> snd x AND poll_bit k \<noteq> 0#}"

lemma wanted_add [simp]: "wanted (add_mset x M) k fd = (if fst x = fd \<and> snd x AND poll_bit k \<noteq> 0 then 1 else 0) + wanted M k fd"
  by (simp add: wanted_def)

lemma wanted_empty [simp]: "wanted {#} k fd = 0"
  by (simp add: wanted_def)

lemma wanted_iff: "0 < wanted (interests q) k fd \<longleftrightarrow> (\<exists>e \<in> set q. \<exists>pd \<in> set (snd e). pf_fd pd = fd \<and> asks k pd)"
proof -
  have "0 < wanted M k fd \<longleftrightarrow> (\<exists>x \<in># M. fst x = fd \<and> snd x AND poll_bit k \<noteq> 0)" for M
    by (force simp: wanted_def nonempty_has_size [symmetric])
  then show ?thesis by (auto simp: interests_def asks_def)
qed

text \<open>The events that both event systems accept.\<close>

definition legal_events :: "int \<Rightarrow> bool" where
  "legal_events e \<longleftrightarrow> e \<noteq> 0 \<and> e AND NOT 7 = 0"

lemma legal_asks:
  assumes "legal_events e"
  shows "\<exists>k. e AND poll_bit k \<noteq> 0"
proof -
  have e: "e \<noteq> 0" "e AND NOT 7 = 0" using assms by (simp_all add: legal_events_def)
  have "e = (e AND 7) OR (e AND NOT 7)" by (simp add: bit_eq_iff bit_simps) blast
  then have "e = e AND mask 3" using e(2) by (simp add: mask_eq_exp_minus_1)
  then have "e = e mod 8" by (simp add: take_bit_eq_mask [symmetric] take_bit_eq_mod)
  moreover have "0 \<le> e mod 8" "e mod 8 < 8" by simp_all
  ultimately have "0 < e" "e < 8" using e(1) by linarith+
  then have "e = 1 \<or> e = 2 \<or> e = 3 \<or> e = 4 \<or> e = 5 \<or> e = 6 \<or> e = 7" by arith
  then have "e AND 1 \<noteq> 0 \<or> e AND 4 \<noteq> 0 \<or> e AND 2 \<noteq> 0" by auto
  then show ?thesis by (metis poll_bit.simps)
qed

definition ready_pds :: "pollfd list \<Rightarrow> bool" where
  "ready_pds pds \<longleftrightarrow> list_ex (\<lambda>pd. pf_revents pd \<noteq> 0) pds"

text \<open>Filling in events keeps what is asked for.\<close>

definition keeps_pollfd :: "(pollfd \<Rightarrow> pollfd) \<Rightarrow> bool" where
  "keeps_pollfd f \<longleftrightarrow> (\<forall>pd. pf_fd (f pd) = pf_fd pd \<and> pf_events (f pd) = pf_events pd)"

lemma pairs_fill [simp]: "keeps_pollfd f \<Longrightarrow> pairs (map f pds) = pairs pds"
  by (simp add: pairs_def keeps_pollfd_def comp_def)

text \<open>A dispatch without events leaves the queue; otherwise the entries without events stay and the others leave, each in order.\<close>

definition filled :: "(pollfd \<Rightarrow> pollfd) \<Rightarrow> pollq list \<Rightarrow> pollq list" where
  "filled f q = map (\<lambda>e. (fst e, map f (snd e))) q"

fun stays :: "(pollfd \<Rightarrow> pollfd) option \<Rightarrow> pollq list \<Rightarrow> pollq list" where
  "stays None q = q"
| "stays (Some f) q = filter (\<lambda>e. \<not> ready_pds (snd e)) (filled f q)"

fun leaves :: "(pollfd \<Rightarrow> pollfd) option \<Rightarrow> pollq list \<Rightarrow> pollq list" where
  "leaves None q = []"
| "leaves (Some f) q = filter (\<lambda>e. ready_pds (snd e)) (filled f q)"

lemma interests_parts:
  assumes "\<And>g. f = Some g \<Longrightarrow> keeps_pollfd g"
  shows "interests q = interests (stays f q) + interests (leaves f q)"
proof (cases f)
  case (Some g)
  then have "keeps_pollfd g" by (rule assms)
  then show ?thesis unfolding Some by (induction q) (auto simp: filled_def ac_simps)
qed simp

subsection \<open>How the poll queue changes\<close>

lemma pollq_kept: "polls w = polls v \<Longrightarrow> vp_pollq w = vp_pollq v"
  by (simp add: vp_pollq_def polls_def)

lemma poll_queue:
  assumes "me_ok v" "FL_INTERRUPT \<notin> th_flags v (this_thread v)" "st_poll (Inr ()) fds w v = Inr (r, u)"
  shows "vp_pollq u = vp_pollq v @ [(this_thread v, fds)]"
proof -
  let ?me = "this_thread v"
  let ?v = "v\<lparr>poll_fds := (poll_fds v)(?me := fds), on_ioq := (on_ioq v)(?me := True), io_q := io_q v @ [?me]\<rparr>"
  have "polls_kept ?v (rbind (if w \<noteq> ST_UTIME_NO_TIMEOUT then st_add_sleep_q ?me w ?v else Inr ?v)
      (\<lambda>v. switches At_poll (set_state ?me ST_IO_WAIT v)))"
    by (rule polls_bind) (auto split: if_splits)
  then have "polls u = polls ?v"
    using assms(2,3) by (auto simp: st_poll_def unless_interrupted_def Let_def polls_kept_def)
  moreover have "?me \<notin> set (io_q v)"
    using me_okD(7) [OF assms(1)] assms(1) by (auto simp: me_ok_def vp_ok_def queues_ok_def)
  ultimately show ?thesis by (auto simp: polls_def vp_pollq_def)
qed

lemma poll_queue_kept:
  "FL_INTERRUPT \<in> th_flags v (this_thread v) \<or> a = Inl e \<Longrightarrow> polls_kept v (st_poll a fds w v)"
  by (auto simp: st_poll_def unless_interrupted_def)

lemma poll_resume_queue:
  assumes "st_poll_resume v = Inr (r, u)"
  shows "polls u = (if on_ioq v (this_thread v) then remove1 (this_thread v) (io_q v) else io_q v, poll_fds v)"
proof -
  let ?v = "if on_ioq v (this_thread v) then v\<lparr>io_q := remove1 (this_thread v) (io_q v), on_ioq := (on_ioq v)(this_thread v := False)\<rparr> else v"
  have "polls_kept ?v (st_poll_resume v)" by (auto simp: st_poll_resume_def Let_def intro!: polls_rules)
  then have "polls u = polls ?v" using assms by (simp add: polls_kept_def)
  then show ?thesis by (simp add: polls_def)
qed

lemma resume_entry:
  assumes "vp_inv v" "on_ioq v (this_thread v)"
  shows "(this_thread v, poll_fds v (this_thread v)) \<in> set (vp_pollq v)" "distinct (io_q v)"
    "st_poll_resume v = Inr (r, u) \<Longrightarrow> vp_pollq u = remove1 (this_thread v, poll_fds v (this_thread v)) (vp_pollq v)"
proof -
  have q: "distinct (io_q v)" "this_thread v \<in> set (io_q v)"
    using assms by (auto simp: vp_inv_def vp_ok_def queues_ok_def)
  then show "(this_thread v, poll_fds v (this_thread v)) \<in> set (vp_pollq v)" "distinct (io_q v)" by (simp_all add: vp_pollq_def)
  have "map (\<lambda>t. (t, P t)) (remove1 m xs) = remove1 (m, P m) (map (\<lambda>t. (t, P t)) xs)" for P :: "thread \<Rightarrow> pollfd list" and m xs
    by (induction xs) auto
  then show "st_poll_resume v = Inr (r, u) \<Longrightarrow> vp_pollq u = remove1 (this_thread v, poll_fds v (this_thread v)) (vp_pollq v)"
    using poll_resume_queue [of v r u] assms(2) by (simp add: polls_def vp_pollq_def)
qed

lemma make_runnable_queues: "make_runnable t v = Inr w \<Longrightarrow> run_q w = run_q v @ [t] \<and> io_q w = io_q v \<and> poll_fds w = poll_fds v"
  by (auto simp: make_runnable_def st_del_sleep_q_def vp_updates split: if_splits sum.splits)

lemma io_notify_queues:
  assumes "io_notify t fds v = Inr w"
  shows "run_q w = run_q v @ (if ready_pds fds then [t] else []) \<and>
    io_q w = (if ready_pds fds then remove1 t (io_q v) else io_q v) \<and> poll_fds w = (poll_fds v)(t := fds)"
  using assms by (auto simp: io_notify_def ready_pds_def dest: make_runnable_queues split: if_splits)

lemma io_dispatch_queues:
  assumes "io_dispatch ev q v = Inr w" "distinct q" "io_q v = p @ q" "set p \<inter> set q = {}"
  shows "run_q w = run_q v @ filter (\<lambda>t. ready_pds (ev t)) q \<and> io_q w = p @ filter (\<lambda>t. \<not> ready_pds (ev t)) q \<and>
    poll_fds w = (\<lambda>t. if t \<in> set q then ev t else poll_fds v t)"
  using assms
proof (induction q arbitrary: v p)
  case (Cons t q)
  then obtain v1 where v1: "io_notify t (ev t) v = Inr v1" "io_dispatch ev q v1 = Inr w" by auto
  note n = io_notify_queues [OF v1(1)]
  show ?case
  proof (cases "ready_pds (ev t)")
    case True
    then have "io_q v1 = p @ q" using n Cons.prems(2,3,4) by (simp add: remove1_append)
    with Cons.IH [OF v1(2) _ this] Cons.prems(2,4) n True show ?thesis by (auto simp: fun_eq_iff)
  next
    case False
    then have "io_q v1 = (p @ [t]) @ q" using n Cons.prems(3) by simp
    with Cons.IH [OF v1(2) _ this] Cons.prems(2,4) n False show ?thesis by (auto simp: fun_eq_iff)
  qed
qed simp

text \<open>The idle step of the processor after a dispatch: the entries that leave go to the run queue, in order.\<close>

lemma idle_queues:
  assumes "vp_inv v" "this_thread v = idle_thread v"
    and "vp_idle (queue_events (stays f (vp_pollq v)) (leaves f (vp_pollq v)) v) v = Inr w"
  shows "vp_pollq w = stays f (vp_pollq v) \<and> run_q w = run_q v @ map fst (leaves f (vp_pollq v)) \<and>
    (\<forall>(t, fds) \<in> set (leaves f (vp_pollq v)). poll_fds w t = fds)"
proof (cases "stays f (vp_pollq v) = vp_pollq v \<and> leaves f (vp_pollq v) = []")
  case True
  then show ?thesis using assms(3) by (simp add: queue_events_def vp_idle_def)
next
  case False
  then obtain g where f: "f = Some g" by (cases f) simp_all
  let ?ev = "\<lambda>t. map g (poll_fds v t)"
  let ?qs = "stays f (vp_pollq v) @ leaves f (vp_pollq v)"
  have q: "distinct (io_q v)" by (rule idle_waiters [OF assms(1,2)])
  have st: "stays f (vp_pollq v) = map (\<lambda>t. (t, ?ev t)) (filter (\<lambda>t. \<not> ready_pds (?ev t)) (io_q v))"
    and le: "leaves f (vp_pollq v) = map (\<lambda>t. (t, ?ev t)) (filter (\<lambda>t. ready_pds (?ev t)) (io_q v))"
    by (simp_all add: f filled_def vp_pollq_def filter_map comp_def)
  have "the (map_of ?qs t) = ?ev t" if "t \<in> set (io_q v)" for t
  proof -
    have "map_of (map (\<lambda>t. (t, ?ev t)) ts) t = (if t \<in> set ts then Some (?ev t) else None)" for ts by (induction ts) auto
    then show ?thesis unfolding st le map_of_append using that by (simp add: map_add_def)
  qed
  then have ev: "ts \<subseteq> set (io_q v) \<Longrightarrow> t \<in> ts \<Longrightarrow> the (map_of ?qs t) = ?ev t" for t ts by blast
  have "io_dispatch (\<lambda>t. the (map_of ?qs t)) (io_q v) v = Inr w"
    using assms(3) False by (auto simp: queue_events_def vp_idle_def)
  from io_dispatch_queues [OF this q, of "[]"] ev [OF order.refl]
  have "run_q w = run_q v @ filter (\<lambda>t. ready_pds (?ev t)) (io_q v)" "io_q w = filter (\<lambda>t. \<not> ready_pds (?ev t)) (io_q v)"
    "\<And>t. t \<in> set (io_q v) \<Longrightarrow> poll_fds w t = ?ev t"
    by (auto cong: filter_cong)
  then show ?thesis unfolding st le by (auto simp: vp_pollq_def comp_def)
qed

subsection \<open>The contract of an event system\<close>

definition fits :: "((int \<times> int) multiset \<Rightarrow> 'd \<Rightarrow> bool) \<Rightarrow> vp \<times> 'd \<Rightarrow> bool" where
  "fits holds s \<longleftrightarrow> vp_reachable (fst s) \<and> holds (interests (vp_pollq (fst s))) (snd s)"

text \<open>
  \<open>holds M d\<close>: the data \<open>d\<close> of the event system fits a poll queue that asks for \<open>M\<close>.  Adding is refused or adds what
  the descriptors ask for, deleting takes it away, and a dispatch takes off the entries with some event.
\<close>

locale event_system =
  fixes es :: "('a, 'd) eventsys"
    and holds :: "(int \<times> int) multiset \<Rightarrow> 'd \<Rightarrow> bool"
    and fill :: "'a \<Rightarrow> pollq list \<Rightarrow> 'd \<Rightarrow> (pollfd \<Rightarrow> pollfd) option"
  assumes add_ok: "holds M d \<Longrightarrow> es_pollset_add es pds d = (None, d') \<Longrightarrow> holds (M + pairs pds) d'"
    and add_refused: "holds M d \<Longrightarrow> es_pollset_add es pds d = (Some e, d') \<Longrightarrow> holds M d'"
    and del_ok: "holds (M + pairs pds) d \<Longrightarrow> holds M (es_pollset_del es pds d)"
    and dispatch_ok: "holds (interests q) d \<Longrightarrow> \<exists>d'. es_dispatch es a q d = (stays (fill a q d) q, leaves (fill a q d) q, d') \<and>
        holds (interests (stays (fill a q d) q)) d'"
begin

lemma finish_reachable: "vp_reachable v \<Longrightarrow> finish e (v, d) = Some (r, u, d') \<Longrightarrow> vp_reachable u \<and> d' = d"
  by (auto simp: finish_def intro: vp_reachable.step vp_step split: if_splits option.splits sum.splits)

lemma finish_fits:
  assumes "vp_reachable v" "finish e (v, d) = Some (r, u, d')"
    and "\<And>a. do_event e v = Some a \<Longrightarrow> enabled e v \<Longrightarrow> polls_kept v a" "holds (interests (vp_pollq v)) d"
  shows "fits holds (u, d')"
proof -
  have "vp_pollq u = vp_pollq v"
    using assms(2,3) by (auto simp: finish_def polls_kept_def intro!: pollq_kept split: if_splits option.splits sum.splits)
  then show ?thesis using finish_reachable [OF assms(1,2)] assms(4) by (simp add: fits_def)
qed

lemma poll_fits:
  assumes "fits holds (v, d)" "io_step es (Poll fds w) (v, d) = Some (r, u, d')"
  shows "fits holds (u, d')"
proof (cases "FL_INTERRUPT \<in> th_flags v (this_thread v)")
  case True
  then show ?thesis using assms poll_queue_kept [of v "Inr ()" _ fds w]
    by (intro finish_fits [of v "Call (C_poll (Inr ()) fds w)" d]) (auto simp: fits_def)
next
  case False
  obtain a d1 where a: "es_pollset_add es fds d = (a, d1)" by fastforce
  then have f: "finish (Call (C_poll (added a) fds w)) (v, d1) = Some (r, u, d')" using assms(2) False by simp
  have v: "vp_reachable v" "holds (interests (vp_pollq v)) d" using assms(1) by (simp_all add: fits_def)
  show ?thesis
  proof (cases a)
    case None
    have en: "enabled (Call (C_poll (Inr ()) fds w)) v" "st_poll (Inr ()) fds w v = Inr (r, u)" "d' = d1"
      using f None by (auto simp: finish_def added_def split: if_splits sum.splits)
    then have "me_ok v" using user_ok [OF reachable_inv [OF v(1)]] by simp
    from poll_queue [OF this False en(2)] add_ok [OF v(2)] a None finish_reachable [OF v(1) f] en(3)
    show ?thesis by (simp add: fits_def pairs_def interests_def)
  next
    case (Some e)
    then have "holds (interests (vp_pollq v)) d1" using add_refused [OF v(2)] a by simp
    with f v(1) Some show ?thesis using poll_queue_kept [of v "Inl e" e fds w]
      by (intro finish_fits [OF v(1) f]) (auto simp: added_def)
  qed
qed

lemma wait_step:
  assumes "fits holds (v, d)" "this_thread v = idle_thread v" "es_dispatch es a (vp_pollq v) d = (rest, off, d')"
  shows "\<exists>w. vp_idle (queue_events rest off v) v = Inr w \<and> vp_pollq w = rest \<and> run_q w = run_q v @ map fst off \<and>
    (\<forall>(t, fds) \<in> set off. poll_fds w t = fds \<and> ready_pds fds) \<and> holds (interests rest) d'"
proof -
  have v: "vp_inv v" "holds (interests (vp_pollq v)) d" using assms(1) reachable_inv by (simp_all add: fits_def)
  from dispatch_ok [OF v(2), of a] assms(3) have r: "rest = stays (fill a (vp_pollq v) d) (vp_pollq v)" "off = leaves (fill a (vp_pollq v) d) (vp_pollq v)"
    "holds (interests rest) d'" by auto
  from vp_idle_ok [OF v(1) assms(2)] obtain w where w: "vp_idle (queue_events rest off v) v = Inr w" by blast
  have "\<forall>(t, fds) \<in> set off. ready_pds fds" unfolding r(2) by (cases "fill a (vp_pollq v) d") auto
  with idle_queues [OF v(1) assms(2) w [unfolded r(1,2)]] w r show ?thesis by auto
qed

lemma wait_fits:
  assumes "fits holds (v, d)" "io_step es (Wait a now s) (v, d) = Some (r, u, d')"
  shows "fits holds (u, d')"
proof -
  obtain rest off d1 where x: "es_dispatch es a (vp_pollq v) d = (rest, off, d1)" by (metis prod_cases3)
  let ?e = "Idle (queue_events rest off v) now s"
  have f: "finish ?e (v, d1) = Some (r, u, d')" using assms(2) x by simp
  have v: "vp_reachable v" using assms(1) by (simp add: fits_def)
  have idle: "this_thread v = idle_thread v" "idle_round (queue_events rest off v) now s v = Some (Inr (r, u))"
    using f by (auto simp: finish_def split: if_splits option.splits sum.splits)
  from wait_step [OF assms(1) idle(1) x] obtain w where
    w: "vp_idle (queue_events rest off v) v = Inr w" "vp_pollq w = rest" "holds (interests rest) d1" by blast
  have ok: "vp_ok (Some (this_thread v)) w" using vp_idle_ok [OF reachable_inv [OF v] idle(1), of "queue_events rest off v"] w(1) by auto
  obtain c where c: "st_vp_check_clock now s w = Some c" "rbind c (\<lambda>v. switches At_idle (set_state (this_thread v) ST_RUNNABLE v)) = Inr (r, u)"
    using idle(2) w(1) by (auto simp: idle_round_def)
  then obtain w1 where w1: "st_vp_check_clock now s w = Some (Inr w1)" "switches At_idle (set_state (this_thread w1) ST_RUNNABLE w1) = Inr (r, u)"
    by (cases c) auto
  have "polls u = polls w1" using polls_switches [of "set_state (this_thread w1) ST_RUNNABLE w1" w1 At_idle] w1(2) by (simp add: polls_kept_def)
  then have "polls u = polls w" using polls_clock [OF ok w1(1)] by simp
  from pollq_kept [OF this] have "vp_pollq u = rest" using w(2) by simp
  then show ?thesis using finish_reachable [OF v f] w(3) by (simp add: fits_def)
qed

lemma resume_fits:
  assumes "fits holds (v, d)" "io_step es (Plain Resume) (v, d) = Some (r, u, d')"
  shows "fits holds (u, d')"
proof (cases "resume_at v (this_thread v) = At_poll")
  case False
  then show ?thesis using assms polls_resume [OF False] by (intro finish_fits [of v Resume d]) (auto simp: fits_def)
next
  case True
  let ?me = "this_thread v" and ?d = "if on_ioq v (this_thread v) then es_pollset_del es (poll_fds v (this_thread v)) d else d"
  have v: "vp_reachable v" "holds (interests (vp_pollq v)) d" using assms(1) by (simp_all add: fits_def)
  have f: "finish Resume (v, ?d) = Some (r, u, d')" using assms(2) True by simp
  then have u: "st_poll_resume v = Inr (r, u)" using True by (auto simp: finish_def split: if_splits sum.splits)
  have "holds (interests (vp_pollq u)) ?d"
  proof (cases "on_ioq v ?me")
    case on: True
    note e = resume_entry [OF reachable_inv [OF v(1)] on]
    have "holds (interests (vp_pollq u) + pairs (poll_fds v ?me)) d"
      unfolding e(3) [OF u] using v(2) interests_remove1 [OF e(1)] by simp
    from del_ok [OF this] on show ?thesis by simp
  next
    case False
    then show ?thesis using poll_resume_queue [OF u] v(2) pollq_kept [of u v] by (simp add: polls_def)
  qed
  then show ?thesis using finish_reachable [OF v(1) f] by (simp add: fits_def)
qed

lemma plain_fits:
  assumes "fits holds (v, d)" "io_step es (Plain e) (v, d) = Some (r, u, d')"
  shows "fits holds (u, d')"
proof (cases "e = Resume")
  case False
  have v: "vp_reachable v" "holds (interests (vp_pollq v)) d" using assms(1) by (simp_all add: fits_def)
  then have "finish e (v, d) = Some (r, u, d')" "\<And>a fds w. e \<noteq> Call (C_poll a fds w)" "\<And>ev now s. e \<noteq> Idle ev now s"
    using assms(2) False by (auto split: st_event.splits st_call.splits)
  with v polls_call [of _ v] polls_yield [OF reachable_inv [OF v(1)]] False show ?thesis
    by (intro finish_fits [of v e d]; cases e) auto
qed (use assms resume_fits in simp)

text \<open>In every state that the scheduler reaches with the event system, the data fits the poll queue.\<close>

lemma reachable_fits: "io_reachable es d0 s \<Longrightarrow> holds {#} d0 \<Longrightarrow> fits holds s"
proof (induction rule: io_reachable.induct)
  case (start now idle main v)
  moreover from start(1) have "io_q v = []" by (auto simp: st_init_def st_no_vp_def st_thread_create_def del_runq_def add_runq_def Let_def split: if_splits)
  ultimately show ?case by (auto simp: fits_def vp_pollq_def intro: vp_reachable.start)
next
  case (step s e r s')
  obtain v d u d' where s: "s = (v, d)" "s' = (u, d')" by fastforce
  have f: "fits holds (v, d)" and st: "io_step es e (v, d) = Some (r, u, d')" using step s by simp_all
  show ?case unfolding s(2)
  proof (cases e)
    case (Plain e) with plain_fits [OF f, of e] st show "fits holds (u, d')" by blast
  next
    case (Poll fds w) with poll_fits [OF f, of fds w] st show "fits holds (u, d')" by blast
  next
    case (Wait a now s) with wait_fits [OF f, of a now s] st show "fits holds (u, d')" by blast
  qed
qed

end

end
