(* ===== verification/St_Select.thy ===== *)
theory St_Select
  imports St_Event
begin

unbundle bit_operations_syntax

section \<open>The select event system of state-threads (state-threads/event.c)\<close>

text \<open>
  The event system keeps, for each kind of event, the descriptors to wait for as an \<open>fd_set\<close> and counts how
  many entries of the poll queue ask for each.  What \<open>select\<close> and \<open>fcntl\<close> answer is an argument.  The
  functions keep the contract of \<open>event_system\<close>, so that the sets fit the poll queue of the scheduler at every moment.
\<close>

subsection \<open>Descriptor sets\<close>

definition FD_SETSIZE :: int where
  "FD_SETSIZE = 1024"

definition POLLNVAL :: int where
  "POLLNVAL = 32"

record seldata =
  fd_sets :: "poll_kind \<Rightarrow> int set"
  fd_ref_cnts :: "int \<Rightarrow> poll_kind \<Rightarrow> int"
  maxfd :: int

definition st_select_init :: "bool \<Rightarrow> seldata option" where
  "st_select_init malloc_ok =
     (if malloc_ok then Some \<lparr>fd_sets = (\<lambda>_. {}), fd_ref_cnts = (\<lambda>_ _. 0), maxfd = - 1\<rparr> else None)"

subsection \<open>Adding and deleting\<close>

definition bad_pollfd :: "pollfd \<Rightarrow> bool" where
  "bad_pollfd pd \<longleftrightarrow> pf_fd pd < 0 \<or> pf_fd pd \<ge> FD_SETSIZE \<or> pf_events pd = 0 \<or>
     pf_events pd AND NOT (poll_bit KREAD OR poll_bit KWRITE OR poll_bit KEXCEP) \<noteq> 0"

definition add_kind :: "poll_kind \<Rightarrow> pollfd \<Rightarrow> seldata \<Rightarrow> seldata" where
  "add_kind k pd d = (if asks k pd
     then d\<lparr>fd_sets := (fd_sets d)(k := insert (pf_fd pd) (fd_sets d k)),
       fd_ref_cnts := (fd_ref_cnts d)(pf_fd pd := (fd_ref_cnts d (pf_fd pd))(k := fd_ref_cnts d (pf_fd pd) k + 1))\<rparr>
     else d)"

definition add_pollfd :: "pollfd \<Rightarrow> seldata \<Rightarrow> seldata" where
  "add_pollfd pd d =
     (let d = add_kind KEXCEP pd (add_kind KWRITE pd (add_kind KREAD pd d)) in
      if maxfd d < pf_fd pd then d\<lparr>maxfd := pf_fd pd\<rparr> else d)"

definition st_select_pollset_add :: "pollfd list \<Rightarrow> seldata \<Rightarrow> st_errno option \<times> seldata" where
  "st_select_pollset_add pds d = (if list_ex bad_pollfd pds then (Some EINVAL, d) else (None, fold add_pollfd pds d))"

definition del_kind :: "poll_kind \<Rightarrow> pollfd \<Rightarrow> seldata \<Rightarrow> seldata" where
  "del_kind k pd d = (if asks k pd
     then (let d = d\<lparr>fd_ref_cnts := (fd_ref_cnts d)(pf_fd pd := (fd_ref_cnts d (pf_fd pd))(k := fd_ref_cnts d (pf_fd pd) k - 1))\<rparr>
           in if fd_ref_cnts d (pf_fd pd) k = 0 then d\<lparr>fd_sets := (fd_sets d)(k := fd_sets d k - {pf_fd pd})\<rparr> else d)
     else d)"

definition del_pollfd :: "pollfd \<Rightarrow> seldata \<Rightarrow> seldata" where
  "del_pollfd pd d = del_kind KEXCEP pd (del_kind KWRITE pd (del_kind KREAD pd d))"

definition st_select_pollset_del :: "pollfd list \<Rightarrow> seldata \<Rightarrow> seldata" where
  "st_select_pollset_del pds d = fold del_pollfd pds d"

subsection \<open>Dispatching\<close>

text \<open>How long \<open>select\<close> may wait: seconds and microseconds, as the casts to \<open>int\<close> leave them.\<close>

definition select_timeout :: "vp \<Rightarrow> (int \<times> int) option" where
  "select_timeout v = (case first_sleeper (sleeping v) of None \<Rightarrow> None
     | Some t \<Rightarrow>
        let min_timeout = (if due (sleeping v) t \<le> last_clock v then 0 else due (sleeping v) t - last_clock v)
        in Some (sint (ucast (min_timeout div 1000000) :: 32 word), sint (ucast (min_timeout mod 1000000) :: 32 word)))"

text \<open>The events of a descriptor, from the sets that \<open>select\<close> left.\<close>

definition select_fill :: "(poll_kind \<Rightarrow> int set) \<Rightarrow> pollfd \<Rightarrow> pollfd" where
  "select_fill ready pd =
     pd\<lparr>pf_revents := fold (\<lambda>k revents. if asks k pd \<and> pf_fd pd \<in> ready k then revents OR poll_bit k else revents)
       [KREAD, KWRITE, KEXCEP] 0\<rparr>"

text \<open>The events of a descriptor after \<open>select\<close> failed: whether \<open>fcntl\<close> fails on it.\<close>

definition bad_fd_fill :: "(int \<Rightarrow> bool) \<Rightarrow> pollfd \<Rightarrow> pollfd" where
  "bad_fd_fill bad pd = (if pf_events pd \<noteq> 0 \<and> bad (pf_fd pd) then pd\<lparr>pf_revents := POLLNVAL\<rparr> else pd\<lparr>pf_revents := 0\<rparr>)"

definition pq_max_osfd :: "pollfd list \<Rightarrow> int" where
  "pq_max_osfd pds = foldl (\<lambda>m pd. if pf_fd pd > m then pf_fd pd else m) (- 1) pds"

text \<open>
  The loop over the poll queue of both functions; \<open>counts\<close> tells which descriptors it looks at.  The answer is
  the queue that is left, the entries that were taken off with their events, and the sets.
\<close>

fun notify_loop :: "(pollfd \<Rightarrow> pollfd) \<Rightarrow> (pollfd \<Rightarrow> bool) \<Rightarrow> pollq list \<Rightarrow> seldata \<Rightarrow> pollq list \<times> pollq list \<times> seldata" where
  "notify_loop fill counts [] d = ([], [], d)"
| "notify_loop fill counts ((t, pds) # q) d =
     (let fds = map fill pds in
      if ready_pds fds then
        (case notify_loop fill counts q (fold del_pollfd fds d) of (rest, off, d) \<Rightarrow> (rest, (t, fds) # off, d))
      else
        (let m = pq_max_osfd (filter counts pds) in
         case notify_loop fill counts q (if maxfd d < m then d\<lparr>maxfd := m\<rparr> else d) of (rest, off, d) \<Rightarrow> ((t, fds) # rest, off, d)))"

definition st_select_find_bad_fd :: "(int \<Rightarrow> bool) \<Rightarrow> pollq list \<Rightarrow> seldata \<Rightarrow> pollq list \<times> pollq list \<times> seldata" where
  "st_select_find_bad_fd bad q d = notify_loop (bad_fd_fill bad) (\<lambda>pd. pf_events pd \<noteq> 0) q (d\<lparr>maxfd := - 1\<rparr>)"

text \<open>
  What \<open>select\<close> answers: its result, the sets it leaves and whether its \<open>errno\<close> is \<open>EBADF\<close>; then on which descriptors
  \<open>fcntl\<close> fails.
\<close>

record select_answer =
  sa_nfd :: int
  sa_sets :: "poll_kind \<Rightarrow> int set"
  sa_ebadf :: bool
  sa_bad :: "int \<Rightarrow> bool"

definition st_select_dispatch :: "select_answer \<Rightarrow> pollq list \<Rightarrow> seldata \<Rightarrow> pollq list \<times> pollq list \<times> seldata" where
  "st_select_dispatch a q d =
     (if sa_nfd a > 0 then notify_loop (select_fill (sa_sets a)) (\<lambda>_. True) q (d\<lparr>maxfd := - 1\<rparr>)
      else if sa_nfd a < 0 \<and> sa_ebadf a then st_select_find_bad_fd (sa_bad a) q d
      else (q, [], d))"

subsection \<open>Descriptors\<close>

definition st_select_fd_new :: "int \<Rightarrow> seldata \<Rightarrow> st_errno option \<times> seldata" where
  "st_select_fd_new osfd d = (if osfd \<ge> FD_SETSIZE then (Some EMFILE, d) else (None, d))"

definition st_select_fd_close :: "int \<Rightarrow> seldata \<Rightarrow> st_errno option" where
  "st_select_fd_close osfd d = (if \<exists>k \<in> {KREAD, KWRITE, KEXCEP}. fd_ref_cnts d osfd k \<noteq> 0 then Some EBUSY else None)"

definition st_select_fd_getlimit :: int where
  "st_select_fd_getlimit = FD_SETSIZE"

definition st_select_eventsys :: "(select_answer, seldata) eventsys" where
  "st_select_eventsys = \<lparr>es_name = ''select'', es_val = 1, es_dispatch = st_select_dispatch,
     es_pollset_add = st_select_pollset_add, es_pollset_del = st_select_pollset_del, es_fd_new = st_select_fd_new,
     es_fd_close = st_select_fd_close, es_fd_getlimit = st_select_fd_getlimit\<rparr>"

subsection \<open>The sets are what the queue asks for\<close>

definition counts_ok :: "(int \<times> int) multiset \<Rightarrow> seldata \<Rightarrow> bool" where
  "counts_ok M d \<longleftrightarrow> (\<forall>k fd. fd_ref_cnts d fd k = int (wanted M k fd) \<and> (fd \<in> fd_sets d k \<longleftrightarrow> 0 < wanted M k fd))"

definition max_ok :: "(int \<times> int) multiset \<Rightarrow> seldata \<Rightarrow> bool" where
  "max_ok M d \<longleftrightarrow> (\<forall>x \<in># M. fst x \<le> maxfd d)"

lemma add_kind_parts [simp]:
  "fd_ref_cnts (add_kind k' pd d) fd k = fd_ref_cnts d fd k + (if fd = pf_fd pd \<and> k' = k \<and> asks k pd then 1 else 0)"
  "fd \<in> fd_sets (add_kind k' pd d) k \<longleftrightarrow> fd \<in> fd_sets d k \<or> fd = pf_fd pd \<and> k' = k \<and> asks k pd"
  "maxfd (add_kind k' pd d) = maxfd d"
  by (auto simp: add_kind_def)

lemma add_pollfd_parts:
  "fd_ref_cnts (add_pollfd pd d) fd k = fd_ref_cnts d fd k + (if fd = pf_fd pd \<and> asks k pd then 1 else 0)"
  "fd \<in> fd_sets (add_pollfd pd d) k \<longleftrightarrow> fd \<in> fd_sets d k \<or> fd = pf_fd pd \<and> asks k pd"
  "maxfd (add_pollfd pd d) = max (maxfd d) (pf_fd pd)"
proof -
  show "fd_ref_cnts (add_pollfd pd d) fd k = fd_ref_cnts d fd k + (if fd = pf_fd pd \<and> asks k pd then 1 else 0)"
    by (cases k) (simp_all add: add_pollfd_def Let_def)
  show "fd \<in> fd_sets (add_pollfd pd d) k \<longleftrightarrow> fd \<in> fd_sets d k \<or> fd = pf_fd pd \<and> asks k pd"
    by (cases k) (simp_all add: add_pollfd_def Let_def)
  show "maxfd (add_pollfd pd d) = max (maxfd d) (pf_fd pd)" by (simp add: add_pollfd_def Let_def)
qed

lemma add_pollfd_ok: "counts_ok M d \<Longrightarrow> counts_ok (add_mset (pf_fd pd, pf_events pd) M) (add_pollfd pd d)"
  by (auto simp: counts_ok_def add_pollfd_parts asks_def)

lemma del_kind_parts [simp]:
  "fd_ref_cnts (del_kind k' pd d) fd k = fd_ref_cnts d fd k - (if fd = pf_fd pd \<and> k' = k \<and> asks k pd then 1 else 0)"
  "fd \<in> fd_sets (del_kind k' pd d) k \<longleftrightarrow> fd \<in> fd_sets d k \<and> \<not> (fd = pf_fd pd \<and> k' = k \<and> asks k pd \<and> fd_ref_cnts d fd k = 1)"
  "maxfd (del_kind k' pd d) = maxfd d"
  by (auto simp: del_kind_def Let_def)

lemma del_pollfd_parts:
  "fd_ref_cnts (del_pollfd pd d) fd k = fd_ref_cnts d fd k - (if fd = pf_fd pd \<and> asks k pd then 1 else 0)"
  "fd \<in> fd_sets (del_pollfd pd d) k \<longleftrightarrow> fd \<in> fd_sets d k \<and> \<not> (fd = pf_fd pd \<and> asks k pd \<and> fd_ref_cnts d fd k = 1)"
  "maxfd (del_pollfd pd d) = maxfd d"
  by (cases k; simp add: del_pollfd_def; fail)+

lemma del_pollfd_ok:
  assumes "counts_ok (add_mset (pf_fd pd, pf_events pd) M) d"
  shows "counts_ok M (del_pollfd pd d)"
  unfolding counts_ok_def del_pollfd_parts
proof (intro allI conjI)
  fix k fd
  have c: "fd_ref_cnts d fd k = int (wanted (add_mset (pf_fd pd, pf_events pd) M) k fd)"
    "fd \<in> fd_sets d k \<longleftrightarrow> 0 < wanted (add_mset (pf_fd pd, pf_events pd) M) k fd"
    using assms unfolding counts_ok_def by blast+
  then show "fd_ref_cnts d fd k - (if fd = pf_fd pd \<and> asks k pd then 1 else 0) = int (wanted M k fd)"
    by (auto simp: asks_def)
  show "(fd \<in> fd_sets d k \<and> \<not> (fd = pf_fd pd \<and> asks k pd \<and> fd_ref_cnts d fd k = 1)) = (0 < wanted M k fd)"
    using c by (auto simp: asks_def)
qed

lemma add_pollset_ok: "counts_ok M d \<Longrightarrow> max_ok M d \<Longrightarrow> counts_ok (M + pairs pds) (fold add_pollfd pds d) \<and> max_ok (M + pairs pds) (fold add_pollfd pds d)"
proof (induction pds arbitrary: M d)
  case (Cons pd pds)
  have "max_ok (add_mset (pf_fd pd, pf_events pd) M) (add_pollfd pd d)"
    using Cons.prems(2) by (force simp: max_ok_def add_pollfd_parts)
  with Cons.IH [OF add_pollfd_ok [OF Cons.prems(1), of pd]] show ?case by simp
qed simp

lemma del_pollset_ok: "counts_ok (M + pairs pds) d \<Longrightarrow> counts_ok M (fold del_pollfd pds d) \<and> maxfd (fold del_pollfd pds d) = maxfd d"
proof (induction pds arbitrary: d)
  case (Cons pd pds)
  have "counts_ok (M + pairs pds) (del_pollfd pd d)" using Cons.prems by (intro del_pollfd_ok) simp
  from Cons.IH [OF this] show ?case by (simp add: del_pollfd_parts)
qed simp

text \<open>Filling in events keeps what is asked for.\<close>

lemma fills_keep [simp]: "keeps_pollfd (select_fill ready)" "keeps_pollfd (bad_fd_fill bad)"
  by (simp_all add: keeps_pollfd_def select_fill_def bad_fd_fill_def)

lemma foldl_max: "x \<in> insert m (set (map pf_fd pds)) \<Longrightarrow> x \<le> foldl (\<lambda>m pd. if pf_fd pd > m then pf_fd pd else m) m pds"
proof (induction pds arbitrary: m x)
  case (Cons pd pds)
  let ?m = "if pf_fd pd > m then pf_fd pd else m"
  have "?m \<le> foldl (\<lambda>m pd. if pf_fd pd > m then pf_fd pd else m) ?m pds" by (rule Cons.IH) simp
  moreover have "x \<le> foldl (\<lambda>m pd. if pf_fd pd > m then pf_fd pd else m) ?m pds" if "x \<in> set (map pf_fd pds)" using that by (intro Cons.IH) simp
  ultimately show ?case using Cons.prems by (auto split: if_splits)
qed simp

lemma pq_max_ge: "pd \<in> set pds \<Longrightarrow> pf_fd pd \<le> pq_max_osfd pds"
  unfolding pq_max_osfd_def by (rule foldl_max) simp

text \<open>The loop: entries without events stay, in order, and the others are taken off, in order.\<close>

lemma notify_loop_ok:
  assumes "counts_ok (M + interests q) d" "max_ok M d" "keeps_pollfd f" "\<forall>e \<in> set q. \<forall>pd \<in> set (snd e). counts pd"
  shows "\<exists>d'. notify_loop f counts q d = (stays (Some f) q, leaves (Some f) q, d') \<and>
    counts_ok (M + interests (stays (Some f) q)) d' \<and> max_ok (M + interests (stays (Some f) q)) d'"
  using assms
proof (induction q arbitrary: M d)
  case (Cons e q)
  obtain t pds where e: "e = (t, pds)" by (cases e)
  let ?fds = "map f pds"
  show ?case
  proof (cases "ready_pds ?fds")
    case True
    have "counts_ok ((M + interests q) + pairs ?fds) d" using Cons.prems(1,3) by (simp add: e ac_simps)
    then have "counts_ok (M + interests q) (fold del_pollfd ?fds d)" "maxfd (fold del_pollfd ?fds d) = maxfd d" using del_pollset_ok by blast+
    with Cons.IH [OF this(1) _ Cons.prems(3)] Cons.prems(2,4) True show ?thesis
      by (fastforce simp: e max_ok_def filled_def Let_def split: prod.splits)
  next
    case False
    let ?m = "pq_max_osfd (filter counts pds)"
    let ?d = "if maxfd d < ?m then d\<lparr>maxfd := ?m\<rparr> else d"
    have "counts_ok ((M + pairs pds) + interests q) ?d" using Cons.prems(1) by (simp add: e counts_ok_def ac_simps)
    moreover have "filter counts pds = pds" using Cons.prems(4) by (simp add: e)
    then have "\<forall>pd \<in> set pds. pf_fd pd \<le> maxfd ?d" using pq_max_ge [of _ pds] by fastforce
    then have "max_ok (M + pairs pds) ?d" using Cons.prems(2) by (fastforce simp: max_ok_def pairs_def)
    moreover have "\<forall>e \<in> set q. \<forall>pd \<in> set (snd e). counts pd" using Cons.prems(4) by simp
    ultimately obtain d' where d': "notify_loop f counts q ?d = (stays (Some f) q, leaves (Some f) q, d')"
        "counts_ok ((M + pairs pds) + interests (stays (Some f) q)) d'" "max_ok ((M + pairs pds) + interests (stays (Some f) q)) d'"
      using Cons.IH [OF _ _ Cons.prems(3)] by blast
    moreover have "stays (Some f) (e # q) = (t, ?fds) # stays (Some f) q" "leaves (Some f) (e # q) = leaves (Some f) q"
      using False by (simp_all add: e filled_def)
    moreover have "notify_loop f counts (e # q) d = ((t, ?fds) # stays (Some f) q, leaves (Some f) q, d')"
      using False d'(1) by (simp add: e Let_def)
    ultimately show ?thesis using Cons.prems(3) by (simp add: ac_simps)
  qed
qed (simp add: filled_def)

subsection \<open>Select keeps the contract\<close>

definition legal_pair :: "int \<times> int \<Rightarrow> bool" where
  "legal_pair x \<longleftrightarrow> 0 \<le> fst x \<and> fst x < FD_SETSIZE \<and> legal_events (snd x)"

definition select_holds :: "(int \<times> int) multiset \<Rightarrow> seldata \<Rightarrow> bool" where
  "select_holds M d \<longleftrightarrow> counts_ok M d \<and> max_ok M d \<and> (\<forall>x \<in># M. legal_pair x)"

definition select_fills :: "select_answer \<Rightarrow> seldata \<Rightarrow> (pollfd \<Rightarrow> pollfd) option" where
  "select_fills a d = (if sa_nfd a > 0 then Some (select_fill (sa_sets a))
     else if sa_nfd a < 0 \<and> sa_ebadf a then Some (bad_fd_fill (sa_bad a)) else None)"

lemma bad_legal: "bad_pollfd pd \<longleftrightarrow> \<not> legal_pair (pf_fd pd, pf_events pd)"
  by (auto simp: bad_pollfd_def legal_pair_def legal_events_def)

lemma select_dispatch_ok:
  assumes "select_holds (interests q) d"
  shows "\<exists>d'. st_select_dispatch a q d = (stays (select_fills a d) q, leaves (select_fills a d) q, d') \<and>
    select_holds (interests (stays (select_fills a d) q)) d'"
proof -
  have ok: "counts_ok ({#} + interests q) (d\<lparr>maxfd := - 1\<rparr>)" "max_ok {#} (d\<lparr>maxfd := - 1\<rparr>)"
    using assms by (simp_all add: select_holds_def counts_ok_def max_ok_def)
  have "pf_events pd \<noteq> 0" if "e \<in> set q" "pd \<in> set (snd e)" for e pd
  proof -
    have "(pf_fd pd, pf_events pd) \<in># interests q" using that by (force simp: interests_def)
    then show ?thesis using assms by (auto simp: select_holds_def legal_pair_def legal_events_def)
  qed
  note loops = notify_loop_ok [OF ok, of "select_fill (sa_sets a)" "\<lambda>_. True"]
    notify_loop_ok [OF ok, of "bad_fd_fill (sa_bad a)" "\<lambda>pd. pf_events pd \<noteq> 0"]
  have "set_mset (interests (stays (select_fills a d) q)) \<subseteq> set_mset (interests q)"
    using interests_parts [of "select_fills a d" q] by (auto simp: select_fills_def split: if_splits)
  then have "\<forall>x \<in># interests (stays (select_fills a d) q). legal_pair x" using assms by (auto simp: select_holds_def)
  then show ?thesis using loops \<open>\<And>pd e. e \<in> set q \<Longrightarrow> pd \<in> set (snd e) \<Longrightarrow> pf_events pd \<noteq> 0\<close> assms
    by (auto simp: st_select_dispatch_def st_select_find_bad_fd_def select_fills_def select_holds_def simp del: stays.simps(2) leaves.simps(2) split: if_splits)
qed

interpretation sel: event_system st_select_eventsys select_holds "\<lambda>a q. select_fills a"
proof unfold_locales
  fix M d pds d'
  assume h: "select_holds M d" and a: "es_pollset_add st_select_eventsys pds d = (None, d')"
  from a have d': "d' = fold add_pollfd pds d" "\<forall>pd \<in> set pds. \<not> bad_pollfd pd"
    by (auto simp: st_select_eventsys_def st_select_pollset_add_def list_ex_iff split: if_splits)
  from d'(2) have "\<forall>x \<in># pairs pds. legal_pair x" by (auto simp: pairs_def bad_legal)
  with h add_pollset_ok [of M d pds] show "select_holds (M + pairs pds) d'" unfolding d'(1) by (auto simp: select_holds_def)
next
  fix M d pds e d'
  assume "select_holds M d" "es_pollset_add st_select_eventsys pds d = (Some e, d')"
  then show "select_holds M d'" by (simp add: st_select_eventsys_def st_select_pollset_add_def split: if_splits)
next
  fix M pds d
  assume "select_holds (M + pairs pds) d"
  with del_pollset_ok [of M pds d] show "select_holds M (es_pollset_del st_select_eventsys pds d)"
    by (auto simp: select_holds_def max_ok_def st_select_eventsys_def st_select_pollset_del_def)
next
  fix q d a
  assume "select_holds (interests q) d"
  from select_dispatch_ok [OF this, of a] show "\<exists>d'. es_dispatch st_select_eventsys a q d = (stays (select_fills a d) q, leaves (select_fills a d) q, d') \<and>
      select_holds (interests (stays (select_fills a d) q)) d'" by (simp add: st_select_eventsys_def)
qed

lemma select_exact:
  assumes "select_holds (interests q) d"
  shows "fd \<in> fd_sets d k \<longleftrightarrow> (\<exists>e \<in> set q. \<exists>pd \<in> set (snd e). pf_fd pd = fd \<and> asks k pd)"
    "fd \<in> fd_sets d k \<Longrightarrow> 0 \<le> fd \<and> fd < FD_SETSIZE \<and> fd \<le> maxfd d"
    "st_select_fd_close fd d = Some EBUSY \<longleftrightarrow> (\<exists>e \<in> set q. \<exists>pd \<in> set (snd e). pf_fd pd = fd)"
proof -
  have c: "fd_ref_cnts d fd k = int (wanted (interests q) k fd)" "fd \<in> fd_sets d k \<longleftrightarrow> 0 < wanted (interests q) k fd" for fd k
    using assms by (simp_all add: select_holds_def counts_ok_def)
  show sets: "fd \<in> fd_sets d k \<longleftrightarrow> (\<exists>e \<in> set q. \<exists>pd \<in> set (snd e). pf_fd pd = fd \<and> asks k pd)" for fd k
    unfolding c(2) wanted_iff ..
  have good: "0 \<le> pf_fd pd \<and> pf_fd pd < FD_SETSIZE \<and> pf_fd pd \<le> maxfd d" "\<exists>k. asks k pd" if "e \<in> set q" "pd \<in> set (snd e)" for e pd
  proof -
    have "(pf_fd pd, pf_events pd) \<in># interests q" using that by (force simp: interests_def)
    then have "legal_pair (pf_fd pd, pf_events pd)" "pf_fd pd \<le> maxfd d" using assms by (auto simp: select_holds_def max_ok_def)
    then show "0 \<le> pf_fd pd \<and> pf_fd pd < FD_SETSIZE \<and> pf_fd pd \<le> maxfd d" "\<exists>k. asks k pd"
      using legal_asks by (auto simp: legal_pair_def asks_def)
  qed
  then show "fd \<in> fd_sets d k \<Longrightarrow> 0 \<le> fd \<and> fd < FD_SETSIZE \<and> fd \<le> maxfd d" unfolding sets by blast
  have all: "(\<exists>k. P k) \<longleftrightarrow> P KREAD \<or> P KWRITE \<or> P KEXCEP" for P by (metis poll_kind.exhaust)
  have "st_select_fd_close fd d = Some EBUSY \<longleftrightarrow> (\<exists>k. 0 < wanted (interests q) k fd)"
    unfolding st_select_fd_close_def c(1) all by simp
  then show "st_select_fd_close fd d = Some EBUSY \<longleftrightarrow> (\<exists>e \<in> set q. \<exists>pd \<in> set (snd e). pf_fd pd = fd)"
    unfolding wanted_iff using good(2) by blast
qed

text \<open>
  C15: In every state that the scheduler reaches with the select event system, whatever threads poll, wait, time out or are
  interrupted, in any order: the three sets given to \<open>select\<close> hold exactly the descriptors that some thread in the io queue polls
  for that event, even when several threads poll the same descriptor; all of them are legal and not above the highest descriptor given
  to \<open>select\<close>; and closing a descriptor is refused exactly while some thread polls it.
\<close>

theorem select_sets_exact:
  assumes "st_select_init True = Some d0" "io_reachable st_select_eventsys d0 (v, d)"
  shows "(\<forall>k fd. fd \<in> fd_sets d k \<longleftrightarrow> (\<exists>t \<in> set (io_q v). \<exists>pd \<in> set (poll_fds v t). pf_fd pd = fd \<and> asks k pd)) \<and>
    (\<forall>k. \<forall>fd \<in> fd_sets d k. 0 \<le> fd \<and> fd < FD_SETSIZE \<and> fd \<le> maxfd d) \<and>
    (\<forall>fd. st_select_fd_close fd d = Some EBUSY \<longleftrightarrow> (\<exists>t \<in> set (io_q v). \<exists>pd \<in> set (poll_fds v t). pf_fd pd = fd))"
proof -
  have "select_holds {#} d0" using assms(1) by (auto simp: st_select_init_def select_holds_def counts_ok_def max_ok_def)
  from sel.reachable_fits [OF assms(2) this] have h: "select_holds (interests (vp_pollq v)) d" by (simp add: fits_def)
  have "(\<exists>e \<in> set (vp_pollq v). \<exists>pd \<in> set (snd e). P pd) \<longleftrightarrow> (\<exists>t \<in> set (io_q v). \<exists>pd \<in> set (poll_fds v t). P pd)" for P
    by (auto simp: vp_pollq_def)
  from select_exact [OF h, unfolded this] show ?thesis by blast
qed

text \<open>A thread that polls descriptor 5, with a timeout, and then the idle thread runs.\<close>

definition polling :: "pollfd list" where
  "polling = [\<lparr>pf_fd = 5, pf_events = 1, pf_revents = 0\<rparr>]"

lemma select_example:
  assumes "st_select_init True = Some d0"
  shows "\<exists>v d. io_run st_select_eventsys [Poll polling ST_UTIME_NO_TIMEOUT] (started, d0) = Some (v, d) \<and>
    this_thread v = idle_thread v \<and> vp_pollq v = [(2, polling)] \<and> io_q v = [2] \<and> poll_fds v 2 = polling"
proof -
  have "st_select_pollset_add polling d0 = (None, fold add_pollfd polling d0)"
    by (simp add: st_select_pollset_add_def polling_def bad_pollfd_def FD_SETSIZE_def)
  then show ?thesis
    by (simp add: st_select_eventsys_def finish_def added_def st_eval st_poll_def vp_pollq_def)
qed

lemma select_sets_exact_witness:
  "\<exists>d0 v d. st_select_init True = Some d0 \<and> io_reachable st_select_eventsys d0 (v, d) \<and> io_q v = [2] \<and>
    5 \<in> fd_sets d KREAD \<and> 5 \<notin> fd_sets d KWRITE \<and> st_select_fd_close 5 d = Some EBUSY"
proof -
  obtain d0 where d0: "st_select_init True = Some d0" by (simp add: st_select_init_def)
  from select_example [OF d0] obtain v d where
    v: "io_run st_select_eventsys [Poll polling ST_UTIME_NO_TIMEOUT] (started, d0) = Some (v, d)" "io_q v = [2]" "poll_fds v 2 = polling" by blast
  have r: "io_reachable st_select_eventsys d0 (v, d)" by (rule io_run_reachable [OF io_started v(1)])
  note sets = select_sets_exact [OF d0 r, unfolded v(2)]
  have "fd \<in> fd_sets d k \<longleftrightarrow> fd = 5 \<and> k = KREAD" for fd k
  proof -
    have "fd \<in> fd_sets d k \<longleftrightarrow> (\<exists>t \<in> set [2]. \<exists>pd \<in> set (poll_fds v t). pf_fd pd = fd \<and> asks k pd)" using sets by blast
    then show ?thesis by (cases k) (auto simp: v(3) polling_def asks_def)
  qed
  moreover have "st_select_fd_close 5 d = Some EBUSY"
  proof -
    have "st_select_fd_close 5 d = Some EBUSY \<longleftrightarrow> (\<exists>t \<in> set [2]. \<exists>pd \<in> set (poll_fds v t). pf_fd pd = 5)" using sets by blast
    then show ?thesis by (simp add: v(3) polling_def)
  qed
  ultimately show ?thesis using d0 r v(2) by blast
qed

text \<open>
  When the idle thread runs and dispatches select, exactly the entries of the io queue with some event (or, after \<open>EBADF\<close>, with
  a descriptor that \<open>fcntl\<close> refuses) go from the io queue to the run queue, in the order in which they polled and with their
  events filled in; the others stay, in order.  If select reports a descriptor of its sets, at least one thread is woken, so that
  the idle thread does not spin.
\<close>

theorem select_wakes_ready:
  assumes "st_select_init True = Some d0" "io_reachable st_select_eventsys d0 (v, d)" "this_thread v = idle_thread v"
    and "st_select_dispatch a (vp_pollq v) d = (rest, off, d')"
  shows "(\<exists>w. vp_idle (queue_events rest off v) v = Inr w \<and> vp_pollq w = rest \<and> run_q w = run_q v @ map fst off \<and>
        (\<forall>(t, fds) \<in> set off. poll_fds w t = fds)) \<and>
      rest = stays (select_fills a d) (vp_pollq v) \<and> off = leaves (select_fills a d) (vp_pollq v) \<and>
      (\<forall>fd k. sa_nfd a > 0 \<longrightarrow> fd \<in> sa_sets a k \<longrightarrow> fd \<in> fd_sets d k \<longrightarrow> off \<noteq> [])"
proof -
  have "select_holds {#} d0" using assms(1) by (auto simp: st_select_init_def select_holds_def counts_ok_def max_ok_def)
  note f = sel.reachable_fits [OF assms(2) this]
  then have h: "select_holds (interests (vp_pollq v)) d" by (simp add: fits_def)
  have ro: "rest = stays (select_fills a d) (vp_pollq v)" "off = leaves (select_fills a d) (vp_pollq v)"
    using select_dispatch_ok [OF h, of a] assms(4) by auto
  have "es_dispatch st_select_eventsys a (vp_pollq v) d = (rest, off, d')" using assms(4) by (simp add: st_select_eventsys_def)
  from sel.wait_step [OF f assms(3) this] obtain w where w: "vp_idle (queue_events rest off v) v = Inr w" "vp_pollq w = rest"
    "run_q w = run_q v @ map fst off" "\<forall>(t, fds) \<in> set off. poll_fds w t = fds \<and> ready_pds fds" by blast
  have progress: "off \<noteq> []" if c: "sa_nfd a > 0" "fd \<in> sa_sets a k" "fd \<in> fd_sets d k" for fd k
  proof -
    obtain e pd where e: "e \<in> set (vp_pollq v)" "pd \<in> set (snd e)" "pf_fd pd = fd" "asks k pd" using select_exact(1) [OF h] c(3) by blast
    have "pf_revents (select_fill (sa_sets a) pd) \<noteq> 0" using c(2) e(3,4) by (cases k) (auto simp: select_fill_def)
    then have "ready_pds (map (select_fill (sa_sets a)) (snd e))" using e(2) by (auto simp: ready_pds_def list_ex_iff)
    then show ?thesis using e(1) c(1) unfolding ro by (auto simp: select_fills_def filled_def filter_empty_conv)
  qed
  have "\<forall>(t, fds) \<in> set off. poll_fds w t = fds" using w(4) by auto
  with w(1,2,3) have "\<exists>w. vp_idle (queue_events rest off v) v = Inr w \<and> vp_pollq w = rest \<and> run_q w = run_q v @ map fst off \<and>
      (\<forall>(t, fds) \<in> set off. poll_fds w t = fds)" by blast
  then show ?thesis using ro progress by (intro conjI allI impI) assumption+
qed

lemma select_wakes_ready_witness:
  "\<exists>d0 v d w. st_select_init True = Some d0 \<and> io_reachable st_select_eventsys d0 (v, d) \<and> this_thread v = idle_thread v \<and> io_q v = [2] \<and>
    vp_idle (queue_events [] [(2, map (select_fill (\<lambda>_. {5})) polling)] v) v = Inr w \<and> vp_pollq w = [] \<and> run_q w = run_q v @ [2]"
proof -
  let ?a = "\<lparr>sa_nfd = 1, sa_sets = \<lambda>_. {5}, sa_ebadf = False, sa_bad = \<lambda>_. False\<rparr>"
  let ?off = "[(2 :: thread, map (select_fill (\<lambda>_. {5})) polling)]"
  obtain d0 where d0: "st_select_init True = Some d0" by (simp add: st_select_init_def)
  from select_example [OF d0] obtain v d where
    v: "io_run st_select_eventsys [Poll polling ST_UTIME_NO_TIMEOUT] (started, d0) = Some (v, d)" "this_thread v = idle_thread v"
      "vp_pollq v = [(2, polling)]" "io_q v = [2]" by blast
  have r: "io_reachable st_select_eventsys d0 (v, d)" by (rule io_run_reachable [OF io_started v(1)])
  obtain rest off d' where d: "st_select_dispatch ?a (vp_pollq v) d = (rest, off, d')" by (metis prod_cases3)
  have "ready_pds (map (select_fill (\<lambda>_. {5})) polling)" by (simp add: ready_pds_def polling_def select_fill_def asks_def)
  with select_wakes_ready [OF d0 r v(2) d] have "rest = []" "off = ?off"
    and "\<exists>w. vp_idle (queue_events rest off v) v = Inr w \<and> vp_pollq w = rest \<and> run_q w = run_q v @ map fst off"
    by (auto simp: v(3) select_fills_def filled_def)
  with d0 r v(2,4) show ?thesis by auto
qed

subsection \<open>How long select waits\<close>

text \<open>The wait ends when the first timeout is due, to the microsecond, as long as that is within \<open>2 ^ 31\<close> seconds.\<close>

lemma sint_cut:
  fixes w :: "64 word"
  shows "unat w < 2 ^ 31 \<Longrightarrow> sint (ucast w :: 32 word) = int (unat w)"
    "2 ^ 31 \<le> unat w \<Longrightarrow> unat w < 2 ^ 32 \<Longrightarrow> sint (ucast w :: 32 word) < 0"
proof -
  have s: "sint (ucast w :: 32 word) = signed_take_bit 31 (take_bit 32 (uint w))" by (simp add: sint_uint unsigned_ucast_eq)
  show "sint (ucast w :: 32 word) = int (unat w)" if "unat w < 2 ^ 31"
  proof -
    have "int (unat w) < int (2 ^ 31)" using that by (simp only: of_nat_less_iff)
    then have "signed_take_bit 31 (uint w) = uint w" "take_bit 32 (uint w) = uint w"
      by (intro signed_take_bit_int_eq_self take_bit_int_eq_self; simp add: order.trans [OF _ uint_ge_0])+
    then show ?thesis unfolding s by simp
  qed
  show "sint (ucast w :: 32 word) < 0" if "2 ^ 31 \<le> unat w" "unat w < 2 ^ 32"
  proof -
    have u: "int (2 ^ 31) \<le> int (unat w)" "int (unat w) < int (2 ^ 32)" using that by (simp_all only: of_nat_less_iff of_nat_le_iff)
    then have t: "take_bit 32 (uint w) = uint w" by (intro take_bit_int_eq_self) simp_all
    have "uint w div 2147483648 = 1" by (rule int_div_pos_eq [where r = "uint w - 2147483648"]) (use u in simp_all)
    then have "bit (uint w) 31" by (simp add: bit_iff_odd)
    then show ?thesis unfolding s t by (simp add: signed_take_bit_negative_iff)
  qed
qed

lemma div_mod_us: "int (a div 1000000) * 1000000 + int (a mod 1000000) = int a"
  by (simp add: zdiv_int zmod_int)

lemma select_timeout_exact:
  assumes "first_sleeper (sleeping v) = Some t" "unat (due (sleeping v) t - last_clock v) < 2 ^ 31 * 1000000"
  shows "\<exists>s us. select_timeout v = Some (s, us) \<and> 0 \<le> s \<and> 0 \<le> us \<and> us < 1000000 \<and>
    s * 1000000 + us = (if due (sleeping v) t \<le> last_clock v then 0 else uint (due (sleeping v) t) - uint (last_clock v))"
proof -
  let ?r = "due (sleeping v) t - last_clock v"
  have "unat ?r div 1000000 < 2 ^ 31" "unat ?r mod 1000000 < 2 ^ 31" using assms(2) by auto
  then have "unat (?r div 1000000) = unat ?r div 1000000" "unat (?r mod 1000000) = unat ?r mod 1000000"
      "unat (?r div 1000000) < 2 ^ 31" "unat (?r mod 1000000) < 2 ^ 31"
    by (simp_all add: unat_div_distrib unat_mod_distrib)
  note r = this sint_cut(1) [OF this(3)] sint_cut(1) [OF this(4)]
  show ?thesis
  proof (cases "due (sleeping v) t \<le> last_clock v")
    case False
    then have "int (unat ?r) = uint (due (sleeping v) t) - uint (last_clock v)"
      by (simp add: uint_sub_if' word_le_def)
    moreover have "int (unat ?r div 1000000) * 1000000 + int (unat ?r mod 1000000) = int (unat ?r)"
      by (rule div_mod_us)
    moreover have "select_timeout v = Some (int (unat ?r div 1000000), int (unat ?r mod 1000000))"
      unfolding select_timeout_def assms(1) option.case Let_def if_not_P [OF False] r ..
    ultimately show ?thesis using False by (auto simp del: of_nat_mult of_nat_add)
  qed (use assms(1) in \<open>simp add: select_timeout_def\<close>)
qed

end
