(* ===== verification/St_Epoll.thy ===== *)
theory St_Epoll
  imports St_Select
begin

unbundle bit_operations_syntax

section \<open>The epoll event system of state-threads (state-threads/event.c)\<close>

text \<open>
  The event system counts for each descriptor how many entries of the poll queue ask for each kind of event and
  keeps the interest list of the kernel up to date with \<open>epoll_ctl\<close>, one call for every change.  The kernel is a
  parameter: \<open>epoll_ctl\<close> as a function on the interest list, and whether an allocation succeeds.  The functions keep
  the contract of \<open>event_system\<close> for every kernel that does what its manual says.
\<close>

subsection \<open>The kernel\<close>

datatype ctl_op = CTL_ADD | CTL_MOD | CTL_DEL

text \<open>The interest list: the registered descriptors with their events.\<close>

type_synonym regs = "int \<rightharpoonup> int"

record epoll_env =
  ep_ctl :: "ctl_op \<Rightarrow> int \<Rightarrow> int \<Rightarrow> regs \<Rightarrow> st_errno option \<times> regs"
  ep_realloc :: "int \<Rightarrow> bool"

text \<open>
  What the manual says of \<open>epoll_ctl\<close>: adding is refused with \<open>EEXIST\<close> exactly when the descriptor is registered, it may be refused for
  other reasons; changing and deleting work for a registered descriptor and are refused for another; a refused call changes nothing.
\<close>

definition epoll_ctl_doc :: "epoll_env \<Rightarrow> int \<Rightarrow> int \<Rightarrow> regs \<Rightarrow> bool" where
  "epoll_ctl_doc env fd ev regs \<longleftrightarrow>
     (case ep_ctl env CTL_ADD fd ev regs of
        (None, regs') \<Rightarrow> regs fd = None \<and> regs' = regs(fd \<mapsto> ev)
      | (Some e, regs') \<Rightarrow> regs' = regs \<and> (e = EEXIST \<longleftrightarrow> regs fd \<noteq> None)) \<and>
     (regs fd \<noteq> None \<longrightarrow> ep_ctl env CTL_MOD fd ev regs = (None, regs(fd \<mapsto> ev)) \<and> ep_ctl env CTL_DEL fd ev regs = (None, regs(fd := None))) \<and>
     (regs fd = None \<longrightarrow> (\<forall>op \<in> {CTL_MOD, CTL_DEL}. fst (ep_ctl env op fd ev regs) \<noteq> None \<and> snd (ep_ctl env op fd ev regs) = regs))"

definition epoll_ctl_ok :: "epoll_env \<Rightarrow> bool" where
  "epoll_ctl_ok env \<longleftrightarrow> (\<forall>fd ev regs. epoll_ctl_doc env fd ev regs)"

subsection \<open>The data\<close>

record epolldata =
  ep_cnts :: "int \<Rightarrow> poll_kind \<Rightarrow> int"
  ep_revents :: "int \<Rightarrow> int"
  fd_data_size :: int
  evtlist_size :: int
  evtlist_cnt :: int
  ep_regs :: regs

definition EPOLLERR :: int where "EPOLLERR = 8"
definition EPOLLHUP :: int where "EPOLLHUP = 16"
definition ST_EPOLL_EVTLIST_SIZE :: int where "ST_EPOLL_EVTLIST_SIZE = 4096"

text \<open>The four flags: whether the allocations and \<open>epoll_create\<close> succeed.\<close>

definition st_epoll_init :: "int \<Rightarrow> bool \<Rightarrow> bool \<Rightarrow> bool \<Rightarrow> bool \<Rightarrow> epolldata option" where
  "st_epoll_init fdlim data_ok epfd_ok fds_ok evts_ok =
     (let fd_hint = (if fdlim > 0 \<and> fdlim < ST_EPOLL_EVTLIST_SIZE then fdlim else ST_EPOLL_EVTLIST_SIZE) in
      if \<not> data_ok then None else if \<not> epfd_ok then None else if \<not> fds_ok then None else if \<not> evts_ok then None
      else Some \<lparr>ep_cnts = (\<lambda>_ _. 0), ep_revents = (\<lambda>_. 0), fd_data_size = fd_hint, evtlist_size = fd_hint,
        evtlist_cnt = 0, ep_regs = Map.empty\<rparr>)"

definition cnt_bit :: "epolldata \<Rightarrow> int \<Rightarrow> poll_kind \<Rightarrow> int" where
  "cnt_bit d fd k = (if ep_cnts d fd k \<noteq> 0 then poll_bit k else 0)"

definition epoll_events :: "epolldata \<Rightarrow> int \<Rightarrow> int" where
  "epoll_events d fd = cnt_bit d fd KREAD OR cnt_bit d fd KWRITE OR cnt_bit d fd KEXCEP"

text \<open>Sizes double until \<open>need\<close> fits; they are positive.\<close>

function expand_size :: "int \<Rightarrow> int \<Rightarrow> int" where
  "expand_size need n = (if need \<ge> n \<and> 0 < n then expand_size need (2 * n) else n)"
  by pat_completeness auto
termination by (relation "measure (\<lambda>(need, n). nat (need + 1 - n))") auto

declare expand_size.simps [simp del]

definition st_epoll_fd_data_expand :: "epoll_env \<Rightarrow> int \<Rightarrow> epolldata \<Rightarrow> bool \<times> epolldata" where
  "st_epoll_fd_data_expand env need d =
     (let n = expand_size need (fd_data_size d); fresh = (\<lambda>fd. fd_data_size d \<le> fd \<and> fd < n) in
      if \<not> ep_realloc env n then (False, d)
      else (True, d\<lparr>ep_cnts := (\<lambda>fd. if fresh fd then (\<lambda>_. 0) else ep_cnts d fd),
        ep_revents := (\<lambda>fd. if fresh fd then 0 else ep_revents d fd), fd_data_size := n\<rparr>))"

definition st_epoll_evtlist_expand :: "epoll_env \<Rightarrow> epolldata \<Rightarrow> epolldata" where
  "st_epoll_evtlist_expand env d =
     (let n = expand_size (evtlist_cnt d - 1) (evtlist_size d) in if ep_realloc env n then d\<lparr>evtlist_size := n\<rparr> else d)"

subsection \<open>Deleting\<close>

definition count_pd :: "int \<Rightarrow> pollfd \<Rightarrow> epolldata \<Rightarrow> epolldata" where
  "count_pd i pd d = d\<lparr>ep_cnts := (ep_cnts d)(pf_fd pd := (\<lambda>k. ep_cnts d (pf_fd pd) k + (if asks k pd then i else 0)))\<rparr>"

text \<open>Changes or deletes the descriptor; the count of the event list goes with it.\<close>

definition ctl_mod_del :: "epoll_env \<Rightarrow> int \<Rightarrow> epolldata \<Rightarrow> epolldata" where
  "ctl_mod_del env fd d =
     (let events = epoll_events d fd; op = (if events \<noteq> 0 then CTL_MOD else CTL_DEL) in
      case ep_ctl env op fd events (ep_regs d) of (r, regs) \<Rightarrow>
        d\<lparr>ep_regs := regs, evtlist_cnt := (if r = None \<and> op = CTL_DEL then evtlist_cnt d - 1 else evtlist_cnt d)\<rparr>)"

definition epoll_del_pd :: "epoll_env \<Rightarrow> pollfd \<Rightarrow> epolldata \<Rightarrow> epolldata" where
  "epoll_del_pd env pd d =
     (let old_events = epoll_events d (pf_fd pd); d = count_pd (- 1) pd d in
      if epoll_events d (pf_fd pd) \<noteq> old_events \<and> ep_revents d (pf_fd pd) = 0 then ctl_mod_del env (pf_fd pd) d else d)"

definition st_epoll_pollset_del :: "epoll_env \<Rightarrow> pollfd list \<Rightarrow> epolldata \<Rightarrow> epolldata" where
  "st_epoll_pollset_del env pds d = fold (epoll_del_pd env) pds d"

subsection \<open>Adding\<close>

definition bad_epoll_pd :: "pollfd \<Rightarrow> bool" where
  "bad_epoll_pd pd \<longleftrightarrow> pf_fd pd < 0 \<or> pf_events pd = 0 \<or>
     pf_events pd AND NOT (poll_bit KREAD OR poll_bit KWRITE OR poll_bit KEXCEP) \<noteq> 0"

fun epoll_check :: "epoll_env \<Rightarrow> pollfd list \<Rightarrow> epolldata \<Rightarrow> st_errno option \<times> epolldata" where
  "epoll_check env [] d = (None, d)"
| "epoll_check env (pd # pds) d =
     (if bad_epoll_pd pd then (Some EINVAL, d)
      else if pf_fd pd \<ge> fd_data_size d
      then (case st_epoll_fd_data_expand env (pf_fd pd) d of (ok, d) \<Rightarrow> if \<not> ok then (Some ENOMEM, d) else epoll_check env pds d)
      else epoll_check env pds d)"

definition epoll_add_pd :: "epoll_env \<Rightarrow> pollfd \<Rightarrow> epolldata \<Rightarrow> st_errno option \<times> epolldata" where
  "epoll_add_pd env pd d =
     (let fd = pf_fd pd; old_events = epoll_events d fd; d = count_pd 1 pd d; events = epoll_events d fd in
      if events \<noteq> old_events then
        (let op = (if old_events \<noteq> 0 then CTL_MOD else CTL_ADD) in
         case ep_ctl env op fd events (ep_regs d) of (r, regs) \<Rightarrow>
           let d = d\<lparr>ep_regs := regs\<rparr> in
           if r \<noteq> None \<and> (op \<noteq> CTL_ADD \<or> r \<noteq> Some EEXIST) then (r, d)
           else if op = CTL_ADD then
             (let d = d\<lparr>evtlist_cnt := evtlist_cnt d + 1\<rparr> in
              (None, if evtlist_cnt d > evtlist_size d then st_epoll_evtlist_expand env d else d))
           else (None, d))
      else (None, d))"

text \<open>\<open>done\<close> are the descriptors before; when one is refused all up to it are deleted again.\<close>

fun epoll_add_loop :: "epoll_env \<Rightarrow> pollfd list \<Rightarrow> pollfd list \<Rightarrow> epolldata \<Rightarrow> st_errno option \<times> epolldata" where
  "epoll_add_loop env done_pds [] d = (None, d)"
| "epoll_add_loop env done_pds (pd # pds) d = (case epoll_add_pd env pd d of
     (Some e, d) \<Rightarrow> (Some e, st_epoll_pollset_del env (done_pds @ [pd]) d)
   | (None, d) \<Rightarrow> epoll_add_loop env (done_pds @ [pd]) pds d)"

definition st_epoll_pollset_add :: "epoll_env \<Rightarrow> pollfd list \<Rightarrow> epolldata \<Rightarrow> st_errno option \<times> epolldata" where
  "st_epoll_pollset_add env pds d = (case epoll_check env pds d of (Some e, d) \<Rightarrow> (Some e, d) | (None, d) \<Rightarrow> epoll_add_loop env [] pds d)"

subsection \<open>Dispatching\<close>

definition epoll_timeout :: "vp \<Rightarrow> int" where
  "epoll_timeout v = (case first_sleeper (sleeping v) of None \<Rightarrow> - 1
     | Some t \<Rightarrow>
        let min_timeout = (if due (sleeping v) t \<le> last_clock v then 0 else due (sleeping v) t - last_clock v);
            timeout = sint (ucast (min_timeout div 1000) :: 32 word)
        in if timeout = 0 \<and> min_timeout > 0 then 1 else timeout)"

text \<open>\<open>evs\<close> are the descriptors with their events that \<open>epoll_wait\<close> stores; none when it times out or fails.\<close>

definition mark_fired :: "int \<times> int \<Rightarrow> epolldata \<Rightarrow> epolldata" where
  "mark_fired e d =
     (let d = d\<lparr>ep_revents := (ep_revents d)(fst e := snd e)\<rparr> in
      if ep_revents d (fst e) AND (EPOLLERR OR EPOLLHUP) \<noteq> 0
      then d\<lparr>ep_revents := (ep_revents d)(fst e := ep_revents d (fst e) OR epoll_events d (fst e))\<rparr> else d)"

definition epoll_fill :: "(int \<Rightarrow> int) \<Rightarrow> pollfd \<Rightarrow> pollfd" where
  "epoll_fill fired pd =
     (if fired (pf_fd pd) = 0 then pd\<lparr>pf_revents := 0\<rparr>
      else
        let r = fired (pf_fd pd);
            revents = fold (\<lambda>k revents. if asks k pd \<and> r AND poll_bit k \<noteq> 0 then revents OR poll_bit k else revents) [KREAD, KWRITE, KEXCEP] 0;
            revents = (if r AND EPOLLERR \<noteq> 0 then revents OR EPOLLERR else revents);
            revents = (if r AND EPOLLHUP \<noteq> 0 then revents OR EPOLLHUP else revents)
        in pd\<lparr>pf_revents := revents\<rparr>)"

fun epoll_notify :: "epoll_env \<Rightarrow> pollq list \<Rightarrow> epolldata \<Rightarrow> pollq list \<times> pollq list \<times> epolldata" where
  "epoll_notify env [] d = ([], [], d)"
| "epoll_notify env ((t, pds) # q) d =
     (let fds = map (epoll_fill (ep_revents d)) pds in
      if ready_pds fds
      then (case epoll_notify env q (st_epoll_pollset_del env fds d) of (rest, off, d) \<Rightarrow> (rest, (t, fds) # off, d))
      else (case epoll_notify env q d of (rest, off, d) \<Rightarrow> ((t, fds) # rest, off, d)))"

definition clear_fired :: "epoll_env \<Rightarrow> int \<times> int \<Rightarrow> epolldata \<Rightarrow> epolldata" where
  "clear_fired env e d = ctl_mod_del env (fst e) (d\<lparr>ep_revents := (ep_revents d)(fst e := 0)\<rparr>)"

definition st_epoll_dispatch :: "epoll_env \<Rightarrow> (int \<times> int) list \<Rightarrow> pollq list \<Rightarrow> epolldata \<Rightarrow> pollq list \<times> pollq list \<times> epolldata" where
  "st_epoll_dispatch env evs q d =
     (if evs \<noteq> [] then
        (case epoll_notify env q (fold mark_fired evs d) of (rest, off, d) \<Rightarrow> (rest, off, fold (clear_fired env) evs d))
      else (q, [], d))"

subsection \<open>Descriptors\<close>

definition st_epoll_fd_new :: "epoll_env \<Rightarrow> int \<Rightarrow> epolldata \<Rightarrow> st_errno option \<times> epolldata" where
  "st_epoll_fd_new env osfd d = (if osfd \<ge> fd_data_size d
     then (case st_epoll_fd_data_expand env osfd d of (ok, d) \<Rightarrow> if \<not> ok then (Some ENOMEM, d) else (None, d)) else (None, d))"

definition st_epoll_fd_close :: "int \<Rightarrow> epolldata \<Rightarrow> st_errno option" where
  "st_epoll_fd_close osfd d = (if \<exists>k \<in> {KREAD, KWRITE, KEXCEP}. ep_cnts d osfd k \<noteq> 0 then Some EBUSY else None)"

definition st_epoll_fd_getlimit :: int where
  "st_epoll_fd_getlimit = 0"

definition st_epoll_eventsys :: "epoll_env \<Rightarrow> ((int \<times> int) list, epolldata) eventsys" where
  "st_epoll_eventsys env = \<lparr>es_name = ''epoll'', es_val = 3, es_dispatch = st_epoll_dispatch env,
     es_pollset_add = st_epoll_pollset_add env, es_pollset_del = st_epoll_pollset_del env, es_fd_new = st_epoll_fd_new env,
     es_fd_close = st_epoll_fd_close, es_fd_getlimit = st_epoll_fd_getlimit\<rparr>"

subsection \<open>Choosing the event system\<close>

text \<open>On Linux: select and epoll, when the kernel supports it.  The state is the event system that is set, if any.\<close>

datatype es_choice = Es_select | Es_epoll

definition st_set_eventsys :: "bool \<Rightarrow> int \<Rightarrow> es_choice option \<Rightarrow> st_errno option \<times> es_choice option" where
  "st_set_eventsys epoll_supported es cur =
     (if cur \<noteq> None then (Some EBUSY, cur)
      else if es = 1 \<or> es = 0 then (None, Some Es_select)
      else if es = 3 \<and> epoll_supported then (None, Some Es_epoll)
      else (Some EINVAL, cur))"

definition st_get_eventsys :: "epoll_env \<Rightarrow> es_choice option \<Rightarrow> int" where
  "st_get_eventsys env cur = (case cur of None \<Rightarrow> - 1 | Some Es_select \<Rightarrow> es_val st_select_eventsys | Some Es_epoll \<Rightarrow> es_val (st_epoll_eventsys env))"

definition st_get_eventsys_name :: "epoll_env \<Rightarrow> es_choice option \<Rightarrow> string" where
  "st_get_eventsys_name env cur =
     (case cur of None \<Rightarrow> [] | Some Es_select \<Rightarrow> es_name st_select_eventsys | Some Es_epoll \<Rightarrow> es_name (st_epoll_eventsys env))"

text \<open>Once set, the event system stays.\<close>

lemma eventsys_set_once:
  assumes "st_set_eventsys s n cur = (None, cur')"
  shows "cur = None" "st_set_eventsys s' n' cur' = (Some EBUSY, cur')" "n \<noteq> 0 \<Longrightarrow> st_get_eventsys env cur' = n"
  using assms by (auto simp: st_set_eventsys_def st_get_eventsys_def st_select_eventsys_def st_epoll_eventsys_def split: if_splits)

subsection \<open>The interest list is what the queue asks for\<close>

definition regs_fit :: "epolldata \<Rightarrow> int \<Rightarrow> bool" where
  "regs_fit d fd \<longleftrightarrow> ep_regs d fd = (if epoll_events d fd = 0 then None else Some (epoll_events d fd))"

definition cnt_fit :: "epolldata \<Rightarrow> bool" where
  "cnt_fit d \<longleftrightarrow> finite (dom (ep_regs d)) \<and> evtlist_cnt d = int (card (dom (ep_regs d)))"

definition counts_fit :: "(int \<times> int) multiset \<Rightarrow> epolldata \<Rightarrow> bool" where
  "counts_fit M d \<longleftrightarrow> (\<forall>fd k. ep_cnts d fd k = int (wanted M k fd))"

definition sizes_fit :: "(int \<times> int) multiset \<Rightarrow> epolldata \<Rightarrow> bool" where
  "sizes_fit M d \<longleftrightarrow> 0 < fd_data_size d \<and> 0 < evtlist_size d \<and> (\<forall>x \<in># M. 0 \<le> fst x \<and> fst x < fd_data_size d \<and> legal_events (snd x))"

lemma epoll_events_cong: "ep_cnts d fd = ep_cnts d' fd' \<Longrightarrow> epoll_events d fd = epoll_events d' fd'"
  by (simp add: epoll_events_def cnt_bit_def)

lemma epoll_events_0: "epoll_events d fd = 0 \<longleftrightarrow> (\<forall>k. ep_cnts d fd k = 0)"
proof -
  have all: "(\<forall>k. P k) \<longleftrightarrow> P KREAD \<and> P KWRITE \<and> P KEXCEP" for P by (metis poll_kind.exhaust)
  show ?thesis unfolding all by (auto simp: epoll_events_def cnt_bit_def)
qed

lemma ctl_documented:
  assumes "epoll_ctl_ok env"
  shows "ep_ctl env CTL_ADD fd ev regs = (None, regs') \<Longrightarrow> regs fd = None \<and> regs' = regs(fd \<mapsto> ev)"
    "ep_ctl env CTL_ADD fd ev regs = (Some e, regs') \<Longrightarrow> regs' = regs \<and> (e = EEXIST \<longleftrightarrow> regs fd \<noteq> None)"
    "regs fd \<noteq> None \<Longrightarrow> ep_ctl env CTL_MOD fd ev regs = (None, regs(fd \<mapsto> ev)) \<and> ep_ctl env CTL_DEL fd ev regs = (None, regs(fd := None))"
    "regs fd = None \<Longrightarrow> op \<in> {CTL_MOD, CTL_DEL} \<Longrightarrow> \<exists>e. ep_ctl env op fd ev regs = (Some e, regs)"
proof -
  have doc: "epoll_ctl_doc env fd ev regs" using assms unfolding epoll_ctl_ok_def by blast
  show "ep_ctl env CTL_ADD fd ev regs = (None, regs') \<Longrightarrow> regs fd = None \<and> regs' = regs(fd \<mapsto> ev)"
    "ep_ctl env CTL_ADD fd ev regs = (Some e, regs') \<Longrightarrow> regs' = regs \<and> (e = EEXIST \<longleftrightarrow> regs fd \<noteq> None)"
    using doc by (simp_all add: epoll_ctl_doc_def)
  show "regs fd \<noteq> None \<Longrightarrow> ep_ctl env CTL_MOD fd ev regs = (None, regs(fd \<mapsto> ev)) \<and> ep_ctl env CTL_DEL fd ev regs = (None, regs(fd := None))"
    using doc by (simp add: epoll_ctl_doc_def)
  show "\<exists>e. ep_ctl env op fd ev regs = (Some e, regs)" if "regs fd = None" "op \<in> {CTL_MOD, CTL_DEL}"
  proof -
    have "fst (ep_ctl env op fd ev regs) \<noteq> None \<and> snd (ep_ctl env op fd ev regs) = regs" using doc that unfolding epoll_ctl_doc_def by blast
    then show ?thesis by (cases "ep_ctl env op fd ev regs") auto
  qed
qed

lemma ctl_mod_del_fields [simp]:
  "ep_cnts (ctl_mod_del env fd d) = ep_cnts d" "ep_revents (ctl_mod_del env fd d) = ep_revents d"
  "fd_data_size (ctl_mod_del env fd d) = fd_data_size d" "evtlist_size (ctl_mod_del env fd d) = evtlist_size d"
  by (simp_all add: ctl_mod_del_def Let_def split: prod.split)

lemma ctl_mod_del_events [simp]: "epoll_events (ctl_mod_del env fd d) x = epoll_events d x"
  by (rule epoll_events_cong) simp

lemma ctl_mod_del_regs:
  assumes "epoll_ctl_ok env"
  shows "ep_regs (ctl_mod_del env fd d) = (if ep_regs d fd = None then ep_regs d
      else if epoll_events d fd = 0 then (ep_regs d)(fd := None) else (ep_regs d)(fd \<mapsto> epoll_events d fd))"
    and "cnt_fit d \<Longrightarrow> cnt_fit (ctl_mod_del env fd d)"
proof -
  let ?ev = "epoll_events d fd" and ?op = "if epoll_events d fd \<noteq> 0 then CTL_MOD else CTL_DEL"
  show "ep_regs (ctl_mod_del env fd d) = (if ep_regs d fd = None then ep_regs d
      else if ?ev = 0 then (ep_regs d)(fd := None) else (ep_regs d)(fd \<mapsto> ?ev))"
  proof (cases "ep_regs d fd = None")
    case True
    with ctl_documented(4) [OF assms, where regs = "ep_regs d" and fd = fd and op = ?op and ev = ?ev] show ?thesis by (auto simp: ctl_mod_del_def Let_def)
  next
    case False
    with ctl_documented(3) [OF assms, where regs = "ep_regs d" and fd = fd and ev = ?ev] show ?thesis by (auto simp: ctl_mod_del_def Let_def)
  qed
  assume c: "cnt_fit d"
  show "cnt_fit (ctl_mod_del env fd d)"
  proof (cases "ep_regs d fd = None")
    case True
    with ctl_documented(4) [OF assms, where regs = "ep_regs d" and fd = fd and op = ?op and ev = ?ev] c show ?thesis by (auto simp: ctl_mod_del_def Let_def cnt_fit_def)
  next
    case False
    then have "fd \<in> dom (ep_regs d)" "finite (dom (ep_regs d))" using c by (auto simp: cnt_fit_def)
    then have "insert fd (dom (ep_regs d)) = dom (ep_regs d)" "int (card (dom (ep_regs d) - {fd})) = int (card (dom (ep_regs d))) - 1"
      using card_Suc_Diff1 [of "dom (ep_regs d)" fd] by (blast, linarith)
    then show ?thesis using ctl_documented(3) [OF assms, where regs = "ep_regs d" and fd = fd and ev = ?ev] False c
      by (auto simp: ctl_mod_del_def Let_def cnt_fit_def)
  qed
qed

lemma ctl_mod_del_fit:
  assumes "epoll_ctl_ok env" "ep_regs d fd \<noteq> None \<or> epoll_events d fd = 0"
  shows "regs_fit (ctl_mod_del env fd d) fd" "x \<noteq> fd \<Longrightarrow> regs_fit (ctl_mod_del env fd d) x = regs_fit d x"
  using assms(2) by (auto simp: regs_fit_def ctl_mod_del_regs(1) [OF assms(1)])

lemma count_pd_fields [simp]:
  "ep_revents (count_pd i pd d) = ep_revents d" "fd_data_size (count_pd i pd d) = fd_data_size d" "evtlist_size (count_pd i pd d) = evtlist_size d"
  "evtlist_cnt (count_pd i pd d) = evtlist_cnt d" "ep_regs (count_pd i pd d) = ep_regs d" "cnt_fit (count_pd i pd d) = cnt_fit d"
  "ep_cnts (count_pd i pd d) fd k = ep_cnts d fd k + (if fd = pf_fd pd \<and> asks k pd then i else 0)"
  by (simp_all add: count_pd_def cnt_fit_def)

lemma count_pd_other: "fd \<noteq> pf_fd pd \<Longrightarrow> epoll_events (count_pd i pd d) fd = epoll_events d fd"
  by (rule epoll_events_cong) (simp add: fun_eq_iff)

lemma count_up: "counts_fit M d \<Longrightarrow> counts_fit (add_mset (pf_fd pd, pf_events pd) M) (count_pd 1 pd d)"
  by (auto simp: counts_fit_def asks_def)

lemma count_down: "counts_fit (add_mset (pf_fd pd, pf_events pd) M) d \<Longrightarrow> counts_fit M (count_pd (- 1) pd d)"
  by (auto simp: counts_fit_def asks_def)

lemma counts_fit_ctl [simp]: "counts_fit M (ctl_mod_del env fd d) = counts_fit M d"
  by (simp add: counts_fit_def)

text \<open>
  While fired descriptors are marked their registration may be behind; \<open>X\<close> are descriptors that were just refused.
\<close>

definition regs_mid :: "int set \<Rightarrow> epolldata \<Rightarrow> bool" where
  "regs_mid X d \<longleftrightarrow> (\<forall>fd. fd \<notin> X \<longrightarrow> (ep_revents d fd = 0 \<longrightarrow> regs_fit d fd) \<and> (epoll_events d fd \<noteq> 0 \<longrightarrow> ep_regs d fd \<noteq> None))"

lemma del_pd_fields [simp]:
  "ep_revents (epoll_del_pd env pd d) = ep_revents d" "fd_data_size (epoll_del_pd env pd d) = fd_data_size d"
  "evtlist_size (epoll_del_pd env pd d) = evtlist_size d" "ep_cnts (epoll_del_pd env pd d) = ep_cnts (count_pd (- 1) pd d)"
  by (simp_all add: epoll_del_pd_def Let_def)

lemma del_pd_events: "epoll_events (epoll_del_pd env pd d) fd = epoll_events (count_pd (- 1) pd d) fd"
  by (rule epoll_events_cong) simp

lemma del_pd_counts:
  assumes "epoll_ctl_ok env" "counts_fit (add_mset (pf_fd pd, pf_events pd) M) d" "cnt_fit d"
  shows "counts_fit M (epoll_del_pd env pd d)" "cnt_fit (epoll_del_pd env pd d)"
  using count_down [OF assms(2)] ctl_mod_del_regs(2) [OF assms(1), of "count_pd (- 1) pd d"] assms(3)
  by (simp_all add: epoll_del_pd_def Let_def)

lemma del_pd_regs:
  assumes "epoll_ctl_ok env" "counts_fit (add_mset (pf_fd pd, pf_events pd) M) d" "regs_mid X d" "pf_fd pd \<notin> X"
  shows "regs_mid X (epoll_del_pd env pd d)"
  unfolding regs_mid_def
proof (intro allI impI)
  fix fd
  assume fd: "fd \<notin> X"
  let ?fd = "pf_fd pd" and ?c = "count_pd (- 1) pd d" and ?d = "epoll_del_pd env pd d"
  have was: "ep_revents d fd = 0 \<longrightarrow> regs_fit d fd" "epoll_events d fd \<noteq> 0 \<longrightarrow> ep_regs d fd \<noteq> None" using assms(3) fd by (auto simp: regs_mid_def)
  show "(ep_revents ?d fd = 0 \<longrightarrow> regs_fit ?d fd) \<and> (epoll_events ?d fd \<noteq> 0 \<longrightarrow> ep_regs ?d fd \<noteq> None)"
  proof (cases "fd = ?fd")
    case False
    then have "ep_regs ?d fd = ep_regs d fd" "epoll_events ?d fd = epoll_events d fd"
      using ctl_mod_del_regs(1) [OF assms(1), of ?fd ?c] by (auto simp: epoll_del_pd_def Let_def count_pd_other)
    then show ?thesis using was by (simp add: regs_fit_def)
  next
    case True
    have less: "epoll_events ?c fd \<noteq> 0 \<Longrightarrow> epoll_events d fd \<noteq> 0"
    proof -
      assume "epoll_events ?c fd \<noteq> 0"
      then obtain k where k: "ep_cnts ?c fd k \<noteq> 0" by (auto simp: epoll_events_0)
      have "ep_cnts d fd k \<noteq> 0"
      proof (cases "asks k pd")
        case asked: True
        then have "ep_cnts d fd k > 0" using assms(2) True by (auto simp: counts_fit_def asks_def)
        then show ?thesis by simp
      qed (use k in simp)
      then show "epoll_events d fd \<noteq> 0" by (auto simp: epoll_events_0)
    qed
    show ?thesis
    proof (cases "epoll_events ?c fd \<noteq> epoll_events d fd \<and> ep_revents d fd = 0")
      case change: True
      then have "?d = ctl_mod_del env fd ?c" using True by (simp add: epoll_del_pd_def Let_def)
      moreover have "ep_regs ?c fd \<noteq> None \<or> epoll_events ?c fd = 0" using was(2) less by auto
      ultimately have "regs_fit ?d fd" using ctl_mod_del_fit(1) [OF assms(1)] by simp
      then show ?thesis by (simp add: regs_fit_def)
    next
      case same: False
      then have "?d = ?c" using True by (auto simp: epoll_del_pd_def Let_def)
      then show ?thesis using same was less by (auto simp: regs_fit_def)
    qed
  qed
qed

text \<open>Deleting a descriptor that was refused when it was added.\<close>

lemma del_pd_refused:
  assumes "epoll_ctl_ok env" "counts_fit (add_mset (pf_fd pd, pf_events pd) M) d" "regs_mid {pf_fd pd} d"
    and "ep_regs d (pf_fd pd) = None" "\<And>k. wanted M k (pf_fd pd) = 0"
  shows "regs_mid {} (epoll_del_pd env pd d)"
proof -
  let ?fd = "pf_fd pd" and ?c = "count_pd (- 1) pd d" and ?d = "epoll_del_pd env pd d"
  have "counts_fit M ?c" by (rule count_down [OF assms(2)])
  then have "ep_cnts ?c ?fd k = int (wanted M k ?fd)" for k unfolding counts_fit_def by blast
  then have none: "epoll_events ?c ?fd = 0" unfolding epoll_events_0 using assms(5) by (auto simp del: count_pd_fields)
  have "ep_regs ?d = ep_regs d" using ctl_mod_del_regs(1) [OF assms(1), of ?fd ?c] assms(4) by (simp add: epoll_del_pd_def Let_def)
  then have "(ep_revents ?d fd = 0 \<longrightarrow> regs_fit ?d fd) \<and> (epoll_events ?d fd \<noteq> 0 \<longrightarrow> ep_regs ?d fd \<noteq> None)" for fd
    using assms(3,4) none by (cases "fd = ?fd") (simp_all add: regs_mid_def regs_fit_def del_pd_events count_pd_other)
  then show ?thesis by (simp add: regs_mid_def)
qed

lemma del_fold_fields [simp]:
  "ep_revents (fold (epoll_del_pd env) pds d) = ep_revents d" "fd_data_size (fold (epoll_del_pd env) pds d) = fd_data_size d"
  "evtlist_size (fold (epoll_del_pd env) pds d) = evtlist_size d"
  by (induction pds arbitrary: d) simp_all

lemma del_fold_ok:
  assumes "epoll_ctl_ok env" "counts_fit (M + pairs pds) d" "cnt_fit d"
  shows "counts_fit M (fold (epoll_del_pd env) pds d) \<and> cnt_fit (fold (epoll_del_pd env) pds d) \<and>
    (regs_mid X d \<longrightarrow> (\<forall>pd \<in> set pds. pf_fd pd \<notin> X) \<longrightarrow> regs_mid X (fold (epoll_del_pd env) pds d))"
  using assms(2,3)
proof (induction pds arbitrary: d)
  case (Cons pd pds)
  have c: "counts_fit (add_mset (pf_fd pd, pf_events pd) (M + pairs pds)) d" using Cons.prems(1) by simp
  from Cons.IH [OF del_pd_counts [OF assms(1) c Cons.prems(2)]] del_pd_regs [OF assms(1) c, of X] show ?case by auto
qed simp

definition epoll_holds :: "(int \<times> int) multiset \<Rightarrow> epolldata \<Rightarrow> bool" where
  "epoll_holds M d \<longleftrightarrow> counts_fit M d \<and> (\<forall>fd. ep_revents d fd = 0) \<and> (\<forall>fd. regs_fit d fd) \<and> cnt_fit d \<and> sizes_fit M d"

lemma holds_mid: "epoll_holds M d \<longleftrightarrow> counts_fit M d \<and> (\<forall>fd. ep_revents d fd = 0) \<and> regs_mid {} d \<and> cnt_fit d \<and> sizes_fit M d"
  by (auto simp: epoll_holds_def regs_mid_def regs_fit_def)

lemma sizes_sub: "sizes_fit M d \<Longrightarrow> set_mset N \<subseteq> set_mset M \<Longrightarrow> fd_data_size d' = fd_data_size d \<Longrightarrow> evtlist_size d' = evtlist_size d \<Longrightarrow> sizes_fit N d'"
  by (auto simp: sizes_fit_def)

lemma epoll_del_holds:
  assumes "epoll_ctl_ok env" "epoll_holds (M + pairs pds) d"
  shows "epoll_holds M (st_epoll_pollset_del env pds d)"
proof -
  have d: "counts_fit (M + pairs pds) d" "cnt_fit d" "regs_mid {} d" "sizes_fit (M + pairs pds) d" "\<forall>fd. ep_revents d fd = 0"
    using assms(2) by (simp_all add: holds_mid)
  have "sizes_fit M (fold (epoll_del_pd env) pds d)" by (rule sizes_sub [OF d(4)]) simp_all
  then show ?thesis using del_fold_ok [OF assms(1) d(1,2), of "{}"] d(3,5) by (simp add: holds_mid st_epoll_pollset_del_def)
qed

subsection \<open>Adding keeps the contract\<close>

lemma expand_size_ok: "0 < n \<Longrightarrow> need < expand_size need n \<and> n \<le> expand_size need n"
proof (induction need n rule: expand_size.induct)
  case (1 need n)
  then show ?case by (cases "need \<ge> n") (auto simp: expand_size.simps [of need n])
qed

lemma fd_data_expand_ok:
  assumes "epoll_holds M d" "st_epoll_fd_data_expand env fd d = (ok, d')"
  shows "epoll_holds M d' \<and> (ok \<longrightarrow> fd < fd_data_size d') \<and> fd_data_size d \<le> fd_data_size d'"
proof -
  let ?n = "expand_size fd (fd_data_size d)"
  have n: "fd < ?n" "fd_data_size d \<le> ?n" using assms(1) expand_size_ok by (auto simp: epoll_holds_def sizes_fit_def)
  have zero: "ep_cnts d x k = 0" if "fd_data_size d \<le> x" for x k
  proof -
    have "wanted M k x = 0"
    proof (rule ccontr)
      assume "wanted M k x \<noteq> 0"
      then obtain y where "y \<in># M" "fst y = x" unfolding wanted_def by (metis (mono_tags, lifting) filter_mset_eq_mempty_iff size_empty)
      then show False using assms(1) that by (auto simp: epoll_holds_def sizes_fit_def)
    qed
    then show ?thesis using assms(1) by (simp add: epoll_holds_def counts_fit_def)
  qed
  show ?thesis
  proof (cases ok)
    case True
    then have d': "fd_data_size d' = ?n" "ep_cnts d' = ep_cnts d" "ep_revents d' = ep_revents d" "evtlist_size d' = evtlist_size d"
        "evtlist_cnt d' = evtlist_cnt d" "ep_regs d' = ep_regs d"
      using assms zero by (auto simp: st_epoll_fd_data_expand_def Let_def fun_eq_iff epoll_holds_def split: if_splits)
    have "epoll_events d' x = epoll_events d x" for x by (rule epoll_events_cong) (simp add: d')
    then show ?thesis using assms(1) d' n by (auto simp: epoll_holds_def counts_fit_def regs_fit_def cnt_fit_def sizes_fit_def)
  next
    case False
    then have "d' = d" using assms(2) by (auto simp: st_epoll_fd_data_expand_def Let_def split: if_splits)
    then show ?thesis using assms(1) False by simp
  qed
qed

lemma epoll_check_ok:
  assumes "epoll_holds M d" "epoll_check env pds d = (r, d')"
  shows "epoll_holds M d' \<and> fd_data_size d \<le> fd_data_size d' \<and>
    (r = None \<longrightarrow> (\<forall>pd \<in> set pds. \<not> bad_epoll_pd pd \<and> pf_fd pd < fd_data_size d'))"
  using assms
proof (induction pds arbitrary: d)
  case (Cons pd pds)
  consider "bad_epoll_pd pd" | "\<not> bad_epoll_pd pd" "pf_fd pd \<ge> fd_data_size d" | "\<not> bad_epoll_pd pd" "pf_fd pd < fd_data_size d" by linarith
  then show ?case
  proof cases
    case 2
    obtain ok d1 where e: "st_epoll_fd_data_expand env (pf_fd pd) d = (ok, d1)" by fastforce
    note x = fd_data_expand_ok [OF Cons.prems(1) e]
    show ?thesis
    proof (cases ok)
      case True
      then have "epoll_check env pds d1 = (r, d')" using Cons.prems(2) 2 e by simp
      with Cons.IH [OF _ this] x True 2 show ?thesis by fastforce
    qed (use Cons.prems(2) 2 e x in auto)
  next
    case 3
    then have "epoll_check env pds d = (r, d')" using Cons.prems(2) by simp
    with Cons.IH [OF Cons.prems(1) this] 3 show ?thesis by auto
  qed (use Cons.prems in auto)
qed simp

lemma add_pd_ok:
  assumes "epoll_ctl_ok env" "epoll_holds M d" "\<not> bad_epoll_pd pd" "pf_fd pd < fd_data_size d"
    and "epoll_add_pd env pd d = (r, d')"
  shows "fd_data_size d' = fd_data_size d \<and>
    (case r of None \<Rightarrow> epoll_holds (add_mset (pf_fd pd, pf_events pd) M) d'
     | Some e \<Rightarrow> counts_fit (add_mset (pf_fd pd, pf_events pd) M) d' \<and> cnt_fit d' \<and> regs_mid {pf_fd pd} d' \<and> ep_revents d' = ep_revents d \<and>
         evtlist_size d' = evtlist_size d \<and> ep_regs d' (pf_fd pd) = None \<and> (\<forall>k. wanted M k (pf_fd pd) = 0))"
proof -
  let ?fd = "pf_fd pd" and ?c = "count_pd 1 pd d" and ?x = "(pf_fd pd, pf_events pd)"
  let ?old = "epoll_events d (pf_fd pd)" and ?ev = "epoll_events (count_pd 1 pd d) (pf_fd pd)"
  have h: "counts_fit M d" "\<forall>fd. ep_revents d fd = 0" "\<And>fd. regs_fit d fd" "cnt_fit d" "sizes_fit M d"
    using assms(2) by (simp_all add: epoll_holds_def)
  have legal: "0 \<le> ?fd" "legal_events (pf_events pd)" using assms(3) by (auto simp: bad_epoll_pd_def legal_events_def)
  have up: "counts_fit (add_mset ?x M) ?c" by (rule count_up [OF h(1)])
  have sizes: "sizes_fit (add_mset ?x M) ?c" using h(5) legal assms(4) by (simp add: sizes_fit_def)
  have pos: "?ev \<noteq> 0"
  proof -
    obtain k where "asks k pd" using legal_asks [OF legal(2)] by (auto simp: asks_def)
    moreover have "0 \<le> ep_cnts d ?fd k" using h(1) by (simp add: counts_fit_def)
    ultimately have "ep_cnts ?c ?fd k \<noteq> 0" by simp
    then show ?thesis unfolding epoll_events_0 by blast
  qed
  have other: "regs_fit ?c fd" if "fd \<noteq> ?fd" for fd using h(3) [of fd] that by (simp add: regs_fit_def count_pd_other)
  consider (same) "?ev = ?old" | (modify) "?ev \<noteq> ?old" "?old \<noteq> 0" | (add) "?ev \<noteq> ?old" "?old = 0" by blast
  then show ?thesis
  proof cases
    case same
    then have "r = None" "d' = ?c" using assms(5) by (simp_all add: epoll_add_pd_def Let_def)
    moreover have "regs_fit ?c fd" for fd using other h(3) [of ?fd] same by (cases "fd = ?fd") (simp_all add: regs_fit_def)
    ultimately show ?thesis using up sizes h(2,4) by (simp add: epoll_holds_def)
  next
    case modify
    then have reg: "ep_regs d ?fd \<noteq> None" using h(3) [of ?fd] by (simp add: regs_fit_def)
    with modify assms(5) ctl_documented(3) [OF assms(1), where regs = "ep_regs d" and fd = ?fd and ev = ?ev]
    have r: "r = None" "d' = ?c\<lparr>ep_regs := (ep_regs d)(?fd \<mapsto> ?ev)\<rparr>" by (simp_all add: epoll_add_pd_def Let_def)
    have ev: "epoll_events d' fd = epoll_events ?c fd" for fd by (rule epoll_events_cong) (simp add: r)
    have "regs_fit d' fd" for fd using other [of fd] pos ev by (cases "fd = ?fd") (simp_all add: regs_fit_def r(2))
    moreover have "cnt_fit d'" using h(4) reg by (simp add: cnt_fit_def r(2) insert_absorb domIff)
    ultimately show ?thesis using up sizes h(2) by (simp add: epoll_holds_def r counts_fit_def sizes_fit_def)
  next
    case add
    then have reg: "ep_regs d ?fd = None" using h(3) [of ?fd] by (simp add: regs_fit_def)
    have none: "wanted M k ?fd = 0" for k using add(2) h(1) by (simp add: epoll_events_0 counts_fit_def)
    obtain a regs where a: "ep_ctl env CTL_ADD ?fd ?ev (ep_regs d) = (a, regs)" by fastforce
    show ?thesis
    proof (cases a)
      case None
      then have regs: "regs = (ep_regs d)(?fd \<mapsto> ?ev)" using ctl_documented(1) [OF assms(1)] a by blast
      let ?u = "?c\<lparr>ep_regs := regs, evtlist_cnt := evtlist_cnt d + 1\<rparr>"
      have d': "r = None" "d' = (if evtlist_cnt ?u > evtlist_size ?u then st_epoll_evtlist_expand env ?u else ?u)"
        using assms(5) add a None pos by (simp_all add: epoll_add_pd_def Let_def)
      have fields: "ep_cnts d' = ep_cnts ?c" "ep_revents d' = ep_revents d" "fd_data_size d' = fd_data_size d" "evtlist_cnt d' = evtlist_cnt d + 1"
        "ep_regs d' = regs" "evtlist_size d \<le> evtlist_size d'"
        unfolding d'(2) using expand_size_ok [of "evtlist_size d"] h(5) by (simp_all add: st_epoll_evtlist_expand_def Let_def sizes_fit_def)
      have ev: "epoll_events d' fd = epoll_events ?c fd" for fd by (rule epoll_events_cong) (simp add: fields(1))
      have "regs_fit d' fd" for fd using other [of fd] pos ev by (cases "fd = ?fd") (simp_all add: regs_fit_def fields(5) regs)
      moreover have "cnt_fit d'" using h(4) reg by (simp add: cnt_fit_def fields regs card_insert_if domIff)
      moreover have "0 < evtlist_size d'" using fields(6) h(5) by (simp add: sizes_fit_def)
      ultimately show ?thesis using up sizes h(2) by (auto simp: epoll_holds_def d'(1) counts_fit_def sizes_fit_def fields simp del: count_pd_fields(7))
    next
      case (Some e)
      then have e: "regs = ep_regs d" "e \<noteq> EEXIST" using ctl_documented(2) [OF assms(1)] a reg by blast+
      then have d': "r = Some e" "d' = ?c\<lparr>ep_regs := ep_regs d\<rparr>" using assms(5) add a Some pos by (auto simp: epoll_add_pd_def Let_def)
      then have "d' = ?c" by (cases ?c) (simp add: count_pd_def)
      then show ?thesis using d'(1) up h(2,4) other reg none by (auto simp: regs_mid_def regs_fit_def)
    qed
  qed
qed

lemma del_fold_others:
  assumes "epoll_ctl_ok env" "fd \<notin> pf_fd ` set pds"
  shows "ep_regs (fold (epoll_del_pd env) pds d) fd = ep_regs d fd"
  using assms(2)
proof (induction pds arbitrary: d)
  case (Cons pd pds)
  have "ep_regs (epoll_del_pd env pd d) fd = ep_regs d fd"
    using ctl_mod_del_regs(1) [OF assms(1), of "pf_fd pd" "count_pd (- 1) pd d"] Cons.prems by (auto simp: epoll_del_pd_def Let_def)
  with Cons show ?case by simp
qed simp

lemma unroll_ok:
  assumes "epoll_ctl_ok env" "counts_fit (add_mset (pf_fd pd, pf_events pd) (M + pairs done_pds)) d" "cnt_fit d" "regs_mid {pf_fd pd} d"
    and "ep_regs d (pf_fd pd) = None" "\<And>k. wanted (M + pairs done_pds) k (pf_fd pd) = 0" "\<forall>x \<in># pairs done_pds. legal_events (snd x)"
    and "\<forall>fd. ep_revents d fd = 0" "sizes_fit M d"
  shows "epoll_holds M (st_epoll_pollset_del env (done_pds @ [pd]) d)"
proof -
  let ?x = "(pf_fd pd, pf_events pd)" and ?d = "fold (epoll_del_pd env) done_pds d"
  have others: "pf_fd p \<noteq> pf_fd pd" if "p \<in> set done_pds" for p
  proof
    assume eq: "pf_fd p = pf_fd pd"
    have "legal_events (pf_events p)" using assms(7) that by (auto simp: pairs_def)
    then obtain k where "pf_events p AND poll_bit k \<noteq> 0" using legal_asks by blast
    moreover have "(pf_fd p, pf_events p) \<in># pairs done_pds" using that by (simp add: pairs_def)
    then have "(pf_fd pd, pf_events p) \<in># M + pairs done_pds" using eq by simp
    ultimately have "wanted (M + pairs done_pds) k (pf_fd pd) \<noteq> 0" unfolding wanted_def by auto
    then show False using assms(6) by simp
  qed
  have w: "wanted M k (pf_fd pd) = 0" for k using assms(6) [of k] by (simp add: wanted_def)
  have c: "counts_fit (add_mset ?x M + pairs done_pds) d" using assms(2) by simp
  from del_fold_ok [OF assms(1) c assms(3), of "{pf_fd pd}"] assms(4) others
  have d: "counts_fit (add_mset ?x M) ?d" "cnt_fit ?d" "regs_mid {pf_fd pd} ?d" by auto
  have none: "ep_regs ?d (pf_fd pd) = None" using del_fold_others [OF assms(1), of "pf_fd pd" done_pds d] others assms(5) by force
  have "regs_mid {} (epoll_del_pd env pd ?d)" by (rule del_pd_refused [OF assms(1) d(1,3) none w])
  with del_pd_counts [OF assms(1) d(1,2)] assms(8) sizes_sub [OF assms(9), of M "epoll_del_pd env pd ?d"]
  show ?thesis by (simp add: holds_mid st_epoll_pollset_del_def)
qed

lemma add_loop_ok:
  assumes "epoll_ctl_ok env" "epoll_holds (M + pairs done_pds) d" "\<forall>pd \<in> set pds. \<not> bad_epoll_pd pd \<and> pf_fd pd < fd_data_size d"
    and "epoll_add_loop env done_pds pds d = (r, d')"
  shows "if r = None then epoll_holds (M + pairs done_pds + pairs pds) d' else epoll_holds M d'"
  using assms(2-4)
proof (induction pds arbitrary: d done_pds)
  case (Cons pd pds)
  obtain a d1 where a: "epoll_add_pd env pd d = (a, d1)" by fastforce
  have good: "\<not> bad_epoll_pd pd" "pf_fd pd < fd_data_size d" using Cons.prems(2) by simp_all
  note p = add_pd_ok [OF assms(1) Cons.prems(1) good a]
  show ?case
  proof (cases a)
    case None
    then have "epoll_holds (M + pairs (done_pds @ [pd])) d1" using p by simp
    moreover have "epoll_add_loop env (done_pds @ [pd]) pds d1 = (r, d')" using Cons.prems(3) a None by simp
    ultimately show ?thesis using Cons.IH [of "done_pds @ [pd]" d1] Cons.prems(2) p by (cases r) (simp_all add: ac_simps)
  next
    case (Some e)
    then have r: "r = Some e" "d' = st_epoll_pollset_del env (done_pds @ [pd]) d1" using Cons.prems(3) a by simp_all
    have h: "sizes_fit (M + pairs done_pds) d" "\<forall>fd. ep_revents d fd = 0" using Cons.prems(1) by (simp_all add: epoll_holds_def)
    have "sizes_fit M d1" by (rule sizes_sub [OF h(1)]) (use p Some in simp_all)
    moreover have "\<forall>x \<in># pairs done_pds. legal_events (snd x)" using h(1) by (simp add: sizes_fit_def)
    ultimately have "epoll_holds M d'" unfolding r(2) using p Some h(2) by (intro unroll_ok [OF assms(1)]) simp_all
    then show ?thesis using r(1) by simp
  qed
qed (simp split: if_splits)

lemma epoll_add_holds:
  assumes "epoll_ctl_ok env" "epoll_holds M d" "st_epoll_pollset_add env pds d = (r, d')"
  shows "if r = None then epoll_holds (M + pairs pds) d' else epoll_holds M d'"
proof -
  obtain a d1 where a: "epoll_check env pds d = (a, d1)" by fastforce
  note c = epoll_check_ok [OF assms(2) a]
  show ?thesis
  proof (cases a)
    case None
    then have "epoll_add_loop env [] pds d1 = (r, d')" using assms(3) a by (simp add: st_epoll_pollset_add_def)
    from add_loop_ok [OF assms(1) _ _ this, of M] c None show ?thesis by (cases r) simp_all
  qed (use assms(3) a c in \<open>auto simp: st_epoll_pollset_add_def\<close>)
qed

subsection \<open>Dispatching keeps the contract\<close>

lemma mark_fields [simp]:
  "ep_cnts (mark_fired e d) = ep_cnts d" "ep_regs (mark_fired e d) = ep_regs d" "fd_data_size (mark_fired e d) = fd_data_size d"
  "evtlist_size (mark_fired e d) = evtlist_size d" "evtlist_cnt (mark_fired e d) = evtlist_cnt d"
  "fd \<noteq> fst e \<Longrightarrow> ep_revents (mark_fired e d) fd = ep_revents d fd"
  by (simp_all add: mark_fired_def Let_def)

lemma mark_fold [simp]:
  "ep_cnts (fold mark_fired evs d) = ep_cnts d" "ep_regs (fold mark_fired evs d) = ep_regs d" "fd_data_size (fold mark_fired evs d) = fd_data_size d"
  "evtlist_size (fold mark_fired evs d) = evtlist_size d" "evtlist_cnt (fold mark_fired evs d) = evtlist_cnt d"
  by (induction evs arbitrary: d) simp_all

lemma mark_others: "fd \<notin> fst ` set evs \<Longrightarrow> ep_revents (fold mark_fired evs d) fd = ep_revents d fd"
  by (induction evs arbitrary: d) auto

lemma mark_events [simp]: "epoll_events (fold mark_fired evs d) fd = epoll_events d fd"
  by (rule epoll_events_cong) simp

lemma epoll_fill_keeps [simp]: "keeps_pollfd (epoll_fill fired)"
  by (simp add: keeps_pollfd_def epoll_fill_def Let_def)

lemma epoll_notify_ok:
  assumes "epoll_ctl_ok env" "counts_fit (M + interests q) d" "cnt_fit d" "regs_mid {} d"
  shows "\<exists>d'. epoll_notify env q d = (stays (Some (epoll_fill (ep_revents d))) q, leaves (Some (epoll_fill (ep_revents d))) q, d') \<and>
    counts_fit (M + interests (stays (Some (epoll_fill (ep_revents d))) q)) d' \<and> cnt_fit d' \<and> regs_mid {} d' \<and>
    ep_revents d' = ep_revents d \<and> fd_data_size d' = fd_data_size d \<and> evtlist_size d' = evtlist_size d"
  using assms(2-4)
proof (induction q arbitrary: M d)
  case (Cons e q)
  obtain t pds where e: "e = (t, pds)" by (cases e)
  let ?f = "epoll_fill (ep_revents d)"
  let ?fds = "map ?f pds"
  show ?case
  proof (cases "ready_pds ?fds")
    case True
    let ?d = "st_epoll_pollset_del env ?fds d"
    have "counts_fit ((M + interests q) + pairs ?fds) d" using Cons.prems(1) by (simp add: e ac_simps)
    from del_fold_ok [OF assms(1) this Cons.prems(2), of "{}"] Cons.prems(3)
    have d: "counts_fit (M + interests q) ?d" "cnt_fit ?d" "regs_mid {} ?d" "ep_revents ?d = ep_revents d"
      "fd_data_size ?d = fd_data_size d" "evtlist_size ?d = evtlist_size d" by (simp_all add: st_epoll_pollset_del_def)
    from Cons.IH [OF d(1-3)] d(4-6) obtain d' where
      d': "epoll_notify env q ?d = (stays (Some ?f) q, leaves (Some ?f) q, d')" "counts_fit (M + interests (stays (Some ?f) q)) d'"
        "cnt_fit d'" "regs_mid {} d'" "ep_revents d' = ep_revents d" "fd_data_size d' = fd_data_size d" "evtlist_size d' = evtlist_size d" by auto
    have parts: "stays (Some ?f) (e # q) = stays (Some ?f) q" "leaves (Some ?f) (e # q) = (t, ?fds) # leaves (Some ?f) q"
      using True by (simp_all add: e filled_def)
    have "epoll_notify env (e # q) d = (stays (Some ?f) q, (t, ?fds) # leaves (Some ?f) q, d')" using True d'(1) by (simp add: e Let_def)
    then show ?thesis unfolding parts using d'(2-7) by blast
  next
    case False
    have "counts_fit ((M + pairs pds) + interests q) d" using Cons.prems(1) by (simp add: e ac_simps)
    from Cons.IH [OF this Cons.prems(2,3)] obtain d' where
      d': "epoll_notify env q d = (stays (Some ?f) q, leaves (Some ?f) q, d')" "counts_fit ((M + pairs pds) + interests (stays (Some ?f) q)) d'"
        "cnt_fit d'" "regs_mid {} d'" "ep_revents d' = ep_revents d" "fd_data_size d' = fd_data_size d" "evtlist_size d' = evtlist_size d" by blast
    have parts: "stays (Some ?f) (e # q) = (t, ?fds) # stays (Some ?f) q" "leaves (Some ?f) (e # q) = leaves (Some ?f) q"
      using False by (simp_all add: e filled_def)
    have "epoll_notify env (e # q) d = ((t, ?fds) # stays (Some ?f) q, leaves (Some ?f) q, d')" using False d'(1) by (simp add: e Let_def)
    moreover have "counts_fit (M + interests ((t, ?fds) # stays (Some ?f) q)) d'" using d'(2) by (simp add: ac_simps)
    ultimately show ?thesis unfolding parts using d'(3-7) by blast
  qed
qed (simp add: filled_def)

lemma clear_fired_ok:
  assumes "epoll_ctl_ok env" "counts_fit M d" "cnt_fit d" "regs_mid {} d"
  shows "counts_fit M (clear_fired env e d)" "cnt_fit (clear_fired env e d)" "regs_mid {} (clear_fired env e d)"
    "ep_revents (clear_fired env e d) = (ep_revents d)(fst e := 0)" "fd_data_size (clear_fired env e d) = fd_data_size d"
    "evtlist_size (clear_fired env e d) = evtlist_size d"
proof -
  let ?u = "d\<lparr>ep_revents := (ep_revents d)(fst e := 0)\<rparr>" and ?d = "clear_fired env e d"
  have ev: "epoll_events ?u fd = epoll_events d fd" for fd by (rule epoll_events_cong) simp
  show "counts_fit M ?d" using assms(2) by (simp add: clear_fired_def) (simp add: counts_fit_def)
  have "cnt_fit ?u" using assms(3) by (simp add: cnt_fit_def)
  then show "cnt_fit ?d" using ctl_mod_del_regs(2) [OF assms(1)] by (simp add: clear_fired_def)
  have was: "ep_regs ?u (fst e) \<noteq> None \<or> epoll_events ?u (fst e) = 0" using assms(4) unfolding ev by (auto simp: regs_mid_def)
  note fit = ctl_mod_del_fit [OF assms(1) was]
  show "regs_mid {} ?d" unfolding regs_mid_def
  proof (intro allI impI)
    fix fd
    show "(ep_revents ?d fd = 0 \<longrightarrow> regs_fit ?d fd) \<and> (epoll_events ?d fd \<noteq> 0 \<longrightarrow> ep_regs ?d fd \<noteq> None)"
    proof (cases "fd = fst e")
      case True
      have "regs_fit ?d fd" using fit(1) True by (simp add: clear_fired_def)
      then show ?thesis by (simp add: regs_fit_def)
    next
      case False
      have "ep_regs ?d fd = ep_regs d fd" using ctl_mod_del_regs(1) [OF assms(1), of "fst e" ?u] False by (simp add: clear_fired_def)
      then show ?thesis using False assms(4) ev by (simp add: regs_mid_def regs_fit_def clear_fired_def)
    qed
  qed
  show "ep_revents ?d = (ep_revents d)(fst e := 0)" "fd_data_size ?d = fd_data_size d" "evtlist_size ?d = evtlist_size d"
    by (simp_all add: clear_fired_def)
qed

lemma clear_fold_ok:
  assumes "epoll_ctl_ok env" "counts_fit M d" "cnt_fit d" "regs_mid {} d"
  shows "counts_fit M (fold (clear_fired env) evs d) \<and> cnt_fit (fold (clear_fired env) evs d) \<and> regs_mid {} (fold (clear_fired env) evs d) \<and>
    (\<forall>fd. ep_revents (fold (clear_fired env) evs d) fd = (if fd \<in> fst ` set evs then 0 else ep_revents d fd)) \<and>
    fd_data_size (fold (clear_fired env) evs d) = fd_data_size d \<and> evtlist_size (fold (clear_fired env) evs d) = evtlist_size d"
  using assms(2-4)
proof (induction evs arbitrary: d)
  case (Cons e evs)
  from Cons.IH [OF clear_fired_ok(1-3) [OF assms(1) Cons.prems]] clear_fired_ok(4-6) [OF assms(1) Cons.prems] show ?case by auto
qed simp

definition epoll_fills :: "(int \<times> int) list \<Rightarrow> epolldata \<Rightarrow> (pollfd \<Rightarrow> pollfd) option" where
  "epoll_fills evs d = (if evs = [] then None else Some (epoll_fill (ep_revents (fold mark_fired evs d))))"

lemma epoll_dispatch_holds:
  assumes "epoll_ctl_ok env" "epoll_holds (interests q) d"
  shows "\<exists>d'. st_epoll_dispatch env evs q d = (stays (epoll_fills evs d) q, leaves (epoll_fills evs d) q, d') \<and>
    epoll_holds (interests (stays (epoll_fills evs d) q)) d'"
proof (cases "evs = []")
  case True
  then show ?thesis using assms(2) by (simp add: st_epoll_dispatch_def epoll_fills_def)
next
  case False
  let ?m = "fold mark_fired evs d"
  have h: "counts_fit (interests q) d" "\<forall>fd. ep_revents d fd = 0" "\<And>fd. regs_fit d fd" "cnt_fit d" "sizes_fit (interests q) d"
    using assms(2) by (simp_all add: epoll_holds_def)
  have "counts_fit ({#} + interests q) ?m" "cnt_fit ?m" "regs_mid {} ?m"
    using h by (simp_all add: counts_fit_def cnt_fit_def regs_mid_def regs_fit_def)
  from epoll_notify_ok [OF assms(1) this] obtain d1 where
    d1: "epoll_notify env q ?m = (stays (epoll_fills evs d) q, leaves (epoll_fills evs d) q, d1)"
      "counts_fit (interests (stays (epoll_fills evs d) q)) d1" "cnt_fit d1" "regs_mid {} d1" "ep_revents d1 = ep_revents ?m"
      "fd_data_size d1 = fd_data_size d" "evtlist_size d1 = evtlist_size d"
    using False by (auto simp: epoll_fills_def)
  note c = clear_fold_ok [OF assms(1) d1(2-4), of evs]
  let ?d = "fold (clear_fired env) evs d1"
  have "ep_revents ?d fd = 0" for fd using c d1(5) mark_others [of fd evs d] h(2) by simp
  moreover have "set_mset (interests (stays (epoll_fills evs d) q)) \<subseteq> set_mset (interests q)"
    using interests_parts [of "epoll_fills evs d" q] by (auto simp: epoll_fills_def split: if_splits)
  then have "sizes_fit (interests (stays (epoll_fills evs d) q)) ?d" by (rule sizes_sub [OF h(5)]) (use c d1(6,7) in simp_all)
  ultimately have "epoll_holds (interests (stays (epoll_fills evs d) q)) ?d" using c by (simp add: holds_mid)
  then show ?thesis using False d1(1) by (simp add: st_epoll_dispatch_def)
qed

lemma epoll_event_system:
  assumes "epoll_ctl_ok env"
  shows "event_system (st_epoll_eventsys env) epoll_holds (\<lambda>evs q. epoll_fills evs)"
proof
  fix M d pds d'
  assume "epoll_holds M d" "es_pollset_add (st_epoll_eventsys env) pds d = (None, d')"
  then show "epoll_holds (M + pairs pds) d'" using epoll_add_holds [OF assms, of M d pds None d'] by (simp add: st_epoll_eventsys_def)
next
  fix M d pds e d'
  assume "epoll_holds M d" "es_pollset_add (st_epoll_eventsys env) pds d = (Some e, d')"
  then show "epoll_holds M d'" using epoll_add_holds [OF assms, of M d pds "Some e" d'] by (simp add: st_epoll_eventsys_def)
next
  fix M pds d
  assume "epoll_holds (M + pairs pds) d"
  then show "epoll_holds M (es_pollset_del (st_epoll_eventsys env) pds d)" using epoll_del_holds [OF assms] by (simp add: st_epoll_eventsys_def)
next
  fix q d evs
  assume "epoll_holds (interests q) d"
  then show "\<exists>d'. es_dispatch (st_epoll_eventsys env) evs q d = (stays (epoll_fills evs d) q, leaves (epoll_fills evs d) q, d') \<and>
      epoll_holds (interests (stays (epoll_fills evs d) q)) d'" using epoll_dispatch_holds [OF assms] by (simp add: st_epoll_eventsys_def)
qed

subsection \<open>The interest list fits the io queue\<close>

lemma epoll_bit: "epoll_events d fd AND poll_bit k \<noteq> 0 \<longleftrightarrow> ep_cnts d fd k \<noteq> 0"
  by (cases k) (auto simp: epoll_events_def cnt_bit_def)

lemma epoll_exact:
  assumes "epoll_holds (interests q) d"
  shows "fd \<in> dom (ep_regs d) \<longleftrightarrow> (\<exists>e \<in> set q. \<exists>pd \<in> set (snd e). pf_fd pd = fd)"
    "ep_regs d fd = Some m \<Longrightarrow> m AND poll_bit k \<noteq> 0 \<longleftrightarrow> (\<exists>e \<in> set q. \<exists>pd \<in> set (snd e). pf_fd pd = fd \<and> asks k pd)"
    "fd \<in> dom (ep_regs d) \<Longrightarrow> 0 \<le> fd \<and> fd < fd_data_size d"
    "st_epoll_fd_close fd d = Some EBUSY \<longleftrightarrow> fd \<in> dom (ep_regs d)"
proof -
  have h: "\<And>fd k. ep_cnts d fd k = int (wanted (interests q) k fd)" "\<And>fd. regs_fit d fd" "sizes_fit (interests q) d"
    using assms by (simp_all add: epoll_holds_def counts_fit_def)
  have reg: "fd \<in> dom (ep_regs d) \<longleftrightarrow> (\<exists>k. 0 < wanted (interests q) k fd)" for fd
    using h(2) [of fd] epoll_events_0 [of d fd] h(1) by (auto simp: regs_fit_def)
  have good: "0 \<le> pf_fd pd \<and> pf_fd pd < fd_data_size d" "\<exists>k. asks k pd" if "e \<in> set q" "pd \<in> set (snd e)" for e pd
  proof -
    have "(pf_fd pd, pf_events pd) \<in># interests q" using that by (force simp: interests_def)
    then have "0 \<le> pf_fd pd \<and> pf_fd pd < fd_data_size d \<and> legal_events (pf_events pd)" using h(3) by (auto simp: sizes_fit_def)
    then show "0 \<le> pf_fd pd \<and> pf_fd pd < fd_data_size d" "\<exists>k. asks k pd" using legal_asks by (auto simp: asks_def)
  qed
  show dom: "fd \<in> dom (ep_regs d) \<longleftrightarrow> (\<exists>e \<in> set q. \<exists>pd \<in> set (snd e). pf_fd pd = fd)" for fd
    unfolding reg wanted_iff using good(2) by blast
  show "0 \<le> fd \<and> fd < fd_data_size d" if "fd \<in> dom (ep_regs d)"
    using that good(1) unfolding dom by blast
  show "m AND poll_bit k \<noteq> 0 \<longleftrightarrow> (\<exists>e \<in> set q. \<exists>pd \<in> set (snd e). pf_fd pd = fd \<and> asks k pd)" if "ep_regs d fd = Some m"
  proof -
    have "m = epoll_events d fd" using h(2) [of fd] that by (simp add: regs_fit_def split: if_splits)
    then have "m AND poll_bit k \<noteq> 0 \<longleftrightarrow> 0 < wanted (interests q) k fd" using epoll_bit h(1) by simp
    then show ?thesis unfolding wanted_iff .
  qed
  have all: "(\<exists>k. P k) \<longleftrightarrow> P KREAD \<or> P KWRITE \<or> P KEXCEP" for P by (metis poll_kind.exhaust)
  show "st_epoll_fd_close fd d = Some EBUSY \<longleftrightarrow> fd \<in> dom (ep_regs d)"
    unfolding reg st_epoll_fd_close_def h(1) all by simp
qed

lemma epoll_init_holds: "st_epoll_init fdlim a b c e = Some d0 \<Longrightarrow> epoll_holds {#} d0"
  by (auto simp: st_epoll_init_def Let_def epoll_holds_def counts_fit_def regs_fit_def cnt_fit_def sizes_fit_def epoll_events_0
      ST_EPOLL_EVTLIST_SIZE_def split: if_splits)

text \<open>
  C10: In every state that the scheduler reaches with the epoll event system, whatever threads poll, wait, time out, are refused or
  interrupted, and whatever \<open>epoll_wait\<close> reports: the interest list of the kernel holds exactly the descriptors that some thread
  in the io queue polls, each with exactly the events that are asked for; the count of the event list is its size;
  all counters are inside the array; and closing a descriptor is refused exactly while some thread polls it.
\<close>

theorem epoll_list_exact:
  assumes "epoll_ctl_ok env" "st_epoll_init fdlim True True True True = Some d0" "io_reachable (st_epoll_eventsys env) d0 (v, d)"
  shows "(\<forall>fd. fd \<in> dom (ep_regs d) \<longleftrightarrow> (\<exists>t \<in> set (io_q v). \<exists>pd \<in> set (poll_fds v t). pf_fd pd = fd)) \<and>
    (\<forall>fd m k. ep_regs d fd = Some m \<longrightarrow>
      (m AND poll_bit k \<noteq> 0 \<longleftrightarrow> (\<exists>t \<in> set (io_q v). \<exists>pd \<in> set (poll_fds v t). pf_fd pd = fd \<and> asks k pd))) \<and>
    evtlist_cnt d = int (card (dom (ep_regs d))) \<and> (\<forall>fd \<in> dom (ep_regs d). 0 \<le> fd \<and> fd < fd_data_size d) \<and>
    (\<forall>fd. st_epoll_fd_close fd d = Some EBUSY \<longleftrightarrow> fd \<in> dom (ep_regs d))"
proof -
  from event_system.reachable_fits [OF epoll_event_system [OF assms(1)] assms(3) epoll_init_holds [OF assms(2)]]
  have h: "epoll_holds (interests (vp_pollq v)) d" by (simp add: fits_def)
  have q: "(\<exists>e \<in> set (vp_pollq v). \<exists>pd \<in> set (snd e). P pd) \<longleftrightarrow> (\<exists>t \<in> set (io_q v). \<exists>pd \<in> set (poll_fds v t). P pd)" for P
    by (auto simp: vp_pollq_def)
  have "evtlist_cnt d = int (card (dom (ep_regs d)))" using h by (simp add: epoll_holds_def cnt_fit_def)
  with epoll_exact [OF h, unfolded q] show ?thesis by blast
qed

text \<open>A kernel without limits, and a thread that polls descriptor 5.\<close>

definition plain_kernel :: epoll_env where
  "plain_kernel = \<lparr>ep_ctl = (\<lambda>op fd ev regs. case op of
       CTL_ADD \<Rightarrow> if regs fd = None then (None, regs(fd \<mapsto> ev)) else (Some EEXIST, regs)
     | CTL_MOD \<Rightarrow> if regs fd = None then (Some ENOENT, regs) else (None, regs(fd \<mapsto> ev))
     | CTL_DEL \<Rightarrow> if regs fd = None then (Some ENOENT, regs) else (None, regs(fd := None))),
     ep_realloc = (\<lambda>_. True)\<rparr>"

lemma plain_kernel_ok: "epoll_ctl_ok plain_kernel"
  by (simp add: epoll_ctl_ok_def epoll_ctl_doc_def plain_kernel_def split: option.split)

lemma epoll_example:
  assumes "st_epoll_init 0 True True True True = Some d0"
  shows "\<exists>v d. io_run (st_epoll_eventsys plain_kernel) [Poll polling ST_UTIME_NO_TIMEOUT] (started, d0) = Some (v, d) \<and>
    this_thread v = idle_thread v \<and> vp_pollq v = [(2, polling)] \<and> io_q v = [2] \<and> poll_fds v 2 = polling"
proof -
  have "fst (st_epoll_pollset_add plain_kernel polling d0) = None"
    using assms by (auto simp: st_epoll_pollset_add_def polling_def bad_epoll_pd_def st_epoll_init_def ST_EPOLL_EVTLIST_SIZE_def epoll_add_pd_def
      Let_def epoll_events_def cnt_bit_def count_pd_def asks_def plain_kernel_def)
  then obtain d where "st_epoll_pollset_add plain_kernel polling d0 = (None, d)" by (metis prod.collapse)
  then show ?thesis
    by (simp add: st_epoll_eventsys_def finish_def added_def st_eval st_poll_def vp_pollq_def)
qed

lemma epoll_list_exact_witness:
  "\<exists>d0 v d. st_epoll_init 0 True True True True = Some d0 \<and> io_reachable (st_epoll_eventsys plain_kernel) d0 (v, d) \<and> io_q v = [2] \<and>
    dom (ep_regs d) = {5} \<and> evtlist_cnt d = 1 \<and> st_epoll_fd_close 5 d = Some EBUSY"
proof -
  obtain d0 where d0: "st_epoll_init 0 True True True True = Some d0" by (simp add: st_epoll_init_def)
  from epoll_example [OF d0] obtain v d where
    v: "io_run (st_epoll_eventsys plain_kernel) [Poll polling ST_UTIME_NO_TIMEOUT] (started, d0) = Some (v, d)" "io_q v = [2]" "poll_fds v 2 = polling" by blast
  have r: "io_reachable (st_epoll_eventsys plain_kernel) d0 (v, d)" by (rule io_run_reachable [OF io_started v(1)])
  note list = epoll_list_exact [OF plain_kernel_ok d0 r, unfolded v(2)]
  have "fd \<in> dom (ep_regs d) \<longleftrightarrow> (\<exists>t \<in> set [2]. \<exists>pd \<in> set (poll_fds v t). pf_fd pd = fd)" for fd using list by blast
  then have dom: "dom (ep_regs d) = {5}" by (auto simp: v(3) polling_def)
  with list have "evtlist_cnt d = 1" "st_epoll_fd_close 5 d = Some EBUSY" by auto
  with d0 r v(2) dom show ?thesis by blast
qed

subsection \<open>Dispatching wakes\<close>

lemma or_nonzero: "x OR y \<noteq> 0 \<longleftrightarrow> x \<noteq> 0 \<or> y \<noteq> (0 :: int)"
  by (simp add: or_eq_0_iff)

lemma and_or_distrib: "a AND (b OR c) = (a AND b) OR (a AND c :: int)"
  by (rule bit.conj_disj_distrib)

lemma fill_ready_err:
  assumes "fired (pf_fd pd) AND (EPOLLERR OR EPOLLHUP) \<noteq> 0"
  shows "pf_revents (epoll_fill fired pd) \<noteq> 0"
proof -
  have "fired (pf_fd pd) AND EPOLLERR \<noteq> 0 \<or> fired (pf_fd pd) AND EPOLLHUP \<noteq> 0" using assms by (simp add: and_or_distrib or_nonzero)
  moreover have "fired (pf_fd pd) \<noteq> 0" using assms by auto
  moreover have "EPOLLERR \<noteq> 0" "EPOLLHUP \<noteq> 0" by (simp_all add: EPOLLERR_def EPOLLHUP_def)
  ultimately show ?thesis by (auto simp: epoll_fill_def Let_def or_eq_0_iff)
qed

lemma fill_ready_ask:
  assumes "asks k pd" "fired (pf_fd pd) AND poll_bit k \<noteq> 0"
  shows "pf_revents (epoll_fill fired pd) \<noteq> 0"
proof -
  have "fired (pf_fd pd) \<noteq> 0" using assms(2) by auto
  with assms show ?thesis by (cases k) (auto simp: epoll_fill_def Let_def or_eq_0_iff)
qed

lemma mark_last:
  assumes "distinct (map fst evs)" "(fd, ev) \<in> set evs"
  shows "ep_revents (fold mark_fired evs d) fd = (if ev AND (EPOLLERR OR EPOLLHUP) \<noteq> 0 then ev OR epoll_events d fd else ev)"
  using assms
proof (induction evs arbitrary: d)
  case (Cons e evs)
  show ?case
  proof (cases "e = (fd, ev)")
    case True
    then have "fd \<notin> fst ` set evs" using Cons.prems(1) by auto
    moreover have "epoll_events (d\<lparr>ep_revents := R\<rparr>) fd = epoll_events d fd" for R by (rule epoll_events_cong) simp
    ultimately have "ep_revents (mark_fired e d) fd = (if ev AND (EPOLLERR OR EPOLLHUP) \<noteq> 0 then ev OR epoll_events d fd else ev)"
      using True by (simp add: mark_fired_def Let_def)
    then show ?thesis using \<open>fd \<notin> fst ` set evs\<close> True by (simp add: mark_others)
  next
    case False
    moreover have "epoll_events (mark_fired e d) fd = epoll_events d fd" by (rule epoll_events_cong) simp
    ultimately show ?thesis using Cons.IH [of "mark_fired e d"] Cons.prems by auto
  qed
qed simp

text \<open>A report of a registered descriptor with an event that it is registered for, or an error or hangup.\<close>

definition reports :: "(int \<times> int) list \<Rightarrow> epolldata \<Rightarrow> int \<Rightarrow> bool" where
  "reports evs d fd \<longleftrightarrow> (\<exists>ev m. (fd, ev) \<in> set evs \<and> ep_regs d fd = Some m \<and> ev AND (m OR EPOLLERR OR EPOLLHUP) \<noteq> 0)"

lemma report_wakes:
  assumes "epoll_holds (interests q) d" "distinct (map fst evs)" "reports evs d fd"
  shows "leaves (epoll_fills evs d) q \<noteq> []"
proof -
  obtain ev m where ev: "(fd, ev) \<in> set evs" "ep_regs d fd = Some m" "ev AND (m OR EPOLLERR OR EPOLLHUP) \<noteq> 0"
    using assms(3) by (auto simp: reports_def)
  let ?r = "ep_revents (fold mark_fired evs d)"
  have m: "m = epoll_events d fd" using assms(1) ev(2) by (auto simp: epoll_holds_def regs_fit_def split: if_splits)
  note last = mark_last [OF assms(2) ev(1), of d]
  have "\<exists>e \<in> set q. \<exists>pd \<in> set (snd e). pf_revents (epoll_fill ?r pd) \<noteq> 0"
  proof (cases "ev AND (EPOLLERR OR EPOLLHUP) \<noteq> 0")
    case True
    obtain e pd where e: "e \<in> set q" "pd \<in> set (snd e)" "pf_fd pd = fd" using epoll_exact(1) [OF assms(1), of fd] ev(2) by blast
    have "?r fd AND (EPOLLERR OR EPOLLHUP) \<noteq> 0"
      using True last by (simp add: bit.conj_disj_distrib2 or_nonzero)
    then show ?thesis using fill_ready_err [of ?r pd] e by blast
  next
    case False
    then have "ev AND m \<noteq> 0" using ev(3) by (simp add: and_or_distrib or_nonzero or.assoc)
    then obtain k where k: "ev AND cnt_bit d fd k \<noteq> 0" unfolding m epoll_events_def by (auto simp: and_or_distrib or_nonzero)
    then have "m AND poll_bit k \<noteq> 0" "ev AND poll_bit k \<noteq> 0" unfolding m epoll_bit by (auto simp: cnt_bit_def split: if_splits)
    then obtain e pd where e: "e \<in> set q" "pd \<in> set (snd e)" "pf_fd pd = fd" "asks k pd" using epoll_exact(2) [OF assms(1) ev(2), of k] by blast
    have "?r fd AND poll_bit k \<noteq> 0" using last False \<open>ev AND poll_bit k \<noteq> 0\<close> by simp
    then show ?thesis using fill_ready_ask [of k pd ?r] e by blast
  qed
  then have "\<exists>e \<in> set (filled (epoll_fill ?r) q). ready_pds (snd e)" by (force simp: filled_def ready_pds_def list_ex_iff)
  moreover have "epoll_fills evs d = Some (epoll_fill ?r)" using ev(1) by (auto simp: epoll_fills_def)
  ultimately show ?thesis by (auto simp: filter_empty_conv)
qed

text \<open>
  What a report means for the descriptors that are polled, in terms of the report alone: \<open>told\<close> are the events reported for a
  descriptor; an entry fires for a reported event that it asks for, and for an error or hangup, which then comes with everything it asks for.
\<close>

definition told :: "(int \<times> int) list \<Rightarrow> int \<Rightarrow> int" where
  "told evs fd = (case map_of evs fd of None \<Rightarrow> 0 | Some ev \<Rightarrow> ev)"

definition epoll_fires :: "(int \<times> int) list \<Rightarrow> pollfd \<Rightarrow> bool" where
  "epoll_fires evs pd \<longleftrightarrow> told evs (pf_fd pd) AND (EPOLLERR OR EPOLLHUP) \<noteq> 0 \<or> (\<exists>k. asks k pd \<and> told evs (pf_fd pd) AND poll_bit k \<noteq> 0)"

definition epoll_answer :: "(int \<times> int) list \<Rightarrow> pollfd \<Rightarrow> pollfd" where
  "epoll_answer evs pd = (let t = told evs (pf_fd pd) in
     pd\<lparr>pf_revents := if t AND (EPOLLERR OR EPOLLHUP) \<noteq> 0 then pf_events pd OR (t AND (EPOLLERR OR EPOLLHUP)) else pf_events pd AND t\<rparr>)"

lemma all_kinds: "(\<exists>k. P k) \<longleftrightarrow> P KREAD \<or> P KWRITE \<or> P KEXCEP"
  by (metis poll_kind.exhaust)

lemma and_one_bit: "x AND 1 \<noteq> 0 \<longleftrightarrow> bit x 0" "x AND 2 \<noteq> 0 \<longleftrightarrow> bit x 1" "x AND 4 \<noteq> 0 \<longleftrightarrow> bit x 2" for x :: int
  using and_exp_eq_0_iff_not_bit [of x 0] and_exp_eq_0_iff_not_bit [of x 1] and_exp_eq_0_iff_not_bit [of x 2] by simp_all

lemma bits_of_masks: "bit (1 :: int) n \<longleftrightarrow> n = 0" "bit (2 :: int) n \<longleftrightarrow> n = 1" "bit (4 :: int) n \<longleftrightarrow> n = 2" "bit (7 :: int) n \<longleftrightarrow> n < 3"
proof -
  show "bit (1 :: int) n \<longleftrightarrow> n = 0" using bit_exp_iff [of 0 n, where 'a = int] by auto
  show "bit (2 :: int) n \<longleftrightarrow> n = 1" using bit_exp_iff [of 1 n, where 'a = int] by auto
  show "bit (4 :: int) n \<longleftrightarrow> n = 2" using bit_exp_iff [of 2 n, where 'a = int] by auto
  show "bit (7 :: int) n \<longleftrightarrow> n < 3" using bit_mask_iff [of 3 n, where 'a = int] by (simp add: mask_eq_exp_minus_1)
qed

lemma legal_mask: "legal_events e \<Longrightarrow> e AND 7 = e"
proof -
  assume e: "legal_events e"
  have "e = (e AND 7) OR (e AND NOT 7)" by (simp add: bit_eq_iff bit_simps) blast
  then show "e AND 7 = e" using e by (simp add: legal_events_def)
qed

lemma epoll_fill_mask:
  assumes "pf_events pd AND 7 = pf_events pd"
  shows "epoll_fill F pd = pd\<lparr>pf_revents := F (pf_fd pd) AND (pf_events pd OR EPOLLERR OR EPOLLHUP)\<rparr>"
proof -
  let ?e = "pf_events pd" and ?r = "F (pf_fd pd)"
  have "(if ?e AND 2 ^ n \<noteq> 0 \<and> ?r AND 2 ^ n \<noteq> 0 then 2 ^ n else 0) = ?e AND ?r AND 2 ^ n" for n
    unfolding and_exp_eq_0_iff_not_bit by (rule bit_eqI) (auto simp: bit_and_iff bit_exp_iff)
  from this [of 0] this [of 1] this [of 2]
  have pick: "(if ?e AND b \<noteq> 0 \<and> ?r AND b \<noteq> 0 then b else 0) = ?e AND ?r AND b" if "b \<in> {1, 2, 4}" for b using that by auto
  have "?e AND ?r = (?e AND ?r AND 1) OR (?e AND ?r AND 4) OR (?e AND ?r AND 2)"
  proof (rule bit_eqI)
    fix n
    have "bit ?e n \<Longrightarrow> n < 3" using assms bit_and_iff [of ?e 7 n] by (simp add: bits_of_masks)
    then have "bit ?e n \<Longrightarrow> n = 0 \<or> n = 1 \<or> n = 2" by linarith
    then show "bit (?e AND ?r) n = bit ((?e AND ?r AND 1) OR (?e AND ?r AND 4) OR (?e AND ?r AND 2)) n"
      by (auto simp: bit_and_iff bit_or_iff bits_of_masks)
  qed
  then have fold: "fold (\<lambda>k revents. if asks k pd \<and> ?r AND poll_bit k \<noteq> 0 then revents OR poll_bit k else revents) [KREAD, KWRITE, KEXCEP] 0 = ?e AND ?r"
    unfolding pick [of 1, simplified, symmetric] pick [of 4, simplified, symmetric] pick [of 2, simplified, symmetric] by (auto simp: asks_def)
  have err: "(if ?r AND b \<noteq> 0 then x OR b else x) = x OR (?r AND b)" if "b = 2 ^ n" for b x n
    unfolding that and_exp_eq_0_iff_not_bit by (rule bit_eqI) (auto simp: bit_and_iff bit_or_iff bit_exp_iff)
  have "EPOLLERR = 2 ^ 3" "EPOLLHUP = 2 ^ 4" by (simp_all add: EPOLLERR_def EPOLLHUP_def)
  note err = err [OF this(1)] err [OF this(2)]
  have "(?e AND ?r) OR (?r AND EPOLLERR) OR (?r AND EPOLLHUP) = ?r AND (?e OR EPOLLERR OR EPOLLHUP)"
    by (simp add: bit.conj_disj_distrib2 and.commute [of ?r] or.assoc)
  then show ?thesis by (cases "?r = 0") (simp_all add: epoll_fill_def Let_def fold err or.assoc del: fold.simps fold_simps)
qed

lemma asked_counted:
  assumes "epoll_holds (interests q) d" "e \<in> set q" "pd \<in> set (snd e)"
  shows "legal_events (pf_events pd)" "pf_events pd AND epoll_events d (pf_fd pd) = pf_events pd"
proof -
  have "(pf_fd pd, pf_events pd) \<in># interests q" using assms(2,3) by (force simp: interests_def)
  then show legal: "legal_events (pf_events pd)" using assms(1) by (force simp: epoll_holds_def sizes_fit_def)
  have cnt: "asks k pd \<Longrightarrow> ep_cnts d (pf_fd pd) k \<noteq> 0" for k
    using wanted_iff [of q k "pf_fd pd"] assms by (auto simp: epoll_holds_def counts_fit_def)
  have bits: "bit (epoll_events d (pf_fd pd)) n" if "asks k pd" "bit (poll_bit k) n" for k n
    using cnt [OF that(1)] that(2) by (cases k) (simp_all add: epoll_events_def cnt_bit_def bit_or_iff)
  show "pf_events pd AND epoll_events d (pf_fd pd) = pf_events pd"
  proof (rule bit_eqI)
    fix n
    have "bit (pf_events pd) n \<Longrightarrow> n < 3" using legal_mask [OF legal] bit_and_iff [of "pf_events pd" 7 n] by (simp add: bits_of_masks)
    moreover have "bit (pf_events pd) 0 \<Longrightarrow> bit (epoll_events d (pf_fd pd)) 0" "bit (pf_events pd) 1 \<Longrightarrow> bit (epoll_events d (pf_fd pd)) 1"
      "bit (pf_events pd) 2 \<Longrightarrow> bit (epoll_events d (pf_fd pd)) 2"
      using bits [of KREAD 0] bits [of KEXCEP 1] bits [of KWRITE 2] by (simp_all add: asks_def and_one_bit bits_of_masks)
    ultimately have "bit (pf_events pd) n \<Longrightarrow> bit (epoll_events d (pf_fd pd)) n" by (cases "n = 0 \<or> n = 1 \<or> n = 2") auto
    then show "bit (pf_events pd AND epoll_events d (pf_fd pd)) n = bit (pf_events pd) n" by (auto simp: bit_and_iff)
  qed
qed

lemma epoll_told:
  assumes "epoll_holds (interests q) d" "distinct (map fst evs)"
  shows "ep_revents (fold mark_fired evs d) fd = (if told evs fd AND (EPOLLERR OR EPOLLHUP) \<noteq> 0 then told evs fd OR epoll_events d fd else told evs fd)"
proof (cases "map_of evs fd")
  case None
  then have "told evs fd = 0" "fd \<notin> fst ` set evs" unfolding told_def None map_of_eq_None_iff [symmetric] by simp_all
  then show ?thesis using mark_others [of fd evs d] assms(1) by (simp add: epoll_holds_def)
next
  case (Some ev)
  then show ?thesis using mark_last [OF assms(2) map_of_SomeD [OF Some], of d] by (simp add: told_def)
qed

text \<open>What the dispatch fills in is what the report means.\<close>

lemma epoll_fill_answer:
  assumes "epoll_holds (interests q) d" "distinct (map fst evs)" "e \<in> set q" "pd \<in> set (snd e)"
  shows "epoll_fill (ep_revents (fold mark_fired evs d)) pd = epoll_answer evs pd" "pf_revents (epoll_answer evs pd) \<noteq> 0 \<longleftrightarrow> epoll_fires evs pd"
proof -
  let ?e = "pf_events pd" and ?t = "told evs (pf_fd pd)" and ?m = "epoll_events d (pf_fd pd)"
  note a = asked_counted [OF assms(1,3,4)]
  have em: "?e AND ?m = ?e" and e7: "?e AND 7 = ?e" using a legal_mask by blast+
  have "?m AND 7 = ?m" by (simp add: epoll_events_def cnt_bit_def)
  then have "?m AND (EPOLLERR OR EPOLLHUP) = (?m AND 7) AND 24" by (simp add: EPOLLERR_def EPOLLHUP_def)
  also have "\<dots> = 0" by (simp add: and.assoc)
  finally have m0: "?m AND (EPOLLERR OR EPOLLHUP) = 0" .
  have "(?t OR ?m) AND (?e OR EPOLLERR OR EPOLLHUP) = ?e OR (?t AND (EPOLLERR OR EPOLLHUP))"
  proof -
    have "(?t OR ?m) AND (?e OR (EPOLLERR OR EPOLLHUP)) = ((?t OR ?m) AND ?e) OR (?t AND (EPOLLERR OR EPOLLHUP)) OR (?m AND (EPOLLERR OR EPOLLHUP))"
      by (simp add: bit.conj_disj_distrib bit.conj_disj_distrib2 or.assoc or.left_commute)
    moreover have "(?t OR ?m) AND ?e = ?e"
    proof (rule bit_eqI)
      fix n
      have "bit ?e n \<Longrightarrow> bit ?m n" using em bit_and_iff [of ?e ?m n] by simp
      then show "bit ((?t OR ?m) AND ?e) n = bit ?e n" by (auto simp: bit_and_iff bit_or_iff)
    qed
    ultimately show ?thesis using m0 by (simp add: or.assoc)
  qed
  then show "epoll_fill (ep_revents (fold mark_fired evs d)) pd = epoll_answer evs pd"
    unfolding epoll_fill_mask [OF e7] epoll_told [OF assms(1,2)] epoll_answer_def Let_def
    by (auto simp: and_or_distrib and.commute)
  have "?e AND ?t \<noteq> 0 \<longleftrightarrow> (\<exists>k. asks k pd \<and> ?t AND poll_bit k \<noteq> 0)"
  proof -
    have "?e AND ?t = 0 \<longleftrightarrow> (\<forall>n. \<not> (bit ?e n \<and> bit ?t n))" by (simp add: bit_eq_iff bit_and_iff)
    moreover have "bit ?e n \<Longrightarrow> n = 0 \<or> n = 1 \<or> n = 2" for n
    proof -
      assume "bit ?e n"
      then have "n < 3" using e7 bit_and_iff [of ?e 7 n] by (simp add: bits_of_masks)
      then show "n = 0 \<or> n = 1 \<or> n = 2" by linarith
    qed
    ultimately show ?thesis by (auto simp: all_kinds asks_def and_one_bit)
  qed
  moreover have "?e \<noteq> 0" using a(1) by (simp add: legal_events_def)
  ultimately show "pf_revents (epoll_answer evs pd) \<noteq> 0 \<longleftrightarrow> epoll_fires evs pd"
    by (auto simp: epoll_answer_def epoll_fires_def Let_def or_eq_0_iff)
qed

lemma epoll_queue_answers:
  assumes "epoll_holds (interests q) d" "distinct (map fst evs)" "evs \<noteq> []"
  shows "leaves (epoll_fills evs d) q = map (\<lambda>(t, pds). (t, map (epoll_answer evs) pds)) (filter (\<lambda>(t, pds). \<exists>pd \<in> set pds. epoll_fires evs pd) q)"
    "stays (epoll_fills evs d) q = map (\<lambda>(t, pds). (t, map (\<lambda>pd. pd\<lparr>pf_revents := 0\<rparr>) pds)) (filter (\<lambda>(t, pds). \<forall>pd \<in> set pds. \<not> epoll_fires evs pd) q)"
proof -
  let ?F = "ep_revents (fold mark_fired evs d)" and ?a = "\<lambda>(t, pds). (t, map (epoll_answer evs) pds)"
  have f: "epoll_fills evs d = Some (epoll_fill ?F)" using assms(3) by (simp add: epoll_fills_def)
  have fill: "filled (epoll_fill ?F) q = map ?a q"
    using epoll_fill_answer(1) [OF assms(1,2)] by (fastforce simp: filled_def)
  have ready: "ready_pds (snd (?a e)) \<longleftrightarrow> (case e of (t, pds) \<Rightarrow> \<exists>pd \<in> set pds. epoll_fires evs pd)" if "e \<in> set q" for e
    using epoll_fill_answer(2) [OF assms(1,2) that] by (auto simp: ready_pds_def list_ex_iff split: prod.split)
  show "leaves (epoll_fills evs d) q = map ?a (filter (\<lambda>(t, pds). \<exists>pd \<in> set pds. epoll_fires evs pd) q)"
    unfolding f leaves.simps fill filter_map comp_def by (intro arg_cong [of _ _ "map ?a"] filter_cong) (use ready in \<open>auto simp: case_prod_beta\<close>)
  have "stays (epoll_fills evs d) q = map ?a (filter (\<lambda>(t, pds). \<forall>pd \<in> set pds. \<not> epoll_fires evs pd) q)"
    unfolding f stays.simps fill filter_map comp_def by (intro arg_cong [of _ _ "map ?a"] filter_cong) (use ready in \<open>auto simp: case_prod_beta\<close>)
  also have "\<dots> = map (\<lambda>(t, pds). (t, map (\<lambda>pd. pd\<lparr>pf_revents := 0\<rparr>) pds)) (filter (\<lambda>(t, pds). \<forall>pd \<in> set pds. \<not> epoll_fires evs pd) q)"
  proof (rule map_cong [OF refl])
    fix e
    assume e: "e \<in> set (filter (\<lambda>(t, pds). \<forall>pd \<in> set pds. \<not> epoll_fires evs pd) q)"
    obtain t pds where [simp]: "e = (t, pds)" by fastforce
    have "epoll_answer evs pd = pd\<lparr>pf_revents := 0\<rparr>" if "pd \<in> set pds" for pd
    proof -
      have "pf_revents (epoll_answer evs pd) = 0" using epoll_fill_answer(2) [OF assms(1,2), of e pd] e that by auto
      then show ?thesis by (simp add: epoll_answer_def Let_def)
    qed
    then show "?a e = (case e of (t, pds) \<Rightarrow> (t, map (\<lambda>pd. pd\<lparr>pf_revents := 0\<rparr>) pds))" by simp
  qed
  finally show "stays (epoll_fills evs d) q = map (\<lambda>(t, pds). (t, map (\<lambda>pd. pd\<lparr>pf_revents := 0\<rparr>) pds)) (filter (\<lambda>(t, pds). \<forall>pd \<in> set pds. \<not> epoll_fires evs pd) q)" .
qed

text \<open>
  C11: When the idle thread runs and dispatches epoll, exactly the entries of the io queue for which the report has an event that one of their
  descriptors asks for, or an error or hangup of one of their descriptors, go from the io queue to the run queue, in the order in which they polled, and
  each descriptor is told exactly these events (everything it asks for when there is an error or hangup); the others stay, in order, with no
  events.  Nothing changes when nothing is reported.  If \<open>epoll_wait\<close> reports a registered descriptor with an event it is registered
  for, at least one thread is woken.
\<close>

theorem epoll_wakes_ready:
  assumes "epoll_ctl_ok env" "st_epoll_init fdlim True True True True = Some d0" "io_reachable (st_epoll_eventsys env) d0 (v, d)"
    and "this_thread v = idle_thread v" "distinct (map fst evs)" "st_epoll_dispatch env evs (vp_pollq v) d = (rest, off, d')"
  shows "(\<exists>w. vp_idle (queue_events rest off v) v = Inr w \<and> vp_pollq w = rest \<and> run_q w = run_q v @ map fst off \<and>
        (\<forall>(t, fds) \<in> set off. poll_fds w t = fds)) \<and>
      off = map (\<lambda>(t, pds). (t, map (epoll_answer evs) pds)) (filter (\<lambda>(t, pds). \<exists>pd \<in> set pds. epoll_fires evs pd) (vp_pollq v)) \<and>
      rest = (if evs = [] then vp_pollq v
        else map (\<lambda>(t, pds). (t, map (\<lambda>pd. pd\<lparr>pf_revents := 0\<rparr>) pds)) (filter (\<lambda>(t, pds). \<forall>pd \<in> set pds. \<not> epoll_fires evs pd) (vp_pollq v))) \<and>
      (\<forall>fd. reports evs d fd \<longrightarrow> off \<noteq> [])"
proof -
  note f = event_system.reachable_fits [OF epoll_event_system [OF assms(1)] assms(3) epoll_init_holds [OF assms(2)]]
  then have h: "epoll_holds (interests (vp_pollq v)) d" by (simp add: fits_def)
  have ro: "rest = stays (epoll_fills evs d) (vp_pollq v)" "off = leaves (epoll_fills evs d) (vp_pollq v)"
    using epoll_dispatch_holds [OF assms(1) h, of evs] assms(6) by auto
  have "es_dispatch (st_epoll_eventsys env) evs (vp_pollq v) d = (rest, off, d')" using assms(6) by (simp add: st_epoll_eventsys_def)
  from event_system.wait_step [OF epoll_event_system [OF assms(1)] f assms(4) this] obtain w where
    w: "vp_idle (queue_events rest off v) v = Inr w" "vp_pollq w = rest"
      "run_q w = run_q v @ map fst off" "\<forall>(t, fds) \<in> set off. poll_fds w t = fds \<and> ready_pds fds" by blast
  have "\<forall>(t, fds) \<in> set off. poll_fds w t = fds" using w(4) by auto
  with w(1,2,3) have "\<exists>w. vp_idle (queue_events rest off v) v = Inr w \<and> vp_pollq w = rest \<and> run_q w = run_q v @ map fst off \<and>
      (\<forall>(t, fds) \<in> set off. poll_fds w t = fds)" by blast
  moreover have "off \<noteq> []" if "reports evs d fd" for fd using report_wakes [OF h assms(5) that] ro(2) by simp
  moreover have "\<not> epoll_fires [] pd" for pd by (simp add: epoll_fires_def told_def)
  then have "off = map (\<lambda>(t, pds). (t, map (epoll_answer evs) pds)) (filter (\<lambda>(t, pds). \<exists>pd \<in> set pds. epoll_fires evs pd) (vp_pollq v))"
    using epoll_queue_answers(1) [OF h assms(5)] ro(2) by (cases "evs = []") (simp_all add: epoll_fills_def case_prod_beta)
  moreover have "rest = (if evs = [] then vp_pollq v else map (\<lambda>(t, pds). (t, map (\<lambda>pd. pd\<lparr>pf_revents := 0\<rparr>) pds))
      (filter (\<lambda>(t, pds). \<forall>pd \<in> set pds. \<not> epoll_fires evs pd) (vp_pollq v)))"
    using epoll_queue_answers(2) [OF h assms(5)] ro(1) by (simp add: epoll_fills_def)
  ultimately show ?thesis by (intro conjI allI impI) assumption+
qed

lemma epoll_wakes_ready_witness:
  "\<exists>d0 v d w. st_epoll_init 0 True True True True = Some d0 \<and> io_reachable (st_epoll_eventsys plain_kernel) d0 (v, d) \<and>
    this_thread v = idle_thread v \<and> io_q v = [2] \<and> reports [(5, EPOLLHUP)] d 5 \<and> run_q w = run_q v @ [2] \<and> vp_pollq w = []"
proof -
  obtain d0 where d0: "st_epoll_init 0 True True True True = Some d0" by (simp add: st_epoll_init_def)
  from epoll_example [OF d0] obtain v d where
    v: "io_run (st_epoll_eventsys plain_kernel) [Poll polling ST_UTIME_NO_TIMEOUT] (started, d0) = Some (v, d)" "this_thread v = idle_thread v"
      "vp_pollq v = [(2, polling)]" "io_q v = [2]" "poll_fds v 2 = polling" by blast
  have r: "io_reachable (st_epoll_eventsys plain_kernel) d0 (v, d)" by (rule io_run_reachable [OF io_started v(1)])
  have "5 \<in> dom (ep_regs d) \<longleftrightarrow> (\<exists>t \<in> set (io_q v). \<exists>pd \<in> set (poll_fds v t). pf_fd pd = 5)"
    using epoll_exact(1) [of "vp_pollq v" d 5] event_system.reachable_fits [OF epoll_event_system [OF plain_kernel_ok] r epoll_init_holds [OF d0]]
    by (simp add: fits_def vp_pollq_def)
  then obtain m where m: "ep_regs d 5 = Some m" by (auto simp: v(4,5) polling_def)
  have rep: "reports [(5, EPOLLHUP)] d 5" using m by (auto simp: reports_def and_or_distrib or_nonzero EPOLLHUP_def)
  have dist: "distinct (map fst [(5 :: int, EPOLLHUP)])" by simp
  obtain rest off d' where d: "st_epoll_dispatch plain_kernel [(5, EPOLLHUP)] (vp_pollq v) d = (rest, off, d')" by (metis prod_cases3)
  note wakes = epoll_wakes_ready [OF plain_kernel_ok d0 r v(2) dist d]
  from wakes obtain w where w: "vp_pollq w = rest" "run_q w = run_q v @ map fst off" by blast
  have "off \<noteq> []" using wakes rep by blast
  moreover have "length off + length rest = 1" using wakes v(3) by (auto simp del: filter_False)
  ultimately have "rest = []" "length off = 1" by (cases off; simp)+
  moreover have "fst ` set off \<subseteq> {2}" using wakes v(3) by (auto split: if_splits)
  ultimately have "map fst off = [2] \<and> rest = []" by (auto simp: length_Suc_conv)
  with d0 r v(2,4) rep w show ?thesis by auto
qed

subsection \<open>How long epoll waits\<close>

text \<open>The time to the first timeout, in microseconds.\<close>

definition to_first_timeout :: "vp \<Rightarrow> thread \<Rightarrow> 64 word" where
  "to_first_timeout v t = (if due (sleeping v) t \<le> last_clock v then 0 else due (sleeping v) t - last_clock v)"

lemma millis_bounds:
  assumes "0 < n"
  shows "0 < (if n div 1000 = 0 then 1 else int (n div 1000))" "((if n div 1000 = 0 then 1 else int (n div 1000)) - 1) * 1000 < int n"
    "int n < ((if n div 1000 = 0 then 1 else int (n div 1000)) + 1) * 1000"
proof -
  define q m where "q = n div 1000" and "m = n mod 1000"
  then have n: "n div 1000 = q" "n = q * 1000 + m" "m < 1000" by simp_all
  show "0 < (if n div 1000 = 0 then 1 else int (n div 1000))" "((if n div 1000 = 0 then 1 else int (n div 1000)) - 1) * 1000 < int n"
    "int n < ((if n div 1000 = 0 then 1 else int (n div 1000)) + 1) * 1000"
    unfolding n(1) using assms n(2,3) by (cases q; simp)+
qed

text \<open>
  The time that the idle thread lets \<open>epoll_wait\<close> wait, in milliseconds: none when a timeout is due, at least one and not past the
  first timeout (rounded up to one millisecond) when it is near.  But when the first timeout is between \<open>2 ^ 31\<close> and \<open>2 ^ 32\<close> milliseconds
  away (25 to 50 days) the time is negative, which \<open>epoll_wait\<close> takes for no limit: the timeout is lost until some descriptor fires.
\<close>

theorem epoll_timeout_cases:
  assumes "first_sleeper (sleeping v) = Some t"
  shows "(to_first_timeout v t = 0 \<longrightarrow> epoll_timeout v = 0) \<and>
    (0 < unat (to_first_timeout v t) \<and> unat (to_first_timeout v t) < 2 ^ 31 * 1000 \<longrightarrow>
       0 < epoll_timeout v \<and> (epoll_timeout v - 1) * 1000 < int (unat (to_first_timeout v t)) \<and>
       int (unat (to_first_timeout v t)) < (epoll_timeout v + 1) * 1000) \<and>
    (2 ^ 31 * 1000 \<le> unat (to_first_timeout v t) \<and> unat (to_first_timeout v t) < 2 ^ 32 * 1000 \<longrightarrow> epoll_timeout v < 0)"
proof -
  let ?r = "to_first_timeout v t"
  have e: "epoll_timeout v = (if sint (ucast (?r div 1000) :: 32 word) = 0 \<and> ?r > 0 then 1 else sint (ucast (?r div 1000) :: 32 word))"
    unfolding epoll_timeout_def assms to_first_timeout_def by (simp only: option.case Let_def)
  have d: "unat (?r div 1000) = unat ?r div 1000" by (simp add: unat_div_distrib)
  show ?thesis
  proof (intro conjI impI)
    assume "?r = 0"
    then show "epoll_timeout v = 0" unfolding e by simp
  next
    assume r: "0 < unat ?r \<and> unat ?r < 2 ^ 31 * 1000"
    then have "unat (?r div 1000) < 2 ^ 31" unfolding d by auto
    from sint_cut(1) [OF this] have s: "sint (ucast (?r div 1000) :: 32 word) = int (unat ?r div 1000)" unfolding d .
    have p: "?r > 0" using r by (auto simp: word_greater_zero_iff)
    have w: "epoll_timeout v = (if unat ?r div 1000 = 0 then 1 else int (unat ?r div 1000))" unfolding e s using p by simp
    have "0 < unat ?r" using r by simp
    from millis_bounds [OF this] show "0 < epoll_timeout v" "(epoll_timeout v - 1) * 1000 < int (unat ?r)" "int (unat ?r) < (epoll_timeout v + 1) * 1000"
      unfolding w by blast+
  next
    assume r: "2 ^ 31 * 1000 \<le> unat ?r \<and> unat ?r < 2 ^ 32 * 1000"
    then have "2 ^ 31 \<le> unat (?r div 1000)" "unat (?r div 1000) < 2 ^ 32" unfolding d by auto
    from sint_cut(2) [OF this] show "epoll_timeout v < 0" unfolding e by simp
  qed
qed

lemma epoll_timeout_cases_witness:
  "\<exists>v. vp_reachable v \<and> this_thread v = idle_thread v \<and> first_sleeper (sleeping v) = Some 2 \<and>
    unat (to_first_timeout v 2) = 2 ^ 31 * 1000 \<and> epoll_timeout v < 0"
proof -
  have "\<exists>v. st_run [Call (C_usleep 2147483648000)] started = Some v \<and> this_thread v = idle_thread v \<and>
      first_sleeper (sleeping v) = Some 2 \<and> due (sleeping v) 2 = 2147483648000 \<and> last_clock v = 0"
    by (simp add: st_eval)
  then obtain v where v: "st_run [Call (C_usleep 2147483648000)] started = Some v" "this_thread v = idle_thread v"
      "first_sleeper (sleeping v) = Some 2" "due (sleeping v) 2 = 2147483648000" "last_clock v = 0" by blast
  have u: "unat (to_first_timeout v 2) = 2 ^ 31 * 1000" by (simp add: to_first_timeout_def v(4,5))
  have "2 ^ 31 * 1000 \<le> unat (to_first_timeout v 2) \<and> unat (to_first_timeout v 2) < 2 ^ 32 * 1000" unfolding u by simp
  with epoll_timeout_cases [OF v(3)] have "epoll_timeout v < 0" by blast
  with v u run_reachable [OF started_reachable v(1)] show ?thesis by blast
qed

end
