(* ===== verification/St_Kqueue.thy ===== *)
theory St_Kqueue
  imports St_Epoll
begin

unbundle bit_operations_syntax

section \<open>The kqueue event system of state-threads (state-threads/event.c)\<close>

text \<open>
  The event system of macOS and BSD.  Registrations fire once; new ones are collected in a list that goes to the
  kernel with the next wait, and are deleted at once.  The kernel is a parameter: what \<open>kevent\<close> answers
  and what becomes of the registrations, and whether an allocation succeeds.  After a fork the queue of the parent is not
  usable, and everything is registered again with a new one.
\<close>

subsection \<open>The kernel\<close>

datatype kfilter = EVFILT_READ | EVFILT_WRITE

record kevent =
  kev_ident :: int
  kev_filter :: kfilter
  kev_flags :: int
  kev_data :: int

definition EV_ADD :: int where "EV_ADD = 1"
definition EV_DELETE :: int where "EV_DELETE = 2"
definition EV_ONESHOT :: int where "EV_ONESHOT = 16"
definition EV_ERROR :: int where "EV_ERROR = 16384"
definition POLLERR :: int where "POLLERR = 8"
definition EBADF_NUMBER :: int where "EBADF_NUMBER = 9"

type_synonym kregs = "(int \<times> kfilter) set"

datatype kq_array = Fd_data | Evtlist | Addlist | Dellist

text \<open>
  \<open>kq_wait w own regs changes room\<close> is the answer of \<open>kevent\<close> with a list of changes and room for \<open>size\<close> events: the events or an
  errno, and the registrations afterwards; \<open>w\<close> stands for everything else that it depends on, \<open>own\<close> says whether the queue
  belongs to this process.  \<open>kq_delete\<close> is the effect of the call that deletes, repeated while it is interrupted.
\<close>

record 'w kq_env =
  kq_wait :: "'w \<Rightarrow> bool \<Rightarrow> kregs \<Rightarrow> kevent list \<Rightarrow> int \<Rightarrow> (st_errno + kevent list) \<times> kregs"
  kq_delete :: "kevent list \<Rightarrow> kregs \<Rightarrow> kregs"
  kq_realloc :: "kq_array \<Rightarrow> int \<Rightarrow> bool"

text \<open>A dispatch: the state of the world, the process that runs, and what \<open>kqueue\<close> answers if it is called.\<close>

record 'w kq_world =
  kw_world :: 'w
  kw_pid :: int
  kw_queue :: "int option"

subsection \<open>The data\<close>

text \<open>
  \<open>kq_cnt\<close> holds both counters of \<open>fd_data\<close>; the counts of the lists are their lengths.  Two parts are not in the code:
  \<open>kq_aborted\<close> is whether an assertion failed; \<open>kq_lost\<close> is whether registrations may be missing because memory was short, since the
  last fork: a poll queue could not be registered again, or changes went to the kernel without room for their errors.
\<close>

record kqdata =
  kq_cnt :: "kfilter \<Rightarrow> int \<Rightarrow> int"
  kq_revents :: "int \<Rightarrow> int"
  kq_fd_size :: int
  kq_evtlist_size :: int
  kq_addlist :: "kevent list"
  kq_addlist_size :: int
  kq_dellist :: "kevent list"
  kq_dellist_size :: int
  kq_fd :: int
  kq_pid :: int
  kq_regs :: kregs
  kq_aborted :: bool
  kq_lost :: bool

definition ST_KQ_MIN_EVTLIST_SIZE :: int where "ST_KQ_MIN_EVTLIST_SIZE = 64"

text \<open>The answers: of \<open>calloc\<close>, \<open>kqueue\<close>, \<open>getpid\<close>, \<open>calloc\<close>, and the three calls of \<open>malloc\<close>.\<close>

definition st_kq_init :: "bool \<Rightarrow> int option \<Rightarrow> int \<Rightarrow> bool \<Rightarrow> bool \<Rightarrow> bool \<Rightarrow> bool \<Rightarrow> kqdata option" where
  "st_kq_init data_ok kq pid fds_ok evt_ok add_ok del_ok =
     (if \<not> data_ok then None
      else case kq of None \<Rightarrow> None
      | Some q \<Rightarrow>
          if \<not> fds_ok then None
          else if \<not> evt_ok \<or> \<not> add_ok \<or> \<not> del_ok then None
          else Some \<lparr>kq_cnt = (\<lambda>_ _. 0), kq_revents = (\<lambda>_. 0), kq_fd_size = 1024, kq_evtlist_size = ST_KQ_MIN_EVTLIST_SIZE,
            kq_addlist = [], kq_addlist_size = ST_KQ_MIN_EVTLIST_SIZE, kq_dellist = [], kq_dellist_size = ST_KQ_MIN_EVTLIST_SIZE,
            kq_fd = q, kq_pid = pid, kq_regs = {}, kq_aborted = False, kq_lost = False\<rparr>)"

definition st_kq_fd_data_expand :: "'w kq_env \<Rightarrow> int \<Rightarrow> kqdata \<Rightarrow> bool \<times> kqdata" where
  "st_kq_fd_data_expand env need d =
     (let n = expand_size need (kq_fd_size d); fresh = (\<lambda>fd. kq_fd_size d \<le> fd \<and> fd < n) in
      if \<not> kq_realloc env Fd_data n then (False, d)
      else (True, d\<lparr>kq_cnt := (\<lambda>f fd. if fresh fd then 0 else kq_cnt d f fd),
        kq_revents := (\<lambda>fd. if fresh fd then 0 else kq_revents d fd), kq_fd_size := n\<rparr>))"

text \<open>The loop runs while \<open>avail > n - cnt\<close>, which is \<open>avail + cnt - 1 \<ge> n\<close>.\<close>

definition st_kq_addlist_expand :: "'w kq_env \<Rightarrow> int \<Rightarrow> kqdata \<Rightarrow> bool \<times> kqdata" where
  "st_kq_addlist_expand env avail d =
     (let n = expand_size (avail + int (length (kq_addlist d)) - 1) (kq_addlist_size d) in
      if \<not> kq_realloc env Addlist n then (False, d)
      else
        let d = d\<lparr>kq_addlist_size := n\<rparr>
        in (True, if kq_realloc env Evtlist n then d\<lparr>kq_evtlist_size := n\<rparr> else d))"

definition st_kq_addlist_add :: "kevent \<Rightarrow> kqdata \<Rightarrow> kqdata" where
  "st_kq_addlist_add kev d =
     (if int (length (kq_addlist d)) < kq_addlist_size d then d\<lparr>kq_addlist := kq_addlist d @ [kev]\<rparr> else d\<lparr>kq_aborted := True\<rparr>)"

definition st_kq_dellist_add :: "'w kq_env \<Rightarrow> kevent \<Rightarrow> kqdata \<Rightarrow> kqdata" where
  "st_kq_dellist_add env kev d =
     (let n = kq_dellist_size d in
      if int (length (kq_dellist d)) \<ge> n then
        (if \<not> kq_realloc env Dellist (2 * n) then d
         else d\<lparr>kq_dellist_size := 2 * n, kq_dellist := kq_dellist d @ [kev]\<rparr>)
      else d\<lparr>kq_dellist := kq_dellist d @ [kev]\<rparr>)"

subsection \<open>Adding and deleting\<close>

definition bad_kq_pd :: "pollfd \<Rightarrow> bool" where
  "bad_kq_pd pd \<longleftrightarrow> pf_fd pd < 0 \<or> pf_events pd = 0 \<or> pf_events pd AND NOT (poll_bit KREAD OR poll_bit KWRITE) \<noteq> 0"

fun kq_check :: "'w kq_env \<Rightarrow> pollfd list \<Rightarrow> kqdata \<Rightarrow> st_errno option \<times> kqdata" where
  "kq_check env [] d = (None, d)"
| "kq_check env (pd # pds) d =
     (if bad_kq_pd pd then (Some EINVAL, d)
      else if pf_fd pd \<ge> kq_fd_size d
      then (case st_kq_fd_data_expand env (pf_fd pd) d of (ok, d) \<Rightarrow> if \<not> ok then (Some ENOMEM, d) else kq_check env pds d)
      else kq_check env pds d)"

fun filter_kind :: "kfilter \<Rightarrow> poll_kind" where
  "filter_kind EVFILT_READ = KREAD"
| "filter_kind EVFILT_WRITE = KWRITE"

definition count_kq :: "int \<Rightarrow> kfilter \<Rightarrow> int \<Rightarrow> kqdata \<Rightarrow> kqdata" where
  "count_kq i f fd d = d\<lparr>kq_cnt := (kq_cnt d)(f := (kq_cnt d f)(fd := kq_cnt d f fd + i))\<rparr>"

definition kq_add_filter :: "kfilter \<Rightarrow> pollfd \<Rightarrow> kqdata \<Rightarrow> kqdata" where
  "kq_add_filter f pd d =
     (if asks (filter_kind f) pd then
        (let was = kq_cnt d f (pf_fd pd); d = count_kq 1 f (pf_fd pd) d in
         if was = 0 then st_kq_addlist_add \<lparr>kev_ident = pf_fd pd, kev_filter = f, kev_flags = EV_ADD OR EV_ONESHOT, kev_data = 0\<rparr> d else d)
      else d)"

definition kq_add_pd :: "pollfd \<Rightarrow> kqdata \<Rightarrow> kqdata" where
  "kq_add_pd pd d = kq_add_filter EVFILT_WRITE pd (kq_add_filter EVFILT_READ pd d)"

definition st_kq_pollset_add :: "'w kq_env \<Rightarrow> pollfd list \<Rightarrow> kqdata \<Rightarrow> st_errno option \<times> kqdata" where
  "st_kq_pollset_add env pds d = (case kq_check env pds d of (Some e, d) \<Rightarrow> (Some e, d)
   | (None, d) \<Rightarrow>
       let npds = 2 * int (length pds) in
       if npds > kq_addlist_size d - int (length (kq_addlist d))
       then (case st_kq_addlist_expand env npds d of (ok, d) \<Rightarrow> if \<not> ok then (Some ENOMEM, d) else (None, fold kq_add_pd pds d))
       else (None, fold kq_add_pd pds d))"

text \<open>\<open>fired\<close> are the events that descriptors have fired; a registration that fired is gone.\<close>

definition kq_del_filter :: "'w kq_env \<Rightarrow> (int \<Rightarrow> int) \<Rightarrow> kfilter \<Rightarrow> pollfd \<Rightarrow> kqdata \<Rightarrow> kqdata" where
  "kq_del_filter env fired f pd d =
     (if asks (filter_kind f) pd then
        (let d = count_kq (- 1) f (pf_fd pd) d in
         if kq_cnt d f (pf_fd pd) = 0 \<and> fired (pf_fd pd) AND poll_bit (filter_kind f) = 0
         then st_kq_dellist_add env \<lparr>kev_ident = pf_fd pd, kev_filter = f, kev_flags = EV_DELETE, kev_data = 0\<rparr> d else d)
      else d)"

definition kq_del_pd :: "'w kq_env \<Rightarrow> (int \<Rightarrow> int) \<Rightarrow> pollfd \<Rightarrow> kqdata \<Rightarrow> kqdata" where
  "kq_del_pd env fired pd d = kq_del_filter env fired EVFILT_WRITE pd (kq_del_filter env fired EVFILT_READ pd d)"

definition kq_flush :: "'w kq_env \<Rightarrow> kqdata \<Rightarrow> kqdata" where
  "kq_flush env d = (if length (kq_dellist d) > 0 then d\<lparr>kq_regs := kq_delete env (kq_dellist d) (kq_regs d)\<rparr> else d)"

definition st_kq_pollset_del :: "'w kq_env \<Rightarrow> pollfd list \<Rightarrow> kqdata \<Rightarrow> kqdata" where
  "st_kq_pollset_del env pds d = kq_flush env (fold (kq_del_pd env (\<lambda>_. 0)) pds (d\<lparr>kq_dellist := []\<rparr>))"

subsection \<open>Dispatching\<close>

text \<open>The time to wait, in seconds and nanoseconds; no limit without a timeout.\<close>

definition kq_timeout :: "vp \<Rightarrow> (64 word \<times> 64 word) option" where
  "kq_timeout v = (case first_sleeper (sleeping v) of None \<Rightarrow> None
     | Some t \<Rightarrow>
        let min_timeout = (if due (sleeping v) t \<le> last_clock v then 0 else due (sleeping v) t - last_clock v)
        in Some (min_timeout div 1000000, (min_timeout mod 1000000) * 1000))"

definition kq_mark :: "kevent \<Rightarrow> kqdata \<Rightarrow> kqdata" where
  "kq_mark e d =
     (let fd = kev_ident e; r = kq_revents d fd OR poll_bit (filter_kind (kev_filter e));
          r = (if kev_flags e AND EV_ERROR \<noteq> 0 then (if kev_data e = EBADF_NUMBER then r OR POLLNVAL else r OR POLLERR) else r)
      in d\<lparr>kq_revents := (kq_revents d)(fd := r)\<rparr>)"

definition kq_fill :: "(int \<Rightarrow> int) \<Rightarrow> pollfd \<Rightarrow> pollfd" where
  "kq_fill fired pd =
     (let r = fired (pf_fd pd);
          revents = r AND NOT (poll_bit KREAD OR poll_bit KWRITE);
          revents = (if asks KREAD pd \<and> r AND poll_bit KREAD \<noteq> 0 then revents OR poll_bit KREAD else revents);
          revents = (if asks KWRITE pd \<and> r AND poll_bit KWRITE \<noteq> 0 then revents OR poll_bit KWRITE else revents)
      in pd\<lparr>pf_revents := revents\<rparr>)"

fun kq_notify :: "'w kq_env \<Rightarrow> pollq list \<Rightarrow> kqdata \<Rightarrow> pollq list \<times> pollq list \<times> kqdata" where
  "kq_notify env [] d = ([], [], d)"
| "kq_notify env ((t, pds) # q) d =
     (let fds = map (kq_fill (kq_revents d)) pds in
      if ready_pds fds
      then (case kq_notify env q (fold (kq_del_pd env (kq_revents d)) fds d) of (rest, off, d) \<Rightarrow> (rest, (t, fds) # off, d))
      else (case kq_notify env q d of (rest, off, d) \<Rightarrow> ((t, fds) # rest, off, d)))"

definition kq_clear :: "kevent \<Rightarrow> kqdata \<Rightarrow> kqdata" where
  "kq_clear e d = d\<lparr>kq_revents := (kq_revents d)(kev_ident e := 0)\<rparr>"

definition kq_events :: "'w kq_env \<Rightarrow> kevent list \<Rightarrow> pollq list \<Rightarrow> kqdata \<Rightarrow> pollq list \<times> pollq list \<times> kqdata" where
  "kq_events env evs q d =
     (if evs \<noteq> [] then
        (let d = fold kq_mark evs d; d = d\<lparr>kq_dellist := []\<rparr> in
         case kq_notify env q d of (rest, off, d) \<Rightarrow> (rest, off, fold kq_clear evs (kq_flush env d)))
      else (q, [], d))"

text \<open>Waiting: the changes go to the kernel and their list is empty afterwards.\<close>

definition kq_call :: "'w kq_env \<Rightarrow> 'w kq_world \<Rightarrow> kqdata \<Rightarrow> (st_errno + kevent list) \<times> kqdata" where
  "kq_call env w d = (case kq_wait env (kw_world w) (0 \<le> kq_fd d \<and> kq_pid d = kw_pid w) (kq_regs d) (kq_addlist d) (kq_evtlist_size d) of
     (r, regs) \<Rightarrow> (r, d\<lparr>kq_regs := regs, kq_addlist := [], kq_lost := kq_lost d \<or> kq_evtlist_size d < int (length (kq_addlist d))\<rparr>))"

text \<open>After a fork: a new queue, and all descriptors of the io queue registered again; the answer of adding is not looked at.\<close>

definition kq_readd :: "'w kq_env \<Rightarrow> pollq \<Rightarrow> kqdata \<Rightarrow> kqdata" where
  "kq_readd env e d = (case st_kq_pollset_add env (snd e) d of (r, d) \<Rightarrow> if r = None then d else d\<lparr>kq_lost := True\<rparr>)"

definition kq_reinit :: "'w kq_env \<Rightarrow> 'w kq_world \<Rightarrow> int \<Rightarrow> pollq list \<Rightarrow> kqdata \<Rightarrow> kqdata" where
  "kq_reinit env w kq q d = fold (kq_readd env) q
     (d\<lparr>kq_fd := kq, kq_pid := kw_pid w, kq_regs := {}, kq_cnt := (\<lambda>_ _. 0), kq_revents := (\<lambda>_. 0), kq_lost := False\<rparr>)"

text \<open>Retrying ends: the queue belongs to this process then.\<close>

lemma add_filter_pid [simp]: "kq_pid (kq_add_filter f pd d) = kq_pid d"
  by (simp add: kq_add_filter_def count_kq_def st_kq_addlist_add_def Let_def)

lemma add_fold_pid [simp]: "kq_pid (fold kq_add_pd pds d) = kq_pid d"
  by (induction pds arbitrary: d) (simp_all add: kq_add_pd_def)

lemma fd_expand_pid: "st_kq_fd_data_expand env fd d = (ok, d') \<Longrightarrow> kq_pid d' = kq_pid d"
  by (auto simp: st_kq_fd_data_expand_def Let_def split: if_splits)

lemma check_pid: "kq_check env pds d = (r, d') \<Longrightarrow> kq_pid d' = kq_pid d"
  by (induction pds arbitrary: d) (auto split: if_splits prod.splits dest: fd_expand_pid)

lemma pollset_add_pid [simp]: "kq_pid (snd (st_kq_pollset_add env pds d)) = kq_pid d"
  by (auto simp: st_kq_pollset_add_def st_kq_addlist_expand_def Let_def split: prod.split option.split dest: check_pid)

lemma reinit_pid [simp]: "kq_pid (kq_reinit env w kq q d) = kw_pid w"
proof -
  have "kq_pid (kq_readd env e d) = kq_pid d" for e d
  proof -
    obtain r d' where "st_kq_pollset_add env (snd e) d = (r, d')" by fastforce
    moreover from this have "kq_pid d' = kq_pid d" by (metis pollset_add_pid snd_conv)
    ultimately show ?thesis by (simp add: kq_readd_def)
  qed
  then have "kq_pid (fold (kq_readd env) q d) = kq_pid d" for d by (induction q arbitrary: d) simp_all
  then show ?thesis by (simp add: kq_reinit_def)
qed

function st_kq_dispatch :: "'w kq_env \<Rightarrow> 'w kq_world \<Rightarrow> pollq list \<Rightarrow> kqdata \<Rightarrow> pollq list \<times> pollq list \<times> kqdata" where
  "st_kq_dispatch env w q d = (case kq_call env w d of
     (Inr evs, d) \<Rightarrow> kq_events env evs q d
   | (Inl e, d) \<Rightarrow>
       if e = EBADF \<and> kq_pid d \<noteq> kw_pid w then
         (case kw_queue w of None \<Rightarrow> (q, [], d\<lparr>kq_fd := - 1\<rparr>)
          | Some kq \<Rightarrow> st_kq_dispatch env w q (kq_reinit env w kq q d))
       else (q, [], d))"
  by pat_completeness auto

termination by (relation "measure (\<lambda>(env, w, q, d). if kq_pid d = kw_pid w then 0 else 1)") (auto simp: kq_call_def split: prod.splits)

declare st_kq_dispatch.simps [simp del]

subsection \<open>Descriptors\<close>

definition st_kq_fd_new :: "'w kq_env \<Rightarrow> int \<Rightarrow> kqdata \<Rightarrow> st_errno option \<times> kqdata" where
  "st_kq_fd_new env osfd d = (if osfd \<ge> kq_fd_size d
     then (case st_kq_fd_data_expand env osfd d of (ok, d) \<Rightarrow> if \<not> ok then (Some ENOMEM, d) else (None, d)) else (None, d))"

definition st_kq_fd_close :: "int \<Rightarrow> kqdata \<Rightarrow> st_errno option" where
  "st_kq_fd_close osfd d = (if kq_cnt d EVFILT_READ osfd \<noteq> 0 \<or> kq_cnt d EVFILT_WRITE osfd \<noteq> 0 then Some EBUSY else None)"

definition st_kq_fd_getlimit :: int where
  "st_kq_fd_getlimit = 0"

definition st_kq_eventsys :: "'w kq_env \<Rightarrow> ('w kq_world, kqdata) eventsys" where
  "st_kq_eventsys env = \<lparr>es_name = ''kqueue'', es_val = 3, es_dispatch = st_kq_dispatch env,
     es_pollset_add = st_kq_pollset_add env, es_pollset_del = st_kq_pollset_del env, es_fd_new = st_kq_fd_new env,
     es_fd_close = st_kq_fd_close, es_fd_getlimit = st_kq_fd_getlimit\<rparr>"

subsection \<open>What kevent promises\<close>

definition kq_pairs :: "kevent list \<Rightarrow> kregs" where
  "kq_pairs l = (\<lambda>e. (kev_ident e, kev_filter e)) ` set l"

text \<open>
  What the manual says: the queue of another process is refused; nothing is registered or reported but what was registered before or is among the
  changes.  When there is room for an error of every change, all changes are made even if the call is interrupted, and a registration is kept until it is
  reported; without this room the call may stop at a change.  Deleting takes away nothing else.
\<close>

definition kq_wait_doc :: "'w kq_env \<Rightarrow> 'w \<Rightarrow> bool \<Rightarrow> kregs \<Rightarrow> kevent list \<Rightarrow> int \<Rightarrow> bool" where
  "kq_wait_doc env w own regs cs room \<longleftrightarrow> (case kq_wait env w own regs cs room of (r, regs') \<Rightarrow>
     regs' \<subseteq> regs \<union> kq_pairs cs \<and>
     (if \<not> own then r = Inl EBADF
      else case r of
        Inl e \<Rightarrow> int (length cs) \<le> room \<longrightarrow> e = EINTR \<and> regs \<union> kq_pairs cs \<subseteq> regs'
      | Inr evs \<Rightarrow> kq_pairs evs \<subseteq> regs \<union> kq_pairs cs \<and> (int (length cs) \<le> room \<longrightarrow> regs \<union> kq_pairs cs \<subseteq> regs' \<union> kq_pairs evs)))"

definition kq_kernel_ok :: "'w kq_env \<Rightarrow> bool" where
  "kq_kernel_ok env \<longleftrightarrow> (\<forall>w own regs cs room. (\<forall>e \<in> set cs. kev_flags e = EV_ADD OR EV_ONESHOT) \<longrightarrow> kq_wait_doc env w own regs cs room) \<and>
     (\<forall>cs regs. (\<forall>e \<in> set cs. kev_flags e = EV_DELETE) \<longrightarrow> kq_delete env cs regs \<subseteq> regs \<and> regs - kq_pairs cs \<subseteq> kq_delete env cs regs)"

text \<open>Memory for the lists of changes and events.  Only the absence of lost registrations needs it.\<close>

definition kq_memory_ok :: "'w kq_env \<Rightarrow> bool" where
  "kq_memory_ok env \<longleftrightarrow> (\<forall>n. kq_realloc env Addlist n \<and> kq_realloc env Evtlist n)"

subsection \<open>The invariant\<close>

definition kq_counts :: "(int \<times> int) multiset \<Rightarrow> kqdata \<Rightarrow> bool" where
  "kq_counts M d \<longleftrightarrow> (\<forall>f fd. kq_cnt d f fd = int (wanted M (filter_kind f) fd))"

definition kq_known :: "kqdata \<Rightarrow> kregs" where
  "kq_known d = kq_regs d \<union> kq_pairs (kq_addlist d)"

definition kq_registered :: "kqdata \<Rightarrow> bool" where
  "kq_registered d \<longleftrightarrow> kq_fd d < 0 \<or> (\<forall>f fd. kq_cnt d f fd \<noteq> 0 \<longrightarrow> (fd, f) \<in> kq_known d)"

definition kq_inside :: "kqdata \<Rightarrow> (int \<times> kfilter) set \<Rightarrow> bool" where
  "kq_inside d R \<longleftrightarrow> (\<forall>x \<in> R. 0 \<le> fst x \<and> fst x < kq_fd_size d)"

definition kq_lists :: "kqdata \<Rightarrow> bool" where
  "kq_lists d \<longleftrightarrow> \<not> kq_aborted d \<and> 0 < kq_fd_size d \<and> 0 < kq_addlist_size d \<and> int (length (kq_addlist d)) \<le> kq_addlist_size d \<and>
     kq_inside d (kq_known d) \<and> (\<forall>e \<in> set (kq_addlist d). kev_flags e = EV_ADD OR EV_ONESHOT)"

definition kq_legal :: "kqdata \<Rightarrow> (int \<times> int) multiset \<Rightarrow> bool" where
  "kq_legal d M \<longleftrightarrow> (\<forall>x \<in># M. 0 \<le> fst x \<and> fst x < kq_fd_size d \<and> snd x \<noteq> 0 \<and> snd x AND NOT 5 = 0)"

text \<open>What holds whatever happens, what holds while nothing is lost, and that nothing is lost while memory lasts.\<close>

definition kq_frame :: "(int \<times> int) multiset \<Rightarrow> kqdata \<Rightarrow> bool" where
  "kq_frame M d \<longleftrightarrow> kq_lists d \<and> kq_legal d M \<and> (\<forall>fd. kq_revents d fd = 0)"

definition kq_fit :: "(int \<times> int) multiset \<Rightarrow> kqdata \<Rightarrow> bool" where
  "kq_fit M d \<longleftrightarrow> kq_lost d \<or> kq_counts M d \<and> kq_registered d"

definition kq_keeps :: "'w kq_env \<Rightarrow> kqdata \<Rightarrow> bool" where
  "kq_keeps env d \<longleftrightarrow> (kq_memory_ok env \<longrightarrow> \<not> kq_lost d \<and> kq_evtlist_size d = kq_addlist_size d)"

definition kq_holds :: "'w kq_env \<Rightarrow> (int \<times> int) multiset \<Rightarrow> kqdata \<Rightarrow> bool" where
  "kq_holds env M d \<longleftrightarrow> kq_frame M d \<and> kq_fit M d \<and> kq_keeps env d"

lemma wanted_sum: "wanted (M + N) k fd = wanted M k fd + wanted N k fd"
  by (simp add: wanted_def)

lemma kq_pairs_simps [simp]: "kq_pairs [] = {}" "kq_pairs (e # l) = insert (kev_ident e, kev_filter e) (kq_pairs l)" "kq_pairs (l @ l') = kq_pairs l \<union> kq_pairs l'"
  by (auto simp: kq_pairs_def)

lemma kq_init_holds: "st_kq_init a kq pid b c e g = Some d0 \<Longrightarrow> kq_holds env {#} d0"
  by (auto simp: st_kq_init_def kq_holds_def kq_frame_def kq_fit_def kq_keeps_def kq_counts_def kq_registered_def kq_lists_def kq_legal_def
      kq_inside_def kq_known_def ST_KQ_MIN_EVTLIST_SIZE_def split: if_splits option.splits)

lemma bad_kq_legal: "0 \<le> kq_fd_size d \<Longrightarrow> kq_legal d (pairs pds) \<longleftrightarrow> (\<forall>pd \<in> set pds. \<not> bad_kq_pd pd \<and> pf_fd pd < kq_fd_size d)"
  by (auto simp: kq_legal_def pairs_def bad_kq_pd_def)

lemma legal_kq_asks:
  assumes "e \<noteq> 0" "e AND NOT 5 = 0"
  shows "\<exists>f. e AND poll_bit (filter_kind f) \<noteq> (0 :: int)"
proof -
  have e: "e = e AND 5"
  proof -
    have "e = (e AND 5) OR (e AND NOT 5)" by (simp add: bit_eq_iff bit_simps) blast
    then show ?thesis using assms(2) by simp
  qed
  have "(5 :: int) = 1 OR 4" by simp
  then have "e AND 1 \<noteq> 0 \<or> e AND 4 \<noteq> 0" using e assms(1) by (metis bit.conj_disj_distrib or.right_neutral)
  then show ?thesis by (metis filter_kind.simps poll_bit.simps(1,2))
qed

subsection \<open>Counting\<close>

lemma del_filter_fields [simp]:
  "kq_regs (kq_del_filter env F f pd d) = kq_regs d" "kq_addlist (kq_del_filter env F f pd d) = kq_addlist d"
  "kq_revents (kq_del_filter env F f pd d) = kq_revents d" "kq_fd_size (kq_del_filter env F f pd d) = kq_fd_size d"
  "kq_addlist_size (kq_del_filter env F f pd d) = kq_addlist_size d" "kq_evtlist_size (kq_del_filter env F f pd d) = kq_evtlist_size d"
  "kq_fd (kq_del_filter env F f pd d) = kq_fd d" "kq_pid (kq_del_filter env F f pd d) = kq_pid d" "kq_aborted (kq_del_filter env F f pd d) = kq_aborted d"
  "kq_lost (kq_del_filter env F f pd d) = kq_lost d"
  "kq_cnt (kq_del_filter env F f pd d) g fd = kq_cnt d g fd - (if g = f \<and> fd = pf_fd pd \<and> asks (filter_kind f) pd then 1 else 0)"
  by (simp_all add: kq_del_filter_def count_kq_def st_kq_dellist_add_def Let_def)

lemma kq_del_pd_fields [simp]:
  "kq_regs (kq_del_pd env F pd d) = kq_regs d" "kq_addlist (kq_del_pd env F pd d) = kq_addlist d"
  "kq_revents (kq_del_pd env F pd d) = kq_revents d" "kq_fd_size (kq_del_pd env F pd d) = kq_fd_size d"
  "kq_addlist_size (kq_del_pd env F pd d) = kq_addlist_size d" "kq_evtlist_size (kq_del_pd env F pd d) = kq_evtlist_size d"
  "kq_fd (kq_del_pd env F pd d) = kq_fd d" "kq_pid (kq_del_pd env F pd d) = kq_pid d" "kq_aborted (kq_del_pd env F pd d) = kq_aborted d"
  "kq_lost (kq_del_pd env F pd d) = kq_lost d"
  "kq_cnt (kq_del_pd env F pd d) g fd = kq_cnt d g fd - (if fd = pf_fd pd \<and> asks (filter_kind g) pd then 1 else 0)"
  by (simp_all add: kq_del_pd_def) (cases g; simp)

lemma del_fold_kept [simp]:
  "kq_regs (fold (kq_del_pd env F) pds d) = kq_regs d" "kq_addlist (fold (kq_del_pd env F) pds d) = kq_addlist d"
  "kq_revents (fold (kq_del_pd env F) pds d) = kq_revents d" "kq_fd_size (fold (kq_del_pd env F) pds d) = kq_fd_size d"
  "kq_addlist_size (fold (kq_del_pd env F) pds d) = kq_addlist_size d" "kq_evtlist_size (fold (kq_del_pd env F) pds d) = kq_evtlist_size d"
  "kq_fd (fold (kq_del_pd env F) pds d) = kq_fd d" "kq_pid (fold (kq_del_pd env F) pds d) = kq_pid d"
  "kq_aborted (fold (kq_del_pd env F) pds d) = kq_aborted d" "kq_lost (fold (kq_del_pd env F) pds d) = kq_lost d"
  by (induction pds arbitrary: d) simp_all

text \<open>The list of deletions only deletes, and what is to be deleted is not counted any more.\<close>

definition kq_deleting :: "kqdata \<Rightarrow> bool" where
  "kq_deleting d \<longleftrightarrow> (\<forall>e \<in> set (kq_dellist d). kev_flags e = EV_DELETE)"

definition kq_doomed :: "kqdata \<Rightarrow> bool" where
  "kq_doomed d \<longleftrightarrow> (\<forall>x \<in> kq_pairs (kq_dellist d). kq_cnt d (snd x) (fst x) = 0)"

lemma del_filter_dellist:
  "x \<in> kq_pairs (kq_dellist (kq_del_filter env F f pd d)) \<Longrightarrow> x \<in> kq_pairs (kq_dellist d) \<or>
     x = (pf_fd pd, f) \<and> kq_cnt (kq_del_filter env F f pd d) f (pf_fd pd) = 0"
  "kq_deleting d \<Longrightarrow> kq_deleting (kq_del_filter env F f pd d)"
  by (auto simp: kq_del_filter_def count_kq_def st_kq_dellist_add_def kq_deleting_def Let_def split: if_splits)

lemma del_fold_deleting: "kq_deleting d \<Longrightarrow> kq_deleting (fold (kq_del_pd env F) pds d)"
  by (induction pds arbitrary: d) (simp_all add: kq_del_pd_def del_filter_dellist(2))

lemma del_pd_down: "kq_counts (add_mset (pf_fd pd, pf_events pd) M) d \<Longrightarrow> kq_counts M (kq_del_pd env F pd d)"
  by (auto simp: kq_counts_def asks_def)

lemma del_pd_doomed:
  assumes "kq_counts (add_mset (pf_fd pd, pf_events pd) M) d" "kq_doomed d"
  shows "kq_doomed (kq_del_pd env F pd d)"
proof -
  let ?d1 = "kq_del_filter env F EVFILT_READ pd d" and ?d = "kq_del_pd env F pd d"
  have zero: "kq_cnt ?d f fd = 0" if "kq_cnt d f fd = 0" for f fd
    using assms(1) that unfolding kq_counts_def by (auto simp: asks_def split: if_splits)
  have "kq_cnt ?d (snd x) (fst x) = 0" if x: "x \<in> kq_pairs (kq_dellist ?d)" for x
  proof -
    consider "x \<in> kq_pairs (kq_dellist d)" | "x = (pf_fd pd, EVFILT_READ)" "kq_cnt ?d1 EVFILT_READ (pf_fd pd) = 0"
      | "x = (pf_fd pd, EVFILT_WRITE)" "kq_cnt ?d EVFILT_WRITE (pf_fd pd) = 0"
      using x del_filter_dellist(1) unfolding kq_del_pd_def by blast
    then show ?thesis
    proof cases
      case 1
      then show ?thesis using assms(2) zero unfolding kq_doomed_def by blast
    qed simp_all
  qed
  then show ?thesis unfolding kq_doomed_def by blast
qed

lemma kq_del_fold_ok:
  assumes "kq_counts (M + pairs pds) d" "kq_doomed d"
  shows "kq_counts M (fold (kq_del_pd env F) pds d) \<and> kq_doomed (fold (kq_del_pd env F) pds d)"
  using assms
proof (induction pds arbitrary: d)
  case (Cons pd pds)
  have c: "kq_counts (add_mset (pf_fd pd, pf_events pd) (M + pairs pds)) d" using Cons.prems(1) by simp
  from Cons.IH [OF del_pd_down [OF c] del_pd_doomed [OF c Cons.prems(2)]] show ?case by simp
qed simp

lemma kq_flush_fields [simp]:
  "kq_cnt (kq_flush env d) = kq_cnt d" "kq_addlist (kq_flush env d) = kq_addlist d"
  "kq_revents (kq_flush env d) = kq_revents d" "kq_fd_size (kq_flush env d) = kq_fd_size d"
  "kq_addlist_size (kq_flush env d) = kq_addlist_size d" "kq_evtlist_size (kq_flush env d) = kq_evtlist_size d"
  "kq_fd (kq_flush env d) = kq_fd d" "kq_pid (kq_flush env d) = kq_pid d" "kq_aborted (kq_flush env d) = kq_aborted d"
  "kq_lost (kq_flush env d) = kq_lost d"
  by (simp_all add: kq_flush_def)

lemma kq_flush_regs:
  assumes "kq_kernel_ok env" "kq_deleting d"
  shows "kq_regs (kq_flush env d) \<subseteq> kq_regs d"
    "kq_doomed d \<Longrightarrow> (fd, f) \<in> kq_regs d \<Longrightarrow> kq_cnt d f fd \<noteq> 0 \<Longrightarrow> (fd, f) \<in> kq_regs (kq_flush env d)"
proof -
  have "kq_delete env (kq_dellist d) (kq_regs d) \<subseteq> kq_regs d \<and> kq_regs d - kq_pairs (kq_dellist d) \<subseteq> kq_delete env (kq_dellist d) (kq_regs d)"
    using assms by (simp add: kq_kernel_ok_def kq_deleting_def)
  moreover have "(fd, f) \<notin> kq_pairs (kq_dellist d)" if "kq_doomed d" "kq_cnt d f fd \<noteq> 0" using that by (force simp: kq_doomed_def)
  ultimately show "kq_regs (kq_flush env d) \<subseteq> kq_regs d"
    "kq_doomed d \<Longrightarrow> (fd, f) \<in> kq_regs d \<Longrightarrow> kq_cnt d f fd \<noteq> 0 \<Longrightarrow> (fd, f) \<in> kq_regs (kq_flush env d)"
    by (auto simp: kq_flush_def)
qed

lemma kq_del_holds:
  assumes "kq_kernel_ok env" "kq_holds env (M + pairs pds) d"
  shows "kq_holds env M (st_kq_pollset_del env pds d)"
proof -
  let ?u = "d\<lparr>kq_dellist := []\<rparr>" and ?e = "fold (kq_del_pd env (\<lambda>_. 0)) pds (d\<lparr>kq_dellist := []\<rparr>)"
  have h: "kq_lists d" "kq_legal d (M + pairs pds)" "\<forall>fd. kq_revents d fd = 0" "kq_fit (M + pairs pds) d" "kq_keeps env d"
    using assms(2) by (simp_all add: kq_holds_def kq_frame_def)
  have del: "kq_deleting ?e" by (rule del_fold_deleting) (simp add: kq_deleting_def)
  note fl = kq_flush_regs [OF assms(1) del]
  have "kq_fit M (kq_flush env ?e)"
  proof (cases "kq_lost d")
    case False
    then have c: "kq_counts (M + pairs pds) d" "kq_registered d" using h(4) by (simp_all add: kq_fit_def)
    then have "kq_counts (M + pairs pds) ?u" "kq_doomed ?u" by (simp_all add: kq_counts_def kq_doomed_def)
    from kq_del_fold_ok [OF this] have e: "kq_counts M ?e" "kq_doomed ?e" by blast+
    have was: "kq_cnt d f fd \<noteq> 0" if "kq_cnt ?e f fd \<noteq> 0" for f fd
      using e(1) c(1) that by (simp add: kq_counts_def wanted_sum)
    have "kq_registered (kq_flush env ?e)"
      using c(2) was fl(2) [OF e(2)] by (fastforce simp: kq_registered_def kq_known_def)
    moreover have "kq_counts M (kq_flush env ?e)" using e(1) by (simp add: kq_counts_def)
    ultimately show ?thesis by (simp add: kq_fit_def)
  qed (simp add: kq_fit_def)
  moreover have "kq_lists (kq_flush env ?e)" using h(1) fl(1) by (auto simp: kq_lists_def kq_inside_def kq_known_def)
  moreover have "kq_legal (kq_flush env ?e) M" using h(2) by (auto simp: kq_legal_def)
  ultimately show ?thesis using h(3,5) by (simp add: kq_holds_def kq_frame_def kq_keeps_def st_kq_pollset_del_def)
qed

subsection \<open>Adding keeps the contract\<close>

lemma add_filter_fields [simp]:
  "kq_regs (kq_add_filter f pd d) = kq_regs d" "kq_revents (kq_add_filter f pd d) = kq_revents d" "kq_fd_size (kq_add_filter f pd d) = kq_fd_size d"
  "kq_addlist_size (kq_add_filter f pd d) = kq_addlist_size d" "kq_evtlist_size (kq_add_filter f pd d) = kq_evtlist_size d"
  "kq_fd (kq_add_filter f pd d) = kq_fd d" "kq_lost (kq_add_filter f pd d) = kq_lost d"
  "kq_cnt (kq_add_filter f pd d) g fd = kq_cnt d g fd + (if g = f \<and> fd = pf_fd pd \<and> asks (filter_kind f) pd then 1 else 0)"
  by (simp_all add: kq_add_filter_def count_kq_def st_kq_addlist_add_def Let_def)

lemma add_filter_ok:
  assumes "kq_lists d" "int (length (kq_addlist d)) < kq_addlist_size d" "0 \<le> pf_fd pd" "pf_fd pd < kq_fd_size d"
  shows "kq_registered d \<Longrightarrow> kq_registered (kq_add_filter f pd d)" "kq_lists (kq_add_filter f pd d)"
    "length (kq_addlist (kq_add_filter f pd d)) \<le> Suc (length (kq_addlist d))"
proof -
  let ?d = "kq_add_filter f pd d" and ?k = "\<lparr>kev_ident = pf_fd pd, kev_filter = f, kev_flags = EV_ADD OR EV_ONESHOT, kev_data = 0\<rparr>"
  let ?new = "asks (filter_kind f) pd \<and> kq_cnt d f (pf_fd pd) = 0"
  have add: "kq_addlist ?d = (if ?new then kq_addlist d @ [?k] else kq_addlist d)" "kq_aborted ?d = kq_aborted d"
    using assms(2) by (simp_all add: kq_add_filter_def count_kq_def st_kq_addlist_add_def Let_def)
  have known: "kq_known ?d = (if ?new then insert (pf_fd pd, f) (kq_known d) else kq_known d)" by (simp add: kq_known_def add)
  show "kq_registered d \<Longrightarrow> kq_registered ?d" by (auto simp: kq_registered_def known)
  show "kq_lists ?d" using assms by (auto simp: kq_lists_def kq_inside_def known add)
  show "length (kq_addlist ?d) \<le> Suc (length (kq_addlist d))" by (simp add: add)
qed

lemma add_pd_fields [simp]:
  "kq_revents (kq_add_pd pd d) = kq_revents d" "kq_fd_size (kq_add_pd pd d) = kq_fd_size d" "kq_addlist_size (kq_add_pd pd d) = kq_addlist_size d"
  "kq_evtlist_size (kq_add_pd pd d) = kq_evtlist_size d" "kq_fd (kq_add_pd pd d) = kq_fd d" "kq_lost (kq_add_pd pd d) = kq_lost d"
  by (simp_all add: kq_add_pd_def)

lemma kq_add_pd_ok:
  assumes "kq_fit M d" "kq_lists d" "int (length (kq_addlist d)) + 2 \<le> kq_addlist_size d" "0 \<le> pf_fd pd" "pf_fd pd < kq_fd_size d"
  shows "kq_fit (add_mset (pf_fd pd, pf_events pd) M) (kq_add_pd pd d)" "kq_lists (kq_add_pd pd d)"
    "length (kq_addlist (kq_add_pd pd d)) \<le> length (kq_addlist d) + 2"
proof -
  let ?d = "kq_add_filter EVFILT_READ pd d"
  have "int (length (kq_addlist d)) < kq_addlist_size d" using assms(3) by simp
  note r = add_filter_ok [OF assms(2) this assms(4,5), of EVFILT_READ]
  have "int (length (kq_addlist ?d)) < kq_addlist_size ?d" "0 \<le> pf_fd pd" "pf_fd pd < kq_fd_size ?d" using r(3) assms(3-5) by simp_all
  note w = add_filter_ok [OF r(2) this, of EVFILT_WRITE]
  show "kq_lists (kq_add_pd pd d)" using w by (simp add: kq_add_pd_def)
  show "length (kq_addlist (kq_add_pd pd d)) \<le> length (kq_addlist d) + 2" using w(3) r(3) by (simp add: kq_add_pd_def)
  have "kq_cnt (kq_add_pd pd d) g fd = kq_cnt d g fd + (if fd = pf_fd pd \<and> asks (filter_kind g) pd then 1 else 0)" for g fd
    by (cases g) (simp_all add: kq_add_pd_def)
  then have "kq_counts M d \<Longrightarrow> kq_counts (add_mset (pf_fd pd, pf_events pd) M) (kq_add_pd pd d)" by (auto simp: kq_counts_def asks_def)
  moreover have "kq_registered d \<Longrightarrow> kq_registered (kq_add_pd pd d)" using r(1) w(1) by (simp add: kq_add_pd_def)
  ultimately show "kq_fit (add_mset (pf_fd pd, pf_events pd) M) (kq_add_pd pd d)" using assms(1) by (auto simp: kq_fit_def)
qed

lemma add_fold_kept [simp]:
  "kq_revents (fold kq_add_pd pds d) = kq_revents d" "kq_fd_size (fold kq_add_pd pds d) = kq_fd_size d"
  "kq_addlist_size (fold kq_add_pd pds d) = kq_addlist_size d" "kq_fd (fold kq_add_pd pds d) = kq_fd d"
  "kq_evtlist_size (fold kq_add_pd pds d) = kq_evtlist_size d" "kq_lost (fold kq_add_pd pds d) = kq_lost d"
  by (induction pds arbitrary: d) simp_all

lemma add_fold_ok:
  assumes "kq_fit M d" "kq_lists d" "int (length (kq_addlist d)) + 2 * int (length pds) \<le> kq_addlist_size d" "kq_legal d (pairs pds)"
  shows "kq_fit (M + pairs pds) (fold kq_add_pd pds d) \<and> kq_lists (fold kq_add_pd pds d)"
  using assms
proof (induction pds arbitrary: d M)
  case (Cons pd pds)
  have "int (length (kq_addlist d)) + 2 \<le> kq_addlist_size d" "0 \<le> pf_fd pd" "pf_fd pd < kq_fd_size d" using Cons.prems(3,4) by (simp_all add: kq_legal_def)
  note p = kq_add_pd_ok [OF Cons.prems(1,2) this]
  have "int (length (kq_addlist (kq_add_pd pd d))) + 2 * int (length pds) \<le> kq_addlist_size (kq_add_pd pd d)" "kq_legal (kq_add_pd pd d) (pairs pds)"
    using p(3) Cons.prems(3,4) by (simp_all add: kq_legal_def)
  from Cons.IH [OF p(1,2) this] show ?case by simp
qed simp

lemma kq_inside_mono: "kq_inside d R \<Longrightarrow> kq_fd_size d \<le> kq_fd_size d' \<Longrightarrow> R' \<subseteq> R \<Longrightarrow> kq_inside d' R'"
  by (fastforce simp: kq_inside_def)

lemma kq_fd_expand_ok:
  assumes "kq_holds env' M d" "st_kq_fd_data_expand env fd d = (ok, d')"
  shows "kq_holds env' M d' \<and> (ok \<longrightarrow> fd < kq_fd_size d') \<and> kq_fd_size d \<le> kq_fd_size d'"
proof -
  let ?n = "expand_size fd (kq_fd_size d)"
  have h: "kq_lists d" "kq_legal d M" "\<forall>fd. kq_revents d fd = 0" "kq_fit M d" "kq_keeps env' d"
    using assms(1) by (simp_all add: kq_holds_def kq_frame_def)
  have n: "fd < ?n" "kq_fd_size d \<le> ?n" using h(1) expand_size_ok by (auto simp: kq_lists_def)
  have zero: "wanted M k x = 0" if "kq_fd_size d \<le> x" for k x
  proof -
    have "{#y \<in># M. fst y = x \<and> snd y AND poll_bit k \<noteq> 0#} = {#}"
      using h(2) that by (auto simp: kq_legal_def filter_mset_eq_mempty_iff)
    then show ?thesis by (simp add: wanted_def)
  qed
  show ?thesis
  proof (cases ok)
    case True
    then have d': "d' = d\<lparr>kq_cnt := kq_cnt d', kq_revents := kq_revents d', kq_fd_size := ?n\<rparr>" "\<forall>fd. kq_revents d' fd = 0"
      and cnt: "\<And>f x. kq_cnt d' f x = (if kq_fd_size d \<le> x \<and> x < ?n then 0 else kq_cnt d f x)"
      using assms(2) h(3) by (auto simp: st_kq_fd_data_expand_def Let_def split: if_splits)
    have f: "kq_regs d' = kq_regs d" "kq_addlist d' = kq_addlist d" "kq_fd d' = kq_fd d" "kq_aborted d' = kq_aborted d" "kq_fd_size d' = ?n"
      "kq_addlist_size d' = kq_addlist_size d" "kq_evtlist_size d' = kq_evtlist_size d" "kq_lost d' = kq_lost d" by (subst d'(1), simp)+
    have "kq_counts M d \<Longrightarrow> kq_counts M d'" using zero by (auto simp: kq_counts_def cnt)
    moreover have "kq_registered d \<Longrightarrow> kq_registered d'" by (auto simp: kq_registered_def kq_known_def f cnt)
    ultimately have "kq_fit M d'" using h(4) by (auto simp: kq_fit_def f)
    moreover have "kq_known d' = kq_known d" by (simp add: kq_known_def f)
    then have "kq_lists d'" using h(1) n kq_inside_mono [of d "kq_known d" d'] by (auto simp: kq_lists_def f)
    moreover have "kq_legal d' M" using h(2) n by (fastforce simp: kq_legal_def f)
    ultimately show ?thesis using d'(2) n f h(5) by (simp add: kq_holds_def kq_frame_def kq_keeps_def)
  next
    case False
    then have "d' = d" using assms(2) by (auto simp: st_kq_fd_data_expand_def Let_def split: if_splits)
    then show ?thesis using assms(1) False by simp
  qed
qed

lemma kq_check_ok:
  assumes "kq_holds env' M d" "kq_check env pds d = (r, d')"
  shows "kq_holds env' M d' \<and> kq_fd_size d \<le> kq_fd_size d' \<and> (r = None \<longrightarrow> (\<forall>pd \<in> set pds. \<not> bad_kq_pd pd \<and> pf_fd pd < kq_fd_size d'))"
  using assms
proof (induction pds arbitrary: d)
  case (Cons pd pds)
  consider "bad_kq_pd pd" | "\<not> bad_kq_pd pd" "pf_fd pd \<ge> kq_fd_size d" | "\<not> bad_kq_pd pd" "pf_fd pd < kq_fd_size d" by linarith
  then show ?case
  proof cases
    case 2
    obtain ok d1 where e: "st_kq_fd_data_expand env (pf_fd pd) d = (ok, d1)" by fastforce
    note x = kq_fd_expand_ok [OF Cons.prems(1) e]
    show ?thesis
    proof (cases ok)
      case True
      then have "kq_check env pds d1 = (r, d')" using Cons.prems(2) 2 e by simp
      with Cons.IH [OF _ this] x True 2 show ?thesis by fastforce
    qed (use Cons.prems(2) 2 e x in auto)
  next
    case 3
    then have "kq_check env pds d = (r, d')" using Cons.prems(2) by simp
    with Cons.IH [OF Cons.prems(1) this] 3 show ?thesis by auto
  qed (use Cons.prems in auto)
qed simp

lemma kq_addlist_expand_ok:
  assumes "kq_holds env M d" "st_kq_addlist_expand env avail d = (ok, d')"
  shows "kq_holds env M d'" "ok \<Longrightarrow> avail + int (length (kq_addlist d')) \<le> kq_addlist_size d'" "kq_fd_size d' = kq_fd_size d" "kq_memory_ok env \<Longrightarrow> ok"
proof -
  let ?n = "expand_size (avail + int (length (kq_addlist d)) - 1) (kq_addlist_size d)"
  have h: "kq_lists d" "kq_legal d M" "\<forall>fd. kq_revents d fd = 0" "kq_fit M d" "kq_keeps env d" using assms(1) by (simp_all add: kq_holds_def kq_frame_def)
  have n: "avail + int (length (kq_addlist d)) - 1 < ?n" "kq_addlist_size d \<le> ?n" using h(1) expand_size_ok by (auto simp: kq_lists_def)
  show "kq_memory_ok env \<Longrightarrow> ok" using assms(2) by (auto simp: st_kq_addlist_expand_def kq_memory_ok_def Let_def split: if_splits)
  show "kq_holds env M d'" "ok \<Longrightarrow> avail + int (length (kq_addlist d')) \<le> kq_addlist_size d'" "kq_fd_size d' = kq_fd_size d"
  proof -
    have *: "kq_holds env M d' \<and> (ok \<longrightarrow> avail + int (length (kq_addlist d')) \<le> kq_addlist_size d') \<and> kq_fd_size d' = kq_fd_size d"
    proof (cases ok)
      case True
      then have d': "d' = d\<lparr>kq_addlist_size := ?n, kq_evtlist_size := kq_evtlist_size d'\<rparr>" "kq_memory_ok env \<Longrightarrow> kq_evtlist_size d' = ?n"
        using assms(2) by (auto simp: st_kq_addlist_expand_def kq_memory_ok_def Let_def split: if_splits)
      have f: "kq_regs d' = kq_regs d" "kq_addlist d' = kq_addlist d" "kq_fd d' = kq_fd d" "kq_aborted d' = kq_aborted d" "kq_fd_size d' = kq_fd_size d"
        "kq_addlist_size d' = ?n" "kq_lost d' = kq_lost d" "kq_cnt d' = kq_cnt d" "kq_revents d' = kq_revents d" by (subst d'(1), simp)+
      have "kq_lists d'" using h(1) n by (auto simp: f kq_lists_def kq_inside_def kq_known_def)
      moreover have "kq_fit M d'" using h(4) by (simp add: kq_fit_def kq_counts_def kq_registered_def kq_known_def f)
      moreover have "kq_keeps env d'" using h(5) d'(2) by (simp add: kq_keeps_def f)
      ultimately show ?thesis using h n by (simp add: kq_holds_def kq_frame_def kq_legal_def f)
    next
      case False
      then have "d' = d" using assms(2) by (auto simp: st_kq_addlist_expand_def Let_def split: if_splits)
      then show ?thesis using assms(1) False by simp
    qed
    then show "kq_holds env M d'" "ok \<Longrightarrow> avail + int (length (kq_addlist d')) \<le> kq_addlist_size d'" "kq_fd_size d' = kq_fd_size d" by blast+
  qed
qed

lemma kq_add_holds:
  assumes "kq_holds env M d" "st_kq_pollset_add env pds d = (r, d')"
  shows "(if r = None then kq_holds env (M + pairs pds) d' else kq_holds env M d') \<and> kq_fd_size d \<le> kq_fd_size d'"
proof -
  obtain a d1 where c: "kq_check env pds d = (a, d1)" by fastforce
  note check = kq_check_ok [OF assms(1) c]
  let ?npds = "2 * int (length pds)"
  have added: ?thesis if a: "a = None" and d2: "kq_holds env M d2" "int (length (kq_addlist d2)) + ?npds \<le> kq_addlist_size d2" "kq_fd_size d2 = kq_fd_size d1"
    and rd: "r = None" "d' = fold kq_add_pd pds d2" for d2
  proof -
    have h: "kq_lists d2" "kq_legal d2 M" "\<forall>fd. kq_revents d2 fd = 0" "kq_fit M d2" "kq_keeps env d2" using d2(1) by (simp_all add: kq_holds_def kq_frame_def)
    have legal: "kq_legal d2 (pairs pds)" using check a d2(3) h(1) by (subst bad_kq_legal) (auto simp: kq_lists_def)
    then have "kq_legal d' (M + pairs pds)" using h(2) by (auto simp: rd kq_legal_def)
    then show ?thesis using add_fold_ok [OF h(4,1) d2(2) legal] h(3,5) d2(3) check
      by (simp add: rd kq_holds_def kq_frame_def kq_keeps_def)
  qed
  show ?thesis
  proof (cases a)
    case None
    show ?thesis
    proof (cases "?npds > kq_addlist_size d1 - int (length (kq_addlist d1))")
      case True
      obtain ok d2 where e: "st_kq_addlist_expand env ?npds d1 = (ok, d2)" by fastforce
      note x = kq_addlist_expand_ok [OF check [THEN conjunct1] e]
      show ?thesis
      proof (cases ok)
        case ok: True
        show ?thesis by (rule added [of d2]) (use assms(2) c None True e x ok in \<open>simp_all add: st_kq_pollset_add_def\<close>)
      next
        case False
        then show ?thesis using assms(2) c None True e x check by (auto simp: st_kq_pollset_add_def)
      qed
    next
      case False
      show ?thesis by (rule added [of d1]) (use assms(2) c None check False in \<open>simp_all add: st_kq_pollset_add_def\<close>)
    qed
  next
    case (Some e)
    then show ?thesis using assms(2) c check by (auto simp: st_kq_pollset_add_def)
  qed
qed

lemma kq_check_legal: "(\<forall>pd \<in> set pds. \<not> bad_kq_pd pd \<and> pf_fd pd < kq_fd_size d) \<Longrightarrow> kq_check env pds d = (None, d)"
  by (induction pds) auto

lemma kq_add_legal:
  assumes "kq_memory_ok env" "kq_holds env M d" "kq_legal d (pairs pds)"
  shows "fst (st_kq_pollset_add env pds d) = None"
proof -
  have "0 \<le> kq_fd_size d" using assms(2) by (simp add: kq_holds_def kq_frame_def kq_lists_def)
  from kq_check_legal [OF assms(3) [unfolded bad_kq_legal [OF this]]] have c: "kq_check env pds d = (None, d)" .
  obtain ok d2 where e: "st_kq_addlist_expand env (2 * int (length pds)) d = (ok, d2)" by fastforce
  then show ?thesis using kq_addlist_expand_ok(4) [OF assms(2) e assms(1)] c by (simp add: st_kq_pollset_add_def Let_def)
qed

subsection \<open>Waiting keeps the contract\<close>

lemma kq_readd_holds:
  assumes "kq_holds env M d" "kq_legal d (pairs (snd e))"
  shows "kq_holds env (M + pairs (snd e)) (kq_readd env e d)" "kq_fd_size d \<le> kq_fd_size (kq_readd env e d)"
proof -
  obtain r d' where a: "st_kq_pollset_add env (snd e) d = (r, d')" by fastforce
  note x = kq_add_holds [OF assms(1) a]
  show "kq_fd_size d \<le> kq_fd_size (kq_readd env e d)" using x by (simp add: kq_readd_def a)
  show "kq_holds env (M + pairs (snd e)) (kq_readd env e d)"
  proof (cases r)
    case None
    then show ?thesis using x by (simp add: kq_readd_def a)
  next
    case (Some n)
    then have h: "kq_frame M d'" "kq_keeps env d'" "kq_fd_size d \<le> kq_fd_size d'" using x by (simp_all add: kq_holds_def)
    have "\<not> kq_memory_ok env" using kq_add_legal [OF _ assms] a Some by auto
    moreover have "kq_legal d' (M + pairs (snd e))" using h(1,3) assms(2) by (fastforce simp: kq_frame_def kq_legal_def)
    ultimately show ?thesis using h(1) Some
      by (simp add: kq_readd_def a kq_holds_def kq_frame_def kq_fit_def kq_keeps_def kq_lists_def kq_inside_def kq_known_def kq_legal_def)
  qed
qed

lemma kq_readd_all:
  assumes "kq_holds env M d" "kq_legal d (interests q)"
  shows "kq_holds env (M + interests q) (fold (kq_readd env) q d)"
  using assms
proof (induction q arbitrary: M d)
  case (Cons e q)
  have i: "interests (e # q) = pairs (snd e) + interests q" by (cases e) simp
  have "kq_legal d (pairs (snd e))" "kq_legal d (interests q)" using Cons.prems(2) by (auto simp: i kq_legal_def)
  note x = kq_readd_holds [OF Cons.prems(1) this(1)]
  have "kq_legal (kq_readd env e d) (interests q)" using \<open>kq_legal d (interests q)\<close> x(2) by (fastforce simp: kq_legal_def)
  from Cons.IH [OF x(1) this] show ?case by (simp add: i ac_simps)
qed simp

lemma kq_reinit_holds:
  assumes "kq_lists d" "kq_addlist d = []" "kq_legal d (interests q)" "kq_memory_ok env \<Longrightarrow> kq_evtlist_size d = kq_addlist_size d"
  shows "kq_holds env (interests q) (kq_reinit env w kq q d)"
proof -
  let ?d = "d\<lparr>kq_fd := kq, kq_pid := kw_pid w, kq_regs := {}, kq_cnt := (\<lambda>_ _. 0), kq_revents := (\<lambda>_. 0), kq_lost := False\<rparr>"
  have "kq_holds env {#} ?d" using assms(1,2,4)
    by (simp add: kq_holds_def kq_frame_def kq_fit_def kq_keeps_def kq_counts_def kq_registered_def kq_lists_def kq_inside_def kq_known_def kq_legal_def)
  from kq_readd_all [OF this, of q] assms(3) show ?thesis by (simp add: kq_reinit_def kq_legal_def)
qed

text \<open>After the call: the list of changes is empty, and what is counted is registered or reported.\<close>

definition kq_after :: "kevent list \<Rightarrow> kqdata \<Rightarrow> bool" where
  "kq_after evs d \<longleftrightarrow> kq_inside d (kq_pairs evs) \<and> (kq_lost d \<or> (\<forall>f fd. kq_cnt d f fd \<noteq> 0 \<longrightarrow> (fd, f) \<in> kq_regs d \<or> (fd, f) \<in> kq_pairs evs))"

lemma kq_call_ok:
  assumes "kq_kernel_ok env" "kq_holds env M d" "kq_call env w d = (r, d')"
  shows "kq_frame M d'" "kq_lost d' \<or> kq_counts M d'" "kq_keeps env d'" "kq_addlist d' = []" "kq_fd d' = kq_fd d" "kq_pid d' = kq_pid d"
    "if 0 \<le> kq_fd d \<and> kq_pid d = kw_pid w then (case r of Inl e \<Rightarrow> kq_after [] d' | Inr evs \<Rightarrow> kq_after evs d') else r = Inl EBADF"
proof -
  let ?own = "0 \<le> kq_fd d \<and> kq_pid d = kw_pid w"
  have h: "kq_lists d" "kq_legal d M" "\<forall>fd. kq_revents d fd = 0" "kq_fit M d" "kq_keeps env d" using assms(2) by (simp_all add: kq_holds_def kq_frame_def)
  obtain regs where k: "kq_wait env (kw_world w) ?own (kq_regs d) (kq_addlist d) (kq_evtlist_size d) = (r, regs)"
    and d': "d' = d\<lparr>kq_regs := regs, kq_addlist := [], kq_lost := kq_lost d \<or> kq_evtlist_size d < int (length (kq_addlist d))\<rparr>"
    using assms(3) by (auto simp: kq_call_def split: prod.splits)
  have l: "\<forall>e \<in> set (kq_addlist d). kev_flags e = EV_ADD OR EV_ONESHOT" "int (length (kq_addlist d)) \<le> kq_addlist_size d" using h(1) by (simp_all add: kq_lists_def)
  have "kq_wait_doc env (kw_world w) ?own (kq_regs d) (kq_addlist d) (kq_evtlist_size d)" using assms(1) l(1) unfolding kq_kernel_ok_def by blast
  then have doc: "regs \<subseteq> kq_known d" "if \<not> ?own then r = Inl EBADF
      else (case r of Inl e \<Rightarrow> kq_lost d' \<or> kq_known d \<subseteq> regs | Inr evs \<Rightarrow> kq_pairs evs \<subseteq> kq_known d \<and> (kq_lost d' \<or> kq_known d \<subseteq> regs \<union> kq_pairs evs))"
    unfolding kq_wait_doc_def k prod.case kq_known_def by (auto simp: d' split: if_splits sum.splits)
  have inside: "kq_inside d' R" if "R \<subseteq> kq_known d" for R using kq_inside_mono [of d "kq_known d" d' R] h(1) that by (simp add: kq_lists_def d')
  then have "kq_inside d' (kq_known d')" using doc(1) by (simp add: kq_known_def d')
  then have "kq_lists d'" using h(1) by (simp add: kq_lists_def d')
  then show "kq_frame M d'" using h(2,3) by (simp add: kq_frame_def d' kq_legal_def)
  show "kq_lost d' \<or> kq_counts M d'" "kq_addlist d' = []" "kq_fd d' = kq_fd d" "kq_pid d' = kq_pid d"
    using h(4) by (auto simp: d' kq_counts_def kq_fit_def)
  show "kq_keeps env d'" using h(5) l(2) by (auto simp: kq_keeps_def d')
  show "if ?own then (case r of Inl e \<Rightarrow> kq_after [] d' | Inr evs \<Rightarrow> kq_after evs d') else r = Inl EBADF"
  proof (cases ?own)
    case True
    have reg: "kq_lost d' \<or> (\<forall>f fd. kq_cnt d f fd \<noteq> 0 \<longrightarrow> (fd, f) \<in> kq_known d)" using h(4) True by (auto simp: kq_fit_def kq_registered_def d')
    have cnt: "kq_cnt d' = kq_cnt d" "kq_regs d' = regs" by (simp_all add: d')
    show ?thesis
    proof (cases r)
      case (Inl e)
      then have "kq_lost d' \<or> kq_known d \<subseteq> regs" using doc(2) True by auto
      then show ?thesis using Inl True reg inside [of "{}"] by (auto simp: kq_after_def cnt)
    next
      case (Inr evs)
      then have "kq_pairs evs \<subseteq> kq_known d" "kq_lost d' \<or> kq_known d \<subseteq> regs \<union> kq_pairs evs" using doc(2) True by auto
      moreover from this reg have "kq_lost d' \<or> (\<forall>f fd. kq_cnt d f fd \<noteq> 0 \<longrightarrow> (fd, f) \<in> regs \<or> (fd, f) \<in> kq_pairs evs)" by blast
      ultimately show ?thesis using Inr True inside by (simp add: kq_after_def cnt)
    qed
  next
    case False
    then have "r = Inl EBADF" using doc(2) by (simp split: if_splits)
    then show ?thesis unfolding if_not_P [OF False] .
  qed
qed

subsection \<open>Dispatching keeps the contract\<close>

lemma kq_mark_fields [simp]:
  "kq_cnt (fold kq_mark evs d) = kq_cnt d" "kq_regs (fold kq_mark evs d) = kq_regs d" "kq_addlist (fold kq_mark evs d) = kq_addlist d"
  "kq_fd_size (fold kq_mark evs d) = kq_fd_size d" "kq_addlist_size (fold kq_mark evs d) = kq_addlist_size d"
  "kq_evtlist_size (fold kq_mark evs d) = kq_evtlist_size d" "kq_fd (fold kq_mark evs d) = kq_fd d" "kq_aborted (fold kq_mark evs d) = kq_aborted d"
  "kq_lost (fold kq_mark evs d) = kq_lost d"
  by (induction evs arbitrary: d) (simp_all add: kq_mark_def Let_def)

text \<open>What is marked for a descriptor: a bit for each filter that reports it, and for the errors that are reported.\<close>

definition flag :: "int \<Rightarrow> bool \<Rightarrow> int" where
  "flag b P = (if P then b else 0)"

lemma flag_simps [simp]: "flag b True = b" "flag b False = 0"
  by (simp_all add: flag_def)

lemma flag_or: "flag b (P \<or> Q) = flag b P OR flag b Q"
  by (simp add: flag_def)

definition kq_error :: "kevent list \<Rightarrow> bool \<Rightarrow> int \<Rightarrow> bool" where
  "kq_error evs bad fd \<longleftrightarrow> (\<exists>e \<in> set evs. kev_ident e = fd \<and> kev_flags e AND EV_ERROR \<noteq> 0 \<and> (kev_data e = EBADF_NUMBER \<longleftrightarrow> bad))"

definition kq_marks :: "kevent list \<Rightarrow> int \<Rightarrow> int" where
  "kq_marks evs fd = flag (poll_bit KREAD) ((fd, EVFILT_READ) \<in> kq_pairs evs) OR flag (poll_bit KWRITE) ((fd, EVFILT_WRITE) \<in> kq_pairs evs) OR
     flag POLLNVAL (kq_error evs True fd) OR flag POLLERR (kq_error evs False fd)"

lemma kq_error_simps [simp]:
  "kq_error [] bad fd = False"
  "kq_error (e # evs) bad fd \<longleftrightarrow> (kev_ident e = fd \<and> kev_flags e AND EV_ERROR \<noteq> 0 \<and> (kev_data e = EBADF_NUMBER \<longleftrightarrow> bad)) \<or> kq_error evs bad fd"
  by (auto simp: kq_error_def)

lemma kq_marks_Cons: "kq_marks (e # evs) fd = kq_marks [e] fd OR kq_marks evs fd"
  unfolding kq_marks_def kq_pairs_simps insert_iff kq_error_simps flag_or empty_iff simp_thms flag_simps by (simp add: ac_simps)

lemma kq_mark_marks: "kq_revents (kq_mark e d) fd = kq_revents d fd OR kq_marks [e] fd"
  by (cases "kev_filter e") (auto simp: kq_mark_def kq_marks_def Let_def or.assoc)

lemma kq_fold_marks: "kq_revents (fold kq_mark evs d) fd = kq_revents d fd OR kq_marks evs fd"
proof (induction evs arbitrary: d)
  case (Cons e evs)
  have "kq_revents (fold kq_mark (e # evs) d) fd = (kq_revents d fd OR kq_marks [e] fd) OR kq_marks evs fd" by (simp add: Cons.IH kq_mark_marks)
  then show ?case by (simp only: kq_marks_Cons [of e evs] or.assoc)
qed (simp add: kq_marks_def)

lemma kq_marks_none: "fd \<notin> kev_ident ` set evs \<Longrightarrow> kq_marks evs fd = 0"
  by (force simp: kq_marks_def kq_pairs_def kq_error_def flag_def)

text \<open>What is filled in for a descriptor, and when that is something.\<close>

definition kq_fires :: "kevent list \<Rightarrow> pollfd \<Rightarrow> bool" where
  "kq_fires evs pd \<longleftrightarrow> (\<exists>f. asks (filter_kind f) pd \<and> (pf_fd pd, f) \<in> kq_pairs evs) \<or> (\<exists>bad. kq_error evs bad (pf_fd pd))"

definition kq_answer :: "kevent list \<Rightarrow> pollfd \<Rightarrow> pollfd" where
  "kq_answer evs pd = pd\<lparr>pf_revents := flag (poll_bit KREAD) (asks KREAD pd \<and> (pf_fd pd, EVFILT_READ) \<in> kq_pairs evs) OR
     flag (poll_bit KWRITE) (asks KWRITE pd \<and> (pf_fd pd, EVFILT_WRITE) \<in> kq_pairs evs) OR
     flag POLLNVAL (kq_error evs True (pf_fd pd)) OR flag POLLERR (kq_error evs False (pf_fd pd))\<rparr>"

lemma all_filters: "(\<exists>f. P f) \<longleftrightarrow> P EVFILT_READ \<or> P EVFILT_WRITE"
  by (metis kfilter.exhaust)

lemma kq_fill_answer: "kq_fill (kq_marks evs) pd = kq_answer evs pd"
proof -
  have "\<exists>A B C D. kq_marks evs (pf_fd pd) = flag 1 A OR flag 4 B OR flag POLLNVAL C OR flag POLLERR D \<and>
      A = ((pf_fd pd, EVFILT_READ) \<in> kq_pairs evs) \<and> B = ((pf_fd pd, EVFILT_WRITE) \<in> kq_pairs evs) \<and>
      C = kq_error evs True (pf_fd pd) \<and> D = kq_error evs False (pf_fd pd)" by (simp add: kq_marks_def)
  then obtain A B C D where m: "kq_marks evs (pf_fd pd) = flag 1 A OR flag 4 B OR flag POLLNVAL C OR flag POLLERR D"
    and p: "((pf_fd pd, EVFILT_READ) \<in> kq_pairs evs) = A" "((pf_fd pd, EVFILT_WRITE) \<in> kq_pairs evs) = B"
      "kq_error evs True (pf_fd pd) = C" "kq_error evs False (pf_fd pd) = D" by blast
  show ?thesis unfolding kq_fill_def kq_answer_def m p Let_def
    by (cases A; cases B; cases C; cases D) (simp_all add: POLLNVAL_def POLLERR_def flag_def)
qed

lemma kq_answer_fires: "pf_revents (kq_answer evs pd) \<noteq> 0 \<longleftrightarrow> kq_fires evs pd"
proof -
  have "(\<exists>bad. P bad) \<longleftrightarrow> P True \<or> P False" for P by (metis (full_types))
  then show ?thesis by (auto simp: kq_answer_def kq_fires_def all_filters or_eq_0_iff flag_def POLLNVAL_def POLLERR_def)
qed

lemma kq_answer_none: "\<not> kq_fires evs pd \<Longrightarrow> kq_answer evs pd = pd\<lparr>pf_revents := 0\<rparr>"
  using kq_answer_fires [of evs pd] by (simp add: kq_answer_def)

lemma kq_fill_keeps [simp]: "keeps_pollfd (kq_fill F)"
  by (simp add: keeps_pollfd_def kq_fill_def Let_def)

lemma kq_answer_keeps [simp]: "keeps_pollfd (kq_answer evs)"
  by (simp add: keeps_pollfd_def kq_answer_def)

text \<open>The round over the queue: what leaves and stays, and what it changes; the counts follow when they were right.\<close>

lemma kq_notify_ok:
  assumes "kq_deleting d"
  shows "\<exists>d'. kq_notify env q d = (stays (Some (kq_fill (kq_revents d))) q, leaves (Some (kq_fill (kq_revents d))) q, d') \<and> kq_deleting d' \<and>
    d' = d\<lparr>kq_cnt := kq_cnt d', kq_dellist := kq_dellist d', kq_dellist_size := kq_dellist_size d'\<rparr> \<and>
    (\<forall>M. kq_counts (M + interests q) d \<and> kq_doomed d \<longrightarrow> kq_counts (M + interests (stays (Some (kq_fill (kq_revents d))) q)) d' \<and> kq_doomed d')"
  using assms
proof (induction q arbitrary: d)
  case Nil
  then show ?case by (simp add: filled_def)
next
  case (Cons e q)
  obtain t pds where e: "e = (t, pds)" by fastforce
  let ?f = "kq_fill (kq_revents d)"
  let ?fds = "map ?f pds"
  show ?case
  proof (cases "ready_pds ?fds")
    case True
    let ?d = "fold (kq_del_pd env (kq_revents d)) ?fds d"
    have rev: "kq_revents ?d = kq_revents d" by simp
    have kept: "?d = d\<lparr>kq_cnt := kq_cnt ?d, kq_dellist := kq_dellist ?d, kq_dellist_size := kq_dellist_size ?d\<rparr>"
      by (rule kqdata.equality) simp_all
    from Cons.IH [OF del_fold_deleting [OF Cons.prems, of env "kq_revents d" ?fds]] obtain d' where
      d': "kq_notify env q ?d = (stays (Some ?f) q, leaves (Some ?f) q, d')" "kq_deleting d'"
        "d' = ?d\<lparr>kq_cnt := kq_cnt d', kq_dellist := kq_dellist d', kq_dellist_size := kq_dellist_size d'\<rparr>"
        "\<And>M. kq_counts (M + interests q) ?d \<Longrightarrow> kq_doomed ?d \<Longrightarrow> kq_counts (M + interests (stays (Some ?f) q)) d' \<and> kq_doomed d'" unfolding rev by blast
    have parts: "stays (Some ?f) (e # q) = stays (Some ?f) q" "leaves (Some ?f) (e # q) = (t, ?fds) # leaves (Some ?f) q"
      using True by (simp_all add: e filled_def)
    have "kq_notify env (e # q) d = (stays (Some ?f) q, (t, ?fds) # leaves (Some ?f) q, d')" using True d'(1) by (simp add: e Let_def)
    moreover have "d' = d\<lparr>kq_cnt := kq_cnt d', kq_dellist := kq_dellist d', kq_dellist_size := kq_dellist_size d'\<rparr>"
      by (rule trans [OF d'(3)], subst kept) simp
    moreover have "kq_counts (M + interests (stays (Some ?f) q)) d' \<and> kq_doomed d'" if "kq_counts (M + interests (e # q)) d" "kq_doomed d" for M
    proof -
      have "kq_counts ((M + interests q) + pairs ?fds) d" using that(1) by (simp add: e ac_simps)
      from kq_del_fold_ok [OF this that(2)] show ?thesis using d'(4) by blast
    qed
    ultimately show ?thesis unfolding parts using d'(2) by blast
  next
    case False
    from Cons.IH [OF Cons.prems] obtain d' where
      d': "kq_notify env q d = (stays (Some ?f) q, leaves (Some ?f) q, d')" "kq_deleting d'"
        "d' = d\<lparr>kq_cnt := kq_cnt d', kq_dellist := kq_dellist d', kq_dellist_size := kq_dellist_size d'\<rparr>"
        "\<And>M. kq_counts (M + interests q) d \<Longrightarrow> kq_doomed d \<Longrightarrow> kq_counts (M + interests (stays (Some ?f) q)) d' \<and> kq_doomed d'" by blast
    have parts: "stays (Some ?f) (e # q) = (t, ?fds) # stays (Some ?f) q" "leaves (Some ?f) (e # q) = leaves (Some ?f) q"
      using False by (simp_all add: e filled_def)
    have "kq_notify env (e # q) d = ((t, ?fds) # stays (Some ?f) q, leaves (Some ?f) q, d')" using False d'(1) by (simp add: e Let_def)
    moreover have "kq_counts (M + interests ((t, ?fds) # stays (Some ?f) q)) d' \<and> kq_doomed d'" if "kq_counts (M + interests (e # q)) d" "kq_doomed d" for M
      using d'(4) [of "M + pairs pds"] that by (simp add: e ac_simps)
    ultimately show ?thesis unfolding parts using d'(2,3) by blast
  qed
qed

lemma clear_fields [simp]:
  "kq_cnt (fold kq_clear evs d) = kq_cnt d" "kq_regs (fold kq_clear evs d) = kq_regs d" "kq_addlist (fold kq_clear evs d) = kq_addlist d"
  "kq_fd_size (fold kq_clear evs d) = kq_fd_size d" "kq_addlist_size (fold kq_clear evs d) = kq_addlist_size d"
  "kq_evtlist_size (fold kq_clear evs d) = kq_evtlist_size d" "kq_fd (fold kq_clear evs d) = kq_fd d" "kq_aborted (fold kq_clear evs d) = kq_aborted d"
  "kq_lost (fold kq_clear evs d) = kq_lost d"
  "kq_revents (fold kq_clear evs d) fd = (if fd \<in> kev_ident ` set evs then 0 else kq_revents d fd)"
  by (induction evs arbitrary: d) (auto simp: kq_clear_def)

definition kq_filled :: "kevent list \<Rightarrow> (pollfd \<Rightarrow> pollfd) option" where
  "kq_filled evs = (if evs = [] then None else Some (kq_answer evs))"

lemma stays_not_reported:
  assumes "kq_counts (interests (stays (Some (kq_answer evs)) q)) d" "kq_cnt d f fd \<noteq> 0"
  shows "(fd, f) \<notin> kq_pairs evs"
proof
  assume F: "(fd, f) \<in> kq_pairs evs"
  have "0 < wanted (interests (stays (Some (kq_answer evs)) q)) (filter_kind f) fd" using assms by (simp add: kq_counts_def)
  then obtain e pd where e: "e \<in> set (stays (Some (kq_answer evs)) q)" "pd \<in> set (snd e)" "pf_fd pd = fd" "asks (filter_kind f) pd"
    unfolding wanted_iff by blast
  then obtain pd' where pd': "pd = kq_answer evs pd'" by (auto simp: filled_def)
  have keep: "pf_fd pd = pf_fd pd'" "asks k pd = asks k pd'" for k
    using kq_answer_keeps [of evs] by (simp_all add: pd' keeps_pollfd_def asks_def)
  have "asks (filter_kind f) pd' \<and> (pf_fd pd', f) \<in> kq_pairs evs" using e(3,4) F keep by simp
  then have "kq_fires evs pd'" unfolding kq_fires_def by (intro disjI1 exI)
  then have "pf_revents pd \<noteq> 0" unfolding pd' kq_answer_fires .
  then show False using e(1,2) by (auto simp: ready_pds_def list_ex_iff)
qed

lemma kq_events_holds:
  assumes "kq_kernel_ok env" "kq_frame (interests q) d" "kq_lost d \<or> kq_counts (interests q) d" "kq_keeps env d" "kq_addlist d = []" "kq_after evs d"
  shows "\<exists>d'. kq_events env evs q d = (stays (kq_filled evs) q, leaves (kq_filled evs) q, d') \<and> kq_holds env (interests (stays (kq_filled evs) q)) d'"
proof (cases "evs = []")
  case True
  with assms(2-6) show ?thesis
    by (auto simp: kq_events_def kq_filled_def kq_holds_def kq_fit_def kq_after_def kq_registered_def kq_known_def)
next
  case False
  let ?m = "(fold kq_mark evs d)\<lparr>kq_dellist := []\<rparr>" and ?M = "interests (stays (kq_filled evs) q)"
  have a: "kq_lists d" "kq_legal d (interests q)" "\<forall>fd. kq_revents d fd = 0" using assms(2) by (simp_all add: kq_frame_def)
  have "kq_revents ?m fd = kq_marks evs fd" for fd using a(3) by (simp add: kq_fold_marks)
  then have F: "kq_revents ?m = kq_marks evs" by blast
  have "kq_fill (kq_marks evs) = kq_answer evs" by (rule ext) (rule kq_fill_answer)
  then have f: "kq_filled evs = Some (kq_fill (kq_revents ?m))" unfolding F using False by (simp add: kq_filled_def)
  have "kq_deleting ?m" by (simp add: kq_deleting_def)
  from kq_notify_ok [OF this, of env q] obtain d1 where
    d1: "kq_notify env q ?m = (stays (kq_filled evs) q, leaves (kq_filled evs) q, d1)" "kq_deleting d1"
      "d1 = ?m\<lparr>kq_cnt := kq_cnt d1, kq_dellist := kq_dellist d1, kq_dellist_size := kq_dellist_size d1\<rparr>"
      "kq_counts ({#} + interests q) ?m \<and> kq_doomed ?m \<longrightarrow> kq_counts ({#} + ?M) d1 \<and> kq_doomed d1" unfolding f by blast
  have f1: "kq_regs d1 = kq_regs d" "kq_addlist d1 = kq_addlist d" "kq_revents d1 = kq_revents ?m" "kq_fd_size d1 = kq_fd_size d" "kq_addlist_size d1 = kq_addlist_size d"
    "kq_evtlist_size d1 = kq_evtlist_size d" "kq_fd d1 = kq_fd d" "kq_aborted d1 = kq_aborted d" "kq_lost d1 = kq_lost d" by (subst d1(3), simp)+
  let ?e = "fold kq_clear evs (kq_flush env d1)"
  have ev: "kq_events env evs q d = (stays (kq_filled evs) q, leaves (kq_filled evs) q, ?e)" using False d1(1) by (simp add: kq_events_def Let_def)
  note fl = kq_flush_regs [OF assms(1) d1(2), unfolded f1]
  have parts: "interests q = ?M + interests (leaves (kq_filled evs) q)" by (rule interests_parts) (auto simp: kq_filled_def split: if_splits)
  have "kq_fit ?M ?e"
  proof (cases "kq_lost d")
    case False
    then have c: "kq_counts (interests q) d" "\<And>f fd. kq_cnt d f fd \<noteq> 0 \<Longrightarrow> (fd, f) \<in> kq_regs d \<or> (fd, f) \<in> kq_pairs evs"
      using assms(3,6) by (simp_all add: kq_after_def)
    then have "kq_counts ({#} + interests q) ?m" "kq_doomed ?m" by (simp_all add: kq_counts_def kq_doomed_def)
    with d1(4) have d: "kq_counts ?M d1" "kq_doomed d1" by simp_all
    have "(fd, f) \<in> kq_known ?e" if n: "kq_cnt d1 f fd \<noteq> 0" for f fd
    proof -
      have "(fd, f) \<notin> kq_pairs evs" using stays_not_reported [of evs q d1] d(1) n \<open>evs \<noteq> []\<close> by (simp add: kq_filled_def)
      moreover have "kq_cnt d f fd \<noteq> 0" using n d(1) c(1) by (simp add: kq_counts_def parts wanted_sum)
      ultimately have "(fd, f) \<in> kq_regs d" using c(2) by blast
      from fl(2) [OF d(2) this n] show ?thesis by (simp add: kq_known_def)
    qed
    then have "kq_registered ?e" by (simp add: kq_registered_def)
    then show ?thesis using d(1) by (simp add: kq_fit_def kq_counts_def)
  qed (simp add: kq_fit_def f1)
  moreover have "kq_inside ?e (kq_known ?e)"
    using a(1) assms(5) fl(1) by (intro kq_inside_mono [of d "kq_known d" ?e]) (auto simp: kq_lists_def kq_known_def f1)
  then have "kq_lists ?e" using a(1) assms(5) by (simp add: kq_lists_def f1)
  moreover have "kq_revents ?e fd = 0" for fd using kq_marks_none [of fd evs] by (simp add: f1 F)
  moreover have "kq_legal ?e ?M" using a(2) by (auto simp: kq_legal_def parts f1)
  ultimately have "kq_holds env ?M ?e" using assms(4) by (simp add: kq_holds_def kq_frame_def kq_keeps_def f1)
  then show ?thesis using ev by blast
qed

text \<open>What the kernel reports to a dispatch: in the first call, or in the second when the process has forked.\<close>

definition kq_reported :: "'w kq_env \<Rightarrow> 'w kq_world \<Rightarrow> pollq list \<Rightarrow> kqdata \<Rightarrow> kevent list" where
  "kq_reported env w q d = (case kq_call env w d of
     (Inr evs, d) \<Rightarrow> evs
   | (Inl e, d) \<Rightarrow>
       if e = EBADF \<and> kq_pid d \<noteq> kw_pid w then
         (case kw_queue w of None \<Rightarrow> []
          | Some kq \<Rightarrow> (case fst (kq_call env w (kq_reinit env w kq q d)) of Inr evs \<Rightarrow> evs | Inl e \<Rightarrow> []))
       else [])"

abbreviation kq_fills :: "'w kq_env \<Rightarrow> 'w kq_world \<Rightarrow> pollq list \<Rightarrow> kqdata \<Rightarrow> (pollfd \<Rightarrow> pollfd) option" where
  "kq_fills env w q d \<equiv> kq_filled (kq_reported env w q d)"

lemma kq_filled_none [simp]: "kq_filled [] = None"
  by (simp add: kq_filled_def)

lemma kq_same_process:
  assumes "kq_kernel_ok env" "kq_holds env (interests q) d" "kq_pid d = kw_pid w"
  shows "\<exists>d'. st_kq_dispatch env w q d = (stays (kq_fills env w q d) q, leaves (kq_fills env w q d) q, d') \<and>
    kq_holds env (interests (stays (kq_fills env w q d) q)) d'"
proof -
  obtain r d1 where c: "kq_call env w d = (r, d1)" by fastforce
  note k = kq_call_ok [OF assms(1,2) c]
  show ?thesis
  proof (cases r)
    case (Inr evs)
    then have "kq_after evs d1" using k(7) by (auto split: if_splits)
    from kq_events_holds [OF assms(1) k(1-4) this] show ?thesis
      using c Inr by (subst st_kq_dispatch.simps) (simp add: kq_reported_def)
  next
    case (Inl e)
    have "kq_lost d1 \<or> kq_registered d1" using k(5,7) Inl assms(3) by (auto simp: kq_registered_def kq_after_def kq_known_def split: if_splits)
    then have "kq_holds env (interests q) d1" using k(1-3) by (auto simp: kq_holds_def kq_fit_def)
    then show ?thesis using c Inl assms(3) k(6) by (subst st_kq_dispatch.simps) (simp add: kq_reported_def)
  qed
qed

lemma kq_dispatch_holds:
  assumes "kq_kernel_ok env" "kq_holds env (interests q) d"
  shows "\<exists>d'. st_kq_dispatch env w q d = (stays (kq_fills env w q d) q, leaves (kq_fills env w q d) q, d') \<and>
    kq_holds env (interests (stays (kq_fills env w q d) q)) d'"
proof (cases "kq_pid d = kw_pid w")
  case True
  then show ?thesis by (rule kq_same_process [OF assms])
next
  case False
  obtain r d1 where c: "kq_call env w d = (r, d1)" by fastforce
  note k = kq_call_ok [OF assms c]
  have r: "r = Inl EBADF" using k(7) False by simp
  show ?thesis
  proof (cases "kw_queue w")
    case None
    have "kq_holds env (interests q) (d1\<lparr>kq_fd := - 1\<rparr>)" using k(1-3)
      by (auto simp: kq_holds_def kq_frame_def kq_fit_def kq_keeps_def kq_counts_def kq_registered_def kq_lists_def kq_inside_def kq_known_def kq_legal_def)
    then show ?thesis using c r False k(6) None by (subst st_kq_dispatch.simps) (simp add: kq_reported_def)
  next
    case (Some kq)
    let ?d = "kq_reinit env w kq q d1"
    have "kq_lists d1" "kq_legal d1 (interests q)" "kq_memory_ok env \<Longrightarrow> kq_evtlist_size d1 = kq_addlist_size d1"
      using k(1,3) by (simp_all add: kq_frame_def kq_keeps_def)
    from kq_reinit_holds [OF this(1) k(4) this(2,3)] have "kq_holds env (interests q) ?d" .
    from kq_same_process [OF assms(1) this, of w] obtain d' where
      d': "st_kq_dispatch env w q ?d = (stays (kq_fills env w q ?d) q, leaves (kq_fills env w q ?d) q, d')" "kq_holds env (interests (stays (kq_fills env w q ?d) q)) d'"
      by auto
    have "st_kq_dispatch env w q d = st_kq_dispatch env w q ?d" using c r False k(6) Some by (subst st_kq_dispatch.simps) simp
    moreover obtain r2 d2 where c2: "kq_call env w ?d = (r2, d2)" by fastforce
    then have "kq_pid d2 = kw_pid w" by (auto simp: kq_call_def split: prod.splits)
    then have "kq_reported env w q d = kq_reported env w q ?d"
      using c c2 r False k(6) Some by (simp add: kq_reported_def split: sum.split)
    ultimately show ?thesis using d' by simp
  qed
qed

lemma kq_event_system:
  assumes "kq_kernel_ok env"
  shows "event_system (st_kq_eventsys env) (kq_holds env) (kq_fills env)"
proof
  fix M d pds d'
  assume "kq_holds env M d" "es_pollset_add (st_kq_eventsys env) pds d = (None, d')"
  then show "kq_holds env (M + pairs pds) d'" using kq_add_holds [of env M d pds None d'] by (simp add: st_kq_eventsys_def)
next
  fix M d pds e d'
  assume "kq_holds env M d" "es_pollset_add (st_kq_eventsys env) pds d = (Some e, d')"
  then show "kq_holds env M d'" using kq_add_holds [of env M d pds "Some e" d'] by (simp add: st_kq_eventsys_def)
next
  fix M pds d
  assume "kq_holds env (M + pairs pds) d"
  then show "kq_holds env M (es_pollset_del (st_kq_eventsys env) pds d)" using kq_del_holds [OF assms(1)] by (simp add: st_kq_eventsys_def)
next
  fix q d w
  assume "kq_holds env (interests q) d"
  then show "\<exists>d'. es_dispatch (st_kq_eventsys env) w q d = (stays (kq_fills env w q d) q, leaves (kq_fills env w q d) q, d') \<and>
      kq_holds env (interests (stays (kq_fills env w q d) q)) d'" using kq_dispatch_holds [OF assms] by (simp add: st_kq_eventsys_def)
qed

subsection \<open>Everything that is polled is registered\<close>

lemma kq_polled:
  assumes "kq_counts (interests q) d" "kq_legal d (interests q)"
  shows "st_kq_fd_close fd d = Some EBUSY \<longleftrightarrow> (\<exists>e \<in> set q. \<exists>pd \<in> set (snd e). pf_fd pd = fd)"
    "e \<in> set q \<Longrightarrow> pd \<in> set (snd e) \<Longrightarrow> asks (filter_kind f) pd \<Longrightarrow> kq_cnt d f (pf_fd pd) \<noteq> 0"
proof -
  have h: "\<And>f fd. kq_cnt d f fd = int (wanted (interests q) (filter_kind f) fd)" using assms(1) by (simp add: kq_counts_def)
  have asked: "\<exists>f. asks (filter_kind f) pd" if "e \<in> set q" "pd \<in> set (snd e)" for e pd
  proof -
    have "(pf_fd pd, pf_events pd) \<in># interests q" using that by (force simp: interests_def)
    then have "pf_events pd \<noteq> 0" "pf_events pd AND NOT 5 = 0" using assms(2) by (auto simp: kq_legal_def)
    from legal_kq_asks [OF this] show ?thesis by (simp add: asks_def)
  qed
  have "st_kq_fd_close fd d = Some EBUSY \<longleftrightarrow> (\<exists>f. 0 < wanted (interests q) (filter_kind f) fd)"
    unfolding st_kq_fd_close_def h all_filters by simp
  then show "st_kq_fd_close fd d = Some EBUSY \<longleftrightarrow> (\<exists>e \<in> set q. \<exists>pd \<in> set (snd e). pf_fd pd = fd)"
    unfolding wanted_iff using asked by blast
  show "kq_cnt d f (pf_fd pd) \<noteq> 0" if "e \<in> set q" "pd \<in> set (snd e)" "asks (filter_kind f) pd"
    using wanted_iff [of q "filter_kind f" "pf_fd pd"] that by (auto simp: h)
qed

lemma wanted_polls: "wanted (interests (vp_pollq v)) k fd = length (filter (\<lambda>pd. pf_fd pd = fd \<and> asks k pd) (concat (map (poll_fds v) (io_q v))))"
proof -
  have "wanted (mset (map (\<lambda>pd. (pf_fd pd, pf_events pd)) l)) k fd = length (filter (\<lambda>pd. pf_fd pd = fd \<and> asks k pd) l)" for l
    by (induction l) (simp_all add: asks_def)
  moreover have "map snd (vp_pollq v) = map (poll_fds v) (io_q v)" by (simp add: vp_pollq_def)
  ultimately show ?thesis by (simp add: interests_def)
qed

text \<open>
  C12: In every state that the scheduler reaches with the kqueue event system, whatever threads poll, wait, time out, are refused or
  interrupted, whatever \<open>kevent\<close> reports, whichever allocations fail and however often the process forks: the assertion of the list of changes
  never fails, the list never outgrows its memory, and no descriptor lies outside the array.  Unless a registration was lost since
  the last fork because memory was short, which does not happen while the lists of changes and events can grow: each counter is exactly the number of descriptors
  that are polled for its event; closing a descriptor is refused exactly while some thread polls it; and each event that some
  thread in the io queue asks for is registered with the kernel or in the list that goes to it with the next wait, or there is no
  queue because \<open>kqueue\<close> failed after a fork.
\<close>

theorem kqueue_covers_polls:
  assumes "kq_kernel_ok env" "st_kq_init True kq pid True True True True = Some d0" "io_reachable (st_kq_eventsys env) d0 (v, d)"
  shows "\<not> kq_aborted d \<and> int (length (kq_addlist d)) \<le> kq_addlist_size d \<and> (\<forall>x \<in> kq_known d. 0 \<le> fst x \<and> fst x < kq_fd_size d) \<and>
    (kq_memory_ok env \<longrightarrow> \<not> kq_lost d) \<and>
    (\<not> kq_lost d \<longrightarrow>
      (\<forall>f fd. kq_cnt d f fd = int (length (filter (\<lambda>pd. pf_fd pd = fd \<and> asks (filter_kind f) pd) (concat (map (poll_fds v) (io_q v)))))) \<and>
      (\<forall>fd. st_kq_fd_close fd d = Some EBUSY \<longleftrightarrow> (\<exists>t \<in> set (io_q v). \<exists>pd \<in> set (poll_fds v t). pf_fd pd = fd)) \<and>
      (kq_fd d < 0 \<or> (\<forall>t \<in> set (io_q v). \<forall>pd \<in> set (poll_fds v t). \<forall>f. asks (filter_kind f) pd \<longrightarrow> (pf_fd pd, f) \<in> kq_known d)))"
proof -
  from event_system.reachable_fits [OF kq_event_system [OF assms(1)] assms(3) kq_init_holds [OF assms(2)]]
  have h: "kq_frame (interests (vp_pollq v)) d" "kq_fit (interests (vp_pollq v)) d" "kq_keeps env d" by (simp_all add: fits_def kq_holds_def)
  have l: "\<not> kq_aborted d" "int (length (kq_addlist d)) \<le> kq_addlist_size d" "\<forall>x \<in> kq_known d. 0 \<le> fst x \<and> fst x < kq_fd_size d"
    "kq_legal d (interests (vp_pollq v))" using h(1) by (simp_all add: kq_frame_def kq_lists_def kq_inside_def)
  have q: "(\<exists>e \<in> set (vp_pollq v). \<exists>pd \<in> set (snd e). P pd) \<longleftrightarrow> (\<exists>t \<in> set (io_q v). \<exists>pd \<in> set (poll_fds v t). P pd)" for P
    by (auto simp: vp_pollq_def)
  have exact: "(\<forall>f fd. kq_cnt d f fd = int (length (filter (\<lambda>pd. pf_fd pd = fd \<and> asks (filter_kind f) pd) (concat (map (poll_fds v) (io_q v)))))) \<and>
      (\<forall>fd. st_kq_fd_close fd d = Some EBUSY \<longleftrightarrow> (\<exists>t \<in> set (io_q v). \<exists>pd \<in> set (poll_fds v t). pf_fd pd = fd)) \<and>
      (kq_fd d < 0 \<or> (\<forall>t \<in> set (io_q v). \<forall>pd \<in> set (poll_fds v t). \<forall>f. asks (filter_kind f) pd \<longrightarrow> (pf_fd pd, f) \<in> kq_known d))" if "\<not> kq_lost d"
  proof -
    have c: "kq_counts (interests (vp_pollq v)) d" "kq_registered d" using h(2) that by (simp_all add: kq_fit_def)
    have e: "(t, poll_fds v t) \<in> set (vp_pollq v)" if "t \<in> set (io_q v)" for t using that by (simp add: vp_pollq_def)
    have "kq_cnt d f (pf_fd pd) \<noteq> 0" if "t \<in> set (io_q v)" "pd \<in> set (poll_fds v t)" "asks (filter_kind f) pd" for t pd f
      using kq_polled(2) [OF c(1) l(4) e [OF that(1)]] that by simp
    then have "kq_fd d < 0 \<or> (\<forall>t \<in> set (io_q v). \<forall>pd \<in> set (poll_fds v t). \<forall>f. asks (filter_kind f) pd \<longrightarrow> (pf_fd pd, f) \<in> kq_known d)"
      using c(2) unfolding kq_registered_def by blast
    moreover have "\<forall>f fd. kq_cnt d f fd = int (length (filter (\<lambda>pd. pf_fd pd = fd \<and> asks (filter_kind f) pd) (concat (map (poll_fds v) (io_q v)))))"
      using c(1) by (simp add: kq_counts_def wanted_polls)
    ultimately show ?thesis using kq_polled(1) [OF c(1) l(4), unfolded q] by blast
  qed
  have "kq_memory_ok env \<longrightarrow> \<not> kq_lost d" using h(3) by (simp add: kq_keeps_def)
  with exact l show ?thesis by (intro conjI impI; simp)
qed

text \<open>A kernel that reports what the world says and is registered.\<close>

definition plain_kqueue :: "kevent list kq_env" where
  "plain_kqueue = \<lparr>kq_wait = (\<lambda>w own regs cs room. if \<not> own then (Inl EBADF, regs)
       else (Inr (filter (\<lambda>e. (kev_ident e, kev_filter e) \<in> regs \<union> kq_pairs cs) w), regs \<union> kq_pairs cs - kq_pairs w)),
     kq_delete = (\<lambda>cs regs. regs - kq_pairs cs), kq_realloc = (\<lambda>_ _. True)\<rparr>"

lemma kq_pairs_filter: "(x, f) \<in> kq_pairs (filter (\<lambda>e. P (kev_ident e, kev_filter e)) l) \<longleftrightarrow> P (x, f) \<and> (x, f) \<in> kq_pairs l"
  by (auto simp: kq_pairs_def)

lemma plain_kqueue_ok: "kq_kernel_ok plain_kqueue" "kq_memory_ok plain_kqueue"
proof -
  show "kq_memory_ok plain_kqueue" by (simp add: kq_memory_ok_def plain_kqueue_def)
  have "kq_wait_doc plain_kqueue w own regs cs room" for w own regs cs room
    using kq_pairs_filter [where P = "\<lambda>x. x \<in> regs \<union> kq_pairs cs" and l = w]
    by (auto simp: kq_wait_doc_def plain_kqueue_def)
  then show "kq_kernel_ok plain_kqueue" by (simp add: kq_kernel_ok_def plain_kqueue_def)
qed

lemma kqueue_example:
  assumes "st_kq_init True (Some 3) 7 True True True True = Some d0"
  shows "\<exists>v d. io_run (st_kq_eventsys plain_kqueue) [Poll polling ST_UTIME_NO_TIMEOUT] (started, d0) = Some (v, d) \<and>
    this_thread v = idle_thread v \<and> vp_pollq v = [(2, polling)] \<and> io_q v = [2] \<and> poll_fds v 2 = polling \<and> kq_fd d = 3 \<and> kq_pid d = 7"
proof -
  have "fst (st_kq_pollset_add plain_kqueue polling d0) = None" "kq_fd (snd (st_kq_pollset_add plain_kqueue polling d0)) = 3"
      "kq_pid (snd (st_kq_pollset_add plain_kqueue polling d0)) = 7"
    using assms by (auto simp: st_kq_pollset_add_def polling_def bad_kq_pd_def st_kq_init_def ST_KQ_MIN_EVTLIST_SIZE_def kq_add_pd_def)
  then obtain d where "st_kq_pollset_add plain_kqueue polling d0 = (None, d)" "kq_fd d = 3" "kq_pid d = 7" by (metis prod.collapse)
  then show ?thesis
    by (simp add: st_kq_eventsys_def finish_def added_def st_eval st_poll_def vp_pollq_def)
qed

lemma kqueue_covers_polls_witness:
  "\<exists>d0 v d. st_kq_init True (Some 3) 7 True True True True = Some d0 \<and> io_reachable (st_kq_eventsys plain_kqueue) d0 (v, d) \<and> io_q v = [2] \<and>
    (5, EVFILT_READ) \<in> kq_known d \<and> kq_cnt d EVFILT_READ 5 = 1 \<and> st_kq_fd_close 5 d = Some EBUSY \<and> st_kq_fd_close 6 d = None"
proof -
  obtain d0 where d0: "st_kq_init True (Some 3) 7 True True True True = Some d0" by (simp add: st_kq_init_def)
  from kqueue_example [OF d0] obtain v d where
    v: "io_run (st_kq_eventsys plain_kqueue) [Poll polling ST_UTIME_NO_TIMEOUT] (started, d0) = Some (v, d)" "io_q v = [2]" "poll_fds v 2 = polling"
      "kq_fd d = 3" by blast
  have r: "io_reachable (st_kq_eventsys plain_kqueue) d0 (v, d)" by (rule io_run_reachable [OF io_started v(1)])
  note c = kqueue_covers_polls [OF plain_kqueue_ok(1) d0 r, unfolded v(2)]
  have n: "\<not> kq_lost d" using c plain_kqueue_ok(2) by blast
  have "(5, EVFILT_READ) \<in> kq_known d" using c n v(3,4) by (auto simp: polling_def asks_def)
  moreover have "kq_cnt d EVFILT_READ 5 = 1" using c n v(3) by (simp add: polling_def asks_def)
  moreover have "st_kq_fd_close 5 d = Some EBUSY" "st_kq_fd_close 6 d \<noteq> Some EBUSY" using c n v(3) by (auto simp: polling_def)
  moreover have "st_kq_fd_close 6 d = None \<or> st_kq_fd_close 6 d = Some EBUSY" by (simp add: st_kq_fd_close_def)
  ultimately show ?thesis using d0 r v(2) by blast
qed

subsection \<open>Dispatching wakes\<close>

lemma kq_queue_answers:
  assumes "evs \<noteq> []"
  shows "leaves (kq_filled evs) q = map (\<lambda>(t, pds). (t, map (kq_answer evs) pds)) (filter (\<lambda>(t, pds). \<exists>pd \<in> set pds. kq_fires evs pd) q)"
    "stays (kq_filled evs) q = map (\<lambda>(t, pds). (t, map (\<lambda>pd. pd\<lparr>pf_revents := 0\<rparr>) pds)) (filter (\<lambda>(t, pds). \<forall>pd \<in> set pds. \<not> kq_fires evs pd) q)"
proof -
  let ?a = "\<lambda>(t, pds). (t, map (kq_answer evs) pds)"
  have f: "kq_filled evs = Some (kq_answer evs)" using assms by (simp add: kq_filled_def)
  have fill: "filled (kq_answer evs) q = map ?a q" by (simp add: filled_def case_prod_beta)
  have ready: "ready_pds (snd (?a e)) \<longleftrightarrow> (case e of (t, pds) \<Rightarrow> \<exists>pd \<in> set pds. kq_fires evs pd)" for e :: pollq
    using kq_answer_fires [of evs] by (auto simp: ready_pds_def list_ex_iff split: prod.split)
  show "leaves (kq_filled evs) q = map ?a (filter (\<lambda>(t, pds). \<exists>pd \<in> set pds. kq_fires evs pd) q)"
    unfolding f leaves.simps fill filter_map comp_def ready ..
  have "stays (kq_filled evs) q = map ?a (filter (\<lambda>(t, pds). \<forall>pd \<in> set pds. \<not> kq_fires evs pd) q)"
    unfolding f stays.simps fill filter_map comp_def ready
    by (intro arg_cong [of _ _ "map ?a"] filter_cong refl) (auto simp: case_prod_beta)
  also have "\<dots> = map (\<lambda>(t, pds). (t, map (\<lambda>pd. pd\<lparr>pf_revents := 0\<rparr>) pds)) (filter (\<lambda>(t, pds). \<forall>pd \<in> set pds. \<not> kq_fires evs pd) q)"
    by (rule map_cong [OF refl]) (auto simp: kq_answer_none)
  finally show "stays (kq_filled evs) q = map (\<lambda>(t, pds). (t, map (\<lambda>pd. pd\<lparr>pf_revents := 0\<rparr>) pds))
      (filter (\<lambda>(t, pds). \<forall>pd \<in> set pds. \<not> kq_fires evs pd) q)" .
qed

text \<open>
  C13: When the idle thread runs and dispatches kqueue, exactly the entries of the io queue for which the kernel reports an event that one of their
  descriptors asks for, or an error of one of their descriptors, go from the io queue to the run queue, in the order in which they polled, and
  each descriptor is told exactly these events and errors; the others stay, in order, with no events.  Nothing changes when nothing is
  reported.  What is reported is the answer of the last call of \<open>kevent\<close>: the first, or the second when the process has forked.  This
  holds whichever allocations fail.
\<close>

theorem kqueue_wakes_ready:
  assumes "kq_kernel_ok env" "st_kq_init True kq pid True True True True = Some d0"
    and "io_reachable (st_kq_eventsys env) d0 (v, d)" "this_thread v = idle_thread v"
    and "st_kq_dispatch env w (vp_pollq v) d = (rest, off, d')" "evs = kq_reported env w (vp_pollq v) d"
  shows "(\<exists>u. vp_idle (queue_events rest off v) v = Inr u \<and> vp_pollq u = rest \<and> run_q u = run_q v @ map fst off \<and>
        (\<forall>(t, fds) \<in> set off. poll_fds u t = fds)) \<and>
      off = map (\<lambda>(t, pds). (t, map (kq_answer evs) pds)) (filter (\<lambda>(t, pds). \<exists>pd \<in> set pds. kq_fires evs pd) (vp_pollq v)) \<and>
      rest = (if evs = [] then vp_pollq v
        else map (\<lambda>(t, pds). (t, map (\<lambda>pd. pd\<lparr>pf_revents := 0\<rparr>) pds)) (filter (\<lambda>(t, pds). \<forall>pd \<in> set pds. \<not> kq_fires evs pd) (vp_pollq v)))"
proof -
  note fit = event_system.reachable_fits [OF kq_event_system [OF assms(1)] assms(3) kq_init_holds [OF assms(2)]]
  then have h: "kq_holds env (interests (vp_pollq v)) d" by (simp add: fits_def)
  have ro: "rest = stays (kq_filled evs) (vp_pollq v)" "off = leaves (kq_filled evs) (vp_pollq v)"
    using kq_dispatch_holds [OF assms(1) h, of w] assms(5) by (auto simp: assms(6))
  have "es_dispatch (st_kq_eventsys env) w (vp_pollq v) d = (rest, off, d')" using assms(5) by (simp add: st_kq_eventsys_def)
  from event_system.wait_step [OF kq_event_system [OF assms(1)] fit assms(4) this] obtain u where
    u: "vp_idle (queue_events rest off v) v = Inr u" "vp_pollq u = rest"
      "run_q u = run_q v @ map fst off" "\<forall>(t, fds) \<in> set off. poll_fds u t = fds \<and> ready_pds fds" by blast
  have "\<forall>(t, fds) \<in> set off. poll_fds u t = fds" using u(4) by auto
  with u(1,2,3) have "\<exists>u. vp_idle (queue_events rest off v) v = Inr u \<and> vp_pollq u = rest \<and> run_q u = run_q v @ map fst off \<and>
      (\<forall>(t, fds) \<in> set off. poll_fds u t = fds)" by blast
  moreover have "\<not> kq_fires [] pd" for pd by (simp add: kq_fires_def)
  then have "off = map (\<lambda>(t, pds). (t, map (kq_answer evs) pds)) (filter (\<lambda>(t, pds). \<exists>pd \<in> set pds. kq_fires evs pd) (vp_pollq v))"
    using kq_queue_answers(1) [of evs "vp_pollq v"] ro(2) by (cases "evs = []") (simp_all add: case_prod_beta)
  moreover have "rest = (if evs = [] then vp_pollq v else map (\<lambda>(t, pds). (t, map (\<lambda>pd. pd\<lparr>pf_revents := 0\<rparr>) pds))
      (filter (\<lambda>(t, pds). \<forall>pd \<in> set pds. \<not> kq_fires evs pd) (vp_pollq v)))"
    using kq_queue_answers(2) [of evs "vp_pollq v"] ro(1) by simp
  ultimately show ?thesis by (intro conjI) assumption+
qed

lemma kqueue_wakes_ready_witness:
  "\<exists>d0 v d u. st_kq_init True (Some 3) 7 True True True True = Some d0 \<and> io_reachable (st_kq_eventsys plain_kqueue) d0 (v, d) \<and>
    this_thread v = idle_thread v \<and> io_q v = [2] \<and> run_q u = run_q v @ [2] \<and> vp_pollq u = []"
proof -
  obtain d0 where d0: "st_kq_init True (Some 3) 7 True True True True = Some d0" by (simp add: st_kq_init_def)
  from kqueue_example [OF d0] obtain v d where
    v: "io_run (st_kq_eventsys plain_kqueue) [Poll polling ST_UTIME_NO_TIMEOUT] (started, d0) = Some (v, d)" "this_thread v = idle_thread v"
      "vp_pollq v = [(2, polling)]" "io_q v = [2]" "poll_fds v 2 = polling" "kq_fd d = 3" "kq_pid d = 7" by blast
  have r: "io_reachable (st_kq_eventsys plain_kqueue) d0 (v, d)" by (rule io_run_reachable [OF io_started v(1)])
  let ?e = "\<lparr>kev_ident = 5, kev_filter = EVFILT_READ, kev_flags = 0, kev_data = 1\<rparr>"
  let ?w = "\<lparr>kw_world = [?e], kw_pid = 7, kw_queue = None\<rparr>"
  have h: "kq_holds plain_kqueue (interests (vp_pollq v)) d"
    using event_system.reachable_fits [OF kq_event_system [OF plain_kqueue_ok(1)] r kq_init_holds [OF d0]] by (simp add: fits_def)
  then have f: "kq_counts (interests (vp_pollq v)) d" "kq_registered d" "kq_legal d (interests (vp_pollq v))"
    using plain_kqueue_ok(2) by (auto simp: kq_holds_def kq_fit_def kq_keeps_def kq_frame_def)
  have "kq_cnt d EVFILT_READ 5 \<noteq> 0" using kq_polled(2) [OF f(1,3), of "(2, polling)" "hd polling" EVFILT_READ] v(3) by (simp add: polling_def asks_def)
  then have "(5, EVFILT_READ) \<in> kq_known d" using f(2) v(6) by (simp add: kq_registered_def)
  then have evs: "[?e] = kq_reported plain_kqueue ?w (vp_pollq v) d" by (simp add: kq_reported_def kq_call_def plain_kqueue_def v(6,7) kq_known_def)
  obtain rest off d' where d: "st_kq_dispatch plain_kqueue ?w (vp_pollq v) d = (rest, off, d')" by (metis prod_cases3)
  note wakes = kqueue_wakes_ready [OF plain_kqueue_ok(1) d0 r v(2) d evs]
  from wakes obtain u where u: "run_q u = run_q v @ map fst off" "vp_pollq u = rest" by blast
  have "kq_fires [?e] (hd polling)" by (auto simp: kq_fires_def polling_def asks_def all_filters)
  then have "map fst off = [2]" "rest = []" using wakes v(3) by (simp_all add: polling_def)
  then show ?thesis using d0 r v(2,4) u by metis
qed

text \<open>The time to wait is exact.\<close>

lemma kq_timeout_exact:
  assumes "first_sleeper (sleeping v) = Some t"
  shows "\<exists>s ns. kq_timeout v = Some (s, ns) \<and> unat ns < 1000000000 \<and> unat s * 1000000000 + unat ns = unat (to_first_timeout v t) * 1000"
proof -
  let ?r = "to_first_timeout v t"
  have "kq_timeout v = Some (?r div 1000000, (?r mod 1000000) * 1000)" unfolding kq_timeout_def assms to_first_timeout_def by (simp only: option.case Let_def)
  moreover have m: "unat ?r mod 1000000 < 1000000" by simp
  have "unat ((?r mod 1000000) * 1000) = unat ?r mod 1000000 * 1000"
    using m by (simp add: unat_mult_lem [THEN iffD1] unat_mod_distrib)
  moreover have "unat (?r div 1000000) = unat ?r div 1000000" by (simp add: unat_div_distrib)
  moreover have "unat ?r div 1000000 * 1000000000 + unat ?r mod 1000000 * 1000 = unat ?r * 1000"
    using div_mult_mod_eq [of "unat ?r" 1000000] by linarith
  ultimately show ?thesis using m by auto
qed

text \<open>
  The answer of adding is not looked at after a fork: when the list cannot grow, what was polled is not registered with the new queue, its count is 0,
  and the descriptor may be closed under the polling thread.
\<close>

lemma fork_forgets_polls:
  assumes "\<And>n. \<not> kq_realloc env Addlist n" "st_kq_init True (Some 3) 7 True True True True = Some d0"
  shows "kq_known (kq_reinit env w 4 [(2, replicate 33 (hd polling))] d0) = {} \<and>
    st_kq_fd_close 5 (kq_reinit env w 4 [(2, replicate 33 (hd polling))] d0) = None"
proof -
  let ?d = "d0\<lparr>kq_fd := 4, kq_pid := kw_pid w, kq_regs := {}, kq_cnt := (\<lambda>_ _. 0), kq_revents := (\<lambda>_. 0), kq_lost := False\<rparr>"
  have f: "kq_fd_size d0 = 1024" "kq_addlist_size d0 = 64" "kq_addlist d0 = []" using assms(2) by (auto simp: st_kq_init_def ST_KQ_MIN_EVTLIST_SIZE_def)
  have "kq_check env (replicate 33 (hd polling)) ?d = (None, ?d)" by (rule kq_check_legal) (simp add: polling_def bad_kq_pd_def f)
  then have "st_kq_pollset_add env (replicate 33 (hd polling)) ?d = (Some ENOMEM, ?d)"
    using assms(1) by (simp add: st_kq_pollset_add_def st_kq_addlist_expand_def f Let_def)
  then show ?thesis by (simp add: kq_reinit_def kq_readd_def kq_known_def f st_kq_fd_close_def)
qed

end
