(* ===== verification/St_Io.thy ===== *)
theory St_Io
  imports St_Select
begin

unbundle bit_operations_syntax

section \<open>Input and output of state-threads (state-threads/io.c)\<close>

text \<open>
  Descriptor objects with their free list, and the functions that call the system until it is ready.  What the system answers is
  an argument: one \<open>round\<close> for each turn of a loop, with the answer of the system call and that of \<open>st_poll\<close> in case
  the loop waits.  A loop is still running (\<open>None\<close>) when the rounds are used up.
\<close>

subsection \<open>Descriptor objects\<close>

record st_netfd_t =
  nf_osfd :: int
  nf_inuse :: bool
  private_data :: "nat option"
  nf_destructor :: "nat option"

text \<open>The objects by address, the free list, the limit of descriptors, and the destructors that were called with their data.\<close>

record st_io =
  netfds :: "nat \<rightharpoonup> st_netfd_t"
  netfd_freelist :: "nat list"
  osfd_limit :: int
  destructed :: "(nat \<times> nat) list"

text \<open>The answers of \<open>sigaction\<close>, \<open>getrlimit\<close> (the current and the greatest limit) and \<open>setrlimit\<close>; \<open>fdlim\<close> is that of the event system.\<close>

definition st_io_init :: "bool \<Rightarrow> (64 word \<times> 64 word) option \<Rightarrow> int \<Rightarrow> bool \<Rightarrow> st_io \<Rightarrow> int \<times> st_io" where
  "st_io_init sig_ok rlim fdlim set_ok s =
     (if \<not> sig_ok then (- 1, s)
      else case rlim of None \<Rightarrow> (- 1, s)
      | Some (rlim_cur, rlim_max) \<Rightarrow>
          let rlim_max = (if fdlim > 0 \<and> rlim_max > word_of_int fdlim then word_of_int fdlim else rlim_max) in
          if sint (ucast rlim_max :: 32 word) < 0
          then (0, s\<lparr>osfd_limit := (if fdlim > 0 then fdlim else sint (ucast rlim_cur :: 32 word))\<rparr>)
          else if \<not> set_ok then (- 1, s)
          else (0, s\<lparr>osfd_limit := sint (ucast rlim_max :: 32 word)\<rparr>))"

definition st_getfdlimit :: "st_io \<Rightarrow> int" where
  "st_getfdlimit s = osfd_limit s"

definition the_netfd :: "nat \<Rightarrow> st_io \<Rightarrow> st_netfd_t outcome" where
  "the_netfd p s = (case netfds s p of None \<Rightarrow> Inl Bad_access | Some f \<Rightarrow> Inr f)"

definition call_destructor :: "st_netfd_t \<Rightarrow> st_io \<Rightarrow> st_io" where
  "call_destructor f s = (case (private_data f, nf_destructor f) of
       (Some x, Some k) \<Rightarrow> s\<lparr>destructed := destructed s @ [(k, x)]\<rparr> | _ \<Rightarrow> s)"

definition set_netfd :: "nat \<Rightarrow> st_netfd_t \<Rightarrow> st_io \<Rightarrow> st_io" where
  "set_netfd p f s = s\<lparr>netfds := (netfds s)(p \<mapsto> f)\<rparr>"

definition st_netfd_free :: "nat \<Rightarrow> st_io \<Rightarrow> st_io outcome" where
  "st_netfd_free p s = rbind (the_netfd p s) (\<lambda>f.
     if \<not> nf_inuse f then Inr s
     else
       let s = call_destructor f (set_netfd p (f\<lparr>nf_inuse := False\<rparr>) s);
           s = set_netfd p (f\<lparr>nf_inuse := False, private_data := None, nf_destructor := None\<rparr>) s
       in Inr (s\<lparr>netfd_freelist := p # netfd_freelist s\<rparr>))"

text \<open>
  \<open>new_ok\<close> is the answer of \<open>fd_new\<close> of the event system, \<open>mem\<close> that of \<open>calloc\<close>; \<open>ioctl_ok\<close> and \<open>fcntl_ok\<close> say whether
  the descriptor can be made non-blocking one way or the other.
\<close>

record netfd_env =
  new_ok :: bool
  netfd_mem :: "nat option"
  ioctl_ok :: bool
  fcntl_ok :: bool

definition st_netfd_new :: "netfd_env \<Rightarrow> int \<Rightarrow> bool \<Rightarrow> bool \<Rightarrow> st_io \<Rightarrow> (nat option \<times> st_io) outcome" where
  "st_netfd_new env osfd nonblock is_socket s =
     (if \<not> new_ok env then Inr (None, s)
      else
        let got = (case netfd_freelist s of
             p # ps \<Rightarrow> (case netfds s p of None \<Rightarrow> Some (Inl Bad_access) | Some f \<Rightarrow> Some (Inr (p, f, s\<lparr>netfd_freelist := ps\<rparr>)))
           | [] \<Rightarrow> (case netfd_mem env of None \<Rightarrow> None
               | Some p \<Rightarrow> Some (Inr (p, \<lparr>nf_osfd = 0, nf_inuse = False, private_data = None, nf_destructor = None\<rparr>, s))))
        in case got of None \<Rightarrow> Inr (None, s)
           | Some r \<Rightarrow> rbind r (\<lambda>(p, f, s).
               let s = set_netfd p (f\<lparr>nf_osfd := osfd, nf_inuse := True\<rparr>) s in
               if nonblock then
                 (if is_socket \<and> ioctl_ok env then Inr (Some p, s)
                  else if \<not> fcntl_ok env then rbind (st_netfd_free p s) (\<lambda>s. Inr (None, s))
                  else Inr (Some p, s))
               else Inr (Some p, s)))"

definition st_netfd_open :: "netfd_env \<Rightarrow> int \<Rightarrow> st_io \<Rightarrow> (nat option \<times> st_io) outcome" where
  "st_netfd_open env osfd s = st_netfd_new env osfd True False s"

definition st_netfd_open_socket :: "netfd_env \<Rightarrow> int \<Rightarrow> st_io \<Rightarrow> (nat option \<times> st_io) outcome" where
  "st_netfd_open_socket env osfd s = st_netfd_new env osfd True True s"

text \<open>\<open>busy\<close> is the answer of \<open>fd_close\<close> of the event system; the answer says which descriptor is closed, if any.\<close>

definition st_netfd_close :: "(int \<Rightarrow> st_errno option) \<Rightarrow> nat \<Rightarrow> st_io \<Rightarrow> ((st_errno + int) \<times> st_io) outcome" where
  "st_netfd_close busy p s = rbind (the_netfd p s) (\<lambda>f.
     case busy (nf_osfd f) of Some e \<Rightarrow> Inr (Inl e, s)
     | None \<Rightarrow> rbind (st_netfd_free p s) (\<lambda>s. Inr (Inr (nf_osfd f), s)))"

definition st_netfd_fileno :: "nat \<Rightarrow> st_io \<Rightarrow> int outcome" where
  "st_netfd_fileno p s = rbind (the_netfd p s) (\<lambda>f. Inr (nf_osfd f))"

definition st_netfd_setspecific :: "nat \<Rightarrow> nat option \<Rightarrow> nat option \<Rightarrow> st_io \<Rightarrow> st_io outcome" where
  "st_netfd_setspecific p x k s = rbind (the_netfd p s) (\<lambda>f.
     let s = (if x \<noteq> private_data f then call_destructor f s else s)
     in Inr (set_netfd p (f\<lparr>private_data := x, nf_destructor := k\<rparr>) s))"

definition st_netfd_getspecific :: "nat \<Rightarrow> st_io \<Rightarrow> nat option outcome" where
  "st_netfd_getspecific p s = rbind (the_netfd p s) (\<lambda>f. Inr (private_data f))"

subsection \<open>Waiting for a descriptor\<close>

text \<open>The answer of \<open>st_poll\<close> and the events it filled in; \<open>None\<close> when the descriptor is ready.\<close>

type_synonym poll_answer = "(st_errno + int) \<times> int"

fun st_netfd_poll :: "poll_answer \<Rightarrow> st_errno option" where
  "st_netfd_poll (Inl e, _) = Some e"
| "st_netfd_poll (Inr n, revents) = (if n = 0 then Some ETIME else if revents AND POLLNVAL \<noteq> 0 then Some EBADF else None)"

datatype 'r sys_answer = Done 'r | Failed st_errno

type_synonym 'r round = "'r sys_answer \<times> poll_answer"

text \<open>\<open>EAGAIN\<close> is \<open>EWOULDBLOCK\<close> here.\<close>

definition io_not_ready :: "st_errno \<Rightarrow> bool" where
  "io_not_ready e \<longleftrightarrow> e = EAGAIN"

subsection \<open>Calls that are repeated until they work\<close>

text \<open>The loop of the functions below; the result and the rounds that are left.\<close>

fun io_loop :: "'r round list \<Rightarrow> ((st_errno + 'r) \<times> 'r round list) option" where
  "io_loop [] = None"
| "io_loop ((Done r, p) # l) = Some (Inr r, l)"
| "io_loop ((Failed e, p) # l) =
     (if e = EINTR then io_loop l
      else if \<not> io_not_ready e then Some (Inl e, l)
      else case st_netfd_poll p of Some e \<Rightarrow> Some (Inl e, l) | None \<Rightarrow> io_loop l)"

definition st_read :: "byte list round list \<Rightarrow> ((st_errno + byte list) \<times> byte list round list) option" where
  "st_read = io_loop"

definition st_readv :: "byte list round list \<Rightarrow> ((st_errno + byte list) \<times> byte list round list) option" where
  "st_readv = io_loop"

definition st_recvfrom :: "(byte list \<times> 'a) round list \<Rightarrow> ((st_errno + byte list \<times> 'a) \<times> (byte list \<times> 'a) round list) option" where
  "st_recvfrom = io_loop"

definition st_sendto :: "int round list \<Rightarrow> ((st_errno + int) \<times> int round list) option" where
  "st_sendto = io_loop"

definition st_recvmsg :: "byte list round list \<Rightarrow> ((st_errno + byte list) \<times> byte list round list) option" where
  "st_recvmsg = io_loop"

definition st_sendmsg :: "int round list \<Rightarrow> ((st_errno + int) \<times> int round list) option" where
  "st_sendmsg = io_loop"

text \<open>The answer is the new object, if any, and the descriptor that was closed again, if any.\<close>

definition keep_or_close :: "int \<Rightarrow> (nat option \<times> st_io) outcome \<Rightarrow> (nat option \<times> int option \<times> st_io) outcome" where
  "keep_or_close osfd r = rbind r (\<lambda>(p, s). Inr (p, if p = None then Some osfd else None, s))"

definition st_accept :: "netfd_env \<Rightarrow> int round list \<Rightarrow> st_io \<Rightarrow> (nat option \<times> int option \<times> st_io) outcome option" where
  "st_accept env l s = (case io_loop l of None \<Rightarrow> None
     | Some (Inl e, _) \<Rightarrow> Some (Inr (None, None, s))
     | Some (Inr osfd, _) \<Rightarrow> Some (keep_or_close osfd (st_netfd_new env osfd True True s)))"

fun open_loop :: "int sys_answer list \<Rightarrow> (st_errno + int) option" where
  "open_loop [] = None"
| "open_loop (Done osfd # l) = Some (Inr osfd)"
| "open_loop (Failed e # l) = (if e \<noteq> EINTR then Some (Inl e) else open_loop l)"

definition st_open :: "netfd_env \<Rightarrow> int sys_answer list \<Rightarrow> st_io \<Rightarrow> (nat option \<times> int option \<times> st_io) outcome option" where
  "st_open env l s = (case open_loop l of None \<Rightarrow> None
     | Some (Inl e) \<Rightarrow> Some (Inr (None, None, s))
     | Some (Inr osfd) \<Rightarrow> Some (keep_or_close osfd (st_netfd_new env osfd False False s)))"

text \<open>
  \<open>so_error\<close> is the answer of \<open>getsockopt\<close>: an errno when it fails, otherwise the pending error of the socket, if any.
  \<open>interrupted\<close> is whether \<open>connect\<close> was interrupted before.
\<close>

fun connect_loop :: "bool \<Rightarrow> (unit round \<times> (st_errno + st_errno option)) list \<Rightarrow> (st_errno + unit) option" where
  "connect_loop interrupted [] = None"
| "connect_loop interrupted (((Done _, p), so_error) # l) = Some (Inr ())"
| "connect_loop interrupted (((Failed e, p), so_error) # l) =
     (if e \<noteq> EINTR then
        (if e \<noteq> EINPROGRESS \<and> (e \<noteq> EADDRINUSE \<or> \<not> interrupted) then Some (Inl e)
         else case st_netfd_poll p of Some e \<Rightarrow> Some (Inl e)
         | None \<Rightarrow> (case so_error of Inl e \<Rightarrow> Some (Inl e) | Inr (Some e) \<Rightarrow> Some (Inl e) | Inr None \<Rightarrow> Some (Inr ())))
      else connect_loop True l)"

definition st_connect :: "(unit round \<times> (st_errno + st_errno option)) list \<Rightarrow> (st_errno + unit) option" where
  "st_connect = connect_loop False"

subsection \<open>Vectors\<close>

record iovec =
  iov_base :: int
  iov_len :: nat

definition iov_total :: "iovec list \<Rightarrow> nat" where
  "iov_total vs = sum_list (map iov_len vs)"

text \<open>The bytes of vectors in memory, and the bytes \<open>bs\<close> stored into them one after another.\<close>

definition mem_at :: "(int \<Rightarrow> byte) \<Rightarrow> int \<Rightarrow> nat \<Rightarrow> byte list" where
  "mem_at mem a n = map (\<lambda>i. mem (a + int i)) [0..<n]"

definition gather :: "(int \<Rightarrow> byte) \<Rightarrow> iovec list \<Rightarrow> byte list" where
  "gather mem vs = concat (map (\<lambda>v. mem_at mem (iov_base v) (iov_len v)) vs)"

definition store_at :: "(int \<Rightarrow> byte) \<Rightarrow> int \<Rightarrow> byte list \<Rightarrow> int \<Rightarrow> byte" where
  "store_at mem a bs = (\<lambda>x. if a \<le> x \<and> x < a + int (length bs) then bs ! nat (x - a) else mem x)"

fun scatter :: "byte list \<Rightarrow> iovec list \<Rightarrow> (int \<Rightarrow> byte) \<Rightarrow> int \<Rightarrow> byte" where
  "scatter bs [] mem = mem"
| "scatter bs (v # vs) mem = scatter (drop (iov_len v) bs) vs (store_at mem (iov_base v) (take (iov_len v) bs))"

text \<open>
  The inner loop of both \<open>resid\<close> functions: vectors that are used up are left with length 0 behind the pointer.  The answer is
  these vectors, the rest, and what is left of \<open>n\<close>.
\<close>

definition iov_skip :: "nat \<Rightarrow> iovec \<Rightarrow> iovec" where
  "iov_skip n v = v\<lparr>iov_base := iov_base v + int n, iov_len := iov_len v - n\<rparr>"

fun iov_advance :: "nat \<Rightarrow> iovec list \<Rightarrow> (iovec list \<times> iovec list \<times> nat) outcome" where
  "iov_advance n [] = Inl Bad_access"
| "iov_advance n (v # vs) =
     (if n \<ge> iov_len v then
        (let n' = n - iov_len v; v' = iov_skip (iov_len v) v in
         if n' = 0 then Inr ([v'], vs, 0) else rbind (iov_advance n' vs) (\<lambda>(d, r, m). Inr (v' # d, r, m)))
      else Inr ([], v # vs, n))"

text \<open>The rest with the part of the first vector skipped that was used.\<close>

definition iov_consume :: "nat \<Rightarrow> iovec list \<Rightarrow> (iovec list \<times> iovec list) outcome" where
  "iov_consume n vs = rbind (iov_advance n vs) (\<lambda>(d, r, m).
     Inr (d, case r of [] \<Rightarrow> [] | v # r \<Rightarrow> iov_skip m v # r))"

subsection \<open>Reading all\<close>

text \<open>
  The vectors behind the pointer, the rest, the memory.  \<open>read\<close> and \<open>readv\<close> deliver at most as many bytes as they were asked for.
  The answer is the errno, if any, the vectors and the memory.
\<close>

fun readv_resid :: "byte list round list \<Rightarrow> iovec list \<Rightarrow> iovec list \<Rightarrow> (int \<Rightarrow> byte) \<Rightarrow>
    (st_errno option \<times> iovec list \<times> iovec list \<times> (int \<Rightarrow> byte)) outcome option" where
  "readv_resid l done_vs [] mem = Some (Inr (None, done_vs, [], mem))"
| "readv_resid [] done_vs (v # vs) mem = None"
| "readv_resid ((Failed e, p) # l) done_vs (v # vs) mem =
     (if e = EINTR then readv_resid l done_vs (v # vs) mem
      else if \<not> io_not_ready e then Some (Inr (Some e, done_vs, v # vs, mem))
      else case st_netfd_poll p of Some e \<Rightarrow> Some (Inr (Some e, done_vs, v # vs, mem)) | None \<Rightarrow> readv_resid l done_vs (v # vs) mem)"
| "readv_resid ((Done bs, p) # l) done_vs (v # vs) mem =
     (let bs = take (iov_total (v # vs)) bs in
      if bs = [] then Some (Inr (None, done_vs, v # vs, mem))
      else
        let mem = scatter bs (v # vs) mem in
        case iov_consume (length bs) (v # vs) of Inl f \<Rightarrow> Some (Inl f)
        | Inr (d, r) \<Rightarrow>
            if r = [] then Some (Inr (None, done_vs @ d, [], mem))
            else case st_netfd_poll p of Some e \<Rightarrow> Some (Inr (Some e, done_vs @ d, r, mem)) | None \<Rightarrow> readv_resid l (done_vs @ d) r mem)"

definition st_readv_resid :: "byte list round list \<Rightarrow> iovec list \<Rightarrow> (int \<Rightarrow> byte) \<Rightarrow>
    (st_errno option \<times> iovec list \<times> iovec list \<times> (int \<Rightarrow> byte)) outcome option" where
  "st_readv_resid l vs mem = readv_resid l [] vs mem"

text \<open>The answer is the errno, if any, how much is left, and the memory.\<close>

definition st_read_resid :: "byte list round list \<Rightarrow> int \<Rightarrow> nat \<Rightarrow> (int \<Rightarrow> byte) \<Rightarrow> (st_errno option \<times> nat \<times> (int \<Rightarrow> byte)) outcome option" where
  "st_read_resid l buf resid mem = map_option (\<lambda>r. rbind r (\<lambda>(rv, d, r, mem). Inr (rv, iov_len (hd (d @ r)), mem)))
     (st_readv_resid l [\<lparr>iov_base = buf, iov_len = resid\<rparr>] mem)"

definition st_read_fully :: "byte list round list \<Rightarrow> int \<Rightarrow> nat \<Rightarrow> (int \<Rightarrow> byte) \<Rightarrow> ((st_errno + nat) \<times> (int \<Rightarrow> byte)) outcome option" where
  "st_read_fully l buf nbyte mem = map_option (\<lambda>r. rbind r (\<lambda>(rv, resid, mem).
     Inr (case rv of None \<Rightarrow> Inr (nbyte - resid) | Some e \<Rightarrow> Inl e, mem))) (st_read_resid l buf nbyte mem)"

subsection \<open>Writing all\<close>

text \<open>
  \<open>write\<close> and \<open>writev\<close> take at most as many bytes as they are given; \<open>sent\<close> are the bytes taken so far.  The answer also tells
  the rounds that are left, because \<open>st_writev\<close> goes on with them.
\<close>

fun writev_resid :: "(int \<Rightarrow> byte) \<Rightarrow> nat round list \<Rightarrow> iovec list \<Rightarrow> iovec list \<Rightarrow> byte list \<Rightarrow>
    (st_errno option \<times> iovec list \<times> iovec list \<times> byte list) outcome option" where
  "writev_resid mem l done_vs [] sent = Some (Inr (None, done_vs, [], sent))"
| "writev_resid mem [] done_vs (v # vs) sent = None"
| "writev_resid mem ((Failed e, p) # l) done_vs (v # vs) sent =
     (if e = EINTR then writev_resid mem l done_vs (v # vs) sent
      else if \<not> io_not_ready e then Some (Inr (Some e, done_vs, v # vs, sent))
      else case st_netfd_poll p of Some e \<Rightarrow> Some (Inr (Some e, done_vs, v # vs, sent)) | None \<Rightarrow> writev_resid mem l done_vs (v # vs) sent)"
| "writev_resid mem ((Done n, p) # l) done_vs (v # vs) sent =
     (let n = min n (iov_total (v # vs)); sent = sent @ take n (gather mem (v # vs)) in
      case iov_consume n (v # vs) of Inl f \<Rightarrow> Some (Inl f)
      | Inr (d, r) \<Rightarrow>
          if r = [] then Some (Inr (None, done_vs @ d, [], sent))
          else case st_netfd_poll p of Some e \<Rightarrow> Some (Inr (Some e, done_vs @ d, r, sent)) | None \<Rightarrow> writev_resid mem l (done_vs @ d) r sent)"

definition st_writev_resid :: "(int \<Rightarrow> byte) \<Rightarrow> nat round list \<Rightarrow> iovec list \<Rightarrow>
    (st_errno option \<times> iovec list \<times> iovec list \<times> byte list) outcome option" where
  "st_writev_resid mem l vs = writev_resid mem l [] vs []"

definition st_write_resid :: "(int \<Rightarrow> byte) \<Rightarrow> nat round list \<Rightarrow> int \<Rightarrow> nat \<Rightarrow> (st_errno option \<times> nat \<times> byte list) outcome option" where
  "st_write_resid mem l buf resid = map_option (\<lambda>r. rbind r (\<lambda>(rv, d, r, sent). Inr (rv, iov_len (hd (d @ r)), sent)))
     (st_writev_resid mem l [\<lparr>iov_base = buf, iov_len = resid\<rparr>])"

definition st_write :: "(int \<Rightarrow> byte) \<Rightarrow> nat round list \<Rightarrow> int \<Rightarrow> nat \<Rightarrow> ((st_errno + nat) \<times> byte list) outcome option" where
  "st_write mem l buf nbyte = map_option (\<lambda>r. rbind r (\<lambda>(rv, resid, sent).
     Inr (case rv of None \<Rightarrow> Inr (nbyte - resid) | Some e \<Rightarrow> Inl e, sent))) (st_write_resid mem l buf nbyte)"

text \<open>
  \<open>st_writev\<close> leaves the vectors of the caller alone: it copies the vectors that are left, into 16 local ones or allocated memory.
  \<open>find_vec n iov\<close> is the first vector that is not completely sent when \<open>n\<close> bytes are, and how much of it is.
\<close>

definition LOCAL_MAXIOV :: nat where
  "LOCAL_MAXIOV = 16"

fun find_vec :: "nat \<Rightarrow> iovec list \<Rightarrow> (nat \<times> nat) outcome" where
  "find_vec n [] = Inl Bad_access"
| "find_vec n (v # vs) = (if n \<ge> iov_len v then rbind (find_vec (n - iov_len v) vs) (\<lambda>(i, m). Inr (Suc i, m)) else Inr (0, n))"

definition copy_from :: "nat \<Rightarrow> nat \<Rightarrow> iovec list \<Rightarrow> iovec list" where
  "copy_from i m iov = iov_skip m (iov ! i) # drop (Suc i) iov"

text \<open>
  One turn with \<open>writev\<close>: the vectors to send, whether they are already a copy, and how many bytes are left.  It ends the loop, or
  the loop goes on.  \<open>Inl None\<close> is a failure without an errno of its own.
\<close>

type_synonym writev_result = "((st_errno option + nat) \<times> byte list) outcome"

definition writev_turn :: "(int \<Rightarrow> byte) \<Rightarrow> bool \<Rightarrow> iovec list \<Rightarrow> nat round \<Rightarrow> iovec list \<Rightarrow> bool \<Rightarrow> nat \<Rightarrow> byte list \<Rightarrow>
    writev_result + (iovec list \<times> bool \<times> nat \<times> byte list)" where
  "writev_turn mem alloc_ok iov x tmp copied nleft sent =
     (let wait = (\<lambda>tmp copied nleft sent. case st_netfd_poll (snd x) of
            Some e \<Rightarrow> Inl (Inr (Inl (Some e), sent)) | None \<Rightarrow> Inr (tmp, copied, nleft, sent)) in
      case fst x of
        Failed e \<Rightarrow>
          if e = EINTR then Inr (tmp, copied, nleft, sent)
          else if \<not> io_not_ready e then Inl (Inr (Inl (Some e), sent))
          else wait tmp copied nleft sent
      | Done n \<Rightarrow>
          let n = min n (iov_total tmp); sent = sent @ take n (gather mem tmp) in
          if n = nleft then Inl (Inr (Inr (iov_total iov), sent))
          else
            let nleft = nleft - n in
            case find_vec (iov_total iov - nleft) iov of Inl f \<Rightarrow> Inl (Inl f)
            | Inr (i, m) \<Rightarrow>
                if \<not> copied \<and> length iov - i > LOCAL_MAXIOV \<and> \<not> alloc_ok then Inl (Inr (Inl None, sent))
                else wait (copy_from i m iov) True nleft sent)"

text \<open>The last vector is left to \<open>st_write\<close>.\<close>

definition writev_last :: "(int \<Rightarrow> byte) \<Rightarrow> iovec list \<Rightarrow> nat round list \<Rightarrow> iovec list \<Rightarrow> nat \<Rightarrow> byte list \<Rightarrow> writev_result option" where
  "writev_last mem iov l tmp nleft sent = map_option (\<lambda>r. rbind r (\<lambda>(rv, more).
     Inr (case rv of Inl e \<Rightarrow> Inl (Some e) | Inr n \<Rightarrow> if n \<noteq> nleft then Inl None else Inr (iov_total iov), sent @ more)))
     (st_write mem l (iov_base (hd tmp)) nleft)"

fun writev_loop :: "(int \<Rightarrow> byte) \<Rightarrow> bool \<Rightarrow> iovec list \<Rightarrow> nat round list \<Rightarrow> iovec list \<Rightarrow> bool \<Rightarrow> nat \<Rightarrow> byte list \<Rightarrow> writev_result option" where
  "writev_loop mem alloc_ok iov [] tmp copied nleft sent = (if nleft > 0 then None else Some (Inr (Inr (iov_total iov), sent)))"
| "writev_loop mem alloc_ok iov (x # l) tmp copied nleft sent =
     (if nleft > 0 then
        (if length tmp = 1 then writev_last mem iov (x # l) tmp nleft sent
         else case writev_turn mem alloc_ok iov x tmp copied nleft sent of
           Inl r \<Rightarrow> Some r
         | Inr (tmp, copied, nleft, sent) \<Rightarrow> writev_loop mem alloc_ok iov l tmp copied nleft sent)
      else Some (Inr (Inr (iov_total iov), sent)))"

definition st_writev :: "(int \<Rightarrow> byte) \<Rightarrow> bool \<Rightarrow> nat round list \<Rightarrow> iovec list \<Rightarrow> writev_result option" where
  "st_writev mem alloc_ok l iov = writev_loop mem alloc_ok iov l iov False (iov_total iov) []"

subsection \<open>Consuming vectors\<close>

lemma iov_total_simps [simp]: "iov_total [] = 0" "iov_total (v # vs) = iov_len v + iov_total vs" "iov_total (vs @ ws) = iov_total vs + iov_total ws"
  by (simp_all add: iov_total_def)

lemma mem_at_length [simp]: "length (mem_at mem a n) = n"
  by (simp add: mem_at_def)

lemma gather_simps [simp]: "gather mem [] = []" "gather mem (v # vs) = mem_at mem (iov_base v) (iov_len v) @ gather mem vs"
  by (simp_all add: gather_def)

lemma gather_length [simp]: "length (gather mem vs) = iov_total vs"
  by (induction vs) simp_all

lemma mem_at_drop: "m \<le> n \<Longrightarrow> mem_at mem (a + int m) (n - m) = drop m (mem_at mem a n)"
  by (rule nth_equalityI) (auto simp: mem_at_def algebra_simps less_diff_conv)

lemma skip_parts [simp]: "iov_len (iov_skip n v) = iov_len v - n" "iov_base (iov_skip n v) = iov_base v + int n"
  by (simp_all add: iov_skip_def)

definition advanced :: "(int \<Rightarrow> byte) \<Rightarrow> nat \<Rightarrow> iovec list \<Rightarrow> iovec list \<Rightarrow> iovec list \<Rightarrow> nat \<Rightarrow> bool" where
  "advanced mem n vs d r m \<longleftrightarrow> length d + length r = length vs \<and> iov_total d = 0 \<and> m \<le> n \<and>
     (case r of [] \<Rightarrow> m = 0 \<and> n = iov_total vs | v # r' \<Rightarrow> m \<le> iov_len v \<and> n + iov_total r = m + iov_total vs) \<and>
     gather mem vs = take (n - m) (gather mem vs) @ gather mem r \<and> (d = [] \<longrightarrow> n < iov_len (hd vs))"

lemma iov_advance_ok:
  assumes "n \<le> iov_total vs" "vs \<noteq> []"
  shows "\<exists>d r m. iov_advance n vs = Inr (d, r, m) \<and> advanced mem n vs d r m"
  using assms
proof (induction n vs rule: iov_advance.induct)
  case (2 n v vs)
  show ?case
  proof (cases "n \<ge> iov_len v \<and> n - iov_len v \<noteq> 0")
    case True
    then have "n - iov_len v \<le> iov_total vs" "vs \<noteq> []" using 2(2) by (auto intro: ccontr)
    with 2(1) [OF _ refl refl] True obtain d r m where a: "iov_advance (n - iov_len v) vs = Inr (d, r, m)" "advanced mem (n - iov_len v) vs d r m" by blast
    have m: "m \<le> n - iov_len v" "iov_len v \<le> n - m" "n - m - iov_len v = n - iov_len v - m" using a(2) True by (auto simp: advanced_def)
    have "iov_advance n (v # vs) = Inr (iov_skip (iov_len v) v # d, r, m)" using True a(1) by (simp add: Let_def)
    moreover have "advanced mem n (v # vs) (iov_skip (iov_len v) v # d) r m"
      using a(2) m True by (auto simp: advanced_def split: list.splits)
    ultimately show ?thesis by blast
  next
    case False
    then show ?thesis by (cases "n = iov_len v") (auto simp: Let_def advanced_def split: list.splits)
  qed
qed simp

lemma iov_consume_ok:
  assumes "n \<le> iov_total vs" "vs \<noteq> []"
  shows "\<exists>d r. iov_consume n vs = Inr (d, r) \<and> length d + length r = length vs \<and> iov_total d = 0 \<and> iov_total r = iov_total vs - n \<and>
    gather mem r = drop n (gather mem vs) \<and> (d = [] \<longrightarrow> n < iov_len (hd vs))"
proof -
  from iov_advance_ok [OF assms] obtain d r m where "iov_advance n vs = Inr (d, r, m)" "advanced mem n vs d r m" by blast
  then have a: "iov_advance n vs = Inr (d, r, m)" "length d + length r = length vs" "iov_total d = 0"
    "case r of [] \<Rightarrow> m = 0 \<and> n = iov_total vs | v # r' \<Rightarrow> m \<le> iov_len v \<and> n + iov_total r = m + iov_total vs"
    "gather mem vs = take (n - m) (gather mem vs) @ gather mem r" "m \<le> n" "d = [] \<longrightarrow> n < iov_len (hd vs)" by (simp_all add: advanced_def)
  have rest: "drop (n - m) (gather mem vs) = gather mem r"
    using a(5) assms(1) by (metis append_eq_conv_conj append_take_drop_id same_append_eq)
  show ?thesis
  proof (cases r)
    case Nil
    then show ?thesis using a assms by (auto simp: iov_consume_def)
  next
    case (Cons v r')
    then have m: "m \<le> iov_len v" "n + iov_total r = m + iov_total vs" using a(4) by simp_all
    have "gather mem (iov_skip m v # r') = drop m (gather mem r)" using m(1) by (simp add: Cons mem_at_drop)
    also have "\<dots> = drop n (gather mem vs)" unfolding rest [symmetric] using a(6) by simp
    finally show ?thesis using a(1,2,3,7) m Cons assms(1) by (auto simp: iov_consume_def)
  qed
qed

subsection \<open>Writing\<close>

text \<open>A round in which the kernel takes something.\<close>

definition takes_some :: "nat round \<Rightarrow> bool" where
  "takes_some x \<longleftrightarrow> (case fst x of Done n \<Rightarrow> 0 < n | Failed e \<Rightarrow> False)"

lemma consume_step:
  assumes "vs \<noteq> []"
  obtains d r where "iov_consume (min n (iov_total vs)) vs = Inr (d, r)" "length d + length r = length vs" "iov_total d = 0"
    "iov_total r = iov_total vs - n" "take (min n (iov_total vs)) (gather mem vs) @ gather mem r = gather mem vs"
    "0 < n \<Longrightarrow> iov_total r + length r < iov_total vs + length vs"
proof -
  from iov_consume_ok [OF _ assms, of "min n (iov_total vs)" mem] obtain d r where
    c: "iov_consume (min n (iov_total vs)) vs = Inr (d, r)" "length d + length r = length vs" "iov_total d = 0" "iov_total r = iov_total vs - n"
      "gather mem r = drop (min n (iov_total vs)) (gather mem vs)" "d = [] \<longrightarrow> min n (iov_total vs) < iov_len (hd vs)" by auto
  have "take (min n (iov_total vs)) (gather mem vs) @ gather mem r = gather mem vs" unfolding c(5) by (rule append_take_drop_id)
  moreover have "iov_total r + length r < iov_total vs + length vs" if "0 < n"
  proof (cases "d = []")
    case True
    then have "0 < iov_total vs" using c(6) assms by (cases vs) auto
    then show ?thesis using c(2,4) that by simp
  next
    case False
    then show ?thesis using c(2,4) by (cases d) simp_all
  qed
  ultimately show thesis using that c by blast
qed

lemma writev_resid_Done:
  assumes "vs \<noteq> []" "iov_consume (min n (iov_total vs)) vs = Inr (d, r)"
  shows "writev_resid mem ((Done n, p) # l) done_vs vs sent =
    (let sent = sent @ take (min n (iov_total vs)) (gather mem vs) in
     if r = [] then Some (Inr (None, done_vs @ d, [], sent))
     else case st_netfd_poll p of Some e \<Rightarrow> Some (Inr (Some e, done_vs @ d, r, sent)) | None \<Rightarrow> writev_resid mem l (done_vs @ d) r sent)"
proof -
  obtain v vs' where vs: "vs = v # vs'" using assms(1) by (cases vs) auto
  show ?thesis unfolding vs writev_resid.simps Let_def assms(2) [unfolded vs] sum.case prod.case ..
qed

lemma writev_resid_ok:
  assumes "writev_resid mem l done_vs vs sent = Some x"
  shows "\<exists>rv d r sent'. x = Inr (rv, d, r, sent') \<and> sent' @ gather mem r = sent @ gather mem vs \<and> (\<exists>more. sent' = sent @ more) \<and>
    iov_total d = iov_total done_vs \<and> length d + length r = length done_vs + length vs \<and> (rv = None \<longrightarrow> r = [])"
  using assms
proof (induction l arbitrary: done_vs vs sent)
  case Nil
  then show ?case by (cases vs) auto
next
  case (Cons y l)
  obtain a p where y: "y = (a, p)" by (cases y)
  show ?case
  proof (cases "vs = []")
    case False
    then obtain v vs' where vs: "vs = v # vs'" by (cases vs) auto
    show ?thesis
    proof (cases a)
      case (Failed e)
      then show ?thesis using Cons.prems Cons.IH [of done_vs vs sent] unfolding y vs by (auto split: if_splits option.splits)
    next
      case (Done n)
      from consume_step [OF False, of n mem] obtain d r where c: "iov_consume (min n (iov_total vs)) vs = Inr (d, r)"
        "length d + length r = length vs" "iov_total d = 0" "take (min n (iov_total vs)) (gather mem vs) @ gather mem r = gather mem vs" by metis
      let ?sent = "sent @ take (min n (iov_total vs)) (gather mem vs)"
      have all: "?sent @ gather mem r = sent @ gather mem vs" using c(4) by simp
      have "(if r = [] then Some (Inr (None, done_vs @ d, [], ?sent))
          else case st_netfd_poll p of Some e \<Rightarrow> Some (Inr (Some e, done_vs @ d, r, ?sent)) | None \<Rightarrow> writev_resid mem l (done_vs @ d) r ?sent) = Some x"
        using Cons.prems unfolding y Done writev_resid_Done [OF False c(1)] Let_def .
      then show ?thesis using Cons.IH [of "done_vs @ d" r ?sent] all c(2,3) by (auto split: if_splits option.splits)
    qed
  qed (use Cons.prems in auto)
qed

lemma writev_resid_returns:
  assumes "iov_total vs + length vs \<le> length (filter takes_some l)"
  shows "\<exists>x. writev_resid mem l done_vs vs sent = Some x"
  using assms
proof (induction l arbitrary: done_vs vs sent)
  case (Cons y l)
  obtain a p where y: "y = (a, p)" by (cases y)
  show ?case
  proof (cases "vs = []")
    case False
    then obtain v vs' where vs: "vs = v # vs'" by (cases vs) auto
    show ?thesis
    proof (cases a)
      case (Failed e)
      then show ?thesis using Cons.prems Cons.IH [of vs done_vs sent] unfolding y vs by (auto simp: takes_some_def split: option.splits)
    next
      case (Done n)
      from consume_step [OF False, of n mem] obtain d r where c: "iov_consume (min n (iov_total vs)) vs = Inr (d, r)"
        "length d + length r = length vs" "iov_total r = iov_total vs - n" "0 < n \<longrightarrow> iov_total r + length r < iov_total vs + length vs" by metis
      have "takes_some y = (0 < n)" by (simp add: y Done takes_some_def)
      then have "iov_total r + length r \<le> length (filter takes_some l)"
        using Cons.prems c(2-4) by (cases "0 < n") simp_all
      from Cons.IH [OF this] show ?thesis unfolding y Done writev_resid_Done [OF False c(1)] Let_def by (simp split: option.split)
    qed
  qed simp
qed simp

lemma st_write_ok:
  assumes "st_write mem l buf nbyte = Some x"
  shows "\<exists>rv sent. x = Inr (rv, sent) \<and> (\<exists>rest. sent @ rest = mem_at mem buf nbyte) \<and>
    (case rv of Inr n \<Rightarrow> n = nbyte \<and> sent = mem_at mem buf nbyte | Inl e \<Rightarrow> True)"
proof -
  obtain y where y: "writev_resid mem l [] [\<lparr>iov_base = buf, iov_len = nbyte\<rparr>] [] = Some y"
    using assms by (auto simp: st_write_def st_write_resid_def st_writev_resid_def)
  from writev_resid_ok [OF this] obtain rv d r sent where
    r: "y = Inr (rv, d, r, sent)" "sent @ gather mem r = mem_at mem buf nbyte" "iov_total d = 0" "length d + length r = 1" "rv = None \<longrightarrow> r = []" by auto
  have "rv = None \<longrightarrow> iov_len (hd (d @ r)) = 0" using r(3-5) by (cases d) auto
  then show ?thesis using assms y r(1,2,5) by (auto simp: st_write_def st_write_resid_def st_writev_resid_def split: option.splits)
qed

lemma st_write_returns: "nbyte + 1 \<le> length (filter takes_some l) \<Longrightarrow> \<exists>x. st_write mem l buf nbyte = Some x"
  using writev_resid_returns [of "[\<lparr>iov_base = buf, iov_len = nbyte\<rparr>]" l mem "[]" "[]"]
  by (auto simp: st_write_def st_write_resid_def st_writev_resid_def)

lemma find_vec_ok:
  "n < iov_total vs \<Longrightarrow> \<exists>i m. find_vec n vs = Inr (i, m) \<and> gather mem (copy_from i m vs) = drop n (gather mem vs)"
proof (induction n vs rule: find_vec.induct)
  case (2 n v vs)
  show ?case
  proof (cases "n \<ge> iov_len v")
    case True
    then have "n - iov_len v < iov_total vs" using 2(2) by simp
    then obtain i m where im: "find_vec (n - iov_len v) vs = Inr (i, m)" "gather mem (copy_from i m vs) = drop (n - iov_len v) (gather mem vs)"
      using 2(1) True by blast
    have "copy_from (Suc i) m (v # vs) = copy_from i m vs" by (simp add: copy_from_def)
    then show ?thesis using True im by simp
  qed (simp add: copy_from_def mem_at_drop)
qed simp

text \<open>Before each turn: what was sent and what is still to be sent are the message.\<close>

definition writev_inv :: "(int \<Rightarrow> byte) \<Rightarrow> iovec list \<Rightarrow> iovec list \<Rightarrow> nat \<Rightarrow> byte list \<Rightarrow> bool" where
  "writev_inv mem iov tmp nleft sent \<longleftrightarrow> sent @ gather mem tmp = gather mem iov \<and> nleft = iov_total tmp"

definition writev_right :: "(int \<Rightarrow> byte) \<Rightarrow> iovec list \<Rightarrow> writev_result \<Rightarrow> bool" where
  "writev_right mem iov r \<longleftrightarrow> (\<exists>rv sent. r = Inr (rv, sent) \<and> (\<exists>rest. sent @ rest = gather mem iov) \<and>
     (\<forall>n. rv = Inr n \<longrightarrow> n = iov_total iov \<and> sent = gather mem iov))"

lemma writev_turn_ok:
  assumes "writev_inv mem iov tmp nleft sent" "0 < nleft"
  shows "case writev_turn mem alloc_ok iov x tmp copied nleft sent of
      Inl r \<Rightarrow> writev_right mem iov r
    | Inr (tmp', copied', nleft', sent') \<Rightarrow> writev_inv mem iov tmp' nleft' sent' \<and> nleft' \<le> nleft \<and> (takes_some x \<longrightarrow> nleft' < nleft)"
proof -
  note all = assms(1) [unfolded writev_inv_def, THEN conjunct1] and total = assms(1) [unfolded writev_inv_def, THEN conjunct2]
  show ?thesis
  proof (cases "fst x")
    case (Failed e)
    have "\<exists>rest. sent @ rest = gather mem iov" using all by blast
    then show ?thesis using Failed assms(1)
      by (auto simp: writev_turn_def Let_def writev_right_def takes_some_def split: option.split)
  next
    case (Done n)
    let ?n = "min n (iov_total tmp)" and ?sent = "sent @ take (min n (iov_total tmp)) (gather mem tmp)"
    have rest: "?sent @ drop ?n (gather mem tmp) = gather mem iov" using all by simp
    then have pre: "\<exists>rest. ?sent @ rest = gather mem iov" by blast
    show ?thesis
    proof (cases "?n = nleft")
      case True
      then have "?sent = gather mem iov" using all total by simp
      then have "writev_right mem iov (Inr (Inr (iov_total iov), ?sent))" by (auto simp: writev_right_def)
      moreover have "writev_turn mem alloc_ok iov x tmp copied nleft sent = Inl (Inr (Inr (iov_total iov), ?sent))"
        unfolding writev_turn_def Let_def Done sys_answer.case if_P [OF True] ..
      ultimately show ?thesis by simp
    next
      case False
      have len: "length sent + nleft = iov_total iov" using arg_cong [OF all, of length] total by simp
      let ?k = "nleft - ?n"
      have k: "0 < ?k" "?k \<le> nleft" "0 < n \<longrightarrow> ?k < nleft" using False total assms(2) by auto
      have "iov_total iov - ?k = length ?sent" "iov_total iov - ?k < iov_total iov" using len k(1) total by auto
      then obtain i m where im: "find_vec (iov_total iov - ?k) iov = Inr (i, m)" "gather mem (copy_from i m iov) = drop (length ?sent) (gather mem iov)"
        using find_vec_ok by metis
      have copy: "gather mem (copy_from i m iov) = drop ?n (gather mem tmp)" unfolding im(2) rest [symmetric] by simp
      have "iov_total (copy_from i m iov) = ?k" using arg_cong [OF copy, of length] total by simp
      then have inv: "writev_inv mem iov (copy_from i m iov) ?k ?sent" using rest copy by (simp add: writev_inv_def)
      have bad: "writev_right mem iov (Inr (Inl e, ?sent))" for e using pre unfolding writev_right_def by blast
      have "writev_turn mem alloc_ok iov x tmp copied nleft sent =
          (if \<not> copied \<and> length iov - i > LOCAL_MAXIOV \<and> \<not> alloc_ok then Inl (Inr (Inl None, ?sent))
           else case st_netfd_poll (snd x) of Some e \<Rightarrow> Inl (Inr (Inl (Some e), ?sent)) | None \<Rightarrow> Inr (copy_from i m iov, True, ?k, ?sent))"
        unfolding writev_turn_def Let_def Done sys_answer.case if_not_P [OF False] im(1) sum.case prod.case ..
      moreover have "takes_some x = (0 < n)" by (simp add: takes_some_def Done)
      ultimately show ?thesis using inv bad k by (simp split: option.split)
    qed
  qed
qed

lemma single_gather: "length tmp = 1 \<Longrightarrow> mem_at mem (iov_base (hd tmp)) (iov_total tmp) = gather mem tmp"
  by (cases tmp) auto

lemma writev_last_ok:
  assumes "writev_inv mem iov tmp nleft sent" "length tmp = 1" "writev_last mem iov l tmp nleft sent = Some r"
  shows "writev_right mem iov r"
proof -
  note inv = assms(1) [unfolded writev_inv_def]
  obtain y where y: "st_write mem l (iov_base (hd tmp)) nleft = Some y" using assms(3) by (auto simp: writev_last_def)
  from st_write_ok [OF y] obtain rv more rest where w: "y = Inr (rv, more)" "more @ rest = gather mem tmp"
    "case rv of Inr n \<Rightarrow> n = nleft \<and> more = gather mem tmp | Inl e \<Rightarrow> True" unfolding inv [THEN conjunct2] single_gather [OF assms(2)] by blast
  have pre: "(sent @ more) @ rest = gather mem iov" using inv w(2) by simp
  then have "\<exists>rest. (sent @ more) @ rest = gather mem iov" by blast
  then show ?thesis using assms(3) y w(1,3) inv by (auto simp: writev_last_def writev_right_def split: sum.splits)
qed

lemma writev_loop_ok:
  assumes "writev_inv mem iov tmp nleft sent" "writev_loop mem alloc_ok iov l tmp copied nleft sent = Some r"
  shows "writev_right mem iov r"
  using assms
proof (induction l arbitrary: tmp copied nleft sent)
  have ended: "writev_right mem iov (Inr (Inr (iov_total iov), sent))" if "writev_inv mem iov tmp 0 sent" for tmp sent
  proof -
    have "gather mem tmp = []" using that gather_length [of mem tmp] by (auto simp: writev_inv_def simp del: gather_length)
    then show ?thesis using that by (simp add: writev_inv_def writev_right_def)
  qed
  {
    case Nil
    then show ?case using ended by (auto split: if_splits)
  next
    case (Cons x l)
    show ?case
    proof (cases "0 < nleft \<and> length tmp \<noteq> 1")
      case True
      then show ?thesis using writev_turn_ok [OF Cons.prems(1), where x = x and alloc_ok = alloc_ok and copied = copied] Cons.IH Cons.prems(2) by (auto split: sum.splits)
    next
      case False
      then show ?thesis using Cons.prems ended writev_last_ok by (auto split: if_splits)
    qed
  }
qed

lemma writev_loop_returns:
  assumes "writev_inv mem iov tmp nleft sent" "nleft + 1 \<le> length (filter takes_some l)"
  shows "\<exists>r. writev_loop mem alloc_ok iov l tmp copied nleft sent = Some r"
  using assms
proof (induction l arbitrary: tmp copied nleft sent)
  case (Cons x l)
  show ?case
  proof (cases "0 < nleft \<and> length tmp \<noteq> 1")
    case True
    show ?thesis
    proof (cases "writev_turn mem alloc_ok iov x tmp copied nleft sent")
      case (Inr y)
      then obtain tmp' copied' nleft' sent' where y: "writev_turn mem alloc_ok iov x tmp copied nleft sent = Inr (tmp', copied', nleft', sent')" by (cases y) auto
      then have "writev_inv mem iov tmp' nleft' sent'" "nleft' + 1 \<le> length (filter takes_some l)"
        using writev_turn_ok [OF Cons.prems(1), where x = x and alloc_ok = alloc_ok and copied = copied] True Cons.prems(2) by (auto split: if_splits)
      from Cons.IH [OF this] True y show ?thesis by simp
    qed (use True in simp)
  next
    case False
    then show ?thesis using st_write_returns [OF Cons.prems(2), of mem "iov_base (hd tmp)"] by (auto simp: writev_last_def)
  qed
qed simp

text \<open>
  C16: \<open>st_writev\<close> sends the vectors in order, whatever the kernel takes at a time and however often it has to wait: it never
  leaves its vectors, what it sent is always a beginning of the message, and when it answers a number it sent the whole
  message and the number is its length.  And it does return, at the latest when the kernel took something once more than the
  message has bytes.
\<close>

theorem writev_sends_all:
  "(\<forall>r. st_writev mem alloc_ok l iov = Some r \<longrightarrow> (\<exists>rv sent. r = Inr (rv, sent) \<and> (\<exists>rest. sent @ rest = gather mem iov) \<and>
      (\<forall>n. rv = Inr n \<longrightarrow> n = iov_total iov \<and> sent = gather mem iov))) \<and>
    (iov_total iov < length (filter takes_some l) \<longrightarrow> st_writev mem alloc_ok l iov \<noteq> None)"
proof -
  have inv: "writev_inv mem iov iov (iov_total iov) []" by (simp add: writev_inv_def)
  then show ?thesis using writev_loop_ok [OF inv, of alloc_ok l False] writev_loop_returns [OF inv, of l alloc_ok False]
    by (auto simp: st_writev_def writev_right_def)
qed

lemma writev_sends_all_witness:
  "\<exists>rv sent. st_writev (\<lambda>a. word_of_int a) True
      [(Done 1, Inr 1, 4), (Failed EINTR, Inr 0, 0), (Done 1, Inr 1, 4), (Failed EAGAIN, Inr 1, 4), (Done 9, Inr 1, 4), (Done 9, Inr 1, 4)]
      [\<lparr>iov_base = 10, iov_len = 2\<rparr>, \<lparr>iov_base = 20, iov_len = 1\<rparr>] = Some (Inr (rv, sent)) \<and>
    (\<forall>n. rv = Inr n \<longrightarrow> n = 3 \<and> sent = [10, 11, 20])"
proof -
  let ?mem = "\<lambda>a. word_of_int a :: byte" and ?iov = "[\<lparr>iov_base = 10, iov_len = 2\<rparr>, \<lparr>iov_base = 20, iov_len = 1\<rparr>]"
  let ?l = "[(Done 1, Inr 1, 4), (Failed EINTR, Inr 0, 0), (Done 1, Inr 1, 4), (Failed EAGAIN, Inr 1, 4), (Done 9, Inr 1, 4), (Done 9, Inr 1, 4)] :: nat round list"
  have "iov_total ?iov < length (filter takes_some ?l)" by (simp add: takes_some_def)
  with writev_sends_all [of ?mem True ?l ?iov] obtain rv sent where
    "st_writev ?mem True ?l ?iov = Some (Inr (rv, sent))" "\<forall>n. rv = Inr n \<longrightarrow> n = iov_total ?iov \<and> sent = gather ?mem ?iov" by blast
  moreover have "gather ?mem ?iov = [10, 11, 20]" by (simp add: mem_at_def upt_rec)
  ultimately show ?thesis by (intro exI [of _ rv] exI [of _ sent]) simp
qed

subsection \<open>Reading\<close>

lemma store_at_Nil [simp]: "store_at mem a [] = mem"
  by (auto simp: store_at_def fun_eq_iff)

lemma nat_minus_offset: "nat (x - a) - n = nat (x - (a + int n))"
  by linarith

lemma store_at_append: "store_at mem a (xs @ ys) = store_at (store_at mem a xs) (a + int (length xs)) ys"
  by (auto simp: store_at_def fun_eq_iff nth_append nat_minus_offset)

lemma mem_at_store: "mem_at (store_at mem a bs) a (length bs) = bs"
  by (rule nth_equalityI) (simp_all add: mem_at_def store_at_def)

lemma scatter_Nil [simp]: "scatter [] vs mem = mem"
  by (induction vs arbitrary: mem) simp_all

lemma iov_skip_0 [simp]: "iov_skip 0 v = v"
  by (simp add: iov_skip_def)

lemma scatter_advance:
  assumes "iov_advance n vs = Inr (d, r, m)" "length bs = n"
  shows "scatter (bs @ cs) vs mem = scatter cs (case r of [] \<Rightarrow> [] | v # r \<Rightarrow> iov_skip m v # r) (scatter bs vs mem)"
  using assms
proof (induction n vs arbitrary: bs mem d r m rule: iov_advance.induct)
  case (2 n v vs)
  consider "n > iov_len v" | "n = iov_len v" | "n < iov_len v" by linarith
  then show ?case
  proof cases
    case 1
    then obtain d' where a: "iov_advance (n - iov_len v) vs = Inr (d', r, m)" using 2(2) by (auto simp: Let_def)
    have "length (drop (iov_len v) bs) = n - iov_len v" "take (iov_len v) (bs @ cs) = take (iov_len v) bs" "drop (iov_len v) (bs @ cs) = drop (iov_len v) bs @ cs"
      using 2(3) 1 by simp_all
    with 2(1) [OF _ refl refl _ a] 1 show ?thesis by simp
  next
    case 2: 2
    then have "r = vs" "m = 0" "take (iov_len v) (bs @ cs) = bs" "drop (iov_len v) (bs @ cs) = cs" using \<open>iov_advance n (v # vs) = _\<close> \<open>length bs = n\<close> by (auto simp: Let_def)
    then show ?thesis using 2 \<open>length bs = n\<close> by (cases vs) simp_all
  next
    case 3
    then have "r = v # vs" "m = n" "take (iov_len v) (bs @ cs) = bs @ take (iov_len v - n) cs" "drop (iov_len v) (bs @ cs) = drop (iov_len v - n) cs"
      using 2(2,3) by (auto simp: Let_def)
    then show ?thesis using 3 2(3) by (simp add: store_at_append)
  qed
qed simp

lemma scatter_consume: "iov_consume (length bs) vs = Inr (d, r) \<Longrightarrow> scatter (bs @ cs) vs mem = scatter cs r (scatter bs vs mem)"
  by (auto simp: iov_consume_def dest: scatter_advance [where bs = bs and cs = cs and mem = mem, OF _ refl])

definition delivered :: "byte list round list \<Rightarrow> byte list" where
  "delivered l = concat (map (\<lambda>x. case fst x of Done bs \<Rightarrow> bs | Failed e \<Rightarrow> []) l)"

lemma delivered_simps [simp]: "delivered [] = []" "delivered ((Done bs, p) # l) = bs @ delivered l" "delivered ((Failed e, p) # l) = delivered l"
  by (simp_all add: delivered_def)

text \<open>
  What \<open>readv_resid\<close> did with the rounds \<open>l1\<close> that it used: all bytes that arrived are in the vectors, in order, and when it ended
  without an error the vectors are full or the input ended.
\<close>

definition reads_right :: "iovec list \<Rightarrow> (int \<Rightarrow> byte) \<Rightarrow> byte list round list \<Rightarrow> st_errno option \<Rightarrow> iovec list \<Rightarrow> (int \<Rightarrow> byte) \<Rightarrow> bool" where
  "reads_right vs mem l1 rv r mem' \<longleftrightarrow> mem' = scatter (take (iov_total vs) (delivered l1)) vs mem \<and>
     iov_total r = iov_total vs - length (delivered l1) \<and>
     (rv = None \<longrightarrow> iov_total r = 0 \<or> (\<exists>l p. l1 = l @ [(Done [], p)]))"

lemma reads_right_Failed: "reads_right vs mem l1 rv r mem' \<Longrightarrow> reads_right vs mem ((Failed e, p) # l1) rv r mem'"
  by (auto simp: reads_right_def)

lemma reads_right_Done:
  assumes "reads_right r0 (scatter (take (iov_total vs) bs) vs mem) l1 rv r mem'" "iov_consume (length (take (iov_total vs) bs)) vs = Inr (d, r0)"
    and "iov_total r0 = iov_total vs - length bs"
  shows "reads_right vs mem ((Done bs, p) # l1) rv r mem'"
proof -
  have "scatter (take (iov_total vs) (bs @ delivered l1)) vs mem = scatter (take (iov_total r0) (delivered l1)) r0 (scatter (take (iov_total vs) bs) vs mem)"
    using scatter_consume [OF assms(2), of "take (iov_total vs - length bs) (delivered l1)"] by (simp add: assms(3))
  then show ?thesis using assms(1,3) by (auto simp: reads_right_def)
qed

lemma reads_right_Nil: "rv = None \<longrightarrow> iov_total vs = 0 \<Longrightarrow> reads_right vs mem [] rv vs mem"
  by (simp add: reads_right_def)

lemma readv_resid_Done:
  assumes "vs \<noteq> []" "take (iov_total vs) bs \<noteq> []" "iov_consume (length (take (iov_total vs) bs)) vs = Inr (d, r)"
  shows "readv_resid ((Done bs, p) # l) done_vs vs mem =
    (let mem = scatter (take (iov_total vs) bs) vs mem in
     if r = [] then Some (Inr (None, done_vs @ d, [], mem))
     else case st_netfd_poll p of Some e \<Rightarrow> Some (Inr (Some e, done_vs @ d, r, mem)) | None \<Rightarrow> readv_resid l (done_vs @ d) r mem)"
proof -
  obtain v vs' where vs: "vs = v # vs'" using assms(1) by (cases vs) auto
  show ?thesis unfolding vs readv_resid.simps Let_def if_not_P [OF assms(2) [unfolded vs]] assms(3) [unfolded vs] sum.case prod.case ..
qed

lemma readv_resid_ok:
  assumes "readv_resid l done_vs vs mem = Some x"
  shows "\<exists>l1 l2 rv d r mem'. l = l1 @ l2 \<and> x = Inr (rv, d, r, mem') \<and> reads_right vs mem l1 rv r mem' \<and>
    iov_total d = iov_total done_vs \<and> length d + length r = length done_vs + length vs"
  using assms
proof (induction l arbitrary: done_vs vs mem)
  case Nil
  then show ?case using reads_right_Nil by (cases vs) auto
next
  case (Cons y l)
  obtain a p where y: "y = (a, p)" by (cases y)
  show ?case
  proof (cases "vs = []")
    case True
    then show ?thesis using Cons.prems reads_right_Nil [of None vs mem] by (intro exI [of _ "[]"] exI [of _ "y # l"]) auto
  next
    case False
    then obtain v vs' where vs: "vs = v # vs'" by (cases vs) auto
    show ?thesis
    proof (cases a)
      case (Failed e)
      have "(\<exists>e'. x = Inr (Some e', done_vs, vs, mem)) \<or> readv_resid l done_vs vs mem = Some x"
        using Cons.prems unfolding y vs Failed by (auto split: if_splits option.splits)
      then show ?thesis
      proof
        assume "readv_resid l done_vs vs mem = Some x"
        from Cons.IH [OF this] obtain l1 l2 rv d r mem' where i: "l = l1 @ l2" "x = Inr (rv, d, r, mem')" "reads_right vs mem l1 rv r mem'"
          "iov_total d = iov_total done_vs" "length d + length r = length done_vs + length vs" by blast
        then show ?thesis using reads_right_Failed [OF i(3), of e p] by (intro exI [of _ "y # l1"] exI [of _ l2]) (auto simp: y Failed)
      next
        assume "\<exists>e'. x = Inr (Some e', done_vs, vs, mem)"
        then obtain e' where x: "x = Inr (Some e', done_vs, vs, mem)" ..
        have "reads_right vs mem [y] (Some e') vs mem" unfolding y Failed by (rule reads_right_Failed [OF reads_right_Nil]) simp
        then show ?thesis using x by (intro exI [of _ "[y]"] exI [of _ l]) auto
      qed
    next
      case (Done bs)
      let ?bs = "take (iov_total vs) bs"
      show ?thesis
      proof (cases "?bs = []")
        case True
        then have "x = Inr (None, done_vs, vs, mem)" using Cons.prems unfolding y vs Done by simp
        moreover have "reads_right vs mem [(Done bs, p)] None vs mem" using True by (auto simp: reads_right_def)
        ultimately show ?thesis by (intro exI [of _ "[y]"] exI [of _ l]) (auto simp: y Done)
      next
        case some: False
        have len: "length ?bs \<le> iov_total vs" by simp
        from iov_consume_ok [OF len False] obtain d r where c: "iov_consume (length ?bs) vs = Inr (d, r)"
          "length d + length r = length vs" "iov_total d = 0" "iov_total r = iov_total vs - length ?bs" by blast
        let ?mem = "scatter ?bs vs mem"
        have tot: "iov_total r = iov_total vs - length bs" using c(4) by auto
        have next_round: "\<exists>l1 l2 rv d r mem'. y # l = l1 @ l2 \<and> x = Inr (rv, d, r, mem') \<and> reads_right vs mem l1 rv r mem' \<and>
            iov_total d = iov_total done_vs \<and> length d + length r = length done_vs + length vs"
          if i: "l = l1 @ l2" "x = Inr (rv, d', r', mem')" "reads_right r ?mem l1 rv r' mem'" "iov_total d' = iov_total (done_vs @ d)"
            "length d' + length r' = length (done_vs @ d) + length r" for l1 l2 rv d' r' mem'
          using reads_right_Done [OF i(3) c(1) tot, of p] i c(2,3)
          by (intro exI [of _ "y # l1"] exI [of _ l2] exI [of _ rv] exI [of _ d'] exI [of _ r'] exI [of _ mem']) (auto simp: y Done)
        have "(if r = [] then Some (Inr (None, done_vs @ d, [], ?mem))
            else case st_netfd_poll p of Some e \<Rightarrow> Some (Inr (Some e, done_vs @ d, r, ?mem)) | None \<Rightarrow> readv_resid l (done_vs @ d) r ?mem) = Some x"
          using Cons.prems unfolding y Done readv_resid_Done [OF False some c(1)] Let_def .
        then consider "r = []" "x = Inr (None, done_vs @ d, [], ?mem)" | e where "x = Inr (Some e, done_vs @ d, r, ?mem)"
          | "readv_resid l (done_vs @ d) r ?mem = Some x" by (auto split: if_splits option.splits)
        then show ?thesis
        proof cases
          case 1
          then show ?thesis using next_round [of "[]" l None "done_vs @ d" r ?mem] reads_right_Nil [of None r ?mem] by simp
        next
          case (2 e)
          then show ?thesis using next_round [of "[]" l "Some e" "done_vs @ d" r ?mem] reads_right_Nil [of "Some e" r ?mem] by simp
        next
          case 3
          from Cons.IH [OF this] obtain l1 l2 rv d' r' mem' where i: "l = l1 @ l2" "x = Inr (rv, d', r', mem')" "reads_right r ?mem l1 rv r' mem'"
            "iov_total d' = iov_total (done_vs @ d)" "length d' + length r' = length (done_vs @ d) + length r" by blast
          show ?thesis by (rule next_round [OF i])
        qed
      qed
    qed
  qed
qed

definition is_done :: "'r round \<Rightarrow> bool" where
  "is_done x \<longleftrightarrow> (case fst x of Done r \<Rightarrow> True | Failed e \<Rightarrow> False)"

lemma readv_resid_returns:
  assumes "iov_total vs + length vs \<le> length (filter is_done l)"
  shows "\<exists>x. readv_resid l done_vs vs mem = Some x"
  using assms
proof (induction l arbitrary: done_vs vs mem)
  case (Cons y l)
  obtain a p where y: "y = (a, p)" by (cases y)
  show ?case
  proof (cases "vs = []")
    case False
    then obtain v vs' where vs: "vs = v # vs'" by (cases vs) auto
    show ?thesis
    proof (cases a)
      case (Failed e)
      then show ?thesis using Cons.prems Cons.IH [of vs done_vs mem] unfolding y vs by (auto simp: is_done_def split: option.splits)
    next
      case (Done bs)
      let ?bs = "take (iov_total vs) bs"
      show ?thesis
      proof (cases "?bs = []")
        case True
        then show ?thesis unfolding y vs Done by simp
      next
        case some: False
        have len: "length ?bs \<le> iov_total vs" by simp
        from iov_consume_ok [OF len False] obtain d r where c: "iov_consume (length ?bs) vs = Inr (d, r)"
          "length d + length r = length vs" "iov_total r = iov_total vs - length ?bs" by blast
        have "is_done y" by (simp add: y Done is_done_def)
        then have "iov_total vs + length vs \<le> Suc (length (filter is_done l))" using Cons.prems by simp
        moreover have "length ?bs > 0" using some by blast
        ultimately have "iov_total r + length r \<le> length (filter is_done l)" using c(2,3) len by linarith
        from Cons.IH [OF this] show ?thesis unfolding y Done readv_resid_Done [OF False some c(1)] Let_def by (simp split: option.split)
      qed
    qed
  qed simp
qed simp

text \<open>
  C17: \<open>st_read_fully\<close> stores what arrives, in order and nowhere but in its buffer, however it arrives in pieces and however often it
  has to wait; when it answers a number, that many bytes arrived and the number is what was asked for unless the input
  ended.  And it does return, at the latest when something arrived once more than there are bytes.
\<close>

theorem read_fully_stream:
  "(\<forall>x. st_read_fully l buf nbyte mem = Some x \<longrightarrow> (\<exists>l1 l2 rv mem'. l = l1 @ l2 \<and> x = Inr (rv, mem') \<and>
      mem_at mem' buf (min nbyte (length (delivered l1))) = take nbyte (delivered l1) \<and>
      (\<forall>a. \<not> (buf \<le> a \<and> a < buf + int nbyte) \<longrightarrow> mem' a = mem a) \<and>
      (\<forall>n. rv = Inr n \<longrightarrow> n = min nbyte (length (delivered l1)) \<and> (n = nbyte \<or> (\<exists>l p. l1 = l @ [(Done [], p)]))))) \<and>
    (nbyte < length (filter is_done l) \<longrightarrow> st_read_fully l buf nbyte mem \<noteq> None)"
proof (intro conjI allI impI)
  let ?v = "[\<lparr>iov_base = buf, iov_len = nbyte\<rparr>]"
  fix x
  assume "st_read_fully l buf nbyte mem = Some x"
  then obtain y where y: "readv_resid l [] ?v mem = Some y" and x: "x = rbind (rbind y (\<lambda>(rv, d, r, mem). Inr (rv, iov_len (hd (d @ r)), mem)))
      (\<lambda>(rv, resid, mem). Inr (case rv of None \<Rightarrow> Inr (nbyte - resid) | Some e \<Rightarrow> Inl e, mem))"
    by (auto simp: st_read_fully_def st_read_resid_def st_readv_resid_def)
  from readv_resid_ok [OF y] obtain l1 l2 rv d r mem' where r: "l = l1 @ l2" "y = Inr (rv, d, r, mem')" "reads_right ?v mem l1 rv r mem'"
    "iov_total d = 0" "length d + length r = 1" by auto
  let ?got = "take nbyte (delivered l1)"
  have mem': "mem' = store_at mem buf ?got" using r(3) by (simp add: reads_right_def)
  have resid: "iov_len (hd (d @ r)) = nbyte - length (delivered l1)"
    using r(3-5) by (cases d) (auto simp: reads_right_def length_Suc_conv)
  have full: "rv = None \<longrightarrow> nbyte - length (delivered l1) = 0 \<or> (\<exists>l p. l1 = l @ [(Done [], p)])" using r(3) by (auto simp: reads_right_def)
  have "mem_at mem' buf (length ?got) = ?got" unfolding mem' by (rule mem_at_store)
  then have "mem_at mem' buf (min nbyte (length (delivered l1))) = ?got" by (simp add: min.commute)
  moreover have "\<forall>a. \<not> (buf \<le> a \<and> a < buf + int nbyte) \<longrightarrow> mem' a = mem a" unfolding mem' by (auto simp: store_at_def)
  moreover have "x = Inr (case rv of None \<Rightarrow> Inr (nbyte - (nbyte - length (delivered l1))) | Some e \<Rightarrow> Inl e, mem')"
    unfolding x r(2) by (simp add: resid)
  moreover have "\<forall>n. (case rv of None \<Rightarrow> Inr (nbyte - (nbyte - length (delivered l1))) | Some e \<Rightarrow> Inl e) = Inr n \<longrightarrow>
      n = min nbyte (length (delivered l1)) \<and> (n = nbyte \<or> (\<exists>l p. l1 = l @ [(Done [], p)]))"
    using full by (auto split: option.splits)
  ultimately show "\<exists>l1 l2 rv mem'. l = l1 @ l2 \<and> x = Inr (rv, mem') \<and>
      mem_at mem' buf (min nbyte (length (delivered l1))) = take nbyte (delivered l1) \<and>
      (\<forall>a. \<not> (buf \<le> a \<and> a < buf + int nbyte) \<longrightarrow> mem' a = mem a) \<and>
      (\<forall>n. rv = Inr n \<longrightarrow> n = min nbyte (length (delivered l1)) \<and> (n = nbyte \<or> (\<exists>l p. l1 = l @ [(Done [], p)])))"
    using r(1) by blast
next
  assume "nbyte < length (filter is_done l)"
  then show "st_read_fully l buf nbyte mem \<noteq> None"
    using readv_resid_returns [of "[\<lparr>iov_base = buf, iov_len = nbyte\<rparr>]" l "[]" mem]
    by (auto simp: st_read_fully_def st_read_resid_def st_readv_resid_def)
qed

lemma read_fully_stream_witness:
  "\<exists>rv mem'. st_read_fully [(Done [7, 8], Inr 1, 1), (Failed EAGAIN, Inr 1, 1), (Done [9, 9], Inr 1, 1), (Done [], Inr 1, 1)] 100 3 (\<lambda>_. 0)
      = Some (Inr (rv, mem')) \<and> (\<forall>n. rv = Inr n \<longrightarrow> n \<le> 3) \<and> mem' 99 = 0 \<and> mem' 103 = 0"
proof -
  define l :: "byte list round list" where "l = [(Done [7, 8], Inr 1, 1), (Failed EAGAIN, Inr 1, 1), (Done [9, 9], Inr 1, 1), (Done [], Inr 1, 1)]"
  have "\<exists>x. st_read_fully l 100 3 (\<lambda>_. 0) = Some x"
    by (simp add: l_def st_read_fully_def st_read_resid_def st_readv_resid_def io_not_ready_def iov_consume_def Let_def POLLNVAL_def)
  then obtain x where x: "st_read_fully l 100 3 (\<lambda>_. 0) = Some x" ..
  from read_fully_stream [THEN conjunct1, THEN spec, THEN mp, OF x] obtain l1 l2 rv mem' where
    "l = l1 @ l2 \<and> x = Inr (rv, mem') \<and> mem_at mem' 100 (min 3 (length (delivered l1))) = take 3 (delivered l1) \<and>
      (\<forall>a. \<not> (100 \<le> a \<and> a < 100 + int 3) \<longrightarrow> mem' a = 0) \<and>
      (\<forall>n. rv = Inr n \<longrightarrow> n = min 3 (length (delivered l1)) \<and> (n = 3 \<or> (\<exists>l p. l1 = l @ [(Done [], p)])))" by (elim exE) (rule that)
  then have r: "x = Inr (rv, mem')" "mem' 99 = 0" "mem' 103 = 0" "\<forall>n. rv = Inr n \<longrightarrow> n \<le> 3" by auto
  show ?thesis using x r(2-4) unfolding r(1) l_def by (intro exI [of _ rv] exI [of _ mem'] conjI)
qed

subsection \<open>Calls that are repeated\<close>

definition retried :: "'r round \<Rightarrow> bool" where
  "retried x \<longleftrightarrow> (case fst x of Done r \<Rightarrow> False | Failed e \<Rightarrow> e = EINTR \<or> e = EAGAIN \<and> st_netfd_poll (snd x) = None)"

definition final_answer :: "'r round \<Rightarrow> st_errno + 'r" where
  "final_answer x = (case fst x of Done r \<Rightarrow> Inr r
     | Failed e \<Rightarrow> Inl (if e = EAGAIN then the (st_netfd_poll (snd x)) else e))"

text \<open>A loop answers with the first round that is not retried: a result, an error, or the failure to wait.\<close>

lemma io_loop_result: "io_loop l = (case dropWhile retried l of [] \<Rightarrow> None | x # rest \<Rightarrow> Some (final_answer x, rest))"
proof (induction l rule: io_loop.induct)
  case (3 e p l)
  then show ?case by (cases "e = EINTR"; cases "e = EAGAIN") (auto simp: io_not_ready_def retried_def final_answer_def split: option.split)
qed (simp_all add: retried_def final_answer_def)

text \<open>
  An empty vector at the end makes \<open>st_readv_resid\<close> wait for input although all vectors are full: here it has read the three
  bytes it was asked for and times out.
\<close>

lemma empty_vector_waits:
  "\<exists>d r. st_readv_resid [(Done [1, 2, 3], Inr 0, 0)] [\<lparr>iov_base = 0, iov_len = 3\<rparr>, \<lparr>iov_base = 9, iov_len = 0\<rparr>] (\<lambda>_. 0) =
    Some (Inr (Some ETIME, d, r, store_at (\<lambda>_. 0) 0 [1, 2, 3])) \<and> iov_total (d @ r) = 0"
  by (simp add: st_readv_resid_def iov_consume_def Let_def iov_skip_def iov_total_def)

subsection \<open>The pool of descriptor objects\<close>

definition pool_ok :: "st_io \<Rightarrow> bool" where
  "pool_ok s \<longleftrightarrow> distinct (netfd_freelist s) \<and> (\<forall>p. p \<in> set (netfd_freelist s) \<longleftrightarrow> (\<exists>f. netfds s p = Some f \<and> \<not> nf_inuse f)) \<and>
     (\<forall>p f. netfds s p = Some f \<longrightarrow> \<not> nf_inuse f \<longrightarrow> private_data f = None \<and> nf_destructor f = None)"

definition no_netfds :: st_io where
  "no_netfds = \<lparr>netfds = Map.empty, netfd_freelist = [], osfd_limit = - 1, destructed = []\<rparr>"

text \<open>What the program can do with descriptor objects; \<open>calloc\<close> answers addresses that are not in use.\<close>

inductive netfd_reachable :: "st_io \<Rightarrow> bool" where
  start: "netfd_reachable no_netfds"
| new: "netfd_reachable s \<Longrightarrow> (\<And>p. netfd_mem env = Some p \<Longrightarrow> netfds s p = None) \<Longrightarrow> st_netfd_new env osfd nonblock is_socket s = Inr (r, s') \<Longrightarrow>
    netfd_reachable s'"
| free: "netfd_reachable s \<Longrightarrow> st_netfd_free p s = Inr s' \<Longrightarrow> netfd_reachable s'"
| close: "netfd_reachable s \<Longrightarrow> st_netfd_close busy p s = Inr (r, s') \<Longrightarrow> netfd_reachable s'"
| setspecific: "netfd_reachable s \<Longrightarrow> netfds s p = Some f \<Longrightarrow> nf_inuse f \<Longrightarrow> st_netfd_setspecific p x k s = Inr s' \<Longrightarrow> netfd_reachable s'"

text \<open>The descriptor of an object in use.\<close>

definition used :: "st_io \<Rightarrow> nat \<Rightarrow> int option" where
  "used s p = (case netfds s p of None \<Rightarrow> None | Some f \<Rightarrow> if nf_inuse f then Some (nf_osfd f) else None)"

lemma destructor_fields [simp]:
  "netfds (call_destructor f s) = netfds s" "netfd_freelist (call_destructor f s) = netfd_freelist s"
  by (simp_all add: call_destructor_def split: option.split)

lemma pool_free:
  assumes "pool_ok s" "netfds s p = Some f"
  shows "\<exists>s'. st_netfd_free p s = Inr s' \<and> pool_ok s' \<and> used s' = (used s)(p := None)"
proof (cases "nf_inuse f")
  case True
  then have "p \<notin> set (netfd_freelist s)" using assms by (auto simp: pool_ok_def)
  then show ?thesis using assms True by (auto simp: st_netfd_free_def the_netfd_def set_netfd_def Let_def pool_ok_def used_def fun_eq_iff)
next
  case False
  then show ?thesis using assms by (auto simp: st_netfd_free_def the_netfd_def used_def fun_eq_iff)
qed

lemma pool_new:
  assumes "pool_ok s" "\<And>p. netfd_mem env = Some p \<Longrightarrow> netfds s p = None"
  shows "\<exists>r s'. st_netfd_new env osfd nonblock is_socket s = Inr (r, s') \<and> pool_ok s' \<and>
    (case r of None \<Rightarrow> used s' = used s
     | Some p \<Rightarrow> used s p = None \<and> used s' = (used s)(p \<mapsto> osfd) \<and>
         (\<exists>f. netfds s' p = Some f \<and> private_data f = None \<and> nf_destructor f = None))"
proof (cases "new_ok env")
  case ok: True
  have take_new: "\<exists>r s'. rbind (Inr (p, f, s1)) (\<lambda>(p, f, s).
          let s = set_netfd p (f\<lparr>nf_osfd := osfd, nf_inuse := True\<rparr>) s in
          if nonblock then
            (if is_socket \<and> ioctl_ok env then Inr (Some p, s)
             else if \<not> fcntl_ok env then rbind (st_netfd_free p s) (\<lambda>s. Inr (None, s))
             else Inr (Some p, s))
          else Inr (Some p, s)) = Inr (r, s') \<and> pool_ok s' \<and>
      (case r of None \<Rightarrow> used s' = used s
       | Some p \<Rightarrow> used s p = None \<and> used s' = (used s)(p \<mapsto> osfd) \<and> (\<exists>f. netfds s' p = Some f \<and> private_data f = None \<and> nf_destructor f = None))"
    if f: "used s p = None" "private_data f = None" "nf_destructor f = None" "netfds s1 = netfds s" "p \<notin> set (netfd_freelist s1)"
      "distinct (netfd_freelist s1)" "insert p (set (netfd_freelist s1)) = insert p (set (netfd_freelist s))" for p f s1
  proof -
    let ?f = "f\<lparr>nf_osfd := osfd, nf_inuse := True\<rparr>"
    let ?s = "set_netfd p ?f s1"
    have free: "q \<noteq> p \<Longrightarrow> q \<in> set (netfd_freelist s1) \<longleftrightarrow> q \<in> set (netfd_freelist s)" for q using f(7) by blast
    have pool: "pool_ok ?s" using assms(1) f(4-6) free unfolding pool_ok_def set_netfd_def by auto
    have u: "used ?s = (used s)(p \<mapsto> osfd)" using f(4) by (auto simp: used_def set_netfd_def fun_eq_iff)
    have at: "netfds ?s p = Some ?f" by (simp add: set_netfd_def)
    from pool_free [OF pool at] obtain s' where s': "st_netfd_free p ?s = Inr s'" "pool_ok s'" "used s' = used s" using u f(1) by (auto simp: fun_upd_idem)
    show ?thesis using pool u at s' f(1-3) by (auto simp: Let_def)
  qed
  show ?thesis
  proof (cases "netfd_freelist s")
    case Nil
    show ?thesis
    proof (cases "netfd_mem env")
      case (Some p)
      then have "netfds s p = None" by (rule assms(2))
      then have "used s p = None" by (simp add: used_def)
      from take_new [OF this, of "\<lparr>nf_osfd = 0, nf_inuse = False, private_data = None, nf_destructor = None\<rparr>" s] ok Nil Some
      show ?thesis by (simp add: st_netfd_new_def Let_def)
    qed (use ok Nil assms(1) in \<open>simp add: st_netfd_new_def Let_def\<close>)
  next
    case (Cons p ps)
    then obtain f where f: "netfds s p = Some f" "\<not> nf_inuse f" "private_data f = None" "nf_destructor f = None"
      using assms(1) unfolding pool_ok_def by (metis list.set_intros(1))
    have "used s p = None" using f by (simp add: used_def)
    from take_new [OF this f(3,4), of "s\<lparr>netfd_freelist := ps\<rparr>"] ok Cons f(1) assms(1)
    show ?thesis by (simp add: st_netfd_new_def Let_def pool_ok_def)
  qed
qed (use assms in \<open>simp add: st_netfd_new_def\<close>)

lemma netfd_reachable_pool: "netfd_reachable s \<Longrightarrow> pool_ok s"
proof (induction rule: netfd_reachable.induct)
  case (new s env osfd nonblock is_socket r s')
  then show ?case using pool_new [of s env osfd nonblock is_socket] by auto
next
  case (free s p s')
  then show ?case using pool_free [of s p] by (cases "netfds s p") (auto simp: st_netfd_free_def the_netfd_def)
next
  case (close s busy p r s')
  then obtain f where f: "netfds s p = Some f" by (cases "netfds s p") (auto simp: st_netfd_close_def the_netfd_def)
  from pool_free [OF close.IH this] close f show ?case by (auto simp: st_netfd_close_def the_netfd_def split: option.splits)
next
  case (setspecific s p f x k s')
  then have "netfds s' = (netfds s)(p \<mapsto> f\<lparr>private_data := x, nf_destructor := k\<rparr>)" "netfd_freelist s' = netfd_freelist s"
    by (auto simp: st_netfd_setspecific_def the_netfd_def set_netfd_def Let_def split: if_splits)
  then show ?case using setspecific.IH setspecific.hyps(2,3) by (auto simp: pool_ok_def)
qed (simp add: pool_ok_def no_netfds_def)

text \<open>
  C18: However objects were made, given back, closed and used before, \<open>st_accept\<close> either hands out an object that nobody uses, for the
  accepted descriptor, without data of its former use and with all other objects as they were; or it hands out none and
  leaves nothing behind: then the accepted descriptor is closed again and the objects in use are the same.  It never touches
  memory that is not an object.
\<close>

theorem accept_keeps_or_closes:
  assumes "netfd_reachable s" "\<And>p. netfd_mem env = Some p \<Longrightarrow> netfds s p = None" "io_loop l = Some (a, rest)"
  shows "\<exists>p closed s'. st_accept env l s = Some (Inr (p, closed, s')) \<and> pool_ok s' \<and>
    (case a of Inl e \<Rightarrow> p = None \<and> closed = None \<and> s' = s
     | Inr osfd \<Rightarrow>
        (case p of None \<Rightarrow> closed = Some osfd \<and> used s' = used s
         | Some q \<Rightarrow> closed = None \<and> used s q = None \<and> used s' = (used s)(q \<mapsto> osfd) \<and> st_netfd_getspecific q s' = Inr None))"
proof (cases a)
  case (Inl e)
  then show ?thesis using assms(3) netfd_reachable_pool [OF assms(1)] by (simp add: st_accept_def)
next
  case (Inr osfd)
  from pool_new [OF netfd_reachable_pool [OF assms(1)] assms(2), where osfd = osfd and nonblock = True and is_socket = True] obtain r s' where
    n: "st_netfd_new env osfd True True s = Inr (r, s')" "pool_ok s'"
      "case r of None \<Rightarrow> used s' = used s | Some p \<Rightarrow> used s p = None \<and> used s' = (used s)(p \<mapsto> osfd) \<and>
        (\<exists>f. netfds s' p = Some f \<and> private_data f = None \<and> nf_destructor f = None)" by blast
  then show ?thesis using assms(3) Inr
    by (cases r) (auto simp: st_accept_def keep_or_close_def st_netfd_getspecific_def the_netfd_def)
qed

lemma accept_keeps_or_closes_witness:
  "\<exists>q s'. st_accept \<lparr>new_ok = True, netfd_mem = Some 4, ioctl_ok = True, fcntl_ok = True\<rparr> [(Failed EAGAIN, Inr 1, 1), (Done 7, Inr 1, 1)] no_netfds =
     Some (Inr (Some q, None, s')) \<and> used s' = (used no_netfds)(q \<mapsto> 7)"
proof -
  let ?env = "\<lparr>new_ok = True, netfd_mem = Some 4, ioctl_ok = True, fcntl_ok = True\<rparr>"
  let ?l = "[(Failed EAGAIN, Inr 1, 1), (Done 7, Inr 1, 1)] :: int round list"
  have io: "io_loop ?l = Some (Inr 7, [])" by (simp add: io_not_ready_def POLLNVAL_def)
  have fresh: "netfd_mem ?env = Some p \<Longrightarrow> netfds no_netfds p = None" for p by (simp add: no_netfds_def)
  from accept_keeps_or_closes [OF netfd_reachable.start fresh io] obtain p closed s' where
    a: "st_accept ?env ?l no_netfds = Some (Inr (p, closed, s'))" and
    b: "case Inr 7 :: st_errno + int of Inl e \<Rightarrow> p = None \<and> closed = None \<and> s' = no_netfds
     | Inr osfd \<Rightarrow>
        (case p of None \<Rightarrow> closed = Some osfd \<and> used s' = used no_netfds
         | Some q \<Rightarrow> closed = None \<and> used no_netfds q = None \<and> used s' = (used no_netfds)(q \<mapsto> osfd) \<and> st_netfd_getspecific q s' = Inr None)"
    by blast
  have "p \<noteq> None" using a io by (auto simp: st_accept_def keep_or_close_def st_netfd_new_def no_netfds_def Let_def)
  then obtain q where "p = Some q" by blast
  then show ?thesis using a b by auto
qed

end
