(* ===== verification/St_Stack.thy ===== *)
theory St_Stack
  imports Srs_Prelude "HOL-Library.Multiset"
begin

unbundle bit_operations_syntax

section \<open>The stacks of threads (state-threads/stk.c)\<close>

text \<open>
  Each thread gets a stack in a segment of its own, between two red zones of a page each.  Stacks that are given back are kept in a free list and
  used again for a thread that needs no more.  Addresses are integers; the system is a parameter: the address of a
  new segment, of a new stack object, and the random number.
\<close>

subsection \<open>The state\<close>

record st_stack_t =
  stk_vaddr :: int
  stk_vaddr_size :: int
  stk_size :: int
  stk_bottom :: int
  stk_top :: int

text \<open>\<open>guards\<close> are the red zones that \<open>mprotect\<close> made inaccessible (in a debug build), by their first address.\<close>

record st_stacks =
  stacks :: "nat \<rightharpoonup> st_stack_t"
  free_stacks :: "nat list"
  num_free_stacks :: int
  randomize_stacks :: int
  guards :: "int list"

definition no_stacks :: st_stacks where
  "no_stacks = \<lparr>stacks = Map.empty, free_stacks = [], num_free_stacks = 0, randomize_stacks = 0, guards = []\<rparr>"

record stack_env =
  page_size :: int
  stack_mem :: "nat option"
  segment_at :: "int \<Rightarrow> int option"
  random_number :: int
  debug_build :: bool

definition REDZONE :: "stack_env \<Rightarrow> int" where
  "REDZONE env = page_size env"

subsection \<open>The operations\<close>

definition st_new_stk_segment :: "stack_env \<Rightarrow> int \<Rightarrow> int option" where
  "st_new_stk_segment env n = segment_at env n"

text \<open>The first stack of the free list that is big enough.\<close>

fun find_stack :: "(nat \<rightharpoonup> st_stack_t) \<Rightarrow> int \<Rightarrow> nat list \<Rightarrow> nat option outcome" where
  "find_stack S n [] = Inr None"
| "find_stack S n (p # ps) = (case S p of None \<Rightarrow> Inl Bad_access
     | Some ts \<Rightarrow> if stk_size ts \<ge> n then Inr (Some p) else find_stack S n ps)"

text \<open>Sizes are \<open>int\<close>; a size that does not fit is not defined in C.\<close>

definition st_stack_new :: "stack_env \<Rightarrow> int \<Rightarrow> st_stacks \<Rightarrow> (nat option \<times> st_stacks) outcome" where
  "st_stack_new env stack_size s = rbind (find_stack (stacks s) stack_size (free_stacks s)) (\<lambda>r. case r of
     Some p \<Rightarrow> Inr (Some p, s\<lparr>free_stacks := remove1 p (free_stacks s), num_free_stacks := num_free_stacks s - 1\<rparr>)
   | None \<Rightarrow> (case stack_mem env of None \<Rightarrow> Inr (None, s)
     | Some p \<Rightarrow>
         let extra = (if randomize_stacks s \<noteq> 0 then page_size env else 0);
             vaddr_size = stack_size + 2 * REDZONE env + extra
         in if vaddr_size \<ge> 2 ^ 31 then Inl Out_of_range
            else case st_new_stk_segment env vaddr_size of None \<Rightarrow> Inr (None, s)
            | Some vaddr \<Rightarrow>
                let bottom = vaddr + REDZONE env; top = bottom + stack_size;
                    zones = (if debug_build env then [vaddr, top + extra] else []);
                    offset = (if extra \<noteq> 0 then (random_number env mod extra) AND NOT 15 else 0)
                in Inr (Some p, s\<lparr>stacks := (stacks s)(p \<mapsto> \<lparr>stk_vaddr = vaddr, stk_vaddr_size = vaddr_size, stk_size = stack_size,
                     stk_bottom = bottom + offset, stk_top = top + offset\<rparr>), guards := guards s @ zones\<rparr>)))"

text \<open>The link is inserted before the one that the \<open>prev\<close> of the list points to: before the last stack, not behind it.\<close>

definition insert_before_last :: "nat \<Rightarrow> nat list \<Rightarrow> nat list" where
  "insert_before_last p l = (if l = [] then [p] else butlast l @ [p, last l])"

definition st_stack_free :: "nat option \<Rightarrow> st_stacks \<Rightarrow> st_stacks" where
  "st_stack_free ts s = (case ts of None \<Rightarrow> s
     | Some p \<Rightarrow> s\<lparr>free_stacks := insert_before_last p (free_stacks s), num_free_stacks := num_free_stacks s + 1\<rparr>)"

definition st_randomize_stacks :: "int \<Rightarrow> st_stacks \<Rightarrow> int \<times> st_stacks" where
  "st_randomize_stacks on s = (randomize_stacks s, s\<lparr>randomize_stacks := on\<rparr>)"

subsection \<open>What the scheduler does with stacks\<close>

definition stack_used :: "st_stacks \<Rightarrow> nat \<Rightarrow> bool" where
  "stack_used s p \<longleftrightarrow> p \<in> dom (stacks s) \<and> p \<notin> set (free_stacks s)"

definition apart :: "int \<Rightarrow> int \<Rightarrow> int \<Rightarrow> int \<Rightarrow> bool" where
  "apart a m b n \<longleftrightarrow> a + m \<le> b \<or> b + n \<le> a"

text \<open>What \<open>calloc\<close>, \<open>mmap\<close> and \<open>random\<close> promise: new memory is apart from memory in use, random numbers are not negative.\<close>

definition stack_env_ok :: "stack_env \<Rightarrow> st_stacks \<Rightarrow> bool" where
  "stack_env_ok env s \<longleftrightarrow> 0 \<le> random_number env \<and> (\<forall>p. stack_mem env = Some p \<longrightarrow> stacks s p = None) \<and>
     (\<forall>n a. segment_at env n = Some a \<longrightarrow> (\<forall>ts \<in> ran (stacks s). apart a n (stk_vaddr ts) (stk_vaddr_size ts)))"

text \<open>Threads ask for positive sizes and give back a stack that they use, once.\<close>

inductive stacks_reachable :: "int \<Rightarrow> st_stacks \<Rightarrow> bool" for page where
  start: "stacks_reachable page no_stacks"
| new: "stacks_reachable page s \<Longrightarrow> stack_env_ok env s \<Longrightarrow> page_size env = page \<Longrightarrow> 0 < n \<Longrightarrow>
    st_stack_new env n s = Inr (r, s') \<Longrightarrow> stacks_reachable page s'"
| free: "stacks_reachable page s \<Longrightarrow> stack_used s p \<Longrightarrow> stacks_reachable page (st_stack_free (Some p) s)"
| randomize: "stacks_reachable page s \<Longrightarrow> st_randomize_stacks on s = (was, s') \<Longrightarrow> stacks_reachable page s'"

subsection \<open>The invariant\<close>

definition stack_placed :: "int \<Rightarrow> st_stack_t \<Rightarrow> bool" where
  "stack_placed page ts \<longleftrightarrow> 0 < stk_size ts \<and> stk_top ts = stk_bottom ts + stk_size ts \<and> stk_vaddr ts + page \<le> stk_bottom ts \<and>
     stk_top ts + page \<le> stk_vaddr ts + stk_vaddr_size ts"

text \<open>A red zone lies at one end of some segment.\<close>

definition guard_placed :: "int \<Rightarrow> st_stacks \<Rightarrow> int \<Rightarrow> bool" where
  "guard_placed page s g \<longleftrightarrow> (\<exists>ts \<in> ran (stacks s). g = stk_vaddr ts \<or> g = stk_vaddr ts + stk_vaddr_size ts - page)"

definition stacks_ok :: "int \<Rightarrow> st_stacks \<Rightarrow> bool" where
  "stacks_ok page s \<longleftrightarrow> distinct (free_stacks s) \<and> set (free_stacks s) \<subseteq> dom (stacks s) \<and> num_free_stacks s = int (length (free_stacks s)) \<and>
     (\<forall>p ts. stacks s p = Some ts \<longrightarrow> stack_placed page ts) \<and>
     (\<forall>p q ts us. p \<noteq> q \<longrightarrow> stacks s p = Some ts \<longrightarrow> stacks s q = Some us \<longrightarrow> apart (stk_vaddr ts) (stk_vaddr_size ts) (stk_vaddr us) (stk_vaddr_size us)) \<and>
     (\<forall>g \<in> set (guards s). guard_placed page s g)"

lemma insert_before_last_mset: "mset (insert_before_last p l) = add_mset p (mset l)"
  by (cases l rule: rev_cases) (simp_all add: insert_before_last_def)

lemma insert_before_last_facts [simp]:
  "set (insert_before_last p l) = insert p (set l)" "length (insert_before_last p l) = Suc (length l)"
  "distinct (insert_before_last p l) \<longleftrightarrow> p \<notin> set l \<and> distinct l"
  using mset_eq_setD [of "insert_before_last p l" "p # l"] mset_eq_length [of "insert_before_last p l" "p # l"]
    mset_eq_imp_distinct_iff [of "insert_before_last p l" "p # l"] by (simp_all add: insert_before_last_mset)

lemma apart_sym: "apart a m b n \<longleftrightarrow> apart b n a m"
  by (auto simp: apart_def)

lemma find_stack_ok:
  assumes "set ps \<subseteq> dom S"
  shows "\<exists>r. find_stack S n ps = Inr r \<and> (case r of None \<Rightarrow> \<forall>p \<in> set ps. \<forall>ts. S p = Some ts \<longrightarrow> stk_size ts < n
      | Some p \<Rightarrow> p \<in> set ps \<and> (\<exists>ts. S p = Some ts \<and> n \<le> stk_size ts))"
  using assms
proof (induction ps)
  case (Cons p ps)
  then obtain ts where "S p = Some ts" by auto
  with Cons show ?case by (cases "stk_size ts \<ge> n") (auto split: option.splits)
qed simp

lemma offset_bounds:
  assumes "0 \<le> r" "0 \<le> extra"
  shows "0 \<le> (if extra \<noteq> 0 then (r mod extra) AND NOT 15 else 0)" "(if extra \<noteq> 0 then (r mod extra) AND NOT 15 else 0) \<le> (extra :: int)"
proof -
  have m: "0 \<le> r mod extra" "r mod extra \<le> extra" if "extra \<noteq> 0" using assms that by (simp_all add: order_less_imp_le)
  then show "0 \<le> (if extra \<noteq> 0 then (r mod extra) AND NOT 15 else 0)" by simp
  show "(if extra \<noteq> 0 then (r mod extra) AND NOT 15 else 0) \<le> extra"
    using m assms(2) AND_upper1 [of "r mod extra" "NOT 15"] by (auto intro: order_trans)
qed

text \<open>A new stack: one from the free list, or a fresh one in a segment of its own.\<close>

lemma stack_new_cases:
  assumes "stacks_ok page s" "stack_env_ok env s" "page_size env = page" "0 < page" "0 < n" "st_stack_new env n s = Inr (r, s')"
  obtains (none) "r = None" "s' = s"
  | (reused) p ts where "r = Some p" "p \<in> set (free_stacks s)" "stacks s p = Some ts" "n \<le> stk_size ts"
      "s' = s\<lparr>free_stacks := remove1 p (free_stacks s), num_free_stacks := num_free_stacks s - 1\<rparr>"
  | (fresh) p ts zones where "r = Some p" "stacks s p = None" "stk_size ts = n" "stack_placed page ts"
      "\<And>us. us \<in> ran (stacks s) \<Longrightarrow> apart (stk_vaddr ts) (stk_vaddr_size ts) (stk_vaddr us) (stk_vaddr_size us)"
      "\<And>g. g \<in> set zones \<Longrightarrow> g = stk_vaddr ts \<or> g = stk_vaddr ts + stk_vaddr_size ts - page"
      "s' = s\<lparr>stacks := (stacks s)(p \<mapsto> ts), guards := guards s @ zones\<rparr>"
proof -
  have "set (free_stacks s) \<subseteq> dom (stacks s)" using assms(1) by (simp add: stacks_ok_def)
  from find_stack_ok [OF this, of n] obtain f where f: "find_stack (stacks s) n (free_stacks s) = Inr f"
    "case f of None \<Rightarrow> True | Some p \<Rightarrow> p \<in> set (free_stacks s) \<and> (\<exists>ts. stacks s p = Some ts \<and> n \<le> stk_size ts)" by (auto split: option.splits)
  show thesis
  proof (cases f)
    case (Some p)
    then show thesis using f assms(6) reused by (auto simp: st_stack_new_def)
  next
    case None
    let ?extra = "if randomize_stacks s \<noteq> 0 then page_size env else 0"
    let ?size = "n + 2 * REDZONE env + ?extra" and ?off = "if ?extra \<noteq> 0 then (random_number env mod ?extra) AND NOT 15 else 0"
    note new = assms(6) [unfolded st_stack_new_def f(1) None rbind_simps option.case Let_def]
    show thesis
    proof (cases "stack_mem env")
      case (Some p)
      then have lt: "\<not> ?size \<ge> 2 ^ 31" using new by (auto split: if_splits)
      show thesis
      proof (cases "segment_at env ?size")
        case seg: (Some a)
        let ?ts = "\<lparr>stk_vaddr = a, stk_vaddr_size = ?size, stk_size = n, stk_bottom = a + REDZONE env + ?off, stk_top = a + REDZONE env + n + ?off\<rparr>"
        let ?zones = "if debug_build env then [a, a + REDZONE env + n + ?extra] else []"
        have r: "r = Some p" "s' = s\<lparr>stacks := (stacks s)(p \<mapsto> ?ts), guards := guards s @ ?zones\<rparr>"
          using new Some lt seg by (simp_all add: st_new_stk_segment_def)
        have "0 \<le> ?extra" using assms(3,4) by simp
        moreover have "0 \<le> random_number env" using assms(2) by (simp add: stack_env_ok_def)
        ultimately have off: "0 \<le> ?off" "?off \<le> ?extra" using offset_bounds [of "random_number env" ?extra] by blast+
        then have "stack_placed page ?ts" using assms(3,5) by (simp add: stack_placed_def REDZONE_def)
        moreover have "stacks s p = None" using assms(2) Some by (simp add: stack_env_ok_def)
        moreover have "apart (stk_vaddr ?ts) (stk_vaddr_size ?ts) (stk_vaddr us) (stk_vaddr_size us)" if "us \<in> ran (stacks s)" for us
          using assms(2) seg that by (simp add: stack_env_ok_def)
        moreover have "g = stk_vaddr ?ts \<or> g = stk_vaddr ?ts + stk_vaddr_size ?ts - page" if "g \<in> set ?zones" for g
          using that assms(3) by (auto simp: REDZONE_def split: if_splits)
        ultimately show thesis using fresh [OF r(1) _ _ _ _ _ r(2)] by simp
      qed (use new Some lt none in \<open>auto simp: st_new_stk_segment_def\<close>)
    qed (use new none in auto)
  qed
qed

lemma stack_new_ok:
  assumes "stacks_ok page s" "stack_env_ok env s" "page_size env = page" "0 < page" "0 < n" "st_stack_new env n s = Inr (r, s')"
  shows "stacks_ok page s'"
proof (cases rule: stack_new_cases [OF assms, case_names none reused fresh])
  case none
  then show ?thesis using assms(1) by simp
next
  case (reused p ts)
  have "0 < length (free_stacks s)" using reused(2) by (rule length_pos_if_in_set)
  then have "int (length (free_stacks s) - Suc 0) = int (length (free_stacks s)) - 1" by linarith
  then show ?thesis using assms(1) reused by (auto simp: stacks_ok_def guard_placed_def length_remove1 of_nat_diff dest: notin_set_remove1)
next
  case (fresh p ts zones)
  have ok: "distinct (free_stacks s)" "set (free_stacks s) \<subseteq> dom (stacks s)" "num_free_stacks s = int (length (free_stacks s))"
    "\<And>p ts. stacks s p = Some ts \<Longrightarrow> stack_placed page ts"
    "\<And>p q ts us. p \<noteq> q \<Longrightarrow> stacks s p = Some ts \<Longrightarrow> stacks s q = Some us \<Longrightarrow> apart (stk_vaddr ts) (stk_vaddr_size ts) (stk_vaddr us) (stk_vaddr_size us)"
    "\<And>g. g \<in> set (guards s) \<Longrightarrow> guard_placed page s g" using assms(1) by (simp_all add: stacks_ok_def)
  have ran: "ran (stacks s') = insert ts (ran (stacks s))" using fresh(2) by (simp add: fresh(7) ran_map_upd)
  have "guard_placed page s' g" if "g \<in> set (guards s')" for g
    using that ok(6) fresh(6) unfolding guard_placed_def ran by (auto simp: fresh(7))
  moreover have "apart (stk_vaddr us) (stk_vaddr_size us) (stk_vaddr vs) (stk_vaddr_size vs)"
    if "q \<noteq> q'" "stacks s' q = Some us" "stacks s' q' = Some vs" for q q' us vs
  proof -
    consider "q = p" | "q' = p" | "q \<noteq> p" "q' \<noteq> p" by blast
    then show ?thesis
    proof cases
      case 1
      then have "us = ts" "vs \<in> ran (stacks s)" using that by (auto simp: fresh(7) intro: ranI)
      then show ?thesis using fresh(5) by simp
    next
      case 2
      then have "vs = ts" "us \<in> ran (stacks s)" using that by (auto simp: fresh(7) intro: ranI)
      then show ?thesis using fresh(5) apart_sym by blast
    next
      case 3
      then show ?thesis using that ok(5) [of q q'] by (simp add: fresh(7))
    qed
  qed
  ultimately show ?thesis using ok(1-4) fresh(4) by (auto simp: stacks_ok_def fresh(7))
qed

lemma stacks_reachable_ok: "stacks_reachable page s \<Longrightarrow> 0 < page \<Longrightarrow> stacks_ok page s"
proof (induction rule: stacks_reachable.induct)
  case start
  show ?case by (simp add: stacks_ok_def no_stacks_def)
next
  case (new s env n r s')
  then show ?case using stack_new_ok [of page s env n r s'] by simp
next
  case (free s p)
  then show ?case by (auto simp: stacks_ok_def st_stack_free_def stack_used_def guard_placed_def)
next
  case (randomize s on was s')
  then show ?case by (auto simp: stacks_ok_def st_randomize_stacks_def guard_placed_def)
qed

subsection \<open>What a new thread keeps on its stack\<close>

text \<open>\<open>st_thread_create\<close> rounds the size (not negative) up to pages, and puts the keys of the thread, the thread object and padding at the top.\<close>

definition ST_DEFAULT_STACK_SIZE :: int where "ST_DEFAULT_STACK_SIZE = 128 * 1024"
definition ST_STACK_PAD_SIZE :: int where "ST_STACK_PAD_SIZE = 128"
definition THREAD_KEYS :: int where "THREAD_KEYS = 16"

definition adjust_stack_size :: "int \<Rightarrow> int \<Rightarrow> int" where
  "adjust_stack_size page n = (let n = (if n = 0 then ST_DEFAULT_STACK_SIZE else n) in ((n + page - 1) div page) * page)"

text \<open>The keys, the thread and the stack pointer, when a thread object takes \<open>m\<close> bytes and a pointer 8.\<close>

definition thread_layout :: "int \<Rightarrow> st_stack_t \<Rightarrow> int \<times> int \<times> int" where
  "thread_layout m ts =
     (let ptds = stk_top ts - THREAD_KEYS * 8; thread = ptds - m; sp = thread;
          sp = (if sp AND 63 \<noteq> 0 then sp - (sp AND 63) else sp)
      in (ptds, thread, sp - ST_STACK_PAD_SIZE))"

lemma adjust_stack_size_pages:
  assumes "0 \<le> n" "0 < page"
  shows "n \<le> adjust_stack_size page n" "0 < adjust_stack_size page n" "page dvd adjust_stack_size page n"
proof -
  define k where "k = (if n = 0 then ST_DEFAULT_STACK_SIZE else n)"
  have k: "0 < k" "n \<le> k" using assms(1) by (simp_all add: k_def ST_DEFAULT_STACK_SIZE_def)
  have a: "adjust_stack_size page n = (k + page - 1) div page * page" by (simp add: adjust_stack_size_def k_def Let_def)
  have "(k + page - 1) div page * page + (k + page - 1) mod page = k + page - 1" by (rule div_mult_mod_eq)
  moreover have "(k + page - 1) mod page < page" using assms(2) by simp
  ultimately have "k \<le> adjust_stack_size page n" unfolding a by linarith
  then show "n \<le> adjust_stack_size page n" "0 < adjust_stack_size page n" using k by simp_all
  show "page dvd adjust_stack_size page n" unfolding a by simp
qed

text \<open>
  All this lies in the usable part of the stack, in order and without overlap, and the stack pointer is a multiple of 64,
  when the stack has room for the three and the alignment.
\<close>

lemma thread_layout_inside:
  assumes "thread_layout m ts = (ptds, thread, sp)" "0 \<le> m" "m + 319 \<le> stk_top ts - stk_bottom ts"
  shows "stk_bottom ts \<le> sp" "sp + 128 \<le> thread" "thread + m \<le> ptds" "ptds + 128 \<le> stk_top ts" "64 dvd sp"
proof -
  have mask: "x AND 63 = x mod 64" for x :: int using take_bit_eq_mask [of 6 x] by (simp add: take_bit_eq_mod mask_eq_exp_minus_1)
  have l: "ptds = stk_top ts - 128" "thread = ptds - m" "sp = thread - thread mod 64 - 128"
    using assms(1) by (auto simp: thread_layout_def Let_def mask THREAD_KEYS_def ST_STACK_PAD_SIZE_def split: if_splits)
  have "0 \<le> thread mod 64" "thread mod 64 < 64" by simp_all
  then show "stk_bottom ts \<le> sp" "sp + 128 \<le> thread" using l assms(2,3) by linarith+
  show "thread + m \<le> ptds" "ptds + 128 \<le> stk_top ts" using l by simp_all
  have "64 dvd thread - thread mod 64" by (rule dvd_minus_mod)
  then show "64 dvd sp" unfolding l(3) by (rule dvd_diff) simp
qed

subsection \<open>What a thread may rely on\<close>

text \<open>
  C14: Whatever stacks were made, given back and made again, with or without randomisation: a thread that gets a stack gets one that no other
  thread uses, of at least the size that it asked for; the usable part lies inside its segment with a page to spare
  at both ends, does not meet the usable part of any other stack, and no protected red zone reaches into it.
\<close>

theorem stacks_never_overlap:
  assumes "stacks_reachable page s" "0 < page" "stack_env_ok env s" "page_size env = page" "0 < n" "st_stack_new env n s = Inr (Some p, s')"
  shows "\<exists>ts. stacks s' p = Some ts \<and> \<not> stack_used s p \<and> stack_used s' p \<and> n \<le> stk_top ts - stk_bottom ts \<and>
    stk_vaddr ts + page \<le> stk_bottom ts \<and> stk_top ts + page \<le> stk_vaddr ts + stk_vaddr_size ts \<and>
    (\<forall>q us. stack_used s' q \<and> q \<noteq> p \<and> stacks s' q = Some us \<longrightarrow> apart (stk_bottom ts) (stk_size ts) (stk_bottom us) (stk_size us)) \<and>
    (\<forall>g \<in> set (guards s'). apart (stk_bottom ts) (stk_size ts) g page)"
proof -
  note ok = stacks_reachable_ok [OF assms(1,2)]
  note ok' = stack_new_ok [OF ok assms(3,4,2,5,6)]
  obtain ts where ts: "stacks s' p = Some ts" "n \<le> stk_size ts" "\<not> stack_used s p" "stack_used s' p"
  proof (cases rule: stack_new_cases [OF ok assms(3,4,2,5,6), case_names none reused fresh])
    case (reused q us)
    then show thesis using ok by (intro that [of us]) (auto simp: stack_used_def stacks_ok_def)
  next
    case (fresh q us zones)
    then show thesis using ok by (intro that [of us]) (auto simp: stack_used_def stacks_ok_def)
  qed simp
  have placed: "\<And>q us. stacks s' q = Some us \<Longrightarrow> stack_placed page us"
    and segs: "\<And>q r us vs. q \<noteq> r \<Longrightarrow> stacks s' q = Some us \<Longrightarrow> stacks s' r = Some vs \<Longrightarrow> apart (stk_vaddr us) (stk_vaddr_size us) (stk_vaddr vs) (stk_vaddr_size vs)"
    and zones: "\<And>g. g \<in> set (guards s') \<Longrightarrow> guard_placed page s' g" using ok' unfolding stacks_ok_def by blast+
  have t: "stack_placed page ts" by (rule placed [OF ts(1)])
  have "apart (stk_bottom ts) (stk_size ts) (stk_bottom us) (stk_size us)" if "q \<noteq> p" "stacks s' q = Some us" for q us
    using segs [OF that(1) that(2) ts(1)] placed [OF that(2)] t assms(2) by (auto simp: apart_def stack_placed_def)
  moreover have "apart (stk_bottom ts) (stk_size ts) g page" if "g \<in> set (guards s')" for g
  proof -
    from zones [OF that] obtain q us where g: "stacks s' q = Some us" "g = stk_vaddr us \<or> g = stk_vaddr us + stk_vaddr_size us - page"
      by (auto simp: guard_placed_def ran_def)
    show ?thesis
    proof (cases "q = p")
      case True
      then have "us = ts" using g(1) ts(1) by simp
      then show ?thesis using g(2) t by (auto simp: apart_def stack_placed_def)
    next
      case False
      then show ?thesis using segs [OF False g(1) ts(1)] placed [OF g(1)] t g(2) assms(2) by (auto simp: apart_def stack_placed_def)
    qed
  qed
  ultimately show ?thesis using ts t by (intro exI [of _ ts]) (auto simp: stack_placed_def)
qed

lemma stacks_never_overlap_witness:
  "\<exists>env s s' ts. stacks_reachable 4096 s \<and> stack_env_ok env s \<and> st_stack_new env 8192 s = Inr (Some 2, s') \<and> stacks s' 2 = Some ts \<and>
    stack_used s' 1 \<and> stack_used s' 2 \<and> stk_top ts + 4096 \<le> stk_vaddr ts + stk_vaddr_size ts"
proof -
  let ?env = "\<lambda>p a. \<lparr>page_size = 4096, stack_mem = Some p, segment_at = (\<lambda>_. Some a), random_number = 12345, debug_build = True\<rparr>"
  let ?s0 = "no_stacks\<lparr>randomize_stacks := 1\<rparr>"
  have r0: "stacks_reachable 4096 ?s0"
    by (rule stacks_reachable.randomize [OF stacks_reachable.start, of 1 0]) (simp add: st_randomize_stacks_def no_stacks_def)
  have e0: "stack_env_ok (?env 1 0) ?s0" by (simp add: stack_env_ok_def no_stacks_def)
  obtain s where s: "st_stack_new (?env 1 0) 4096 ?s0 = Inr (Some 1, s)" "stacks s 2 = None" "ran (stacks s) = {ts. stacks s 1 = Some ts}"
      "\<And>ts. stacks s 1 = Some ts \<Longrightarrow> stk_vaddr ts = 0 \<and> stk_vaddr_size ts = 16384" "free_stacks s = []" "1 \<in> dom (stacks s)" "randomize_stacks s = 1"
    by (simp add: st_stack_new_def no_stacks_def st_new_stk_segment_def REDZONE_def Let_def)
  have r: "stacks_reachable 4096 s" by (rule stacks_reachable.new [OF r0 e0 _ _ s(1)]) simp_all
  have e: "stack_env_ok (?env 2 20480) s" using s(2-4) by (simp add: stack_env_ok_def apart_def)
  obtain s' where n: "st_stack_new (?env 2 20480) 8192 s = Inr (Some 2, s')" "stacks s' 1 = stacks s 1" "free_stacks s' = []"
    using s(5,7) by (simp add: st_stack_new_def st_new_stk_segment_def REDZONE_def Let_def)
  from stacks_never_overlap [OF r _ e _ _ n(1)] obtain ts where
    ts: "stacks s' 2 = Some ts" "stack_used s' 2" "stk_top ts + 4096 \<le> stk_vaddr ts + stk_vaddr_size ts" by auto
  have "stack_used s' 1" using n(2,3) s(6) by (simp add: stack_used_def domIff)
  then show ?thesis using r e n(1) ts by blast
qed

end
