(* ===== verification/Srs_Socket_Stream.thy ===== *)
theory Srs_Socket_Stream
  imports St_Io Srs_Service_Socket
begin

section \<open>What a socket receives (core/srs_service_st.cpp over st/io.c)\<close>

text \<open>
  \<open>SrsStSocket::read\<close> and \<open>read_fully\<close> on top of \<open>st_read\<close> and \<open>st_read_fully\<close> of theory St\_Io,
  on a connection whose peer sends a stream and then closes.  The system answers each call of
  \<open>read\<close> with a turn; a \<open>poll_answer\<close> goes with it, for the wait that may follow.
\<close>

subsection \<open>The system under the calls\<close>

text \<open>
  \<open>Arrives k p\<close>: \<open>k + 1\<close> bytes are there, or all that are left; nothing is read only at the end (or
  when nothing is asked for).  \<open>Refused e p\<close>: \<open>read\<close> fails with this errno.
\<close>

datatype turn = Arrives nat poll_answer | Refused st_errno poll_answer

text \<open>The rounds of a call that has room for so many bytes, on what is left of the stream.\<close>

fun kernel_rounds :: "nat \<Rightarrow> turn list \<Rightarrow> byte list \<Rightarrow> byte list round list" where
  "kernel_rounds room [] stream = []"
| "kernel_rounds room (Refused e p # ts) stream = (Failed e, p) # kernel_rounds room ts stream"
| "kernel_rounds room (Arrives k p # ts) stream =
     (let bs = take (min (Suc k) room) stream
      in (Done bs, p) # kernel_rounds (room - length bs) ts (drop (length bs) stream))"

text \<open>The numbers of the system the sources are built for.\<close>

fun errno_number :: "st_errno \<Rightarrow> int" where
  "errno_number EINTR = 4"
| "errno_number st_errno.ETIME = 62"
| "errno_number EBUSY = 16"
| "errno_number EDEADLK = 35"
| "errno_number EPERM = 1"
| "errno_number EINVAL = 22"
| "errno_number EMFILE = 24"
| "errno_number EBADF = 9"
| "errno_number EAGAIN = 11"
| "errno_number EINPROGRESS = 115"
| "errno_number EADDRINUSE = 98"
| "errno_number EEXIST = 17"
| "errno_number ENOENT = 2"
| "errno_number ENOMEM = 12"
| "errno_number (Errno k) = k"

text \<open>A call uses the turns up to the one with which it returns.  \<open>None\<close>: it still waits after all of them.\<close>

fun until_returns :: "('t list \<Rightarrow> 'x option) \<Rightarrow> 't list \<Rightarrow> 't list \<Rightarrow> ('x \<times> 't list \<times> 't list) option" where
  "until_returns f spent [] = map_option (\<lambda>x. (x, spent, [])) (f spent)"
| "until_returns f spent (t # ts) =
     (case f spent of Some x \<Rightarrow> Some (x, spent, t # ts) | None \<Rightarrow> until_returns f (spent @ [t]) ts)"

definition stream_left :: "nat \<Rightarrow> turn list \<Rightarrow> byte list \<Rightarrow> byte list" where
  "stream_left nbyte spent stream = drop (length (delivered (kernel_rounds nbyte spent stream))) stream"

type_synonym call_result = "(int + byte list) \<times> turn list \<times> turn list \<times> byte list"

text \<open>
  The two calls: the errno or the bytes in the buffer, the turns used and left, the stream that is
  left.  The buffer of \<open>st_read_fully\<close> is at some address \<open>buf\<close> in memory; the bytes it counts are read from there.
\<close>

definition call_read :: "turn list \<Rightarrow> byte list \<Rightarrow> nat \<Rightarrow> call_result option" where
  "call_read turns stream nbyte =
     map_option (\<lambda>((r, _), spent, turns). (map_sum errno_number id r, spent, turns, stream_left nbyte spent stream))
       (until_returns (\<lambda>spent. st_read (kernel_rounds nbyte spent stream)) [] turns)"

definition read_fully_answer :: "int \<Rightarrow> ((st_errno + nat) \<times> (int \<Rightarrow> byte)) outcome \<Rightarrow> (int + byte list) option" where
  "read_fully_answer buf x = (case x of Inl _ \<Rightarrow> None
     | Inr (Inl e, _) \<Rightarrow> Some (Inl (errno_number e)) | Inr (Inr n, mem) \<Rightarrow> Some (Inr (mem_at mem buf n)))"

definition call_read_fully :: "int \<Rightarrow> (int \<Rightarrow> byte) \<Rightarrow> turn list \<Rightarrow> byte list \<Rightarrow> nat \<Rightarrow> call_result option" where
  "call_read_fully buf mem turns stream nbyte =
     Option.bind (until_returns (\<lambda>spent. st_read_fully (kernel_rounds nbyte spent stream) buf nbyte mem) [] turns)
       (\<lambda>(x, spent, turns). map_option (\<lambda>r. (r, spent, turns, stream_left nbyte spent stream)) (read_fully_answer buf x))"

text \<open>The call as the argument of the socket's operation, which passes it the number of bytes.\<close>

definition reader_of :: "(nat \<Rightarrow> call_result option) \<Rightarrow> st_reader" where
  "reader_of call = (\<lambda>_ nbyte _. case call nbyte of None \<Rightarrow> Inl 0 | Some (r, _) \<Rightarrow> r)"

subsection \<open>A sequence of reads\<close>

datatype recv_op = Recv (recv_size: nat) | Recv_fully (recv_size: nat) int "int \<Rightarrow> byte"

type_synonym recv_out = "srs_error_t \<times> int \<times> byte list"

fun recv_call :: "recv_op \<Rightarrow> turn list \<Rightarrow> byte list \<Rightarrow> nat \<Rightarrow> call_result option" where
  "recv_call (Recv _) turns stream = call_read turns stream"
| "recv_call (Recv_fully _ buf mem) turns stream = call_read_fully buf mem turns stream"

fun recv_sock :: "err_site \<Rightarrow> recv_op \<Rightarrow> st_reader \<Rightarrow> st_socket \<Rightarrow> recv_out \<times> st_socket" where
  "recv_sock at (Recv nbyte) call s = sock_read at call nbyte s"
| "recv_sock at (Recv_fully nbyte _ _) call s = sock_read_fully at call nbyte s"

text \<open>The results with the turns each used; the turns, the stream and the socket that are left.  \<open>None\<close>: a call still waits.\<close>

fun recv_run ::
  "err_site \<Rightarrow> recv_op list \<Rightarrow> turn list \<Rightarrow> byte list \<Rightarrow> st_socket \<Rightarrow>
   ((turn list \<times> recv_out) list \<times> turn list \<times> byte list \<times> st_socket) option" where
  "recv_run at [] turns stream s = Some ([], turns, stream, s)"
| "recv_run at (opn # ops) turns stream s =
     (case recv_call opn turns stream (recv_size opn) of None \<Rightarrow> None
      | Some (_, spent, turns', stream') \<Rightarrow>
        (case recv_sock at opn (reader_of (recv_call opn turns stream)) s of (out, s) \<Rightarrow>
         (case recv_run at ops turns' stream' s of None \<Rightarrow> None
          | Some (outs, turns', stream', s) \<Rightarrow> Some ((spent, out) # outs, turns', stream', s))))"

subsection \<open>What the reads promise\<close>

text \<open>The errno with which a turn ends a call: of \<open>read\<close> itself, or of the wait after it.\<close>

fun turn_errno :: "turn \<Rightarrow> st_errno option" where
  "turn_errno (Arrives _ p) = st_netfd_poll p"
| "turn_errno (Refused e p) = (if e = EINTR then None else if e = EAGAIN then st_netfd_poll p else Some e)"

fun refused :: "turn \<Rightarrow> bool" where
  "refused (Refused _ _) \<longleftrightarrow> True"
| "refused (Arrives _ _) \<longleftrightarrow> False"

fun is_full :: "recv_op \<Rightarrow> byte list \<Rightarrow> bool" where
  "is_full (Recv nbyte) piece \<longleftrightarrow> piece \<noteq> []"
| "is_full (Recv_fully nbyte _ _) piece \<longleftrightarrow> length piece = nbyte"

fun recv_code :: "recv_op \<Rightarrow> int" where
  "recv_code (Recv _) = ERROR_SOCKET_READ"
| "recv_code (Recv_fully _ _ _) = ERROR_SOCKET_READ_FULLY"

text \<open>
  One call that used these turns, none of which but the last ended it with an error, took \<open>piece\<close> from the front of the stream and left \<open>rest\<close>.  It failed
  with -1: the last turn gave the errno, a timeout is told from the other errors, and \<open>read\<close> took nothing.
  Or it delivered the piece: success exactly if \<open>read\<close> got something, \<open>read_fully\<close> all; else the
  stream is at its end and the error says so.
\<close>

definition receives :: "recv_op \<Rightarrow> turn list \<Rightarrow> byte list \<Rightarrow> byte list \<Rightarrow> recv_out \<Rightarrow> bool" where
  "receives opn spent piece rest out = (case out of (err, nread, data) \<Rightarrow>
     spent \<noteq> [] \<and> (\<forall>t \<in> set (butlast spent). turn_errno t = None) \<and> length piece \<le> recv_size opn \<and>
     (if nread < 0
      then \<exists>e. turn_errno (last spent) = Some e \<and> nread = - 1 \<and> data = [] \<and>
        ends_with_code err (if errno_number e = 62 then ERROR_SOCKET_TIMEOUT else recv_code opn) \<and>
        err_rerrno (err_node (the err)) = errno_number e \<and>
        (case opn of Recv _ \<Rightarrow> piece = [] \<and> refused (last spent) | Recv_fully nbyte _ _ \<Rightarrow> length piece < nbyte \<or> nbyte = 0)
      else \<not> refused (last spent) \<and> data = piece \<and> nread = int (length piece) \<and>
        (if is_full opn piece then err = None
         else ends_with_code err (recv_code opn) \<and> peer_gone err \<and> (rest = [] \<or> recv_size opn = 0))))"

fun received :: "recv_op list \<Rightarrow> (turn list \<times> recv_out) list \<Rightarrow> turn list \<Rightarrow> byte list \<Rightarrow> turn list \<Rightarrow> byte list \<Rightarrow> bool" where
  "received [] [] turns stream turns' stream' \<longleftrightarrow> turns' = turns \<and> stream' = stream"
| "received (opn # ops) ((spent, out) # outs) turns stream turns' stream' \<longleftrightarrow>
     (\<exists>piece rest later. turns = spent @ later \<and> stream = piece @ rest \<and> receives opn spent piece rest out \<and>
        received ops outs later rest turns' stream')"
| "received _ _ _ _ _ _ \<longleftrightarrow> False"

text \<open>Turns with which every call has returned: one arrival for \<open>read\<close>, one for each byte and one more for \<open>read_fully\<close>.\<close>

fun turns_needed :: "recv_op \<Rightarrow> nat" where
  "turns_needed (Recv _) = 1"
| "turns_needed (Recv_fully nbyte _ _) = nbyte + 1"

definition arrivals :: "turn list \<Rightarrow> nat" where
  "arrivals turns = length (filter (\<lambda>t. \<not> refused t) turns)"

subsection \<open>Which turns a call uses\<close>

lemma until_returns_used:
  "until_returns f us ts = Some (x, vs, ts') \<Longrightarrow>
   us @ ts = vs @ ts' \<and> f vs = Some x \<and> (\<forall>m. length us \<le> m \<longrightarrow> m < length vs \<longrightarrow> f (take m vs) = None)"
proof (induction ts arbitrary: us)
  case (Cons t ts)
  show ?case
  proof (cases "f us")
    case None
    then have "until_returns f (us @ [t]) ts = Some (x, vs, ts')" using Cons.prems by simp
    note ih = Cons.IH [OF this]
    have "f (take m vs) = None" if "length us \<le> m" "m < length vs" for m
    proof (cases "m = length us")
      case True
      have "vs @ ts' = us @ t # ts" using ih by simp
      then have "take m vs = us" using that True by (metis append_eq_append_conv_if less_imp_le)
      then show ?thesis using None by simp
    qed (use ih that in simp)
    then show ?thesis using ih by simp
  qed (use Cons.prems in auto)
qed auto

lemma until_returns_stops:
  "f (us @ take m ts) \<noteq> None \<Longrightarrow> until_returns f us ts \<noteq> None"
proof (induction ts arbitrary: us m)
  case (Cons t ts)
  show ?case
  proof (cases "f us")
    case None
    then obtain k where "m = Suc k" using Cons.prems by (cases m) auto
    then show ?thesis using None Cons.IH [of "us @ [t]" k] Cons.prems by simp
  qed simp
qed simp

text \<open>What a call with this room got in these turns.\<close>

definition got :: "nat \<Rightarrow> turn list \<Rightarrow> byte list \<Rightarrow> byte list" where
  "got n us s = delivered (kernel_rounds n us s)"

lemma got_simps [simp]:
  "got n [] s = []" "got n (Refused e p # us) s = got n us s"
  "got n (Arrives k p # us) s = take (min (Suc k) n) s @
     got (n - length (take (min (Suc k) n) s)) us (drop (length (take (min (Suc k) n) s)) s)"
  by (simp_all add: got_def Let_def)

text \<open>\<open>st_read\<close>: the turns before the last were retried, the last one decides.\<close>

lemma kernel_read:
  "io_loop (kernel_rounds n ts s) = Some (a, l) \<Longrightarrow>
   \<exists>us vs. ts = us @ vs \<and> us \<noteq> [] \<and> (\<forall>t \<in> set (butlast us). turn_errno t = None) \<and> io_loop (kernel_rounds n us s) \<noteq> None \<and>
     (case a of Inr bs \<Rightarrow> \<not> refused (last us) \<and> (\<exists>k. bs = take (min (Suc k) n) s) \<and> got n us s = bs
      | Inl e \<Rightarrow> refused (last us) \<and> turn_errno (last us) = Some e \<and> got n us s = [])"
proof (induction ts)
  case (Cons t ts)
  show ?case
  proof (cases t)
    case (Arrives k p)
    then show ?thesis using Cons.prems
      by - (rule exI [of _ "[t]"], rule exI [of _ ts], auto simp: Let_def)
  next
    case (Refused e p)
    show ?thesis
    proof (cases "turn_errno t")
      case None
      then have "io_loop (kernel_rounds n (t # vs) s) = io_loop (kernel_rounds n vs s)" for vs
        using Refused by (auto simp: io_not_ready_def split: if_splits)
      moreover from this [of ts] Cons obtain us vs where "ts = us @ vs" "us \<noteq> []" "io_loop (kernel_rounds n us s) \<noteq> None"
        "\<forall>t \<in> set (butlast us). turn_errno t = None"
        "case a of Inr bs \<Rightarrow> \<not> refused (last us) \<and> (\<exists>k. bs = take (min (Suc k) n) s) \<and> got n us s = bs
         | Inl e \<Rightarrow> refused (last us) \<and> turn_errno (last us) = Some e \<and> got n us s = []" by auto
      ultimately show ?thesis using Refused None
        by - (rule exI [of _ "t # us"], rule exI [of _ vs], simp split: sum.splits)
    next
      case (Some e')
      then show ?thesis using Cons.prems Refused
        by - (rule exI [of _ "[t]"], rule exI [of _ ts], auto simp: io_not_ready_def split: if_splits)
    qed
  qed
qed simp

text \<open>\<open>readv_resid\<close> with one vector and one turn.\<close>

lemma one_vector:
  fixes v :: iovec
  assumes "length bs \<le> iov_len v"
  shows "readv_resid ((Done bs, p) # l) [] [v] mem =
    (if bs = [] then Some (Inr (None, [], [v], mem))
     else if length bs = iov_len v
     then Some (Inr (None, [iov_skip (length bs) v], [], store_at mem (iov_base v) bs))
     else case st_netfd_poll p of
         Some e \<Rightarrow> Some (Inr (Some e, [], [iov_skip (length bs) v], store_at mem (iov_base v) bs))
       | None \<Rightarrow> readv_resid l [] [iov_skip (length bs) v] (store_at mem (iov_base v) bs))"
  using assms by (auto simp: iov_consume_def Let_def split: option.split)

text \<open>What \<open>readv_resid\<close> answers on one vector when it used these turns.\<close>

definition filled :: "iovec \<Rightarrow> (int \<Rightarrow> byte) \<Rightarrow> byte list \<Rightarrow> turn list \<Rightarrow>
    (st_errno option \<times> iovec list \<times> iovec list \<times> (int \<Rightarrow> byte)) outcome \<Rightarrow> bool" where
  "filled v mem s us x \<longleftrightarrow> us \<noteq> [] \<and> (\<forall>t \<in> set (butlast us). turn_errno t = None) \<and> (\<exists>g rv d r. got (iov_len v) us s = g \<and> take (length g) s = g \<and> length g \<le> iov_len v \<and>
     x = Inr (rv, d, r, store_at mem (iov_base v) g) \<and> iov_len (hd (d @ r)) = iov_len v - length g \<and>
     (case rv of None \<Rightarrow> \<not> refused (last us) \<and> (length g = iov_len v \<or> length s \<le> length g)
      | Some e \<Rightarrow> turn_errno (last us) = Some e \<and> (length g < iov_len v \<or> iov_len v = 0)))"

lemma take_length_take: "take (length (take m xs)) xs = take m xs"
  by (simp add: min_def)

lemma filled_Refused:
  assumes "filled v mem s us x" "turn_errno (Refused e p) = None"
  shows "filled v mem s (Refused e p # us) x"
proof -
  have "us \<noteq> []" using assms(1) by (simp add: filled_def)
  then have eq: "last (Refused e p # us) = last us" "butlast (Refused e p # us) = Refused e p # butlast us" by simp_all
  then show ?thesis using assms unfolding filled_def got_simps(2) eq by simp
qed

lemma filled_Arrives:
  assumes "filled (iov_skip (length bs) v) (store_at mem (iov_base v) bs) (drop (length bs) s) us x"
    and "bs = take (min (Suc k) (iov_len v)) s" "length bs < iov_len v" "st_netfd_poll p = None"
  shows "filled v mem s (Arrives k p # us) x"
proof -
  let ?w = "iov_skip (length bs) v"
  from assms(1) obtain g rv d r where 1: "us \<noteq> []" "\<forall>t \<in> set (butlast us). turn_errno t = None" "got (iov_len ?w) us (drop (length bs) s) = g"
    "take (length g) (drop (length bs) s) = g" "length g \<le> iov_len ?w"
    "x = Inr (rv, d, r, store_at (store_at mem (iov_base v) bs) (iov_base ?w) g)" "iov_len (hd (d @ r)) = iov_len ?w - length g"
    "case rv of None \<Rightarrow> \<not> refused (last us) \<and> (length g = iov_len ?w \<or> length (drop (length bs) s) \<le> length g)
     | Some e \<Rightarrow> turn_errno (last us) = Some e \<and> (length g < iov_len ?w \<or> iov_len ?w = 0)"
    unfolding filled_def by blast
  have "got (iov_len v) (Arrives k p # us) s = bs @ g" using 1(3) assms(2) by simp
  moreover have "take (length (bs @ g)) s = bs @ g"
    using 1(4) take_length_take [of "min (Suc k) (iov_len v)" s, folded assms(2)]
    by (simp only: length_append take_add)
  moreover have "length (bs @ g) \<le> iov_len v" using 1(5) assms(3) by simp
  moreover have "x = Inr (rv, d, r, store_at mem (iov_base v) (bs @ g))" using 1(6) by (simp add: store_at_append)
  moreover have "iov_len (hd (d @ r)) = iov_len v - length (bs @ g)" using 1(7) by simp
  moreover have "case rv of None \<Rightarrow> \<not> refused (last (Arrives k p # us)) \<and> (length (bs @ g) = iov_len v \<or> length s \<le> length (bs @ g))
     | Some e \<Rightarrow> turn_errno (last (Arrives k p # us)) = Some e \<and> (length (bs @ g) < iov_len v \<or> iov_len v = 0)"
    using 1(1,8) assms(3) by (auto split: option.splits)
  moreover have "\<forall>t \<in> set (butlast (Arrives k p # us)). turn_errno t = None" using 1(1,2) assms(4) by simp
  ultimately show ?thesis unfolding filled_def by blast
qed

lemma filled_Refused_last:
  "turn_errno (Refused e p) = Some e' \<Longrightarrow> filled v mem s [Refused e p] (Inr (Some e', [], [v], mem))"
  unfolding filled_def by (intro conjI exI [of _ "[]"] exI [of _ "[v]"]) auto

lemma filled_Arrives_last:
  assumes "bs = take (min (Suc k) (iov_len v)) s"
  shows "bs = [] \<Longrightarrow> filled v mem s [Arrives k p] (Inr (None, [], [v], mem))"
    and "length bs = iov_len v \<Longrightarrow>
      filled v mem s [Arrives k p] (Inr (None, [iov_skip (length bs) v], [], store_at mem (iov_base v) bs))"
    and "length bs < iov_len v \<Longrightarrow> st_netfd_poll p = Some e \<Longrightarrow>
      filled v mem s [Arrives k p] (Inr (Some e, [], [iov_skip (length bs) v], store_at mem (iov_base v) bs))"
proof -
  have *: "take (length bs) s = bs" "length bs \<le> iov_len v" "got (iov_len v) [Arrives k p] s = bs"
    using take_length_take [of "min (Suc k) (iov_len v)" s, folded assms]
    by (simp_all add: assms)
  show "bs = [] \<Longrightarrow> filled v mem s [Arrives k p] (Inr (None, [], [v], mem))"
    using * assms by (auto simp: filled_def)
  show "length bs = iov_len v \<Longrightarrow>
      filled v mem s [Arrives k p] (Inr (None, [iov_skip (length bs) v], [], store_at mem (iov_base v) bs))"
    using * by (simp add: filled_def del: got_simps)
  show "length bs < iov_len v \<Longrightarrow> st_netfd_poll p = Some e \<Longrightarrow>
      filled v mem s [Arrives k p] (Inr (Some e, [], [iov_skip (length bs) v], store_at mem (iov_base v) bs))"
    using * by (simp add: filled_def del: got_simps)
qed

lemma kernel_read_fully:
  "readv_resid (kernel_rounds (iov_len v) ts s) [] [v] mem = Some x \<Longrightarrow>
   \<exists>us vs. ts = us @ vs \<and> readv_resid (kernel_rounds (iov_len v) us s) [] [v] mem \<noteq> None \<and> filled v mem s us x"
proof (induction ts arbitrary: v s mem)
  case (Cons t ts)
  show ?case
  proof (cases t)
    case (Refused e p)
    show ?thesis
    proof (cases "turn_errno t")
      case None
      then have 1: "readv_resid (kernel_rounds (iov_len v) (t # us) s) [] [v] mem =
          readv_resid (kernel_rounds (iov_len v) us s) [] [v] mem" for us
        using Refused by (auto simp: io_not_ready_def split: if_splits)
      from Cons.IH [of v s mem] Cons.prems 1 obtain us vs where "ts = us @ vs"
        "readv_resid (kernel_rounds (iov_len v) us s) [] [v] mem \<noteq> None" "filled v mem s us x" by metis
      then show ?thesis using 1 filled_Refused Refused None by (metis append_Cons)
    next
      case (Some e')
      then have "x = Inr (Some e', [], [v], mem)" "readv_resid (kernel_rounds (iov_len v) [t] s) [] [v] mem \<noteq> None"
        using Cons.prems Refused by (auto simp: io_not_ready_def split: if_splits)
      then show ?thesis using filled_Refused_last Some Refused by (metis append_Cons append_Nil)
    qed
  next
    case (Arrives k p)
    define bs where "bs = take (min (Suc k) (iov_len v)) s"
    let ?w = "iov_skip (length bs) v"
    have le: "length bs \<le> iov_len v" by (simp add: bs_def)
    have step: "readv_resid (kernel_rounds (iov_len v) (t # us) s) [] [v] mem =
       (if bs = [] then Some (Inr (None, [], [v], mem))
        else if length bs = iov_len v then Some (Inr (None, [?w], [], store_at mem (iov_base v) bs))
        else case st_netfd_poll p of
            Some e \<Rightarrow> Some (Inr (Some e, [], [?w], store_at mem (iov_base v) bs))
          | None \<Rightarrow> readv_resid (kernel_rounds (iov_len ?w) us (drop (length bs) s)) [] [?w] (store_at mem (iov_base v) bs))" for us
      unfolding Arrives kernel_rounds.simps Let_def bs_def [symmetric] one_vector [OF le] by (simp split: option.split)
    note last = filled_Arrives_last [OF bs_def, where mem = mem and p = p]
    consider "bs = [] \<or> length bs = iov_len v \<or> st_netfd_poll p \<noteq> None"
      | "bs \<noteq> []" "length bs < iov_len v" "st_netfd_poll p = None" using le by linarith
    then show ?thesis
    proof cases
      case 1
      then have "filled v mem s [t] x" using Cons.prems [unfolded step] last le unfolding Arrives
        by (auto split: if_splits option.splits)
      moreover have "readv_resid (kernel_rounds (iov_len v) [t] s) [] [v] mem \<noteq> None"
        using 1 unfolding step by (auto split: option.split)
      ultimately show ?thesis by (metis append_Cons append_Nil)
    next
      case 2
      then have go: "readv_resid (kernel_rounds (iov_len v) (t # us) s) [] [v] mem =
          readv_resid (kernel_rounds (iov_len ?w) us (drop (length bs) s)) [] [?w] (store_at mem (iov_base v) bs)" for us
        unfolding step by simp
      from Cons.IH [of ?w "drop (length bs) s" "store_at mem (iov_base v) bs"] Cons.prems go
      obtain us vs where "ts = us @ vs"
         "readv_resid (kernel_rounds (iov_len ?w) us (drop (length bs) s)) [] [?w] (store_at mem (iov_base v) bs) \<noteq> None"
         "filled ?w (store_at mem (iov_base v) bs) (drop (length bs) s) us x" by metis
      then show ?thesis using go filled_Arrives [OF _ bs_def 2(2,3)] unfolding Arrives by (metis append_Cons)
    qed
  qed
qed simp

subsection \<open>What one call delivers\<close>

lemma until_returns_least:
  assumes "until_returns f [] ts = Some (x, us, ts')" "us = vs @ ws" "f vs \<noteq> None"
  shows "ws = []"
proof (rule ccontr)
  assume "ws \<noteq> []"
  then have "length vs < length us" using assms(2) by simp
  then have "f (take (length vs) us) = None" using until_returns_used [OF assms(1)] by simp
  then show False using assms(2,3) by simp
qed

lemma st_read_fully_one:
  "st_read_fully l buf n mem = map_option (\<lambda>x. rbind x (\<lambda>(rv, d, r, mem).
     Inr (case rv of None \<Rightarrow> Inr (n - iov_len (hd (d @ r))) | Some e \<Rightarrow> Inl e, mem)))
     (readv_resid l [] [\<lparr>iov_base = buf, iov_len = n\<rparr>] mem)"
  by (cases "readv_resid l [] [\<lparr>iov_base = buf, iov_len = n\<rparr>] mem")
     (auto simp: st_read_fully_def st_read_resid_def st_readv_resid_def rbind_def split: sum.splits)

text \<open>What a call promises: the errno comes from its last turn, or the bytes are the front of the stream.\<close>

definition call_right :: "recv_op \<Rightarrow> turn list \<Rightarrow> byte list \<Rightarrow> call_result \<Rightarrow> bool" where
  "call_right opn turns s res = (case res of (r, us, later, s') \<Rightarrow> turns = us @ later \<and> us \<noteq> [] \<and>
     (\<forall>t \<in> set (butlast us). turn_errno t = None) \<and> (\<exists>piece. s = piece @ s' \<and>
     length piece \<le> recv_size opn \<and> (case r of
       Inl k \<Rightarrow> (\<exists>e. k = errno_number e \<and> turn_errno (last us) = Some e) \<and>
         (case opn of Recv _ \<Rightarrow> piece = [] \<and> refused (last us) | Recv_fully n _ _ \<Rightarrow> length piece < n \<or> n = 0)
     | Inr bs \<Rightarrow> \<not> refused (last us) \<and> piece = bs \<and> (is_full opn bs \<or> s' = [] \<or> recv_size opn = 0))))"

lemma call_read_right:
  assumes "call_read turns s n = Some res"
  shows "call_right (Recv n) turns s res"
proof -
  let ?f = "\<lambda>us. io_loop (kernel_rounds n us s)"
  from assms obtain a l us later where u: "until_returns ?f [] turns = Some ((a, l), us, later)"
    and res: "res = (map_sum errno_number id a, us, later, stream_left n us s)"
    by (auto simp: call_read_def st_read_def)
  note used_us = until_returns_used [OF u]
  then have "?f us = Some (a, l)" by simp
  from kernel_read [OF this] obtain vs ws where k: "us = vs @ ws" "vs \<noteq> []" "?f vs \<noteq> None" "\<forall>t \<in> set (butlast vs). turn_errno t = None"
    "case a of Inr bs \<Rightarrow> \<not> refused (last vs) \<and> (\<exists>k. bs = take (min (Suc k) n) s) \<and> got n vs s = bs
     | Inl e \<Rightarrow> refused (last vs) \<and> turn_errno (last vs) = Some e \<and> got n vs s = []"
    unfolding got_def by blast
  then have "vs = us" using until_returns_least [OF u] by simp
  have "s = got n us s @ stream_left n us s"
    using k(5) take_length_take [where xs = s] unfolding \<open>vs = us\<close> stream_left_def got_def [symmetric]
    by (auto split: sum.splits) (metis append_take_drop_id take_length_take)
  then show ?thesis using k used_us unfolding call_right_def res \<open>vs = us\<close> stream_left_def got_def [symmetric]
    by (auto split: sum.splits)
qed

lemma call_read_fully_right:
  assumes "call_read_fully buf mem turns s n = Some res"
  shows "call_right (Recv_fully n buf mem) turns s res"
proof -
  let ?v = "\<lparr>iov_base = buf, iov_len = n\<rparr>"
  let ?f = "\<lambda>us. st_read_fully (kernel_rounds n us s) buf n mem"
  from assms obtain x us later r where u: "until_returns ?f [] turns = Some (x, us, later)"
    and r: "read_fully_answer buf x = Some r" and res: "res = (r, us, later, stream_left n us s)"
    by (auto simp: call_read_fully_def bind_eq_Some_conv)
  note used_us = until_returns_used [OF u]
  then have "?f us = Some x" by simp
  then obtain y where y: "readv_resid (kernel_rounds (iov_len ?v) us s) [] [?v] mem = Some y"
    and x: "x = rbind y (\<lambda>(rv, d, r, mem). Inr (case rv of None \<Rightarrow> Inr (n - iov_len (hd (d @ r))) | Some e \<Rightarrow> Inl e, mem))"
    by (auto simp: st_read_fully_one)
  from kernel_read_fully [OF y] obtain vs ws where k: "us = vs @ ws"
    "readv_resid (kernel_rounds (iov_len ?v) vs s) [] [?v] mem \<noteq> None" "filled ?v mem s vs y" by blast
  then have "?f vs \<noteq> None" by (simp add: st_read_fully_one)
  then have "vs = us" using until_returns_least [OF u k(1)] k(1) by simp
  obtain g rv d q where f: "us \<noteq> []" "\<forall>t \<in> set (butlast us). turn_errno t = None" "got n us s = g" "take (length g) s = g" "length g \<le> n"
     "y = Inr (rv, d, q, store_at mem buf g)" "iov_len (hd (d @ q)) = n - length g"
     "case rv of None \<Rightarrow> \<not> refused (last us) \<and> (length g = n \<or> length s \<le> length g)
      | Some e \<Rightarrow> turn_errno (last us) = Some e \<and> (length g < n \<or> n = 0)" 
    using k(3) unfolding \<open>vs = us\<close> filled_def iovec.simps by blast
  have later: "stream_left n us s = drop (length g) s" using f(3) by (simp add: stream_left_def got_def)
  then have s: "s = g @ stream_left n us s" using f(4) by (metis append_take_drop_id)
  have x: "x = Inr (case rv of None \<Rightarrow> Inr (length g) | Some e \<Rightarrow> Inl e, store_at mem buf g)"
    using f(5-7) unfolding x by (simp split: option.split)
  show ?thesis
  proof (cases rv)
    case None
    then have "r = Inr g" using r x by (simp add: read_fully_answer_def mem_at_store)
    moreover have "length g = n \<or> stream_left n us s = []" using f(8) None later by auto
    ultimately show ?thesis using f(1,2,5,8) s used_us None unfolding call_right_def res by auto
  next
    case (Some e)
    then have "r = Inl (errno_number e)" using r x by (simp add: read_fully_answer_def)
    then show ?thesis using f(1,2,5,8) s used_us Some unfolding call_right_def res by auto
  qed
qed

lemma recv_call_right:
  "recv_call opn turns s (recv_size opn) = Some res \<Longrightarrow> call_right opn turns s res"
  by (cases opn) (auto intro: call_read_right call_read_fully_right)

text \<open>The operation of the socket on what its call answered.\<close>

definition fails_with :: "err_site \<Rightarrow> recv_op \<Rightarrow> int \<Rightarrow> srs_error_t \<Rightarrow> bool" where
  "fails_with at opn k err \<longleftrightarrow> (\<exists>t. err = srs_error_new (at\<lparr>at_errno := k\<rparr>)
     (if k = 62 then ERROR_SOCKET_TIMEOUT else recv_code opn) t)"

lemma recv_code_not_0 [simp]: "recv_code opn \<noteq> 0"
  by (cases opn) simp_all

lemma fails_with_code:
  "fails_with at opn k err \<Longrightarrow> err \<noteq> None \<and> err_rerrno (err_node (the err)) = k \<and>
     ends_with_code err (if k = 62 then ERROR_SOCKET_TIMEOUT else recv_code opn)"
  by (cases opn) (auto simp: fails_with_def srs_error_new_def error_node_at_def srs_error_code_def)

lemma recv_sock_Inl:
  assumes "call (sk_stfd s) (recv_size opn) (st_timeout (rtm s)) = Inl k" "recv_sock at opn call s = ((err, nread, data), s')"
  shows "nread = - 1 \<and> data = [] \<and> s' = s \<and> fails_with at opn k err"
  using assms by (cases opn) (auto simp: sock_read_def sock_read_fully_def read_count_def read_data_def with_errno_def
      Let_def fails_with_def Srs_Service_Socket.ETIME_def)

lemma recv_sock_Inr:
  assumes "call (sk_stfd s) (recv_size opn) (st_timeout (rtm s)) = Inr bs" "recv_sock at opn call s = ((err, nread, data), s')"
  shows "nread = int (length bs) \<and> data = bs \<and>
    (if is_full opn bs then err = None \<and> s' = s\<lparr>rbytes := rbytes s + int (length bs)\<rparr>
     else s' = s \<and> ends_with_code err (recv_code opn) \<and> peer_gone err)"
  using assms by (cases opn) (auto simp: sock_read_def sock_read_fully_def read_count_def read_data_def with_errno_def Let_def)

lemma recv_sock_receives:
  assumes "recv_call opn turns s (recv_size opn) = Some (r, us, later, s')"
    and "recv_sock at opn (reader_of (recv_call opn turns s)) sk = ((err, nread, data), sk')"
  shows "\<exists>piece. s = piece @ s' \<and> receives opn us piece s' (err, nread, data) \<and>
    rbytes sk' = rbytes sk + (if err = None then int (length data) else 0)"
proof -
  from recv_call_right [OF assms(1)] obtain piece where p: "us \<noteq> []" "\<forall>t \<in> set (butlast us). turn_errno t = None" "s = piece @ s'" "length piece \<le> recv_size opn"
    "case r of Inl k \<Rightarrow> (\<exists>e. k = errno_number e \<and> turn_errno (last us) = Some e) \<and>
         (case opn of Recv _ \<Rightarrow> piece = [] \<and> refused (last us) | Recv_fully n _ _ \<Rightarrow> length piece < n \<or> n = 0)
     | Inr bs \<Rightarrow> \<not> refused (last us) \<and> piece = bs \<and> (is_full opn bs \<or> s' = [] \<or> recv_size opn = 0)"
    by (auto simp: call_right_def)
  have reader: "reader_of (recv_call opn turns s) f (recv_size opn) t = r" for f t
    using assms(1) by (simp add: reader_of_def)
  show ?thesis
  proof (cases r)
    case (Inl k)
    note fail = recv_sock_Inl [OF reader [unfolded Inl] assms(2)]
    then show ?thesis using p Inl fails_with_code [of at opn k err] by (auto simp: receives_def)
  next
    case (Inr bs)
    note ok = recv_sock_Inr [OF reader [unfolded Inr] assms(2)]
    then show ?thesis using p Inr by (auto simp: receives_def ends_with_code_def split: if_splits)
  qed
qed

subsection \<open>When a call returns\<close>

lemma arrivals_simps [simp]: "arrivals [] = 0" "arrivals (t # ts) = (if refused t then 0 else 1) + arrivals ts"
  "arrivals (us @ ts) = arrivals us + arrivals ts"
  by (simp_all add: arrivals_def)

lemma done_rounds: "length (filter is_done (kernel_rounds n ts s)) = arrivals ts"
  by (induction n ts s rule: kernel_rounds.induct) (simp_all add: is_done_def Let_def)

lemma st_read_returns: "1 \<le> arrivals ts \<Longrightarrow> st_read (kernel_rounds n ts s) \<noteq> None"
  unfolding st_read_def
  by (induction n ts s rule: kernel_rounds.induct) (auto simp: Let_def split: option.split)

lemma st_read_fully_returns: "n + 1 \<le> arrivals ts \<Longrightarrow> st_read_fully (kernel_rounds n ts s) buf n mem \<noteq> None"
  using readv_resid_returns [of "[\<lparr>iov_base = buf, iov_len = n\<rparr>]" "kernel_rounds n ts s" "[]" mem]
  by (auto simp: st_read_fully_one done_rounds)

lemma until_returns_few:
  assumes "\<And>us. m \<le> arrivals us \<Longrightarrow> f us \<noteq> None" "until_returns f [] ts = Some (x, us, ts')" "us \<noteq> []"
  shows "arrivals us \<le> m"
proof -
  have "f (take (length us - 1) us) = None" using until_returns_used [OF assms(2)] assms(3) by simp
  then have "f (butlast us) = None" by (simp add: butlast_conv_take)
  then have "arrivals (butlast us) < m" using assms(1) by (meson not_le)
  moreover have "arrivals us = arrivals (butlast us) + arrivals [last us]"
    using assms(3) arrivals_simps(3) [of "butlast us" "[last us]"] by simp
  moreover have "arrivals [last us] \<le> 1" by simp
  ultimately show ?thesis by linarith
qed

lemma recv_call_few:
  assumes "recv_call opn turns s (recv_size opn) = Some (r, us, later, s')"
  shows "arrivals us \<le> turns_needed opn"
proof -
  have "us \<noteq> []" using recv_call_right [OF assms] by (simp add: call_right_def)
  then show ?thesis using assms until_returns_few [OF st_read_returns] until_returns_few [OF st_read_fully_returns]
    by (cases opn) (auto simp: call_read_def call_read_fully_def bind_eq_Some_conv)
qed

lemma recv_call_returns:
  assumes "turns_needed opn \<le> arrivals turns"
  shows "recv_call opn turns s (recv_size opn) \<noteq> None"
proof (cases opn)
  case (Recv n)
  then show ?thesis
    using assms st_read_returns [of turns n s] until_returns_stops [of "\<lambda>us. st_read (kernel_rounds n us s)" "[]" "length turns" turns]
    by (simp add: call_read_def)
next
  case (Recv_fully n buf mem)
  let ?f = "\<lambda>us. st_read_fully (kernel_rounds n us s) buf n mem"
  obtain x us later where u: "until_returns ?f [] turns = Some (x, us, later)"
    using assms Recv_fully st_read_fully_returns [of n turns s buf mem] until_returns_stops [of ?f "[]" "length turns" turns]
    by auto
  then have "?f us = Some x" using until_returns_used [OF u] by simp
  then obtain y where y: "readv_resid (kernel_rounds n us s) [] [\<lparr>iov_base = buf, iov_len = n\<rparr>] mem = Some y"
    "x = rbind y (\<lambda>(rv, d, r, mem). Inr (case rv of None \<Rightarrow> Inr (n - iov_len (hd (d @ r))) | Some e \<Rightarrow> Inl e, mem))"
    by (auto simp: st_read_fully_one)
  then obtain z where "x = Inr z" using readv_resid_ok [OF y(1)] by auto
  then show ?thesis using u Recv_fully by (cases z) (auto simp: call_read_fully_def read_fully_answer_def split: sum.split)
qed

subsection \<open>What a sequence of reads receives\<close>

text \<open>
  C31: Any sequence of \<open>read\<close> and \<open>read_fully\<close> on a connection, through the loops of \<open>st_read\<close> and
  \<open>st_read_fully\<close>, whatever the system answers in between (interrupts, not ready, errors, waits that
  fail or time out) and however the stream arrives in pieces.  The calls take the stream from the
  front, in order, with nothing repeated.  A call that succeeds delivers exactly its piece: at least a byte and at most what was
  asked for, or for \<open>read_fully\<close> all that was asked for.  A call that gets less without -1 fails
  with the error of a graceful close and errno \<open>ECONNRESET\<close>, and only at the end of the stream
  (or if it asked for nothing).  No error of \<open>read\<close> or of a wait is passed over (but interrupts, and not ready before
  a wait that succeeds): the call fails with -1 and this errno, a timeout if it is \<open>ETIME\<close>,
  else a read error; and it never fails with -1 otherwise.  \<open>read\<close> then took nothing, while a \<open>read_fully\<close> may have taken bytes that its caller does not learn of.  So the buffers and what is
  left make up the stream unless a \<open>read_fully\<close> failed with -1.  \<open>get_recv_bytes\<close> grows by the
  bytes of the calls that succeeded.  And the calls do return, at the latest when input arrived once
  for each \<open>read\<close> and once more than there are bytes for each \<open>read_fully\<close>.
\<close>

theorem socket_receives_stream:
  "(\<forall>outs turns' rest s'. recv_run at ops turns stream s = Some (outs, turns', rest, s') \<longrightarrow>
      received ops outs turns stream turns' rest \<and>
      get_recv_bytes s' = get_recv_bytes s + counted (map snd outs) \<and>
      (list_all2 (\<lambda>opn (_, _, nread, _). nread < 0 \<longrightarrow> (\<exists>n. opn = Recv n)) ops outs \<longrightarrow>
        concat (map (\<lambda>(_, _, _, data). data) outs) @ rest = stream)) \<and>
   (sum_list (map turns_needed ops) \<le> arrivals turns \<longrightarrow> recv_run at ops turns stream s \<noteq> None)"
proof (induction ops arbitrary: turns stream s)
  case (Cons opn ops)
  let ?call = "recv_call opn turns stream"
  show ?case
  proof (cases "?call (recv_size opn)")
    case None
    then have "\<not> turns_needed opn \<le> arrivals turns" using recv_call_returns by blast
    then show ?thesis using None by simp
  next
    case (Some res)
    obtain r us later stream' where res: "res = (r, us, later, stream')" by (metis prod_cases4)
    note call = Some [unfolded res]
    obtain err nread data s1 where sock: "recv_sock at opn (reader_of ?call) s = ((err, nread, data), s1)"
      by (metis prod.exhaust)
    from recv_sock_receives [OF call sock] obtain piece where p: "stream = piece @ stream'"
      "receives opn us piece stream' (err, nread, data)"
      "rbytes s1 = rbytes s + (if err = None then int (length data) else 0)" by blast
    have turns: "turns = us @ later" using recv_call_right [OF call] by (simp add: call_right_def)
    have piece: "data = piece" if "nread < 0 \<longrightarrow> (\<exists>n. opn = Recv n)"
      using p(2) that by (auto simp: receives_def split: if_splits)
    note step = recv_run.simps(2) [of at opn ops turns stream s, unfolded call option.case prod.case sock]
    show ?thesis
    proof (cases "recv_run at ops later stream' s1")
      case None
      then have "\<not> sum_list (map turns_needed ops) \<le> arrivals later" using Cons.IH by blast
      then show ?thesis using recv_call_few [OF call] None turns unfolding step by simp
    next
      case (Some q)
      obtain outs turns2 rest2 s2 where q: "q = (outs, turns2, rest2, s2)" by (metis prod_cases4)
      note ih = Cons.IH [of later stream' s1, THEN conjunct1, rule_format, OF Some [unfolded q]]
      show ?thesis unfolding step Some q option.case prod.case using ih p turns piece
        by (auto simp: get_recv_bytes_def)
    qed
  qed
qed (simp add: get_recv_bytes_def)

lemma socket_receives_stream_witness:
  "\<exists>outs rest s'. recv_run main_at [Recv 10, Recv_fully 3 100 (\<lambda>_. 0), Recv 10]
       [Refused EINTR (Inr 1, 1), Arrives 1 (Inr 1, 1), Arrives 0 (Inr 1, 1), Refused EAGAIN (Inr 1, 1), Arrives 5 (Inr 1, 1),
        Refused EAGAIN (Inr 0, 0)] [1, 2, 3, 4, 5, 6] SrsStSocket = Some (outs, [], rest, s') \<and>
     map (\<lambda>(_, err, nread, data). (srs_error_code err, nread, data)) outs =
       [(0, 2, [1, 2]), (0, 3, [3, 4, 5]), (ERROR_SOCKET_TIMEOUT, - 1, [])] \<and>
     rest = [6] \<and> get_recv_bytes s' = 5"
proof -
  let ?turns = "[Refused EINTR (Inr 1, 1), Arrives 1 (Inr 1, 1), Arrives 0 (Inr 1, 1), Refused EAGAIN (Inr 1, 1), Arrives 5 (Inr 1, 1),
        Refused EAGAIN (Inr 0, 0)]"
  let ?ops = "[Recv 10, Recv_fully 3 100 (\<lambda>_. 0), Recv 10]"
  define t1 t2 t3 where "t1 = [Refused EINTR (Inr 1, 1), Arrives 1 (Inr 1, 1)]"
    and "t2 = [Arrives 0 (Inr 1, 1), Refused EAGAIN (Inr 1, 1), Arrives 5 (Inr 1, 1)]"
    and "t3 = [Refused EAGAIN (Inr 0, 0)]"
  have "\<exists>err s'. recv_run main_at ?ops ?turns [1, 2, 3, 4, 5, 6] SrsStSocket =
      Some ([(t1, None, 2, [1, 2]), (t2, None, 3, [3, 4, 5]), (t3, err, - 1, [])], [], [6], s') \<and>
      err \<noteq> None \<and> srs_error_code err = ERROR_SOCKET_TIMEOUT"
    by (simp add: call_read_def call_read_fully_def st_read_def st_read_fully_one io_not_ready_def POLLNVAL_def
        read_fully_answer_def stream_left_def reader_of_def iov_consume_def Let_def iov_skip_def mem_at_def store_at_def upt_rec
        sock_read_def sock_read_fully_def read_count_def read_data_def with_errno_def SrsStSocket_def
        Srs_Service_Socket.ETIME_def srs_error_new_def t1_def t2_def t3_def)
  then obtain err s' where run: "recv_run main_at ?ops ?turns [1, 2, 3, 4, 5, 6] SrsStSocket =
      Some ([(t1, None, 2, [1, 2]), (t2, None, 3, [3, 4, 5]), (t3, err, - 1, [])], [], [6], s')"
    and err: "err \<noteq> None" "srs_error_code err = ERROR_SOCKET_TIMEOUT" by blast
  note all = socket_receives_stream [of main_at ?ops ?turns "[1, 2, 3, 4, 5, 6]" SrsStSocket, THEN conjunct1, rule_format, OF run]
  then have "get_recv_bytes s' = 5" using err by (simp add: get_recv_bytes_def SrsStSocket_def)
  with run err show ?thesis by (simp add: srs_error_code_def)
qed

end
