(* ===== verification/Srs_Main.thy ===== *)
theory Srs_Main
  imports Srs_App_Listener Srs_App_Hourglass Srs_App_Condition
begin

section \<open>The programs (main.cc, sample/udp/main\_udp.cc)\<close>

text \<open>
  The coroutines and handlers that the programs make of the components: the notifier and the waiter of the condition object, the test
  workers and the sender over UDP, the servers that print or answer packets, and the object that the fast timer calls.
  Sleeping, sending and what others do meanwhile are arguments.  The functions \<open>main\<close>, \<open>run\<close> and \<open>do_main\<close> only
  construct these objects one after another and sleep.
\<close>

subsection \<open>Objects with a coroutine\<close>

record worker =
  wk_trd :: listener_trd
  wk_cid :: SrsContextId

text \<open>The constructors of \<open>Notifier\<close>, \<open>Waiter\<close>, \<open>UdpTestWork\<close> and \<open>UdpSendTimeTask\<close>.\<close>

definition new_worker :: "SrsContextId \<Rightarrow> worker" where
  "new_worker new_id = \<lparr>wk_trd = Dummy_trd, wk_cid = new_id\<rparr>"

text \<open>\<open>old\<close> is the worker of a coroutine that is replaced, \<open>created\<close> tells whether the thread could be created.\<close>

definition worker_run :: "err_site \<Rightarrow> bool \<Rightarrow> (coroutine \<Rightarrow> coroutine) \<Rightarrow> string \<Rightarrow> worker \<Rightarrow> (srs_error_t \<times> worker) outcome" where
  "worker_run at created old name w = rbind (trd_free at old (wk_trd w)) (\<lambda>_.
     case co_start at created (SrsFastCoroutine_cid name (wk_cid w)) of (err, c) \<Rightarrow>
       let w = w\<lparr>wk_trd := St_trd c\<rparr> in
       if err \<noteq> None then Inr (srs_error_wrap at err ''start thread'', w) else Inr (err, w))"

definition notifier_run :: "err_site \<Rightarrow> bool \<Rightarrow> (coroutine \<Rightarrow> coroutine) \<Rightarrow> worker \<Rightarrow> (srs_error_t \<times> worker) outcome" where
  "notifier_run at created old w = worker_run at created old ''Notifier'' w"

definition waiter_run :: "err_site \<Rightarrow> bool \<Rightarrow> (coroutine \<Rightarrow> coroutine) \<Rightarrow> worker \<Rightarrow> (srs_error_t \<times> worker) outcome" where
  "waiter_run at created old w = worker_run at created old ''Waiter'' w"

subsection \<open>Notifier and waiter\<close>

text \<open>
  The notifier: \<open>asleep k\<close> is what others do while it sleeps in round \<open>k\<close>.  The state is the condition object, the number of the next
  line, and the lines so far.  \<open>new T()\<close> is 0.
\<close>

definition notifier_round ::
  "err_site \<Rightarrow> (nat \<Rightarrow> coroutine) \<Rightarrow> (nat \<Rightarrow> int cond_state \<Rightarrow> int cond_state) \<Rightarrow> nat \<Rightarrow> int cond_state \<times> int \<times> int list \<Rightarrow>
   (srs_error_t \<times> int cond_state \<times> int list) outcome + int cond_state \<times> int \<times> int list" where
  "notifier_round at co asleep k st = (case st of (s, num, log) \<Rightarrow>
     if co_pull (co k) \<noteq> None then Inl (Inr (srs_error_wrap at (co_pull (co k)) ''udp worker'', s, log))
     else case cond_notify 0 (asleep k s) of Inl f \<Rightarrow> Inl (Inl f)
     | Inr s \<Rightarrow> Inr (s, num + 1, log @ [num]))"

definition notifier_cycle ::
  "err_site \<Rightarrow> (nat \<Rightarrow> coroutine) \<Rightarrow> (nat \<Rightarrow> int cond_state \<Rightarrow> int cond_state) \<Rightarrow> int cond_state \<Rightarrow>
   (srs_error_t \<times> int cond_state \<times> int list) outcome option" where
  "notifier_cycle at co asleep s = serve (notifier_round at co asleep) 0 (s, 1, [])"

text \<open>
  The waiter never looks at its coroutine and never returns: this is its state after as many waits as there are lists
  of what happens in their sleeps.
\<close>

fun waiter_cycle :: "(int cond_state \<Rightarrow> int cond_state) list list \<Rightarrow> int \<Rightarrow> int cond_state \<Rightarrow> int list \<Rightarrow> (int cond_state \<times> int list) outcome option" where
  "waiter_cycle [] num s log = Some (Inr (s, log))"
| "waiter_cycle (envs # l) num s log = (case cond_wait envs None s of None \<Rightarrow> None
     | Some (Inl f) \<Rightarrow> Some (Inl f)
     | Some (Inr (r, pkg, s)) \<Rightarrow> waiter_cycle l (num + 1) s (log @ [num]))"

subsection \<open>The servers\<close>

text \<open>\<open>UdpServer::listen\<close> of main.cc and \<open>UdpListener::listen\<close> of the sample.\<close>

definition udp_server_listen ::
  "err_site \<Rightarrow> net_answers \<Rightarrow> int option \<times> int option \<times> int option \<times> int option \<Rightarrow> bool \<Rightarrow> SrsContextId \<Rightarrow> string \<Rightarrow> int \<Rightarrow> net \<Rightarrow>
   (srs_error_t \<times> udp_listener \<times> net) outcome" where
  "udp_server_listen at a q created new_id ip port n =
     rbind (ul_listen at a q created (\<lambda>c. c) (\<lambda>_ h. h) (SrsUdpListener new_id ip port) () n) (\<lambda>(err, l, _, n).
       if err \<noteq> None then Inr (srs_error_wrap at err (''listen '' @ c_str ip @ '':'' @ int_str port), l, n) else Inr (err, l, n))"

definition server_on_udp_packet :: "packet \<Rightarrow> srs_error_t" where
  "server_on_udp_packet p = None"

text \<open>
  The answer of the sample: to the port of the sender, but to the address that \<open>sa_data[2]\<close> is as a number, that is the first byte of the
  address as a signed \<open>char\<close>.
\<close>

definition reply_addr :: "sockaddr \<Rightarrow> sockaddr option" where
  "reply_addr from = (case from of
     Sockaddr_in port addr \<Rightarrow> Some (Sockaddr_in port (scast (ucast addr :: 8 word)))
   | Sockaddr_other f bs \<Rightarrow> None)"

definition echo_text :: "int \<Rightarrow> string" where
  "echo_text i = ''udp server recv from udp client. count:['' @ int_str i @ '']''"

text \<open>\<open>sendto\<close> is the answer of \<open>srs_sendto\<close>; \<open>i\<close> counts the packets of all servers.\<close>

definition echo_on_udp_packet :: "err_site \<Rightarrow> (sockaddr option \<Rightarrow> string \<Rightarrow> int) \<Rightarrow> int \<Rightarrow> packet \<Rightarrow> srs_error_t \<times> int" where
  "echo_on_udp_packet at sendto i p =
     (let nwrite = sendto (reply_addr (fst p)) (echo_text i) in
      if nwrite \<le> 0 then (srs_error_new at ERROR_SOCKET_READ (''udp wirte, nwirte='' @ int_str nwrite), i + 1) else (None, i + 1))"

subsection \<open>The workers over UDP\<close>

definition test_work_run ::
  "err_site \<Rightarrow> net_answers \<Rightarrow> int option \<times> int option \<times> int option \<times> int option \<Rightarrow> bool \<Rightarrow> bool \<Rightarrow> (coroutine \<Rightarrow> coroutine) \<Rightarrow> SrsContextId \<Rightarrow>
   string \<Rightarrow> int \<Rightarrow> worker \<Rightarrow> net \<Rightarrow> (srs_error_t \<times> worker \<times> udp_listener \<times> net) outcome" where
  "test_work_run at a q bound created old new_id ip port w n =
     rbind (udp_server_listen at a q bound new_id ip port n) (\<lambda>(err, l, n).
       if err \<noteq> None then Inr (srs_error_wrap at err ''listen err'', w, l, n)
       else rbind (worker_run at created old ''UdpTestWork'' w) (\<lambda>(err, w). Inr (err, w, l, n)))"

text \<open>The test worker sleeps first; \<open>co k\<close> is its coroutine after the sleep of round \<open>k\<close>.\<close>

definition test_work_round :: "err_site \<Rightarrow> (nat \<Rightarrow> coroutine) \<Rightarrow> nat \<Rightarrow> int \<times> nat \<Rightarrow> (srs_error_t \<times> nat) + int \<times> nat" where
  "test_work_round at co k st = (case st of (num, lines) \<Rightarrow>
     if co_pull (co k) \<noteq> None then Inl (srs_error_wrap at (co_pull (co k)) ''udp worker'', lines)
     else Inr (num + 1, lines + 1))"

definition test_work_cycle :: "err_site \<Rightarrow> (nat \<Rightarrow> coroutine) \<Rightarrow> (srs_error_t \<times> nat) option" where
  "test_work_cycle at co = serve (test_work_round at co) 0 (1, 0)"

text \<open>The sender: a list of servers, and what was sent so far.\<close>

type_synonym server = "string \<times> int"

definition register_server :: "string \<Rightarrow> int \<Rightarrow> server list \<Rightarrow> server list" where
  "register_server ip port l = l @ [(ip, port)]"

definition sender_run ::
  "err_site \<Rightarrow> net_answers \<Rightarrow> int option \<times> int option \<times> int option \<times> int option \<Rightarrow> bool \<Rightarrow> bool \<Rightarrow> (coroutine \<Rightarrow> coroutine) \<Rightarrow> SrsContextId \<Rightarrow>
   string \<Rightarrow> int \<Rightarrow> worker \<Rightarrow> net \<Rightarrow> (srs_error_t \<times> worker \<times> udp_listener \<times> net) outcome" where
  "sender_run at a q bound created old new_id ip port w n =
     rbind (ul_listen at a q bound (\<lambda>c. c) (\<lambda>_ h. h) (SrsUdpListener new_id ip port) () n) (\<lambda>(err, l, _, n).
       if err \<noteq> None then Inr (srs_error_wrap at err ''listen err'', w, l, n)
       else rbind (worker_run at created old ''UdpSendTimeTask'' w) (\<lambda>(err, w). Inr (err, w, l, n)))"

definition sender_text :: "int \<Rightarrow> string" where
  "sender_text num = ''UdpSendTimeTask Send idx : '' @ int_str num"

fun send_all :: "err_site \<Rightarrow> (nat \<Rightarrow> server \<Rightarrow> string \<Rightarrow> int) \<Rightarrow> server list \<Rightarrow> int \<times> (server \<times> string) list \<Rightarrow>
    (srs_error_t \<times> (server \<times> string) list) + int \<times> (server \<times> string) list" where
  "send_all at sendto [] st = Inr st"
| "send_all at sendto (x # l) (num, sent) =
     (let msg = sender_text num; nwrite = sendto (length sent) x msg in
      if nwrite \<le> 0 then Inl (srs_error_new at ERROR_SOCKET_READ (''udp wirte, nwirte='' @ int_str nwrite), sent)
      else send_all at sendto l (num + 1, sent @ [(x, msg)]))"

definition sender_round ::
  "err_site \<Rightarrow> (nat \<Rightarrow> coroutine) \<Rightarrow> (nat \<Rightarrow> server \<Rightarrow> string \<Rightarrow> int) \<Rightarrow> server list \<Rightarrow> nat \<Rightarrow> int \<times> (server \<times> string) list \<Rightarrow>
   (srs_error_t \<times> (server \<times> string) list) + int \<times> (server \<times> string) list" where
  "sender_round at co sendto l k st =
     (if co_pull (co k) \<noteq> None then Inl (srs_error_wrap at (co_pull (co k)) ''udp worker'', snd st) else send_all at sendto l st)"

definition sender_cycle ::
  "err_site \<Rightarrow> (nat \<Rightarrow> coroutine) \<Rightarrow> (nat \<Rightarrow> server \<Rightarrow> string \<Rightarrow> int) \<Rightarrow> server list \<Rightarrow> (srs_error_t \<times> (server \<times> string) list) option" where
  "sender_cycle at co sendto l = serve (sender_round at co sendto l) 0 (1, [])"

subsection \<open>The object that the timer calls\<close>

definition TimerTest :: "SrsContextId \<Rightarrow> fast_timer" where
  "TimerTest cid = SrsFastTimer ''hybrid'' (1 * SRS_UTIME_SECONDS) cid"

definition timer_test_run :: "err_site \<Rightarrow> bool \<Rightarrow> nat \<Rightarrow> fast_timer \<Rightarrow> srs_error_t \<times> fast_timer" where
  "timer_test_run at created self f = (case ft_start at created f of (err, f) \<Rightarrow>
     if err \<noteq> None then (srs_error_wrap at err ''start timer'', f) else (err, ft_subscribe self f))"

text \<open>The two lines of \<open>mallinfo\<close> are left out.\<close>

definition on_timer_test :: ft_handler where
  "on_timer_test log self = (None, [])"

text \<open>\<open>init\<close> of the sample: the global objects are made, then state-threads is started.\<close>

definition sample_init :: "srs_error_t \<Rightarrow> bool" where
  "sample_init err = (if err \<noteq> None then False else True)"

subsection \<open>Notifications are answered\<close>

text \<open>Notifications that arrive in one sleep.\<close>

definition burst :: "nat \<Rightarrow> int cond_state \<Rightarrow> int cond_state" where
  "burst n = env_notify 0 ^^ n"

abbreviation room :: "'a cond_state \<Rightarrow> nat" where
  "room s \<equiv> ring_room (notify_ringbuf s)"

lemma burst_pending:
  assumes "cond_ok s" "pending s = []"
  shows "cond_ok (burst n s)" "pending (burst n s) = replicate (min n (room s)) 0" "room (burst n s) = room s"
proof -
  have "cond_ok (burst n s) \<and> pending (burst n s) = replicate (min n (room s)) 0 \<and> room (burst n s) = room s"
  proof (induction n)
    case 0
    then show ?case using assms by (simp add: burst_def)
  next
    case (Suc n)
    let ?r = "notify_ringbuf (burst n s)"
    have e: "burst (Suc n) s = (burst n s)\<lparr>notify_ringbuf := snd (ring_put ?r 0)\<rparr>"
      using Suc by (simp add: burst_def env_notify_def cond_notify_eq)
    have "ring_len ?r = min n (room s)" using Suc length_ring_list [of ?r, symmetric] by simp
    then show ?case using Suc ring_put_spec [of ?r 0] unfolding e by (auto simp: min_def replicate_append_same)
  qed
  then show "cond_ok (burst n s)" "pending (burst n s) = replicate (min n (room s)) 0" "room (burst n s) = room s" by blast+
qed

lemma cond_wait_take:
  assumes "cond_ok s" "pending s = x # xs"
  obtains s' where "cond_wait envs p s = Some (Inr (0, Some x, s'))" "cond_ok s'" "pending s' = xs" "room s' = room s"
proof -
  obtain r where "Read_Packet_RingBuffer (notify_ringbuf s) (Some p) = Inr (E_RET_BUF_OK, Some (Some x), r)"
    "ring_inv r" "ring_list r = xs" "ring_size r = ring_size (notify_ringbuf s)" by (rule Read_ok [OF assms])
  then show thesis by (intro that [of "s\<lparr>notify_ringbuf := r\<rparr>"]) (simp_all add: cond_wait.simps [of envs p s] Let_def ring_room_def)
qed

lemma cond_wait_idles:
  assumes "cond_ok s" "pending s = []" "list_all env_idle is"
  obtains s' where "cond_ok s'" "pending s' = []" "room s' = room s" "\<And>p. cond_wait (is @ [env]) p s = cond_wait [] p (env s')"
  using assms
proof (induction "is" arbitrary: s thesis)
  case Nil
  then show thesis by (simp add: cond_wait_none_pending)
next
  case (Cons e "is")
  have "notify_ringbuf (e s) = notify_ringbuf s" using Cons.prems(4) by (simp add: env_idle_def)
  with Cons.prems have s: "cond_ok (e s)" "pending (e s) = []" "list_all env_idle is" "room (e s) = room s" by simp_all
  show thesis
  proof (rule Cons.IH [OF _ s(1-3)])
    fix s'
    assume "cond_ok s'" "pending s' = []" "room s' = room (e s)" "\<And>p. cond_wait (is @ [env]) p (e s) = cond_wait [] p (env s')"
    then show thesis using Cons.prems(1) s(4) by (simp add: cond_wait_none_pending [OF Cons.prems(2,3)])
  qed
qed

lemma waiter_backlog:
  assumes "cond_ok s" "length (pending s) = n"
  obtains s' where "waiter_cycle (replicate n [] @ l) num s log = waiter_cycle l (num + int n) s' (log @ map (\<lambda>i. num + int i) [0..<n])"
    "cond_ok s'" "pending s' = []" "room s' = room s"
  using assms
proof (induction n arbitrary: s num log thesis)
  case 0
  have "pending s = []" using 0(3) by (simp only: length_0_conv)
  then show thesis by (intro 0(1) [of s]) (use 0(2) in simp_all)
next
  case (Suc n)
  obtain x xs where x: "pending s = x # xs" "length xs = n" using Suc.prems(3) unfolding length_Suc_conv by blast
  from cond_wait_take [OF Suc.prems(2) x(1), of "[]" None] obtain s1 where
    s1: "cond_wait [] None s = Some (Inr (0, Some x, s1))" "cond_ok s1" "pending s1 = xs" "room s1 = room s" by blast
  have len: "length (pending s1) = n" unfolding s1(3) by (rule x(2))
  show thesis
  proof (rule Suc.IH [where s = s1 and num = "num + 1" and log = "log @ [num]", OF _ s1(2) len])
    fix s'
    assume i: "waiter_cycle (replicate n [] @ l) (num + 1) s1 (log @ [num]) = waiter_cycle l (num + 1 + int n) s' ((log @ [num]) @ map (\<lambda>i. num + 1 + int i) [0..<n])"
      "cond_ok s'" "pending s' = []" "room s' = room s1"
    have "[0..<Suc n] = 0 # map Suc [0..<n]" by (simp add: upt_conv_Cons map_Suc_upt del: upt_Suc)
    then have m: "map (\<lambda>i. num + int i) [0..<Suc n] = num # map (\<lambda>i. num + 1 + int i) [0..<n]" by (simp add: comp_def add.assoc del: upt_Suc)
    show thesis using i s1(1,4) by (intro Suc.prems(1) [of s']) (simp_all add: m add.assoc del: upt_Suc)
  qed
qed

text \<open>The waits for a burst of \<open>n\<close> notifications after some idle sleeps, when the ring has room for \<open>m\<close>.\<close>

definition burst_waits :: "nat \<Rightarrow> (int cond_state \<Rightarrow> int cond_state) list \<times> nat \<Rightarrow> (int cond_state \<Rightarrow> int cond_state) list list" where
  "burst_waits m b = (fst b @ [burst (snd b)]) # replicate (min (snd b) m - 1) []"

lemma waiter_burst:
  assumes "cond_ok s" "pending s = []" "list_all env_idle (fst b)" "0 < snd b" "0 < room s"
  obtains s' where "waiter_cycle (burst_waits (room s) b @ l) num s log =
      waiter_cycle l (num + int (min (snd b) (room s))) s' (log @ map (\<lambda>i. num + int i) [0..<min (snd b) (room s)])"
    "cond_ok s'" "pending s' = []" "room s' = room s"
proof -
  let ?k = "min (snd b) (room s)"
  obtain k where k: "?k = Suc k" using assms(4,5) by (cases ?k) auto
  from cond_wait_idles [OF assms(1-3), of "burst (snd b)"] obtain s1 where
    s1: "cond_ok s1" "pending s1 = []" "room s1 = room s" "\<And>p. cond_wait (fst b @ [burst (snd b)]) p s = cond_wait [] p (burst (snd b) s1)" by blast
  note p = burst_pending [OF s1(1,2), of "snd b", unfolded s1(3)]
  have "pending (burst (snd b) s1) = 0 # replicate k 0" using p(2) k by simp
  from cond_wait_take [OF p(1) this, of "[]" None] obtain s2 where
    s2: "cond_wait [] None (burst (snd b) s1) = Some (Inr (0, Some 0, s2))" "cond_ok s2" "pending s2 = replicate k 0" "room s2 = room s"
    using p(3) by metis
  have "length (pending s2) = k" unfolding s2(3) by simp
  from waiter_backlog [OF s2(2) this, of l "num + 1" "log @ [num]"] obtain s' where
    s': "waiter_cycle (replicate k [] @ l) (num + 1) s2 (log @ [num]) = waiter_cycle l (num + 1 + int k) s' ((log @ [num]) @ map (\<lambda>i. num + 1 + int i) [0..<k])"
      "cond_ok s'" "pending s' = []" "room s' = room s2" by blast
  have "[0..<Suc k] = 0 # map Suc [0..<k]" by (simp add: upt_conv_Cons map_Suc_upt del: upt_Suc)
  then have m: "map (\<lambda>i. num + int i) [0..<Suc k] = num # map (\<lambda>i. num + 1 + int i) [0..<k]" by (simp add: comp_def add.assoc del: upt_Suc)
  show thesis using s' s1(4) s2(1,4) by (intro that [of s']) (simp_all add: burst_waits_def k m add.assoc del: upt_Suc)
qed

lemma waiter_bursts:
  assumes "cond_ok s" "pending s = []" "0 < room s" "\<And>b. b \<in> set bs \<Longrightarrow> list_all env_idle (fst b) \<and> 0 < snd b"
  shows "\<exists>s'. waiter_cycle (concat (map (burst_waits (room s)) bs)) num s log =
      Some (Inr (s', log @ map (\<lambda>i. num + int i) [0..<sum_list (map (\<lambda>b. min (snd b) (room s)) bs)])) \<and> cond_ok s' \<and> pending s' = []"
  using assms
proof (induction bs arbitrary: s num log)
  case (Cons b bs)
  let ?k = "min (snd b) (room s)" and ?n = "sum_list (map (\<lambda>b. min (snd b) (room s)) bs)"
  have "list_all env_idle (fst b)" "0 < snd b" using Cons.prems(4) by simp_all
  from waiter_burst [OF Cons.prems(1,2) this Cons.prems(3), of "concat (map (burst_waits (room s)) bs)" num log] obtain s1 where
    s1: "waiter_cycle (burst_waits (room s) b @ concat (map (burst_waits (room s)) bs)) num s log =
      waiter_cycle (concat (map (burst_waits (room s)) bs)) (num + int ?k) s1 (log @ map (\<lambda>i. num + int i) [0..<?k])"
      "cond_ok s1" "pending s1 = []" "room s1 = room s" by blast
  have "0 < room s1" using s1(4) Cons.prems(3) by simp
  from Cons.IH [OF s1(2,3) this, of "num + int ?k" "log @ map (\<lambda>i. num + int i) [0..<?k]"] Cons.prems(4) obtain s' where
    s': "waiter_cycle (concat (map (burst_waits (room s)) bs)) (num + int ?k) s1 (log @ map (\<lambda>i. num + int i) [0..<?k]) =
      Some (Inr (s', (log @ map (\<lambda>i. num + int i) [0..<?k]) @ map (\<lambda>i. num + int ?k + int i) [0..<?n]))" "cond_ok s'" "pending s' = []"
    unfolding s1(4) by auto
  have "[0..<?k + ?n] = [0..<?k] @ map (\<lambda>i. i + ?k) [0..<?n]" using upt_add_eq_append [of 0 ?k ?n] by (simp add: map_add_upt add.commute)
  then have "map (\<lambda>i. num + int i) [0..<?k + ?n] = map (\<lambda>i. num + int i) [0..<?k] @ map (\<lambda>i. num + int ?k + int i) [0..<?n]"
    by (simp add: comp_def algebra_simps)
  then show ?case using s1(1) s' by simp
qed simp

text \<open>
  C37: The waiter of main.cc answers each notification of the thread with one line, numbered from 1: however long it polls in vain and
  however many notifications come in one sleep, it prints as many lines as notifications fit the ring of the condition, goes through
  all of them before it sleeps again, and leaves nothing pending; what a burst brings beyond the room of the ring is lost.
\<close>

theorem waiter_answers_bursts:
  assumes "cond_ok s" "pending s = []" "0 < room s" "\<And>b. b \<in> set bs \<Longrightarrow> list_all env_idle (fst b) \<and> 0 < snd b"
  shows "\<exists>s'. waiter_cycle (concat (map (burst_waits (room s)) bs)) 1 s [] =
      Some (Inr (s', map int [1..<Suc (sum_list (map (\<lambda>b. min (snd b) (room s)) bs))])) \<and> cond_ok s' \<and> pending s' = []"
proof -
  let ?n = "sum_list (map (\<lambda>b. min (snd b) (room s)) bs)"
  have "map (\<lambda>i. 1 + int i) [0..<?n] = map int [1..<Suc ?n]" by (simp add: map_Suc_upt [symmetric] comp_def del: upt_Suc)
  then show ?thesis using waiter_bursts [OF assms, of bs 1 "[]"] by simp
qed

lemma waiter_answers_bursts_witness:
  "\<exists>s'. waiter_cycle [[id, id, burst 2], [], [burst 1]] 1 (StCondition 1024 clock_init None) [] = Some (Inr (s', [1, 2, 3])) \<and> pending s' = []"
proof -
  let ?s = "StCondition 1024 clock_init None :: int cond_state" and ?bs = "[([id, id], 2), ([], 1)] :: ((int cond_state \<Rightarrow> int cond_state) list \<times> nat) list"
  have r: "room ?s = 999" by (simp add: StCondition_def ring_room_def ring_size_init)
  have w: "concat (map (burst_waits (room ?s)) ?bs) = [[id, id, burst 2], [], [burst 1]]" by (simp add: r burst_waits_def)
  have n: "sum_list (map (\<lambda>b. min (snd b) (room ?s)) ?bs) = 3" by (simp add: r)
  have l: "map int [1..<Suc 3] = [1, 2, 3]" by (simp add: upt_rec)
  have "0 < room ?s" unfolding r by simp
  moreover have "cond_ok ?s" "pending ?s = []" by (simp_all add: StCondition_def ring_inv_init ring_list_init)
  ultimately have a: "(\<And>b. b \<in> set ?bs \<Longrightarrow> list_all env_idle (fst b) \<and> 0 < snd b) \<Longrightarrow> \<exists>s'. waiter_cycle (concat (map (burst_waits (room ?s)) ?bs)) 1 ?s [] =
      Some (Inr (s', map int [1..<Suc (sum_list (map (\<lambda>b. min (snd b) (room ?s)) ?bs))])) \<and> cond_ok s' \<and> pending s' = []"
    by (intro waiter_answers_bursts)
  have "\<And>b. b \<in> set ?bs \<Longrightarrow> list_all env_idle (fst b) \<and> 0 < snd b" by (auto simp: env_idle_def)
  from a [OF this] show ?thesis unfolding w n l by blast
qed

subsection \<open>What the sender sends\<close>

text \<open>Message number \<open>i\<close>, counted from 0: the servers in turn, with the number in the text.\<close>

definition sender_message :: "server list \<Rightarrow> nat \<Rightarrow> server \<times> string" where
  "sender_message l i = (l ! (i mod length l), sender_text (int i + 1))"

lemma send_all_prefix:
  assumes "\<And>i. i < m \<Longrightarrow> 0 < sendto (length sent + i) (l ! i) (sender_text (num + int i))" "m \<le> length l"
  shows "send_all at sendto l (num, sent) =
    send_all at sendto (drop m l) (num + int m, sent @ map (\<lambda>i. (l ! i, sender_text (num + int i))) [0..<m])"
  using assms
proof (induction l arbitrary: m num sent)
  case (Cons x l)
  show ?case
  proof (cases m)
    case (Suc k)
    have "0 < sendto (length sent) x (sender_text num)" using Cons.prems(1) [of 0] Suc by simp
    then have first: "send_all at sendto (x # l) (num, sent) = send_all at sendto l (num + 1, sent @ [(x, sender_text num)])" by (simp add: Let_def)
    have "0 < sendto (length (sent @ [(x, sender_text num)]) + i) (l ! i) (sender_text (num + 1 + int i))" if "i < k" for i
      using Cons.prems(1) [of "Suc i"] Suc that by (simp add: add.assoc)
    from Cons.IH [OF this, of k] Cons.prems(2) Suc have
      rest: "send_all at sendto l (num + 1, sent @ [(x, sender_text num)]) = send_all at sendto (drop k l) (num + 1 + int k,
        (sent @ [(x, sender_text num)]) @ map (\<lambda>i. (l ! i, sender_text (num + 1 + int i))) [0..<k])" by simp
    have "[0..<Suc k] = 0 # map Suc [0..<k]" by (simp add: upt_conv_Cons map_Suc_upt del: upt_Suc)
    then have "map (\<lambda>i. ((x # l) ! i, sender_text (num + int i))) [0..<m] =
        (x, sender_text num) # map (\<lambda>i. (l ! i, sender_text (num + 1 + int i))) [0..<k]"
      by (simp add: Suc comp_def add.assoc del: upt_Suc)
    then show ?thesis unfolding first rest by (simp add: Suc add.assoc)
  qed simp
qed simp

lemma sender_round_prefix:
  assumes "co_pull (co k) = None" "m \<le> length l"
    and "\<And>i. k * length l \<le> i \<Longrightarrow> i < k * length l + m \<Longrightarrow> 0 < sendto i (fst (sender_message l i)) (snd (sender_message l i))"
  shows "sender_round at co sendto l k (int (k * length l) + 1, map (sender_message l) [0..<k * length l]) =
    send_all at sendto (drop m l) (int (k * length l + m) + 1, map (sender_message l) [0..<k * length l + m])"
proof -
  let ?b = "k * length l"
  have msg: "sender_message l (?b + i) = (l ! i, sender_text (int ?b + 1 + int i))" if "i < length l" for i
    using that by (simp add: sender_message_def algebra_simps)
  have ok: "0 < sendto (length (map (sender_message l) [0..<?b]) + i) (l ! i) (sender_text (int ?b + 1 + int i))" if "i < m" for i
    using assms(3) [of "?b + i"] that assms(2) by (simp add: msg)
  have "map (\<lambda>i. (l ! i, sender_text (int ?b + 1 + int i))) [0..<m] = map (\<lambda>i. sender_message l (?b + i)) [0..<m]"
    using assms(2) by (simp add: msg)
  also have "\<dots> = map (sender_message l) (map (\<lambda>i. i + ?b) [0..<m])" by (simp add: comp_def add.commute del: map_add_upt)
  also have "\<dots> = map (sender_message l) [?b..<?b + m]" unfolding map_add_upt by (simp add: add.commute)
  finally have "map (sender_message l) [0..<?b] @ map (\<lambda>i. (l ! i, sender_text (int ?b + 1 + int i))) [0..<m] = map (sender_message l) [0..<?b + m]"
    using upt_add_eq_append [of 0 ?b m] by simp
  then show ?thesis using send_all_prefix [where sendto = sendto and l = l and m = m and num = "int ?b + 1" and sent = "map (sender_message l) [0..<?b]" and at = at, OF ok assms(2)] assms(1) by (simp add: sender_round_def algebra_simps)
qed

lemma sender_round_failed:
  assumes "co_pull (co k) = None" "m < length l" "j = k * length l + m"
    and "\<And>i. i < j \<Longrightarrow> 0 < sendto i (fst (sender_message l i)) (snd (sender_message l i))"
    and "sendto j (fst (sender_message l j)) (snd (sender_message l j)) \<le> 0"
  shows "sender_round at co sendto l k (int (k * length l) + 1, map (sender_message l) [0..<k * length l]) =
    Inl (srs_error_new at ERROR_SOCKET_READ (''udp wirte, nwirte='' @ int_str (sendto j (fst (sender_message l j)) (snd (sender_message l j)))),
      map (sender_message l) [0..<j])"
proof -
  have drop: "drop m l = l ! m # drop (Suc m) l" using assms(2) by (simp add: Cons_nth_drop_Suc)
  have "sender_round at co sendto l k (int (k * length l) + 1, map (sender_message l) [0..<k * length l]) =
      send_all at sendto (drop m l) (int (k * length l + m) + 1, map (sender_message l) [0..<k * length l + m])"
    by (rule sender_round_prefix) (use assms in auto)
  also have "\<dots> = send_all at sendto (l ! m # drop (Suc m) l) (int j + 1, map (sender_message l) [0..<j])" unfolding drop assms(3) ..
  finally have round: "sender_round at co sendto l k (int (k * length l) + 1, map (sender_message l) [0..<k * length l]) =
      send_all at sendto (l ! m # drop (Suc m) l) (int j + 1, map (sender_message l) [0..<j])" .
  have "sender_message l j = (l ! m, sender_text (int j + 1))" using assms(2,3) by (simp add: sender_message_def)
  then show ?thesis using assms(5) unfolding round by (simp add: Let_def)
qed

text \<open>
  C38: The sender of the sample sends its messages to all servers in turn, numbered from 1 without a gap, one for each server in every
  round, until its coroutine is interrupted; if a message cannot be sent, it returns an error at once, having sent exactly those before.
\<close>

theorem sender_sends_in_turn:
  assumes "\<And>i. i < j \<Longrightarrow> 0 < sendto i (fst (sender_message l i)) (snd (sender_message l i))"
  shows "(j = n * length l \<and> (\<forall>k < n. co_pull (co k) = None) \<and> co_pull (co n) \<noteq> None \<longrightarrow>
      sender_cycle at co sendto l = Some (srs_error_wrap at (co_pull (co n)) ''udp worker'', map (sender_message l) [0..<j])) \<and>
    (j < n * length l \<and> (\<forall>k < n. co_pull (co k) = None) \<and> sendto j (fst (sender_message l j)) (snd (sender_message l j)) \<le> 0 \<longrightarrow>
      (\<exists>err. sender_cycle at co sendto l = Some (err, map (sender_message l) [0..<j]) \<and> srs_error_code err = ERROR_SOCKET_READ))"
proof (intro conjI impI)
  let ?s = "\<lambda>k. (int (k * length l) + 1, map (sender_message l) [0..<k * length l])"
  have cyc: "sender_cycle at co sendto l = serve (sender_round at co sendto l) 0 (?s 0)" by (simp add: sender_cycle_def)
  have step: "sender_round at co sendto l k (?s k) = Inr (?s (Suc k))" if "co_pull (co k) = None" "Suc k * length l \<le> j" for k
  proof -
    have "sender_round at co sendto l k (?s k) = send_all at sendto (drop (length l) l) (int (k * length l + length l) + 1,
        map (sender_message l) [0..<k * length l + length l])"
      by (rule sender_round_prefix [where m = "length l" and k = k and co = co and l = l and sendto = sendto]) (use that assms(1) in simp_all)
    then show ?thesis by (simp add: add.commute)
  qed
  {
    assume h: "j = n * length l \<and> (\<forall>k < n. co_pull (co k) = None) \<and> co_pull (co n) \<noteq> None"
    have "sender_round at co sendto l k (?s k) = Inr (?s (Suc k))" if "k < n" for k
    proof (rule step)
      have "Suc k * length l \<le> n * length l" using that by (intro mult_le_mono1) simp
      then show "Suc k * length l \<le> j" using h by simp
    qed (use h that in blast)
    moreover have "sender_round at co sendto l n (?s n) = Inl (srs_error_wrap at (co_pull (co n)) ''udp worker'', map (sender_message l) [0..<j])"
      using h by (simp add: sender_round_def del: co_pull_failed)
    ultimately show "sender_cycle at co sendto l = Some (srs_error_wrap at (co_pull (co n)) ''udp worker'', map (sender_message l) [0..<j])"
      unfolding cyc by (rule serve_until)
  next
    assume h: "j < n * length l \<and> (\<forall>k < n. co_pull (co k) = None) \<and> sendto j (fst (sender_message l j)) (snd (sender_message l j)) \<le> 0"
    define k m where "k = j div length l" and "m = j mod length l"
    have len: "0 < length l" using h by (cases l) auto
    have j: "j = k * length l + m" "m < length l" "k < n"
      using h len by (simp_all add: k_def m_def less_mult_imp_div_less)
    have pre: "sender_round at co sendto l i (?s i) = Inr (?s (Suc i))" if "i < k" for i
    proof (rule step)
      have "Suc i * length l \<le> k * length l" using that by (intro mult_le_mono1) simp
      then show "Suc i * length l \<le> j" using j(1) by simp
    qed (use h that j(3) in auto)
    have "co_pull (co k) = None" and "sendto j (fst (sender_message l j)) (snd (sender_message l j)) \<le> 0" using h j(3) by blast+
    note last = sender_round_failed [where co = co and k = k and at = at and l = l and sendto = sendto, OF this(1) j(2,1) assms this(2)]
    from serve_until [where step = "sender_round at co sendto l" and s = ?s and n = k, OF pre last]
    show "\<exists>err. sender_cycle at co sendto l = Some (err, map (sender_message l) [0..<j]) \<and> srs_error_code err = ERROR_SOCKET_READ"
      unfolding cyc by (intro exI conjI) (assumption, simp)
  }
qed

lemma sender_sends_in_turn_witness:
  "\<exists>err. sender_cycle main_at (\<lambda>_. running_co) (\<lambda>i _ _. if i < 3 then 1 else - 1) [(''a'', 1), (''b'', 2)] =
    Some (err, [((''a'', 1), sender_text 1), ((''b'', 2), sender_text 2), ((''a'', 1), sender_text 3)]) \<and> srs_error_code err = ERROR_SOCKET_READ"
proof -
  let ?l = "[(''a'', 1), (''b'', 2)] :: server list"
  have m: "map (sender_message ?l) [0..<3] = [((''a'', 1), sender_text 1), ((''b'', 2), sender_text 2), ((''a'', 1), sender_text 3)]"
    by (simp add: sender_message_def upt_rec)
  show ?thesis
    using sender_sends_in_turn [where j = 3 and n = 2 and l = ?l and co = "\<lambda>_. running_co" and sendto = "\<lambda>i _ _. if i < 3 then 1 else - 1" and at = main_at]
    unfolding m by (simp add: running_co_def)
qed

text \<open>The condition object of the notifier after \<open>k\<close> rounds.\<close>

fun notified :: "(nat \<Rightarrow> int cond_state \<Rightarrow> int cond_state) \<Rightarrow> int cond_state \<Rightarrow> nat \<Rightarrow> int cond_state" where
  "notified asleep s 0 = s"
| "notified asleep s (Suc k) = (let s = asleep k (notified asleep s k)
     in s\<lparr>notify_ringbuf := snd (ring_put (notify_ringbuf s) 0)\<rparr>)"

lemma notified_ok:
  assumes "cond_ok s" "\<And>k c. cond_ok c \<Longrightarrow> cond_ok (asleep k c)"
  shows "cond_ok (notified asleep s k)"
  using assms by (induction k) (simp_all add: Let_def ring.put_inv)

lemma notifier_cycle_result:
  assumes "cond_ok s" "\<And>k c. cond_ok c \<Longrightarrow> cond_ok (asleep k c)"
    and "\<And>k. k < n \<Longrightarrow> co_pull (co k) = None" "co_pull (co n) \<noteq> None"
  shows "notifier_cycle at co asleep s =
    Some (Inr (srs_error_wrap at (co_pull (co n)) ''udp worker'', notified asleep s n, map int [1..<Suc n]))"
proof -
  let ?st = "\<lambda>k. (notified asleep s k, int k + 1, map int [1..<Suc k])"
  have "notifier_round at co asleep k (?st k) = Inr (?st (Suc k))" if "k < n" for k
  proof -
    have "cond_ok (asleep k (notified asleep s k))" using assms(1,2) notified_ok by blast
    then show ?thesis using assms(3) [OF that] by (simp add: notifier_round_def cond_notify_eq Let_def)
  qed
  moreover have "notifier_round at co asleep n (?st n) =
      Inl (Inr (srs_error_wrap at (co_pull (co n)) ''udp worker'', notified asleep s n, map int [1..<Suc n]))"
    using assms(4) by (simp add: notifier_round_def del: upt_Suc co_pull_failed)
  ultimately have "serve (notifier_round at co asleep) 0 (?st 0) =
      Some (Inr (srs_error_wrap at (co_pull (co n)) ''udp worker'', notified asleep s n, map int [1..<Suc n]))"
    by (rule serve_until)
  then show ?thesis by (simp add: notifier_cycle_def del: upt_Suc)
qed

text \<open>
  C39: The cycles of the programs that look at their coroutine end: when a coroutine is interrupted at a round \<open>m\<close>, and all that happens to
  it are steps of coroutines, its cycle returns an error, whatever is sent and whatever others do while it sleeps.  The notifier, while
  others keep the ring of the condition object in order, notifies without a fault and writes its numbered lines up to the first round in which
  \<open>pull\<close> fails, and returns that error.
\<close>

theorem worker_cycles_stop:
  assumes "co_reachable (co 0)" "\<And>k. co_steps (co k) (co (Suc k))"
    and "trd (co m) = Some Running" "co (Suc m) = co_interrupt at (co m)"
    and "cond_ok s" "\<And>k c. cond_ok c \<Longrightarrow> cond_ok (asleep k c)"
  shows "(\<exists>err sent. sender_cycle at' co sendto l = Some (err, sent) \<and> err \<noteq> None) \<and>
    (\<exists>err lines. test_work_cycle at' co = Some (err, lines) \<and> err \<noteq> None) \<and>
    (\<exists>n err s'. n \<le> Suc m \<and> co_pull (co n) \<noteq> None \<and> (\<forall>k < n. co_pull (co k) = None) \<and>
      err = srs_error_wrap at' (co_pull (co n)) ''udp worker'' \<and> err \<noteq> None \<and> cond_ok s' \<and>
      notifier_cycle at' co asleep s = Some (Inr (err, s', map int [1..<Suc n])))"
proof -
  have rounds: "srs_coroutine.rounds co_inv co_steps co"
    using assms(1,2) co_reachable_inv by (simp add: fast.rounds_def)
  have ends: "co_pull (co (Suc m)) \<noteq> None"
    by (rule fast.interrupt_ends_rounds [OF rounds _ assms(4)]) (simp_all add: assms(3))
  have all: "send_all at' sendto l st = Inl r \<Longrightarrow> fst r \<noteq> None" for st r
    by (induction at' sendto l st rule: send_all.induct) (auto simp: Let_def split: if_splits)
  have "\<exists>r. sender_round at' co sendto l (Suc m) st = Inl r" for st using ends by (simp add: sender_round_def del: co_pull_failed)
  from serve_stops [where step = "sender_round at' co sendto l", OF this, of 0 "(1, [])"]
  obtain j st r where send: "sender_round at' co sendto l j st = Inl r" "serve (sender_round at' co sendto l) 0 (1, []) = Some r" by blast
  have "fst r \<noteq> None" using send(1) all by (auto simp: sender_round_def simp del: co_pull_failed not_None_eq split: if_splits)
  then have sender: "\<exists>err sent. sender_cycle at' co sendto l = Some (err, sent) \<and> err \<noteq> None"
    using send(2) by (cases r) (simp add: sender_cycle_def)
  have "\<exists>r. test_work_round at' co (Suc m) st = Inl r" for st using ends by (cases st) (simp add: test_work_round_def del: co_pull_failed)
  from serve_stops [where step = "test_work_round at' co", OF this, of 0 "(1, 0)"]
  obtain j' st' r' where work: "test_work_round at' co j' st' = Inl r'" "serve (test_work_round at' co) 0 (1, 0) = Some r'" by blast
  have "fst r' \<noteq> None" using work(1) by (auto simp: test_work_round_def simp del: co_pull_failed not_None_eq split: if_splits prod.splits)
  then have test: "\<exists>err lines. test_work_cycle at' co = Some (err, lines) \<and> err \<noteq> None"
    using work(2) by (cases r') (simp add: test_work_cycle_def)
  obtain n where n: "n \<le> Suc m" "co_pull (co n) \<noteq> None" "\<forall>k < n. co_pull (co k) = None"
    using exists_least_iff [of "\<lambda>k. co_pull (co k) \<noteq> None"] ends by (metis not_le)
  have "notifier_cycle at' co asleep s =
      Some (Inr (srs_error_wrap at' (co_pull (co n)) ''udp worker'', notified asleep s n, map int [1..<Suc n]))"
    by (rule notifier_cycle_result [OF assms(5,6)]) (use n in auto)
  moreover have "srs_error_wrap at' (co_pull (co n)) ''udp worker'' \<noteq> None"
    using n(2) by (cases "co_pull (co n)") (auto simp: srs_error_wrap_def)
  ultimately show ?thesis using sender test n notified_ok [of s asleep n] assms(5,6) by blast
qed

lemma worker_cycles_stop_witness:
  "(\<exists>err sent. sender_cycle main_at stopped_in_round_2 (\<lambda>_ _ _. 5) [(''a'', 1)] = Some (err, sent) \<and> err \<noteq> None) \<and>
    (\<exists>err lines. test_work_cycle main_at stopped_in_round_2 = Some (err, lines) \<and> err \<noteq> None) \<and>
    (\<exists>n err s'. n \<le> Suc 2 \<and> co_pull (stopped_in_round_2 n) \<noteq> None \<and> (\<forall>k < n. co_pull (stopped_in_round_2 k) = None) \<and>
      err = srs_error_wrap main_at (co_pull (stopped_in_round_2 n)) ''udp worker'' \<and> err \<noteq> None \<and> cond_ok s' \<and>
      notifier_cycle main_at stopped_in_round_2 (\<lambda>_ s. s) (StCondition 8 clock_init None) = Some (Inr (err, s', map int [1..<Suc n])))"
proof (rule worker_cycles_stop)
  show "co_reachable (stopped_in_round_2 0)" "trd (stopped_in_round_2 2) = Some Running"
      "stopped_in_round_2 (Suc 2) = co_interrupt main_at (stopped_in_round_2 2)"
    using running_co_reachable by (simp_all add: stopped_in_round_2_def running_co_def)
  show "cond_ok (StCondition 8 clock_init None)" by (simp add: StCondition_def ring_inv_init)
qed (simp_all add: stopped_in_round_2_def co_steps_refl co_steps_interrupt)

subsection \<open>Where the sample answers to\<close>

text \<open>
  The answer reaches the sender only when its address has a first byte \<open>b\<close> below 128 and zeros after it, or a first byte from 128 on and
  255 after it; a packet from 127.0.0.1 is answered to 127.0.0.0.
\<close>

lemma reply_reaches_sender: "reply_addr (Sockaddr_in port addr) = Some (Sockaddr_in port addr) \<longleftrightarrow> - 128 \<le> sint addr \<and> sint addr < 128"
proof -
  have b: "sint (scast (ucast addr :: 8 word) :: 32 word) = sint (ucast addr :: 8 word)" by (simp add: sint_up_scast is_up)
  have r: "- 128 \<le> sint (ucast addr :: 8 word)" "sint (ucast addr :: 8 word) < 128"
    using sint_range_size [of "ucast addr :: 8 word"] by (simp_all add: word_size)
  have t: "sint (ucast addr :: 8 word) = signed_take_bit 7 (sint addr)" by (simp add: sint_uint signed_take_bit_take_bit unsigned_ucast_eq)
  have "scast (ucast addr :: 8 word) = addr \<longleftrightarrow> - 128 \<le> sint addr \<and> sint addr < 128"
  proof
    assume "scast (ucast addr :: 8 word) = addr"
    then show "- 128 \<le> sint addr \<and> sint addr < 128" using b r by simp
  next
    assume "- 128 \<le> sint addr \<and> sint addr < 128"
    then have "signed_take_bit 7 (sint addr) = sint addr" by (simp add: signed_take_bit_int_eq_self)
    then show "scast (ucast addr :: 8 word) = addr" using b t by (intro signed_word_eqI) simp
  qed
  then show ?thesis by (simp add: reply_addr_def)
qed

lemma loopback_not_answered: "reply_addr (Sockaddr_in port 0x0100007f) = Some (Sockaddr_in port 0x0000007f)"
  by (simp add: reply_addr_def)

end
