(* ===== verification/Spec2Isabelle.thy ===== *)
theory Spec2Isabelle
  imports
    Srs_Prelude Srs_Text Srs_Fifo
    Srs_App_Ringbuf Srs_App_Spsc Srs_App_Condition
    Srs_Core_Time Srs_Kernel_Buffer Srs_Kernel_Hex Srs_Kernel_String Srs_Kernel_Path
    Srs_Error_Codes Srs_Kernel_Error Srs_Context
    Srs_App_Coroutine Srs_App_Hourglass
    Srs_Service_Net Srs_Service_Socket Srs_App_Listener Srs_App_Mux Srs_Log
    St_Heap St_Sched St_Invariant St_Steps St_Mutex St_Event St_Select St_Epoll St_Kqueue St_Io St_Stack
    Srs_Socket_Stream Srs_Main
begin

section \<open>A verification library for st\_coroutine\<close>

text \<open>
  \<^bold>\<open>The program.\<close>  st\_coroutine is a C++ coroutine server kit: the coroutine, timer, error,
  buffer, string, log and socket layers of SRS on top of the C library state-threads, with a
  lock-free ring by which a \<open>std::thread\<close> hands packets to a coroutine.  \<open>main.cc\<close> starts
  coroutines, timers and listeners; everything below it is under \<open>core/\<close>.

  \<^bold>\<open>How the parts interact.\<close>  A coroutine (\<open>SrsFastCoroutine\<close>, srs\_app\_st.cpp) runs the
  \<open>cycle\<close> of its handler on a thread of state-threads and is asked to end through \<open>pull\<close>, which
  answers an error (srs\_kernel\_error.cpp) once \<open>interrupt\<close> or \<open>stop\<close> was called.  Each coroutine has
  a context id (srs\_core.cpp) kept in thread-specific data (key.c of state-threads) by the thread
  context (srs\_service\_log.cpp); errors carry it.  Timers (srs\_app\_hourglass.cpp) are coroutines
  that poll \<open>pull\<close>, call their subscribers and sleep.  \<open>StCondition\<close> (srs\_app\_stcondition.hpp)
  carries objects from a thread to a coroutine over the ring (srs\_app\_ringbuf.hpp) and measures its
  timeouts with the cached clock (srs\_kernel\_utility.cpp).  The utilities (srs\_kernel\_buffer.cpp,
  srs\_kernel\_utility.cpp) are pure functions on bytes and strings.

  \<^bold>\<open>The theories.\<close>
  \<^item> Srs\_Prelude: faults (\<open>fault\<close>), results (\<open>outcome\<close>, \<open>rbind\<close>, \<open>srs_assert\<close>), C integers.
    Srs\_Text: C strings, \<open>snprintf\<close> truncation, decimal output, \<open>strtol\<close> and the 32-bit \<open>atoi\<close>,
    comparison.
  \<^item> Srs\_Fifo: the contract \<open>bounded_fifo\<close> of a bounded queue and what any run of
    operations does under it.
  \<^item> Srs\_App\_Ringbuf: the record \<open>ringbuf\<close> (\<open>T_PacketRing_Buffer\<close>) and its operations;
    invariant, refinement of a bounded queue, the interpretation of \<open>bounded_fifo\<close>.
    Srs\_App\_Spsc: the write and the read cut at their shared accesses, a step relation over
    all interleavings of one writer and one reader, FIFO order by rule induction.
  \<^item> Srs\_App\_Condition: \<open>notify\<close> and the two \<open>wait\<close>s over the ring; the environment of a wait
    is the list of what happens during its sleeps.
  \<^item> Srs\_Core\_Time: units, \<open>srs_duration\<close>, the cached clock and its jump correction.
  \<^item> Srs\_Kernel\_Buffer: \<open>SrsBuffer\<close> (a cursor into a byte heap) and \<open>SrsBitBuffer\<close>; byte order,
    round trips of all formats, bounds, bit order.
  \<^item> Srs\_Kernel\_Hex, Srs\_Kernel\_String, Srs\_Kernel\_Path: the functions of
    srs\_kernel\_utility.cpp with the reference definitions they agree with.
  \<^item> Srs\_Error\_Codes: the table of srs\_kernel\_error.hpp.  Srs\_Kernel\_Error: error chains, their
    cached texts, wrapping, copying, classes.
  \<^item> Srs\_Context: ids with their order, keys of state-threads, \<open>SrsThreadContext\<close>; a
    refinement of a map from coroutines to ids.
  \<^item> Srs\_App\_Coroutine: \<open>SrsFastCoroutine\<close> as a state machine with the thread behind it
    (\<open>co_step\<close>, reachable states, invariant), the contract \<open>srs_coroutine\<close> of its clients,
    interpreted on \<open>SrsFastCoroutine\<close> and \<open>SrsDummyCoroutine\<close>.
  \<^item> Srs\_App\_Hourglass: \<open>SrsHourGlass\<close>, \<open>SrsDynamicTimer\<close>, \<open>SrsFastTimer\<close> with handlers that may
    change the timer during their call; schedules, termination, exactly-once delivery.
  \<^item> Srs\_Service\_Net: descriptors and their options, connect, bind and listen of srs\_service\_st.cpp over a
    table of open descriptors; what every failing step leaves behind.  Srs\_Service\_Socket: \<open>SrsStSocket\<close>
    and \<open>SrsTcpClient\<close>; what \<open>st_read\<close> and \<open>st_write\<close> answer is an argument.  Srs\_Socket\_Stream: the reads of
    \<open>SrsStSocket\<close> on top of the loops of St\_Io, over a kernel that delivers a stream in pieces, refuses, and lets waits
    fail or time out; which turns of the kernel each call uses, what it takes, and how it fails.
  \<^item> Srs\_App\_Listener: \<open>SrsUdpListener\<close> and \<open>SrsTcpListener\<close> with their cycles.  Srs\_App\_Mux:
    \<open>SrsUdpMuxSocket\<close> with its cache of peer addresses.
  \<^item> Srs\_Log: the line buffer of \<open>SrsConsoleLog\<close> and \<open>SrsFileLog\<close>.
  \<^item> St\_Heap: the timeout heap of sched.c (\<open>heap_insert\<close>, \<open>heap_delete\<close>) and the contract \<open>timeout_queue\<close>
    it is an interpretation of.  St\_Sched: the virtual processor \<open>vp\<close> and the functions of sched.c and sync.c;
    a function that blocks is cut where it switches, \<open>resume_at\<close> is where a thread goes on.  St\_Invariant:
    what holds between the queues, the states and the flags, kept by every call.  St\_Steps: the remaining
    calls, the step relation \<open>vp_step\<close>, no failed assertion, the clock.  St\_Mutex: mutual exclusion.
  \<^item> St\_Event: the interface of event.c (\<open>eventsys\<close>) and its contract, the locale \<open>event_system\<close>: what adding,
    deleting, dispatching, opening and closing keep between the descriptors that threads ask for and the data of the
    event system, and that this holds in every state that the scheduler reaches with it.  St\_Select, St\_Epoll and
    St\_Kqueue model the three event systems and interpret the contract; what the kernel answers is an argument with
    its documented behaviour as a hypothesis.  What a dispatch does is stated from the report of the kernel alone
    (\<open>epoll_fires\<close>, \<open>kq_fires\<close>), and \<open>kq_lost\<close> tells whether kqueue lost a registration for want of memory.  A dispatch that retries (select after a bad descriptor, kqueue after a
    fork) is a recursion that ends.
  \<^item> St\_Io: descriptor objects with their free list, and the loops of io.c over what the system calls and \<open>st_poll\<close>
    answer, one element of a list per turn; \<open>None\<close> means that the list ended before the loop.
    St\_Stack: the stacks of stk.c with their red zones and free list over integer addresses.
  \<^item> Srs\_Main: the coroutines and handlers of main.cc and sample/udp/main\_udp.cc on top of the components: the waiter
    on the condition, the workers on the contract of coroutines, the servers on the listeners, the timer object.

  \<^bold>\<open>Conventions.\<close>  Definitions keep the names of the source where HOL allows it.  A
  failed \<open>srs_assert\<close>, a thrown standard exception, an access outside the memory of an
  object and a division by zero are values of \<open>fault\<close>.  \<open>srs_error_t\<close> is an ordinary value, \<open>None\<close>
  for success; where identity matters (the coroutine compares error pointers) it carries an
  address.  What the operating system and other libraries answer (\<open>gettimeofday\<close>, \<open>stat\<close>, \<open>mkdir\<close>,
  \<open>random\<close>, \<open>st_thread_create\<close>, \<open>usleep\<close>) is an argument.  A loop whose end depends on its
  arguments or on a handler is a \<open>partial_function (option)\<close>: \<open>None\<close> means the call does not
  return, and there are theorems that say when it does; no loop is cut off by fuel.

  \<^bold>\<open>Not modelled.\<close>  Reordering of memory accesses between threads; signed overflow (undefined in C++);
  \<open>srs_float2str\<close> and \<open>srs_is_little_endian\<close>; the abstract interface classes, which have no code; the destroy
  functions of event.c, which have no body yet; counters of statistics, thread iteration and valgrind hooks of
  state-threads; its machine-dependent parts (a switch of threads is a step of the model); \<open>main\<close>, \<open>run\<close> and
  \<open>do_main\<close> of the programs, which construct the objects above and sleep; the unit tests of state-threads with the vendored
  googletest and googlemock.
\<close>

end
